(* ===== verification/Prelude.thy ===== *)
theory Prelude
  imports Main "HOL-Library.Word" "HOL-Library.Monad_Syntax"
begin

text \<open>
  Shared vocabulary of the development: the C integer types as words, the fact
  collections that the component theories fill, little-endian byte strings of a given
  length with their round trip, and folding over a list with an early exit, which is what
  a C loop with \<open>break\<close> computes.
\<close>

type_synonym byte = "8 word"
type_synonym u16 = "16 word"
type_synonym u32 = "32 word"
type_synonym u64 = "64 word"
type_synonym i32 = "32 word"

named_theorems link_simps "pointer updates seen through the next and prev maps"
named_theorems wire_simps "sizes and round trips of the message layouts"
named_theorems handler_defs "definitions of the message handlers"

subsection \<open>Little-endian byte strings\<close>

text \<open>The low \<open>k\<close> bytes of \<open>v\<close>, least significant first, and the value they spell.\<close>

fun le_bytes :: "nat \<Rightarrow> nat \<Rightarrow> byte list" where
  "le_bytes 0 v = []"
| "le_bytes (Suc k) v = of_nat (v mod 256) # le_bytes k (v div 256)"

fun le_val :: "byte list \<Rightarrow> nat" where
  "le_val [] = 0"
| "le_val (b # bs) = unat b + 256 * le_val bs"

lemma length_le_bytes [simp]: "length (le_bytes k v) = k"
  by (induction k arbitrary: v) auto

lemma le_val_le_bytes: "le_val (le_bytes k v) = v mod 256 ^ k"
proof (induction k arbitrary: v)
  case 0
  then show ?case by simp
next
  case (Suc k)
  have "v mod 256 ^ Suc k = v mod 256 + 256 * (v div 256 mod 256 ^ k)"
    by (simp add: mod_mult2_eq)
  with Suc show ?case
    by (simp add: unat_of_nat)
qed

lemma le_val_replicate_0 [simp]: "le_val (replicate n 0) = 0"
  by (induction n) auto

lemma le_roundtrip_word:
  fixes w :: "'a::len word"
  assumes "LENGTH('a) = 8 * k"
  shows "(of_nat (le_val (le_bytes k (unat w))) :: 'a word) = w"
proof -
  have "unat w < 256 ^ k"
    using unsigned_less [of w] assms by (simp add: power_mult)
  then show ?thesis
    by (simp add: le_val_le_bytes)
qed

lemma le_roundtrip_64 [simp, wire_simps]: "(of_nat (le_val (le_bytes 8 (unat w))) :: u64) = w"
  by (rule le_roundtrip_word) simp

lemma le_roundtrip_32 [simp, wire_simps]: "(of_nat (le_val (le_bytes 4 (unat w))) :: u32) = w"
  by (rule le_roundtrip_word) simp

lemma le_roundtrip_16 [simp, wire_simps]: "(of_nat (le_val (le_bytes 2 (unat w))) :: u16) = w"
  by (rule le_roundtrip_word) simp

lemma in_set_tl: "x \<in> set (tl xs) \<Longrightarrow> x \<in> set xs"
  by (cases xs) auto

text \<open>\<open>htons\<close> on a little-endian machine exchanges the two bytes.\<close>

definition htons :: "u16 \<Rightarrow> u16" where
  "htons x = of_nat (256 * (unat x mod 256) + unat x div 256)"

lemma unat_less_power: "LENGTH('a::len) = n \<Longrightarrow> unat (w :: 'a word) < 2 ^ n"
  using unsigned_less [of w] by simp

lemma htons_htons [simp]: "htons (htons x) = x"
proof -
  define a b where ab: "a = unat x mod 256" "b = unat x div 256"
  have bounds: "a < 256" "b < 256"
    using unat_less_power [OF refl, of x] by (simp_all add: ab less_mult_imp_div_less)
  have "unat (htons x) = (256 * a + b) mod 2 ^ 16"
    by (simp only: htons_def ab unat_of_nat len_num1 len_num0 len_bit0) simp
  also have "\<dots> = 256 * a + b" using bounds by simp
  finally have "htons (htons x) = of_nat (256 * b + a)"
    using bounds by (simp add: htons_def [of "htons x"])
  also have "256 * b + a = unat x" by (simp add: ab)
  finally show ?thesis by simp
qed

subsection \<open>Loops with an early exit\<close>

text \<open>
  \<open>fold_brk body xs s\<close> runs \<open>body\<close> over \<open>xs\<close>; the body returns the new state and
  whether the loop is left with \<open>break\<close>.
\<close>

fun fold_brk :: "('a \<Rightarrow> 's \<Rightarrow> bool \<times> 's) \<Rightarrow> 'a list \<Rightarrow> 's \<Rightarrow> 's" where
  "fold_brk body [] s = s"
| "fold_brk body (x # xs) s =
     (let (brk, s') = body x s in if brk then s' else fold_brk body xs s')"

lemma fold_brk_invariant:
  assumes "I s" and "\<And>x s. x \<in> set xs \<Longrightarrow> I s \<Longrightarrow> I (snd (body x s))"
  shows "I (fold_brk body xs s)"
  using assms
proof (induction xs arbitrary: s)
  case Nil
  then show ?case by simp
next
  case (Cons x xs)
  have "I (snd (body x s))" using Cons.prems by auto
  moreover have "I (fold_brk body xs (snd (body x s)))"
    using Cons.prems by (intro Cons.IH) auto
  ultimately show ?case by (auto simp: split_def Let_def)
qed

lemma fold_brk_map: "fold_brk body (map f xs) s = fold_brk (\<lambda>x. body (f x)) xs s"
  by (induction xs arbitrary: s) (auto simp: Let_def split_def)

subsection \<open>Decimal text\<close>

text \<open>What \<open>%u\<close> and \<open>%d\<close> print.\<close>

definition digit_char :: "nat \<Rightarrow> char" where
  "digit_char n = char_of (48 + n)"

fun dec_of_nat :: "nat \<Rightarrow> string" where
  "dec_of_nat n = (if n < 10 then [digit_char n] else dec_of_nat (n div 10) @ [digit_char (n mod 10)])"

declare dec_of_nat.simps [simp del]

definition dec_of_int :: "int \<Rightarrow> string" where
  "dec_of_int i = (if i < 0 then CHR ''-'' # dec_of_nat (nat (- i)) else dec_of_nat (nat i))"

text \<open>The value a digit string spells, read from the left on top of \<open>acc\<close>.\<close>

definition digit_val :: "char \<Rightarrow> nat" where
  "digit_val c = of_char c - 48"

definition is_digit :: "char \<Rightarrow> bool" where
  "is_digit c \<longleftrightarrow> 48 \<le> (of_char c :: nat) \<and> (of_char c :: nat) \<le> 57"

definition dec_value :: "nat \<Rightarrow> string \<Rightarrow> nat" where
  "dec_value acc ds = foldl (\<lambda>a c. 10 * a + digit_val c) acc ds"

lemma digit_char_digit [simp]: "n < 10 \<Longrightarrow> is_digit (digit_char n) \<and> digit_val (digit_char n) = n"
  by (simp add: is_digit_def digit_val_def digit_char_def)

lemma dec_of_nat_digits: "\<forall>c \<in> set (dec_of_nat n). is_digit c"
proof (induction n rule: dec_of_nat.induct)
  case (1 n)
  show ?case
    using 1 by (subst dec_of_nat.simps) auto
qed

lemma dec_of_nat_nonempty [simp]: "dec_of_nat n \<noteq> []"
  by (subst dec_of_nat.simps) simp

lemma dec_value_dec_of_nat [simp]: "dec_value 0 (dec_of_nat n) = n"
proof (induction n rule: dec_of_nat.induct)
  case (1 n)
  show ?case
    using 1 by (subst dec_of_nat.simps) (simp add: dec_value_def)
qed

end
