(* ===== verification/Log.thy ===== *)
theory Log
  imports Prelude
begin

text \<open>
  The logger, \<open>NatProbe/log.c\<close> (the copies in the PunchHole directories differ in the level names,
  in padding to the left and in a flush after each line). Its static variables are a record. \<open>logging\<close> assembles a line in a 512-byte stack buffer with
  \<open>strftime\<close>, \<open>snprintf\<close> and \<open>vsnprintf\<close>; the model writes that buffer character by character
  and yields \<open>None\<close> for a write outside it. The formatted time and the formatted message
  (the result of expanding the caller's format) are arguments.
\<close>

definition EN_PRINT_DEBUG :: int where "EN_PRINT_DEBUG = 0"
definition EN_PRINT_INFO :: int where "EN_PRINT_INFO = 1"
definition EN_PRINT_NOTICE :: int where "EN_PRINT_NOTICE = 2"
definition EN_PRINT_WARN :: int where "EN_PRINT_WARN = 3"
definition EN_PRINT_ERROR :: int where "EN_PRINT_ERROR = 4"
definition EN_PRINT_FATAL :: int where "EN_PRINT_FATAL = 5"

lemmas level_defs = EN_PRINT_DEBUG_def EN_PRINT_INFO_def EN_PRINT_NOTICE_def EN_PRINT_WARN_def
  EN_PRINT_ERROR_def EN_PRINT_FATAL_def

definition LEVEL_NAMES :: "string list" where
  "LEVEL_NAMES = [''EN_PRINT_DEBUG'', ''EN_PRINT_INFO'', ''EN_PRINT_NOTICE'', ''EN_PRINT_WARN'',
     ''EN_PRINT_ERROR'', ''EN_PRINT_FATAL'']"

datatype target = ToStdout | ToStderr | ToStream nat

record log_state =
  enable_console :: bool
  log_stream :: "nat option"
  log_level :: int

definition log_state0 :: log_state where
  "log_state0 = \<lparr>enable_console = True, log_stream = None, log_level = EN_PRINT_INFO\<rparr>"

subsection \<open>Writing into the line buffer\<close>

definition put_char :: "nat \<Rightarrow> char \<Rightarrow> string \<Rightarrow> string option" where
  "put_char i c buf = (if i < length buf then Some (buf[i := c]) else None)"

fun put_string :: "nat \<Rightarrow> string \<Rightarrow> string \<Rightarrow> string option" where
  "put_string i [] buf = Some buf"
| "put_string i (c # cs) buf = Option.bind (put_char i c buf) (put_string (Suc i) cs)"

text \<open>
  \<open>snprintf(buffer + i, cap, ...)\<close> for an expansion \<open>txt\<close>: at most \<open>cap - 1\<close> characters and a
  terminator, nothing if \<open>cap\<close> is 0. The parameter is a \<open>size_t\<close>, so a negative \<open>cap\<close> is no
  limit at all. The value is always the length of the whole expansion.
\<close>

definition snprintf_at :: "nat \<Rightarrow> int \<Rightarrow> string \<Rightarrow> string \<Rightarrow> (int \<times> string) option" where
  "snprintf_at i cap txt buf =
     (if cap = 0 then Some (int (length txt), buf)
      else do {
        buf \<leftarrow> put_string i ((if cap < 0 then txt else take (nat (cap - 1)) txt) @ [CHR 0x00]) buf;
        Some (int (length txt), buf) })"

text \<open>\<open>strftime\<close> returns 0 when the text and its terminator do not fit.\<close>

definition strftime_at :: "nat \<Rightarrow> int \<Rightarrow> string \<Rightarrow> string \<Rightarrow> (int \<times> string) option" where
  "strftime_at i cap txt buf =
     (if int (length txt) < cap
      then do { buf \<leftarrow> put_string i (txt @ [CHR 0x00]) buf; Some (int (length txt), buf) }
      else Some (0, buf))"

definition pad_right :: "nat \<Rightarrow> string \<Rightarrow> string" where
  "pad_right w s = s @ replicate (w - length s) CHR '' ''"

text \<open>The expansion of \<open>"[%-5s][%s:%d][%s] "\<close>.\<close>

definition log_header :: "string \<Rightarrow> string \<Rightarrow> int \<Rightarrow> string \<Rightarrow> string" where
  "log_header name file line func =
     ''['' @ pad_right 5 name @ '']['' @ file @ '':'' @ dec_of_int line @
     '']['' @ func @ ''] ''"

text \<open>\<open>LEVEL_NAMES[lvl]\<close>, \<open>None\<close> outside the array.\<close>

definition level_name :: "int \<Rightarrow> string option" where
  "level_name lvl = (if 0 \<le> lvl \<and> lvl < int (length LEVEL_NAMES) then Some (LEVEL_NAMES ! nat lvl) else None)"

definition log_buffer_size :: nat where "log_buffer_size = 512"

subsection \<open>The operations\<close>

text \<open>
  \<open>stack\<close> is what the buffer holds on entry. The result lists what is written where; \<open>fputs\<close>
  stops at the first terminator.
\<close>

definition logging ::
  "log_state \<Rightarrow> string \<Rightarrow> string \<Rightarrow> int \<Rightarrow> string \<Rightarrow> string \<Rightarrow> int \<Rightarrow> string \<Rightarrow> (target \<times> string) list option" where
  "logging st stack ts lvl file func line msg =
     (if lvl < log_level st then Some []
      else do {
        let cap = int log_buffer_size;
        (sz1, buf) \<leftarrow> strftime_at 0 cap ts stack;
        let cap = cap - sz1;
        name \<leftarrow> level_name lvl;
        (sz2, buf) \<leftarrow> snprintf_at (nat sz1) cap (log_header name file line func) buf;
        let cap = cap - sz2;
        (sz3, buf) \<leftarrow> snprintf_at (nat (sz1 + sz2)) cap msg buf;
        buf \<leftarrow> put_char (nat (sz1 + sz2 + sz3)) CHR 0x0A buf;
        buf \<leftarrow> put_char (nat (sz1 + sz2 + sz3) + 1) CHR 0x00 buf;
        let text = takeWhile (\<lambda>c. c \<noteq> CHR 0x00) buf;
        Some ((if enable_console st
               then [(if lvl \<ge> EN_PRINT_WARN then ToStderr else ToStdout, text)] else []) @
              (case log_stream st of None \<Rightarrow> [] | Some f \<Rightarrow> [(ToStream f, text)])) })"

text \<open>
  \<open>configure_log\<close>: \<open>file\<close> is \<open>None\<close> for \<open>NULL\<close>, otherwise what \<open>fopen\<close> returned for it. (The
  message logged on failure is left out: it goes to the console only.)
\<close>

definition configure_log :: "int \<Rightarrow> nat option option \<Rightarrow> bool \<Rightarrow> log_state \<Rightarrow> int \<times> log_state" where
  "configure_log lvl file use_console st =
     (let lvl = (if lvl > EN_PRINT_ERROR then EN_PRINT_ERROR
                 else if lvl < EN_PRINT_DEBUG then EN_PRINT_DEBUG else lvl);
          st = st\<lparr>log_level := lvl, enable_console := use_console\<rparr>
      in case file of
           None \<Rightarrow> (0, st)
         | Some None \<Rightarrow> (1, st)
         | Some (Some f) \<Rightarrow> (0, st\<lparr>log_stream := Some f\<rparr>))"

text \<open>The stream handle to close, if there is one; \<open>log_stream\<close> keeps its value.\<close>

definition destroy_log :: "log_state \<Rightarrow> nat list" where
  "destroy_log st = (case log_stream st of None \<Rightarrow> [] | Some f \<Rightarrow> [f])"

lemma configure_log_not_minus_1 [simp]: "fst (configure_log lvl file console st) \<noteq> - 1"
  by (simp add: configure_log_def Let_def split: option.split)

subsection \<open>The buffer\<close>

lemma put_string_eq:
  "put_string i cs buf =
     (if cs = [] then Some buf
      else if i + length cs \<le> length buf then Some (take i buf @ cs @ drop (i + length cs) buf)
      else None)"
proof (induction cs arbitrary: i buf)
  case Nil
  then show ?case by simp
next
  case (Cons c cs)
  show ?case
  proof (cases "i < length buf")
    case True
    then have u: "take (Suc i) (buf[i := c]) = take i buf @ [c]"
      by (simp add: take_Suc_conv_app_nth)
    with True Cons.IH [of "Suc i" "buf[i := c]"] show ?thesis
      by (cases cs) (auto simp: put_char_def upd_conv_take_nth_drop add.commute)
  qed (simp add: put_char_def)
qed

lemma put_char_eq:
  "put_char i c buf = (if i < length buf then Some (take i buf @ c # drop (Suc i) buf) else None)"
  by (simp add: put_char_def upd_conv_take_nth_drop)

text \<open>The stack before a call: any contents of the right size.\<close>

abbreviation line_buffer :: "string \<Rightarrow> bool" where
  "line_buffer stack \<equiv> length stack = log_buffer_size"

subsection \<open>Properties\<close>

text \<open>A line whose time, header and message have at most 510 characters together is written
  whole, once to the console (standard error from the warning level on) when that is enabled, and
  once to the log file when one is open.\<close>

theorem logging_fits:
  assumes "line_buffer stack" "lvl \<ge> log_level st" "level_name lvl = Some name"
    and "length ts + length (log_header name file line func) + length msg + 2 \<le> log_buffer_size"
    and "CHR 0x00 \<notin> set (ts @ log_header name file line func @ msg)"
  shows "logging st stack ts lvl file func line msg =
    (let text = ts @ log_header name file line func @ msg @ [CHR 0x0A]
     in Some ((if enable_console st
               then [(if lvl \<ge> EN_PRINT_WARN then ToStderr else ToStdout, text)] else []) @
              (case log_stream st of None \<Rightarrow> [] | Some f \<Rightarrow> [(ToStream f, text)])))"
proof -
  define hdr where "hdr = log_header name file line func"
  note a = assms [folded hdr_def]
  have tw: "takeWhile (\<lambda>c. c \<noteq> CHR 0x00) (ts @ hdr @ msg @ CHR 0x0A # CHR 0x00 # r)
      = ts @ hdr @ msg @ [CHR 0x0A]" for r
    using a(5) by (simp add: takeWhile_append takeWhile_eq_all_conv [THEN iffD2])
  show ?thesis
    using a(1-4) tw
    by (simp add: logging_def hdr_def [symmetric] strftime_at_def snprintf_at_def put_string_eq
        put_char_eq log_buffer_size_def Let_def nat_add_distrib split: option.splits)
qed

text \<open>Any longer line makes the logger write outside its 512-byte buffer: the lengths
  \<open>snprintf\<close> returns are those of the whole text, not of what was stored.\<close>

theorem logging_overflows:
  assumes "line_buffer stack" "lvl \<ge> log_level st" "level_name lvl = Some name"
    and "length ts < log_buffer_size"
    and "length ts + length (log_header name file line func) + length msg + 2 > log_buffer_size"
  shows "logging st stack ts lvl file func line msg = None"
  using assms
  by (auto simp: logging_def strftime_at_def snprintf_at_def put_string_eq
      put_char_eq log_buffer_size_def Let_def nat_add_distrib split: bind_splits)

text \<open>After \<open>configure_log\<close> the level is between debug and error whatever was asked for, so the
  logger never looks a level's name up outside its table for a level up to fatal; failure is
  reported as 1, never as the -1 that the mains test for.\<close>

theorem configure_log_clamps:
  "EN_PRINT_DEBUG \<le> log_level (snd (configure_log lvl file console st)) \<and>
   log_level (snd (configure_log lvl file console st)) \<le> EN_PRINT_ERROR \<and>
   (EN_PRINT_DEBUG \<le> lvl \<longrightarrow> lvl \<le> EN_PRINT_ERROR \<longrightarrow>
      log_level (snd (configure_log lvl file console st)) = lvl) \<and>
   (fst (configure_log lvl file console st) = (if file = Some None then 1 else 0))"
  by (auto simp: configure_log_def Let_def level_defs split: option.splits)

theorem configure_log_clamps_witness:
  "log_level (snd (configure_log 3 None True log_state0)) = 3"
  using configure_log_clamps [of 3 None True log_state0] by (simp add: level_defs)

lemma sample_header:
  "log_header ''EN_PRINT_ERROR'' ''a.c'' 7 ''main'' = ''[EN_PRINT_ERROR][a.c:7][main] ''"
  by code_simp

theorem logging_fits_witness:
  "logging log_state0 (replicate 512 CHR ''?'') ''[2021-01-01 00:00:00]'' 4 ''a.c'' ''main'' 7 ''failed''
    = Some [(ToStderr, ''[2021-01-01 00:00:00][EN_PRINT_ERROR][a.c:7][main] failed'' @ [CHR 0x0A])]"
  using logging_fits [of "replicate 512 CHR ''?''" log_state0 4 "''EN_PRINT_ERROR''"
      "''[2021-01-01 00:00:00]''" "''a.c''" 7 "''main''" "''failed''"]
  by (simp add: log_buffer_size_def log_state0_def level_defs level_name_def LEVEL_NAMES_def sample_header)

theorem logging_overflows_witness:
  "logging log_state0 (replicate 512 CHR ''?'') ''[2021-01-01 00:00:00]'' 4 ''a.c'' ''main'' 7
     (replicate 490 CHR ''x'') = None"
  using logging_overflows [of "replicate 512 CHR ''?''" log_state0 4 "''EN_PRINT_ERROR''"
      "''[2021-01-01 00:00:00]''" "''a.c''" 7 "''main''" "replicate 490 CHR ''x''"]
  by (simp add: log_buffer_size_def log_state0_def level_defs level_name_def LEVEL_NAMES_def sample_header)

end
