(* ===== verification/CList.thy ===== *)
theory CList
  imports Prelude
begin

text \<open>
  The intrusive doubly linked list of \<open>PunchHole/*/list.h\<close>. A heap maps addresses to
  \<open>struct list_head\<close> cells; every dereference of an address without a cell yields
  \<open>None\<close>, so that a theorem saying an operation returns \<open>Some\<close> also says that it makes no
  invalid memory access. Each function performs the assignments of the C function in their
  order, reading the fields again where the C text reads them again, because the cells may
  be aliased. A well-formed list is a ring through its head: \<open>dll h head xs\<close>.
\<close>

type_synonym addr = nat

record list_head =
  lh_next :: addr
  lh_prev :: addr

type_synonym lheap = "addr \<rightharpoonup> list_head"

definition NULL :: addr where
  "NULL = 0"

subsection \<open>Field access\<close>

definition get_next :: "lheap \<Rightarrow> addr \<Rightarrow> addr option" where
  "get_next h p = map_option lh_next (h p)"

definition get_prev :: "lheap \<Rightarrow> addr \<Rightarrow> addr option" where
  "get_prev h p = map_option lh_prev (h p)"

definition put_next :: "addr \<Rightarrow> addr \<Rightarrow> lheap \<Rightarrow> lheap option" where
  "put_next p v h = map_option (\<lambda>n. h(p \<mapsto> n\<lparr>lh_next := v\<rparr>)) (h p)"

definition put_prev :: "addr \<Rightarrow> addr \<Rightarrow> lheap \<Rightarrow> lheap option" where
  "put_prev p v h = map_option (\<lambda>n. h(p \<mapsto> n\<lparr>lh_prev := v\<rparr>)) (h p)"

subsection \<open>The operations of list.h\<close>

definition INIT_LIST_HEAD :: "addr \<Rightarrow> lheap \<Rightarrow> lheap option" where
  "INIT_LIST_HEAD l h = do { h \<leftarrow> put_prev l l h; put_next l l h }"

definition list_empty :: "addr \<Rightarrow> lheap \<Rightarrow> bool option" where
  "list_empty head h = do { n \<leftarrow> get_next h head; Some (n = head) }"

definition list_is_first :: "addr \<Rightarrow> addr \<Rightarrow> lheap \<Rightarrow> bool option" where
  "list_is_first l head h = do { p \<leftarrow> get_prev h l; Some (p = head) }"

definition list_is_last :: "addr \<Rightarrow> addr \<Rightarrow> lheap \<Rightarrow> bool option" where
  "list_is_last l head h = do { n \<leftarrow> get_next h l; Some (n = head) }"

definition u_list_del :: "addr \<Rightarrow> lheap \<Rightarrow> lheap option" where
  "u_list_del e h = do {
     n \<leftarrow> get_next h e; p \<leftarrow> get_prev h e;
     h \<leftarrow> put_prev n p h;
     p \<leftarrow> get_prev h e; n \<leftarrow> get_next h e;
     put_next p n h }"

definition list_del :: "addr \<Rightarrow> lheap \<Rightarrow> lheap option" where
  "list_del e h = do {
     h \<leftarrow> u_list_del e h;
     h \<leftarrow> put_prev e NULL h;
     put_next e NULL h }"

definition u_list_add :: "addr \<Rightarrow> addr \<Rightarrow> addr \<Rightarrow> lheap \<Rightarrow> lheap option" where
  "u_list_add new prev nxt h = do {
     h \<leftarrow> put_prev nxt new h;
     h \<leftarrow> put_next new nxt h;
     h \<leftarrow> put_prev new prev h;
     put_next prev new h }"

definition list_del_init :: "addr \<Rightarrow> lheap \<Rightarrow> lheap option" where
  "list_del_init e h = do { h \<leftarrow> u_list_del e h; INIT_LIST_HEAD e h }"

definition list_add :: "addr \<Rightarrow> addr \<Rightarrow> lheap \<Rightarrow> lheap option" where
  "list_add new head h = do { n \<leftarrow> get_next h head; u_list_add new head n h }"

definition list_add_tail :: "addr \<Rightarrow> addr \<Rightarrow> lheap \<Rightarrow> lheap option" where
  "list_add_tail new head h = do { p \<leftarrow> get_prev h head; u_list_add new p head h }"

definition list_move :: "addr \<Rightarrow> addr \<Rightarrow> lheap \<Rightarrow> lheap option" where
  "list_move l head h = do { h \<leftarrow> u_list_del l h; list_add l head h }"

definition list_move_tail :: "addr \<Rightarrow> addr \<Rightarrow> lheap \<Rightarrow> lheap option" where
  "list_move_tail l head h = do { h \<leftarrow> u_list_del l h; list_add_tail l head h }"

definition u_list_splice :: "addr \<Rightarrow> addr \<Rightarrow> addr \<Rightarrow> lheap \<Rightarrow> lheap option" where
  "u_list_splice l prev nxt h = do {
     empty \<leftarrow> list_empty l h;
     if empty then Some h
     else do {
       first \<leftarrow> get_next h l;
       lst \<leftarrow> get_prev h l;
       h \<leftarrow> put_prev first prev h;
       h \<leftarrow> put_next prev first h;
       h \<leftarrow> put_next lst nxt h;
       put_prev nxt lst h } }"

definition list_splice :: "addr \<Rightarrow> addr \<Rightarrow> lheap \<Rightarrow> lheap option" where
  "list_splice l head h = do { n \<leftarrow> get_next h head; u_list_splice l head n h }"

definition list_splice_tail :: "addr \<Rightarrow> addr \<Rightarrow> lheap \<Rightarrow> lheap option" where
  "list_splice_tail l head h = do { p \<leftarrow> get_prev h head; u_list_splice l p head h }"

definition list_splice_init :: "addr \<Rightarrow> addr \<Rightarrow> lheap \<Rightarrow> lheap option" where
  "list_splice_init l head h = do {
     n \<leftarrow> get_next h head; h \<leftarrow> u_list_splice l head n h; INIT_LIST_HEAD l h }"

definition list_splice_tail_init :: "addr \<Rightarrow> addr \<Rightarrow> lheap \<Rightarrow> lheap option" where
  "list_splice_tail_init l head h = do {
     p \<leftarrow> get_prev h head; h \<leftarrow> u_list_splice l p head h; INIT_LIST_HEAD l h }"

text \<open>
  The iteration macros, for a body that does not modify the list: the cursor starts at the
  cell after the head and follows \<open>next\<close> until it is back at the head or the body leaves the
  loop. On a damaged list the walk may not end; that too is \<open>None\<close>.
\<close>

partial_function (option) list_walk ::
  "lheap \<Rightarrow> addr \<Rightarrow> (addr \<Rightarrow> 's \<Rightarrow> (bool \<times> 's) option) \<Rightarrow> addr \<Rightarrow> 's \<Rightarrow> 's option" where
  "list_walk h head body p s =
     (if p = head then Some s
      else Option.bind (body p s) (\<lambda>r.
        if fst r then Some (snd r)
        else Option.bind (get_next h p) (\<lambda>q. list_walk h head body q (snd r))))"

definition list_for_each ::
  "lheap \<Rightarrow> addr \<Rightarrow> (addr \<Rightarrow> 's \<Rightarrow> (bool \<times> 's) option) \<Rightarrow> 's \<Rightarrow> 's option" where
  "list_for_each h head body s = do { p \<leftarrow> get_next h head; list_walk h head body p s }"

partial_function (option) list_walk_prev ::
  "lheap \<Rightarrow> addr \<Rightarrow> (addr \<Rightarrow> 's \<Rightarrow> (bool \<times> 's) option) \<Rightarrow> addr \<Rightarrow> 's \<Rightarrow> 's option" where
  "list_walk_prev h head body p s =
     (if p = head then Some s
      else Option.bind (body p s) (\<lambda>r.
        if fst r then Some (snd r)
        else Option.bind (get_prev h p) (\<lambda>q. list_walk_prev h head body q (snd r))))"

definition list_for_each_prev ::
  "lheap \<Rightarrow> addr \<Rightarrow> (addr \<Rightarrow> 's \<Rightarrow> (bool \<times> 's) option) \<Rightarrow> 's \<Rightarrow> 's option" where
  "list_for_each_prev h head body s = do { p \<leftarrow> get_prev h head; list_walk_prev h head body p s }"

subsection \<open>What the field updates do\<close>

text \<open>
  The proofs look at a heap through its two maps \<open>get_next h\<close> and \<open>get_prev h\<close>. A cell
  exists exactly where \<open>get_next\<close> is defined.
\<close>

lemma get_dom: "get_next h p = None \<longleftrightarrow> h p = None" "get_prev h p = None \<longleftrightarrow> h p = None"
  by (auto simp: get_next_def get_prev_def)

lemma get_next_prev_dom: "dom (get_prev h) = dom (get_next h)"
  by (auto simp: get_next_def get_prev_def)

lemma put_next_some [link_simps]:
  assumes "get_next h p \<noteq> None"
  obtains h' where "put_next p v h = Some h'"
    "get_next h' = (get_next h)(p \<mapsto> v)" "get_prev h' = get_prev h"
  using assms that by (fastforce simp: put_next_def get_next_def get_prev_def fun_eq_iff)

lemma put_prev_some [link_simps]:
  assumes "get_next h p \<noteq> None"
  obtains h' where "put_prev p v h = Some h'"
    "get_next h' = get_next h" "get_prev h' = (get_prev h)(p \<mapsto> v)"
  using assms that by (fastforce simp: put_prev_def get_next_def get_prev_def fun_eq_iff)

text \<open>Consecutive cells of a path point at each other.\<close>

fun links :: "(addr \<rightharpoonup> addr) \<Rightarrow> (addr \<rightharpoonup> addr) \<Rightarrow> addr list \<Rightarrow> bool" where
  "links nx pv (a # b # l) \<longleftrightarrow> nx a = Some b \<and> pv b = Some a \<and> links nx pv (b # l)"
| "links nx pv _ \<longleftrightarrow> True"

lemma links_append: "links nx pv (xs @ a # ys) \<longleftrightarrow> links nx pv (xs @ [a]) \<and> links nx pv (a # ys)"
  by (induction nx pv xs rule: links.induct) auto

lemma links_concat:
  "xs \<noteq> [] \<Longrightarrow> ys \<noteq> [] \<Longrightarrow> links nx pv (xs @ ys) \<longleftrightarrow>
     links nx pv xs \<and> links nx pv ys \<and>
     nx (List.last xs) = Some (List.hd ys) \<and> pv (List.hd ys) = Some (List.last xs)"
  by (cases ys) (simp, induction nx pv xs rule: links.induct, auto)

lemma links_upd_next [simp, link_simps]:
  "a \<notin> set (butlast l) \<Longrightarrow> links (nx(a := v)) pv l = links nx pv l"
  by (induction nx pv l rule: links.induct) auto

lemma links_upd_prev [simp, link_simps]:
  "b \<notin> set (tl l) \<Longrightarrow> links nx (pv(b := v)) l = links nx pv l"
  by (induction nx pv l rule: links.induct) auto

lemma links_cong:
  assumes "\<And>x. x \<in> set (butlast l) \<Longrightarrow> nx' x = nx x" "\<And>x. x \<in> set (tl l) \<Longrightarrow> pv' x = pv x"
  shows "links nx' pv' l = links nx pv l"
  using assms by (induction nx pv l rule: links.induct) auto

definition dll :: "lheap \<Rightarrow> addr \<Rightarrow> addr list \<Rightarrow> bool" where
  "dll h head xs \<longleftrightarrow>
     distinct (head # xs) \<and> links (get_next h) (get_prev h) (head # xs @ [head])"

text \<open>Every cell of a well-formed list exists, so walking over it is memory safe.\<close>

lemma links_next_dom: "links nx pv l \<Longrightarrow> x \<in> set (butlast l) \<Longrightarrow> nx x \<noteq> None"
  by (induction nx pv l rule: links.induct) (auto split: if_splits)

lemma dll_dom: "dll h head xs \<Longrightarrow> x \<in> set (head # xs) \<Longrightarrow> get_next h x \<noteq> None"
  using links_next_dom [of "get_next h" "get_prev h" "head # xs @ [head]" x]
  by (auto simp: dll_def butlast_append)

lemma dll_next_head: "dll h head xs \<Longrightarrow> get_next h head = Some (List.hd (xs @ [head]))"
  by (cases xs) (auto simp: dll_def)

lemma links_last: "links nx pv (l @ [a, b]) \<Longrightarrow> pv b = Some a"
  by (induction nx pv l rule: links.induct) auto

lemma dll_prev_head: "dll h head xs \<Longrightarrow> get_prev h head = Some (List.last (head # xs))"
proof (cases xs rule: rev_cases)
  case (snoc ys y)
  assume "dll h head xs"
  with snoc show ?thesis
    using links_last [of "get_next h" "get_prev h" "head # ys" y head] by (simp add: dll_def)
qed (auto simp: dll_def)

subsection \<open>Effects of the raw operations on the maps\<close>

lemma INIT_LIST_HEAD_effect:
  assumes "get_next h l \<noteq> None"
  obtains h' where "INIT_LIST_HEAD l h = Some h'"
    "get_next h' = (get_next h)(l \<mapsto> l)" "get_prev h' = (get_prev h)(l \<mapsto> l)"
proof -
  obtain h1 where h1: "put_prev l l h = Some h1" "get_next h1 = get_next h"
    "get_prev h1 = (get_prev h)(l \<mapsto> l)"
    using put_prev_some [OF assms] .
  obtain h2 where h2: "put_next l l h1 = Some h2" "get_next h2 = (get_next h1)(l \<mapsto> l)"
    "get_prev h2 = get_prev h1"
    using put_next_some [of h1 l] assms h1(2) by metis
  show ?thesis
    by (rule that [of h2]) (simp_all add: INIT_LIST_HEAD_def h1 h2)
qed

lemma u_list_add_effect:
  assumes "get_next h new \<noteq> None" "get_next h prev \<noteq> None" "get_next h nxt \<noteq> None"
  obtains h' where "u_list_add new prev nxt h = Some h'"
    "get_next h' = (get_next h)(new \<mapsto> nxt, prev \<mapsto> new)"
    "get_prev h' = (get_prev h)(nxt \<mapsto> new, new \<mapsto> prev)"
proof -
  obtain h1 where h1: "put_prev nxt new h = Some h1" "get_next h1 = get_next h"
    "get_prev h1 = (get_prev h)(nxt \<mapsto> new)"
    using put_prev_some [OF assms(3)] .
  obtain h2 where h2: "put_next new nxt h1 = Some h2"
    "get_next h2 = (get_next h1)(new \<mapsto> nxt)" "get_prev h2 = get_prev h1"
    using put_next_some [of h1 new] assms(1) h1(2) by metis
  have "get_next h2 new \<noteq> None" by (simp add: h2)
  then obtain h3 where h3: "put_prev new prev h2 = Some h3" "get_next h3 = get_next h2"
    "get_prev h3 = (get_prev h2)(new \<mapsto> prev)"
    using put_prev_some by metis
  have "get_next h3 prev \<noteq> None" using assms(2) by (simp add: h1 h2 h3)
  then obtain h4 where h4: "put_next prev new h3 = Some h4"
    "get_next h4 = (get_next h3)(prev \<mapsto> new)" "get_prev h4 = get_prev h3"
    using put_next_some by metis
  show ?thesis
    by (rule that [of h4]) (simp_all add: u_list_add_def h1 h2 h3 h4)
qed

lemma u_list_del_effect:
  assumes "get_next h e = Some n" "get_prev h e = Some p" "e \<noteq> n"
    and "get_next h n \<noteq> None" "get_next h p \<noteq> None"
  obtains h' where "u_list_del e h = Some h'"
    "get_next h' = (get_next h)(p \<mapsto> n)" "get_prev h' = (get_prev h)(n \<mapsto> p)"
proof -
  obtain h1 where h1: "put_prev n p h = Some h1" "get_next h1 = get_next h"
    "get_prev h1 = (get_prev h)(n \<mapsto> p)"
    using put_prev_some [OF assms(4)] .
  obtain h2 where h2: "put_next p n h1 = Some h2" "get_next h2 = (get_next h1)(p \<mapsto> n)"
    "get_prev h2 = get_prev h1"
    using put_next_some [of h1 p] assms(5) h1(2) by metis
  show ?thesis
    by (rule that [of h2]) (use assms in \<open>simp_all add: u_list_del_def h1 h2\<close>)
qed


subsection \<open>Frames\<close>

text \<open>Outside \<open>A\<close> nothing has changed, and no cell was allocated or freed.\<close>

definition frame :: "lheap \<Rightarrow> lheap \<Rightarrow> addr set \<Rightarrow> bool" where
  "frame h h' A \<longleftrightarrow> dom (get_next h') = dom (get_next h) \<and>
     (\<forall>q. q \<notin> A \<longrightarrow> get_next h' q = get_next h q \<and> get_prev h' q = get_prev h q)"

lemma frame_trans: "frame h h' A \<Longrightarrow> frame h' h'' B \<Longrightarrow> frame h h'' (A \<union> B)"
  by (auto simp: frame_def)

lemma frame_mono: "frame h h' A \<Longrightarrow> A \<subseteq> B \<Longrightarrow> frame h h' B"
  by (auto simp: frame_def)

lemma frame_dom: "frame h h' A \<Longrightarrow> get_next h' p \<noteq> None \<longleftrightarrow> get_next h p \<noteq> None"
  by (auto simp: frame_def dom_def set_eq_iff)

lemma dll_frame:
  assumes "frame h h' A" "set (head # xs) \<inter> A = {}"
  shows "dll h' head xs = dll h head xs"
proof -
  have "links (get_next h') (get_prev h') (head # xs @ [head])
      = links (get_next h) (get_prev h) (head # xs @ [head])"
    using assms by (intro links_cong) (auto simp: frame_def butlast_append split: if_splits)
  then show ?thesis by (simp add: dll_def)
qed

subsection \<open>Insertion and deletion in the middle of a ring\<close>

text \<open>
  The ring \<open>head # xs @ ys @ [head]\<close> cut between \<open>xs\<close> and \<open>ys\<close>: \<open>p\<close> is the last cell before
  the cut and \<open>n\<close> the first one after it.
\<close>

lemma ring_split:
  assumes "distinct (head # xs @ ys)"
  obtains l1 l2 p n where "head # xs = l1 @ [p]" "ys @ [head] = n # l2"
    "p = List.last (head # xs)" "n = List.hd (ys @ [head])"
    "p \<notin> set l1" "p \<notin> set ys" "n \<notin> set l2" "n \<notin> set xs"
proof -
  let ?p = "List.last (head # xs)" and ?n = "List.hd (ys @ [head])"
  have "?p \<notin> set (butlast (head # xs)) \<and> ?p \<notin> set ys"
    using assms by (cases xs rule: rev_cases) auto
  moreover have "?n \<notin> set (tl (ys @ [head])) \<and> ?n \<notin> set xs"
    using assms by (cases ys) auto
  moreover have "head # xs = butlast (head # xs) @ [?p]"
    by (metis append_butlast_last_id list.distinct(1))
  moreover have "ys @ [head] = ?n # tl (ys @ [head])"
    by (cases ys) auto
  ultimately show ?thesis using that by blast
qed

lemma links_insert:
  assumes "links nx pv (l1 @ p # n # l2)" "new \<notin> set (l1 @ p # n # l2)"
    and "p \<notin> set l1" "p \<notin> set (butlast (n # l2))" "n \<notin> set l2" "n \<notin> set (tl (l1 @ [p]))"
  shows "links (nx(new \<mapsto> n, p \<mapsto> new)) (pv(n \<mapsto> new, new \<mapsto> p)) (l1 @ p # new # n # l2)"
proof -
  let ?nx = "nx(new \<mapsto> n, p \<mapsto> new)" and ?pv = "pv(n \<mapsto> new, new \<mapsto> p)"
  have new: "new \<notin> set (butlast (n # l2))" "new \<notin> set (tl (l1 @ [p]))" "new \<notin> set l1" "new \<notin> set l2"
    using assms(2) in_set_butlastD [of new "n # l2"] by (cases l1; auto)+
  have "links ?nx ?pv (l1 @ [p]) = links nx pv (l1 @ [p])"
    using assms(3,6) new by (simp del: fun_upd_apply)
  moreover have "links ?nx ?pv (n # l2) = links nx pv (n # l2)"
    using assms(4,5) new by (simp del: fun_upd_apply butlast.simps)
  ultimately have "links ?nx ?pv (l1 @ [p])" "links ?nx ?pv (n # l2)"
    using assms(1) links_append [of nx pv l1 p "n # l2"] by simp_all
  with assms(2) show ?thesis
    by (subst links_append) auto
qed

lemma links_delete:
  assumes "links nx pv (l1 @ p # e # n # l2)" "e \<notin> set (l1 @ p # n # l2)"
    and "p \<notin> set l1" "p \<notin> set (butlast (n # l2))" "n \<notin> set l2" "n \<notin> set (tl (l1 @ [p]))"
  shows "links (nx(p \<mapsto> n)) (pv(n \<mapsto> p)) (l1 @ p # n # l2)"
proof -
  let ?nx = "nx(p \<mapsto> n)" and ?pv = "pv(n \<mapsto> p)"
  have "links ?nx ?pv (l1 @ [p]) = links nx pv (l1 @ [p])"
    using assms(3,6) by (simp del: fun_upd_apply)
  moreover have "links ?nx ?pv (n # l2) = links nx pv (n # l2)"
    using assms(4,5) by (simp del: fun_upd_apply butlast.simps)
  ultimately have "links ?nx ?pv (l1 @ [p])" "links ?nx ?pv (n # l2)"
    using assms(1) links_append [of nx pv l1 p "e # n # l2"] by simp_all
  then show ?thesis
    by (subst links_append) auto
qed

lemma dll_insert:
  assumes d: "dll h head (xs @ ys)" and new: "new \<notin> set (head # xs @ ys)" "get_next h new \<noteq> None"
  obtains h' where "u_list_add new (List.last (head # xs)) (List.hd (ys @ [head])) h = Some h'"
    "dll h' head (xs @ new # ys)" "frame h h' (set (head # new # xs @ ys))"
proof -
  have dist: "distinct (head # xs @ ys)" using d by (simp add: dll_def)
  obtain l1 l2 p n where s: "head # xs = l1 @ [p]" "ys @ [head] = n # l2"
    and p: "p = List.last (head # xs)" and n: "n = List.hd (ys @ [head])"
    and nin: "p \<notin> set l1" "p \<notin> set ys" "n \<notin> set l2" "n \<notin> set xs"
    using ring_split [OF dist] .
  have in_ring: "p \<in> set (head # xs @ ys)" "n \<in> set (head # xs @ ys)"
    using s [THEN arg_cong [where f = set]] by auto
  then have dom: "get_next h p \<noteq> None" "get_next h n \<noteq> None"
    using dll_dom [OF d] by blast+
  obtain h' where h': "u_list_add new p n h = Some h'"
    "get_next h' = (get_next h)(new \<mapsto> n, p \<mapsto> new)"
    "get_prev h' = (get_prev h)(n \<mapsto> new, new \<mapsto> p)"
    using u_list_add_effect [OF new(2) dom] .
  have ring: "head # (xs @ ys) @ [head] = l1 @ p # n # l2" "head # (xs @ new # ys) @ [head] = l1 @ p # new # n # l2"
    using arg_cong [OF s(1), of "\<lambda>l. l @ zs" for zs] s(2) by simp_all
  have bl: "butlast (n # l2) = ys" "tl (l1 @ [p]) = xs"
    using s by (metis butlast_snoc, metis list.sel(3))
  have "links (get_next h') (get_prev h') (l1 @ p # new # n # l2)"
    unfolding h' using d new(1) nin bl ring(1) [symmetric]
    by (intro links_insert) (auto simp: dll_def)
  then have "dll h' head (xs @ new # ys)"
    using dist new(1) ring(2) by (auto simp: dll_def)
  moreover have "frame h h' (set (head # new # xs @ ys))"
    using new(2) in_ring dom unfolding frame_def h' by auto
  ultimately show ?thesis using that h'(1) p n by blast
qed

lemma dll_remove:
  assumes d: "dll h head (xs @ e # ys)"
  obtains h' where "u_list_del e h = Some h'" "dll h' head (xs @ ys)"
    "frame h h' (set (head # xs @ ys))"
proof -
  have dist: "distinct (head # xs @ ys)" and e: "e \<notin> set (head # xs @ ys)"
    using d by (auto simp: dll_def)
  obtain l1 l2 p n where s: "head # xs = l1 @ [p]" "ys @ [head] = n # l2"
    and nin: "p \<notin> set l1" "p \<notin> set ys" "n \<notin> set l2" "n \<notin> set xs"
    using ring_split [OF dist] .
  have in_ring: "p \<in> set (head # xs @ ys)" "n \<in> set (head # xs @ ys)"
    using s [THEN arg_cong [where f = set]] by auto
  have ring: "head # (xs @ e # ys) @ [head] = l1 @ p # e # n # l2" "head # (xs @ ys) @ [head] = l1 @ p # n # l2"
    using arg_cong [OF s(1), of "\<lambda>l. l @ zs" for zs] s(2) by simp_all
  have dom: "get_next h p \<noteq> None" "get_next h n \<noteq> None"
    using dll_dom [OF d] in_ring by auto
  have old: "links (get_next h) (get_prev h) (l1 @ p # e # n # l2)"
    using d ring(1) by (metis dll_def)
  then have pe: "get_prev h e = Some p" "get_next h e = Some n"
    using links_append [of "get_next h" "get_prev h" l1 p "e # n # l2"] by simp_all
  have "e \<noteq> n" using e in_ring by auto
  then obtain h' where h': "u_list_del e h = Some h'"
    "get_next h' = (get_next h)(p \<mapsto> n)" "get_prev h' = (get_prev h)(n \<mapsto> p)"
    using u_list_del_effect [OF pe(2,1)] dom by metis
  have bl: "butlast (n # l2) = ys" "tl (l1 @ [p]) = xs"
    using s by (metis butlast_snoc, metis list.sel(3))
  have "links (get_next h') (get_prev h') (l1 @ p # n # l2)"
    unfolding h' using old e nin bl ring(2) [symmetric]
    by (intro links_delete) auto
  then have "dll h' head (xs @ ys)"
    using dist ring(2) by (auto simp: dll_def)
  moreover have "frame h h' (set (head # xs @ ys))"
    using in_ring dom unfolding frame_def h' by auto
  ultimately show ?thesis using that h'(1) by blast
qed

subsection \<open>Functional correctness of the operations\<close>

lemma INIT_LIST_HEAD_dll:
  assumes "get_next h l \<noteq> None"
  obtains h' where "INIT_LIST_HEAD l h = Some h'" "dll h' l []" "frame h h' {l}"
proof -
  obtain h' where h': "INIT_LIST_HEAD l h = Some h'"
    "get_next h' = (get_next h)(l \<mapsto> l)" "get_prev h' = (get_prev h)(l \<mapsto> l)"
    using INIT_LIST_HEAD_effect [OF assms] .
  moreover have "dll h' l []" by (simp add: dll_def h')
  moreover have "frame h h' {l}" using assms by (auto simp: frame_def h')
  ultimately show ?thesis using that by blast
qed

lemma list_empty_dll: "dll h head xs \<Longrightarrow> list_empty head h = Some (xs = [])"
  by (cases xs) (auto simp: list_empty_def dll_next_head, auto simp: dll_def)

lemma list_is_first_dll:
  assumes "dll h head (xs @ e # ys)"
  shows "list_is_first e head h = Some (xs = [])"
proof (cases xs rule: rev_cases)
  case Nil
  with assms show ?thesis by (auto simp: list_is_first_def dll_def)
next
  case (snoc zs z)
  with assms have "links (get_next h) (get_prev h) ((head # zs) @ z # e # ys @ [head])"
    by (simp add: dll_def)
  then have "get_prev h e = Some z" by (subst (asm) links_append) simp
  with assms snoc show ?thesis by (auto simp: list_is_first_def dll_def)
qed

lemma list_is_last_dll:
  assumes "dll h head (xs @ e # ys)"
  shows "list_is_last e head h = Some (ys = [])"
proof -
  have "links (get_next h) (get_prev h) ((head # xs) @ e # ys @ [head])"
    using assms by (simp add: dll_def)
  then have "links (get_next h) (get_prev h) (e # ys @ [head])"
    by (subst (asm) links_append) simp
  with assms show ?thesis
    by (cases ys) (auto simp: list_is_last_def dll_def)
qed

lemma list_add_dll:
  assumes "dll h head xs" "new \<notin> set (head # xs)" "get_next h new \<noteq> None"
  obtains h' where "list_add new head h = Some h'" "dll h' head (new # xs)"
    "frame h h' (set (head # new # xs))"
  using dll_insert [of h head "[]" xs new] assms that
  by (auto simp: list_add_def dll_next_head)

lemma list_add_tail_dll:
  assumes "dll h head xs" "new \<notin> set (head # xs)" "get_next h new \<noteq> None"
  obtains h' where "list_add_tail new head h = Some h'" "dll h' head (xs @ [new])"
    "frame h h' (set (head # new # xs))"
  using dll_insert [of h head xs "[]" new] assms that
  by (auto simp: list_add_tail_def dll_prev_head)

lemma list_del_dll:
  assumes "dll h head (xs @ e # ys)"
  obtains h' where "list_del e h = Some h'" "dll h' head (xs @ ys)"
    "get_next h' e = Some NULL" "get_prev h' e = Some NULL"
    "frame h h' (set (head # xs @ e # ys))"
proof -
  obtain h1 where h1: "u_list_del e h = Some h1" "dll h1 head (xs @ ys)"
    "frame h h1 (set (head # xs @ ys))"
    using dll_remove [OF assms] .
  have e: "e \<notin> set (head # xs @ ys)" using assms by (auto simp: dll_def)
  have "get_next h1 e \<noteq> None"
    using dll_dom [OF assms, of e] frame_dom [OF h1(3), of e] by simp
  then obtain h2 where h2: "put_prev e NULL h1 = Some h2" "get_next h2 = get_next h1"
    "get_prev h2 = (get_prev h1)(e \<mapsto> NULL)"
    using put_prev_some by metis
  then obtain h3 where h3: "put_next e NULL h2 = Some h3"
    "get_next h3 = (get_next h1)(e \<mapsto> NULL)" "get_prev h3 = (get_prev h1)(e \<mapsto> NULL)"
    using put_next_some [of h2 e] \<open>get_next h1 e \<noteq> None\<close> by metis
  have f: "frame h1 h3 {e}"
    using \<open>get_next h1 e \<noteq> None\<close> by (auto simp: frame_def h3)
  show ?thesis
  proof (rule that)
    show "list_del e h = Some h3" by (simp add: list_del_def h1 h2 h3)
    show "dll h3 head (xs @ ys)"
      using dll_frame [OF f, of head "xs @ ys"] e h1(2) by auto
    show "frame h h3 (set (head # xs @ e # ys))"
      using frame_trans [OF h1(3) f] by (rule frame_mono) auto
  qed (simp_all add: h3)
qed

lemma list_del_init_dll:
  assumes "dll h head (xs @ e # ys)"
  obtains h' where "list_del_init e h = Some h'" "dll h' head (xs @ ys)" "dll h' e []"
    "frame h h' (set (head # xs @ e # ys))"
proof -
  obtain h1 where h1: "u_list_del e h = Some h1" "dll h1 head (xs @ ys)"
    "frame h h1 (set (head # xs @ ys))"
    using dll_remove [OF assms] .
  have e: "e \<notin> set (head # xs @ ys)" using assms by (auto simp: dll_def)
  have "get_next h1 e \<noteq> None"
    using dll_dom [OF assms, of e] frame_dom [OF h1(3), of e] by simp
  then obtain h2 where h2: "INIT_LIST_HEAD e h1 = Some h2" "dll h2 e []" "frame h1 h2 {e}"
    using INIT_LIST_HEAD_dll by blast
  show ?thesis
  proof (rule that)
    show "list_del_init e h = Some h2" by (simp add: list_del_init_def h1 h2)
    show "dll h2 head (xs @ ys)"
      using dll_frame [OF h2(3), of head "xs @ ys"] e h1(2) by auto
    show "frame h h2 (set (head # xs @ e # ys))"
      using frame_trans [OF h1(3) h2(3)] by (rule frame_mono) auto
  qed (rule h2(2))
qed

text \<open>
  Moving an entry to the front or the back of its own list. (Both also work across two
  lists; the program has only the one.)
\<close>

lemma list_move_dll:
  assumes "dll h head (xs @ e # ys)"
  obtains h' where "list_move e head h = Some h'" "dll h' head (e # xs @ ys)"
proof -
  obtain h1 where h1: "u_list_del e h = Some h1" "dll h1 head (xs @ ys)"
    "frame h h1 (set (head # xs @ ys))"
    using dll_remove [OF assms] .
  have "e \<notin> set (head # xs @ ys)" "get_next h1 e \<noteq> None"
    using assms dll_dom [OF assms, of e] frame_dom [OF h1(3), of e] by (auto simp: dll_def)
  then obtain h2 where "list_add e head h1 = Some h2" "dll h2 head (e # xs @ ys)"
    using list_add_dll [OF h1(2)] by blast
  with h1(1) show ?thesis by (intro that) (simp_all add: list_move_def)
qed

lemma list_move_tail_dll:
  assumes "dll h head (xs @ e # ys)"
  obtains h' where "list_move_tail e head h = Some h'" "dll h' head (xs @ ys @ [e])"
proof -
  obtain h1 where h1: "u_list_del e h = Some h1" "dll h1 head (xs @ ys)"
    "frame h h1 (set (head # xs @ ys))"
    using dll_remove [OF assms] .
  have "e \<notin> set (head # xs @ ys)" "get_next h1 e \<noteq> None"
    using assms dll_dom [OF assms, of e] frame_dom [OF h1(3), of e] by (auto simp: dll_def)
  then obtain h2 where "list_add_tail e head h1 = Some h2" "dll h2 head ((xs @ ys) @ [e])"
    using list_add_tail_dll [OF h1(2)] by blast
  with h1(1) show ?thesis by (intro that) (simp_all add: list_move_tail_def)
qed

subsection \<open>Splicing one list into another\<close>

lemma u_list_splice_effect:
  assumes "get_next h l = Some f" "get_prev h l = Some t" "f \<noteq> l"
    and "get_next h p \<noteq> None" "get_next h n \<noteq> None" "get_next h f \<noteq> None" "get_next h t \<noteq> None"
  obtains h' where "u_list_splice l p n h = Some h'"
    "get_next h' = (get_next h)(p \<mapsto> f, t \<mapsto> n)" "get_prev h' = (get_prev h)(f \<mapsto> p, n \<mapsto> t)"
proof -
  obtain h1 where h1: "put_prev f p h = Some h1" "get_next h1 = get_next h"
    "get_prev h1 = (get_prev h)(f \<mapsto> p)" using put_prev_some [OF assms(6)] .
  obtain h2 where h2: "put_next p f h1 = Some h2" "get_next h2 = (get_next h)(p \<mapsto> f)"
    "get_prev h2 = (get_prev h)(f \<mapsto> p)"
    using put_next_some [of h1 p] assms(4) h1 by metis
  have "get_next h2 t \<noteq> None" using assms by (simp add: h2)
  then obtain h3 where h3: "put_next t n h2 = Some h3"
    "get_next h3 = (get_next h)(p \<mapsto> f, t \<mapsto> n)" "get_prev h3 = (get_prev h)(f \<mapsto> p)"
    using put_next_some [of h2 t] h2 by metis
  have "get_next h3 n \<noteq> None" using assms by (simp add: h3)
  then obtain h4 where h4: "put_prev n t h3 = Some h4"
    "get_next h4 = (get_next h)(p \<mapsto> f, t \<mapsto> n)" "get_prev h4 = (get_prev h)(f \<mapsto> p, n \<mapsto> t)"
    using put_prev_some [of h3 n] h3 by metis
  show ?thesis
    by (rule that [of h4])
       (use assms in \<open>simp_all add: u_list_splice_def list_empty_def h1 h2 h3 h4\<close>)
qed

lemma links_splice:
  assumes "links nx pv (l1 @ p # n # l2)" "links nx pv zs" "zs \<noteq> []" "distinct zs"
    and "set zs \<inter> set (l1 @ p # n # l2) = {}"
    and "p \<notin> set l1" "p \<notin> set (butlast (n # l2))" "n \<notin> set l2" "n \<notin> set (tl (l1 @ [p]))"
  shows "links (nx(p \<mapsto> List.hd zs, List.last zs \<mapsto> n)) (pv(List.hd zs \<mapsto> p, n \<mapsto> List.last zs))
           ((l1 @ [p]) @ zs @ n # l2)" (is "links ?nx ?pv _")
proof -
  define f t where ft: "f = List.hd zs" "t = List.last zs"
  have z: "f \<in> set zs" "t \<in> set zs" "f \<notin> set (tl zs)"
    using assms(3,4) by (cases zs; auto simp: ft)+
  have "distinct (butlast zs @ [t])"
    using assms(3,4) by (simp add: ft)
  then have z': "t \<notin> set (butlast zs)" by simp
  have out: "f \<notin> set (l1 @ p # n # l2)" "t \<notin> set (l1 @ p # n # l2)" "p \<notin> set zs" "n \<notin> set zs"
    using assms(5) z by auto
  then have tls: "f \<notin> set (tl (l1 @ [p]))" "t \<notin> set (butlast (n # l2))"
      "p \<notin> set (butlast zs)" "n \<notin> set (tl zs)"
    by (auto dest: in_set_butlastD in_set_tl simp: tl_append split: list.splits if_splits)
  have olds: "links nx pv (l1 @ [p])" "links nx pv (n # l2)"
    using assms(1) links_append [of nx pv l1 p "n # l2"] by simp_all
  have "links ?nx ?pv (l1 @ [p])"
    using olds(1) assms(6,9) out tls unfolding ft [symmetric] by (simp del: fun_upd_apply)
  moreover have "links ?nx ?pv (n # l2)"
    using olds(2) assms(7,8) out tls unfolding ft [symmetric]
    by (simp del: fun_upd_apply butlast.simps)
  moreover have "links ?nx ?pv zs"
    using assms(2) z z' tls unfolding ft [symmetric] by (simp del: fun_upd_apply)
  ultimately show ?thesis
    using assms(3) z out unfolding ft [symmetric]
    by (simp add: links_concat [of "l1 @ [p]" "zs @ n # l2", simplified] links_concat ft [symmetric]
        del: append_assoc append.simps)
qed

lemma u_list_splice_dll:
  assumes h: "dll h head (xs @ ys)" and l: "dll h l zs"
    and dis: "set (head # xs @ ys) \<inter> set (l # zs) = {}"
  obtains h' where "u_list_splice l (List.last (head # xs)) (List.hd (ys @ [head])) h = Some h'"
    "dll h' head (xs @ zs @ ys)" "frame h h' (set (head # xs @ ys) \<union> set zs)"
proof (cases "zs = []")
  case True
  with that [of h] h l show ?thesis
    by (simp add: u_list_splice_def list_empty_dll frame_def)
next
  case False
  have dist: "distinct (head # xs @ ys)" "distinct zs" using h l by (simp_all add: dll_def)
  obtain l1 l2 p n where s: "head # xs = l1 @ [p]" "ys @ [head] = n # l2"
    and p: "p = List.last (head # xs)" and n: "n = List.hd (ys @ [head])"
    and nin: "p \<notin> set l1" "p \<notin> set ys" "n \<notin> set l2" "n \<notin> set xs"
    using ring_split [OF dist(1)] .
  have in_ring: "p \<in> set (head # xs @ ys)" "n \<in> set (head # xs @ ys)"
    and sub: "set (l1 @ p # n # l2) \<subseteq> set (head # xs @ ys)"
    using s [THEN arg_cong [where f = set]] by auto
  have ring: "head # (xs @ ys) @ [head] = l1 @ p # n # l2"
      "head # (xs @ zs @ ys) @ [head] = (l1 @ [p]) @ zs @ n # l2"
    using arg_cong [OF s(1), of "\<lambda>l. l @ rs" for rs] s(2) by simp_all
  have bl: "butlast (n # l2) = ys" "tl (l1 @ [p]) = xs"
    using s by (metis butlast_snoc, metis list.sel(3))
  have get: "get_next h l = Some (List.hd zs)" "get_prev h l = Some (List.last zs)"
    using dll_next_head [OF l] dll_prev_head [OF l] False by simp_all
  have "List.hd zs \<noteq> l" using l False by (cases zs) (auto simp: dll_def)
  moreover have dom: "get_next h p \<noteq> None" "get_next h n \<noteq> None"
      "get_next h (List.hd zs) \<noteq> None" "get_next h (List.last zs) \<noteq> None"
    using dll_dom [OF h] in_ring dll_dom [OF l] False by auto
  ultimately obtain h' where h': "u_list_splice l p n h = Some h'"
    "get_next h' = (get_next h)(p \<mapsto> List.hd zs, List.last zs \<mapsto> n)"
    "get_prev h' = (get_prev h)(List.hd zs \<mapsto> p, n \<mapsto> List.last zs)"
    using u_list_splice_effect [OF get] by metis
  have "links (get_next h) (get_prev h) (l # zs @ [l])" using l by (simp add: dll_def)
  then have "links (get_next h) (get_prev h) zs"
    using False links_concat [of "l # zs" "[l]"] links_concat [of "[l]" zs] by simp
  then have "links (get_next h') (get_prev h') ((l1 @ [p]) @ zs @ n # l2)"
    unfolding h' using h dis sub nin bl False dist ring(1) [symmetric]
    by (intro links_splice) (auto simp: dll_def)
  then have "dll h' head (xs @ zs @ ys)"
    using h l dis ring(2) by (auto simp: dll_def)
  moreover have "frame h h' (set (head # xs @ ys) \<union> set zs)"
    using in_ring dom False unfolding frame_def h' by auto
  ultimately show ?thesis using that h'(1) p n by blast
qed

lemma list_splice_dll:
  assumes "dll h head ys" "dll h l zs" "set (head # ys) \<inter> set (l # zs) = {}"
  obtains h' where "list_splice l head h = Some h'" "dll h' head (zs @ ys)"
  using u_list_splice_dll [of h head "[]" ys l zs] assms that
  by (auto simp: list_splice_def dll_next_head)

lemma list_splice_tail_dll:
  assumes "dll h head xs" "dll h l zs" "set (head # xs) \<inter> set (l # zs) = {}"
  obtains h' where "list_splice_tail l head h = Some h'" "dll h' head (xs @ zs)"
  using u_list_splice_dll [of h head xs "[]" l zs] assms that
  by (auto simp: list_splice_tail_def dll_prev_head)

text \<open>The \<open>_init\<close> variants leave the source list empty instead of dangling.\<close>

lemma splice_then_init:
  assumes d: "dll h1 head xs" and f: "frame h h1 A" and l: "dll h l zs" and "l \<notin> set (head # xs)"
  obtains h2 where "INIT_LIST_HEAD l h1 = Some h2" "dll h2 head xs" "dll h2 l []"
proof -
  have "get_next h1 l \<noteq> None"
    using dll_dom [OF l, of l] frame_dom [OF f, of l] by simp
  then obtain h2 where h2: "INIT_LIST_HEAD l h1 = Some h2" "dll h2 l []" "frame h1 h2 {l}"
    using INIT_LIST_HEAD_dll by blast
  with assms dll_frame [OF h2(3), of head xs] that show ?thesis by auto
qed

lemma list_splice_init_dll:
  assumes "dll h head ys" "dll h l zs" "set (head # ys) \<inter> set (l # zs) = {}"
  obtains h' where "list_splice_init l head h = Some h'" "dll h' head (zs @ ys)" "dll h' l []"
proof -
  obtain h1 where h1: "u_list_splice l head (List.hd (ys @ [head])) h = Some h1"
    "dll h1 head (zs @ ys)" "frame h h1 (set (head # ys) \<union> set zs)"
    using u_list_splice_dll [of h head "[]" ys l zs] assms by auto
  obtain h2 where "INIT_LIST_HEAD l h1 = Some h2" "dll h2 head (zs @ ys)" "dll h2 l []"
    using splice_then_init [OF h1(2,3) assms(2)] assms(2,3) by (auto simp: dll_def)
  with h1(1) show ?thesis
    by (intro that) (simp_all add: list_splice_init_def dll_next_head [OF assms(1)])
qed

lemma list_splice_tail_init_dll:
  assumes "dll h head xs" "dll h l zs" "set (head # xs) \<inter> set (l # zs) = {}"
  obtains h' where "list_splice_tail_init l head h = Some h'" "dll h' head (xs @ zs)" "dll h' l []"
proof -
  obtain h1 where h1: "u_list_splice l (List.last (head # xs)) head h = Some h1"
    "dll h1 head (xs @ zs)" "frame h h1 (set (head # xs) \<union> set zs)"
    using u_list_splice_dll [of h head xs "[]" l zs] assms by auto
  obtain h2 where "INIT_LIST_HEAD l h1 = Some h2" "dll h2 head (xs @ zs)" "dll h2 l []"
    using splice_then_init [OF h1(2,3) assms(2)] assms(2,3) by (auto simp: dll_def)
  with h1(1) show ?thesis
    by (intro that) (simp_all add: list_splice_tail_init_def dll_prev_head [OF assms(1)])
qed

subsection \<open>Walking a well-formed list\<close>

lemma list_walk_links:
  assumes "links (get_next h) pv (xs @ [head])" "head \<notin> set xs"
    and "\<And>x s. x \<in> set xs \<Longrightarrow> body x s = Some (f x s)"
  shows "list_walk h head body (List.hd (xs @ [head])) s = Some (fold_brk f xs s)"
  using assms
proof (induction xs arbitrary: s)
  case Nil
  then show ?case by (simp add: list_walk.simps)
next
  case (Cons x xs)
  have nx: "get_next h x = Some (List.hd (xs @ [head]))"
    using Cons.prems(1) by (cases xs) auto
  have IH: "list_walk h head body (List.hd (xs @ [head])) s' = Some (fold_brk f xs s')" for s'
    using Cons.prems by (intro Cons.IH) (cases xs; auto)+
  show ?case
    using Cons.prems(2,3) nx IH by (subst list_walk.simps) (auto simp: split_def Let_def)
qed

lemma list_for_each_dll:
  assumes "dll h head xs" "\<And>x s. x \<in> set xs \<Longrightarrow> body x s = Some (f x s)"
  shows "list_for_each h head body s = Some (fold_brk f xs s)"
proof -
  have "links (get_next h) (get_prev h) (xs @ [head])" "head \<notin> set xs"
    using assms(1) by (cases xs; auto simp: dll_def)+
  with assms show ?thesis
    using list_walk_links [of h "get_prev h" xs head body f]
    by (simp add: list_for_each_def dll_next_head)
qed

lemma list_walk_prev_links:
  assumes "links nx (get_prev h) (head # xs)" "head \<notin> set xs"
    and "\<And>x s. x \<in> set xs \<Longrightarrow> body x s = Some (f x s)"
  shows "list_walk_prev h head body (List.last (head # xs)) s = Some (fold_brk f (rev xs) s)"
  using assms
proof (induction xs arbitrary: s rule: rev_induct)
  case Nil
  then show ?case by (simp add: list_walk_prev.simps)
next
  case (snoc x xs)
  have l: "links nx (get_prev h) (head # xs)" "get_prev h x = Some (List.last (head # xs))"
    using snoc.prems(1) links_concat [of "head # xs" "[x]"] by simp_all
  have IH: "list_walk_prev h head body (List.last (head # xs)) s' = Some (fold_brk f (rev xs) s')" for s'
    using snoc.prems l by (intro snoc.IH) auto
  show ?case
    using snoc.prems(2,3) l IH
    by (subst list_walk_prev.simps) (auto simp: split_def Let_def)
qed

lemma list_for_each_prev_dll:
  assumes "dll h head xs" "\<And>x s. x \<in> set xs \<Longrightarrow> body x s = Some (f x s)"
  shows "list_for_each_prev h head body s = Some (fold_brk f (rev xs) s)"
proof -
  have "links (get_next h) (get_prev h) (head # xs)" "head \<notin> set xs"
    using assms(1) links_concat [of "head # xs" "[head]"] by (auto simp: dll_def)
  with assms show ?thesis
    using list_walk_prev_links [of "get_next h" h head xs body f]
    by (simp add: list_for_each_prev_def dll_prev_head)
qed

subsection \<open>Properties\<close>

text \<open>C17: Insertion and deletion refine the operations on lists: on a well-formed ring with contents
  \<open>xs @ e # ys\<close> and a fresh cell, \<open>list_add\<close> puts the cell first, \<open>list_add_tail\<close> last, \<open>list_del\<close>
  takes \<open>e\<close> out and clears its links, \<open>list_move\<close> and \<open>list_move_tail\<close> bring it to either end. None
  of them touches a cell outside the ring or fails.\<close>

theorem list_operations_refine:
  assumes "dll h head (xs @ e # ys)" "new \<notin> set (head # xs @ e # ys)" "get_next h new \<noteq> None"
  shows "(\<exists>h'. list_add new head h = Some h' \<and> dll h' head (new # xs @ e # ys) \<and>
            frame h h' (set (head # new # xs @ e # ys))) \<and>
    (\<exists>h'. list_add_tail new head h = Some h' \<and> dll h' head (xs @ e # ys @ [new]) \<and>
            frame h h' (set (head # new # xs @ e # ys))) \<and>
    (\<exists>h'. list_del e h = Some h' \<and> dll h' head (xs @ ys) \<and>
            get_next h' e = Some NULL \<and> get_prev h' e = Some NULL \<and> frame h h' (set (head # xs @ e # ys))) \<and>
    (\<exists>h'. list_move e head h = Some h' \<and> dll h' head (e # xs @ ys)) \<and>
    (\<exists>h'. list_move_tail e head h = Some h' \<and> dll h' head (xs @ ys @ [e]))"
proof (intro conjI)
  show "\<exists>h'. list_add new head h = Some h' \<and> dll h' head (new # xs @ e # ys) \<and>
      frame h h' (set (head # new # xs @ e # ys))"
    using list_add_dll [OF assms] by metis
  show "\<exists>h'. list_add_tail new head h = Some h' \<and> dll h' head (xs @ e # ys @ [new]) \<and>
      frame h h' (set (head # new # xs @ e # ys))"
    using list_add_tail_dll [OF assms] by (metis append_Cons append_assoc)
  show "\<exists>h'. list_del e h = Some h' \<and> dll h' head (xs @ ys) \<and>
      get_next h' e = Some NULL \<and> get_prev h' e = Some NULL \<and> frame h h' (set (head # xs @ e # ys))"
    using list_del_dll [OF assms(1)] by metis
  show "\<exists>h'. list_move e head h = Some h' \<and> dll h' head (e # xs @ ys)"
    using list_move_dll [OF assms(1)] by metis
  show "\<exists>h'. list_move_tail e head h = Some h' \<and> dll h' head (xs @ ys @ [e])"
    using list_move_tail_dll [OF assms(1)] by (metis append_assoc)
qed

text \<open>Splicing a list into a disjoint one concatenates the contents at the front or at the back,
  and the \<open>_init\<close> variants leave the source a well-formed empty list.\<close>

theorem list_splice_concatenates:
  assumes "dll h head ys" "dll h l zs" "set (head # ys) \<inter> set (l # zs) = {}"
  shows "(\<exists>h'. list_splice l head h = Some h' \<and> dll h' head (zs @ ys)) \<and>
    (\<exists>h'. list_splice_tail l head h = Some h' \<and> dll h' head (ys @ zs)) \<and>
    (\<exists>h'. list_splice_init l head h = Some h' \<and> dll h' head (zs @ ys) \<and> dll h' l []) \<and>
    (\<exists>h'. list_splice_tail_init l head h = Some h' \<and> dll h' head (ys @ zs) \<and> dll h' l [])"
proof (intro conjI)
  show "\<exists>h'. list_splice l head h = Some h' \<and> dll h' head (zs @ ys)"
    using list_splice_dll [OF assms] by metis
  show "\<exists>h'. list_splice_tail l head h = Some h' \<and> dll h' head (ys @ zs)"
    using list_splice_tail_dll [OF assms] by metis
  show "\<exists>h'. list_splice_init l head h = Some h' \<and> dll h' head (zs @ ys) \<and> dll h' l []"
    using list_splice_init_dll [OF assms] by metis
  show "\<exists>h'. list_splice_tail_init l head h = Some h' \<and> dll h' head (ys @ zs) \<and> dll h' l []"
    using list_splice_tail_init_dll [OF assms] by metis
qed

text \<open>Two rings, 1 with 2 and 4 in it and 5 with 6, and a cell 3 outside.\<close>

definition sample_heap :: lheap where
  "sample_heap = [1 \<mapsto> \<lparr>lh_next = 2, lh_prev = 4\<rparr>, 2 \<mapsto> \<lparr>lh_next = 4, lh_prev = 1\<rparr>,
     4 \<mapsto> \<lparr>lh_next = 1, lh_prev = 2\<rparr>, 3 \<mapsto> \<lparr>lh_next = 0, lh_prev = 0\<rparr>,
     5 \<mapsto> \<lparr>lh_next = 6, lh_prev = 6\<rparr>, 6 \<mapsto> \<lparr>lh_next = 5, lh_prev = 5\<rparr>]"

lemma sample_heap_dll: "dll sample_heap 1 [2, 4]" "dll sample_heap 5 [6]" "get_next sample_heap 3 \<noteq> None"
  by (simp_all add: dll_def sample_heap_def get_next_def get_prev_def)

theorem list_operations_refine_witness:
  "(\<exists>h'. list_add 3 1 sample_heap = Some h' \<and> dll h' 1 [3, 2, 4]) \<and>
   (\<exists>h'. list_del 4 sample_heap = Some h' \<and> dll h' 1 [2])"
  using list_operations_refine [of sample_heap 1 "[2]" 4 "[]" 3] sample_heap_dll by auto

theorem list_splice_concatenates_witness:
  "\<exists>h'. list_splice_tail_init 5 1 sample_heap = Some h' \<and> dll h' 1 [2, 4, 6] \<and> dll h' 5 []"
  using list_splice_concatenates [of sample_heap 1 "[2, 4]" 5 "[6]"] sample_heap_dll by auto

end
