(* ===== verification/Registry.thy ===== *)
theory Registry
  imports CList
begin

text \<open>
  The table of known devices that both rendezvous servers keep in
  \<open>s_pall_device_info\<close>: heap objects whose first member is a \<open>struct list_head\<close>, chained
  with \<open>list.h\<close>. \<open>r_cells\<close> holds the link member of every object and \<open>r_data\<close> the other
  members (\<open>list_entry\<close> is the identity on addresses because the link is the first member).
  \<open>calloc\<close> hands out addresses that are not in use, here the next one. The locale
  \<open>device_table\<close> is the interface the message handlers rely on; it is interpreted on these
  definitions at the end.
\<close>

record 'd registry =
  r_cells :: lheap
  r_data :: "addr \<rightharpoonup> 'd"
  r_head :: addr
  r_brk :: addr

definition zero_cell :: list_head where
  "zero_cell = \<lparr>lh_next = NULL, lh_prev = NULL\<rparr>"

text \<open>\<open>main\<close>: allocate the head object and make it an empty ring.\<close>

definition registry_init :: "'d registry option" where
  "registry_init = do {
     h \<leftarrow> INIT_LIST_HEAD 1 [1 \<mapsto> zero_cell];
     Some \<lparr>r_cells = h, r_data = Map.empty, r_head = 1, r_brk = 2\<rparr> }"

text \<open>
  \<open>process_ping_cmd\<close>: allocate a device object, initialise its link, fill its members, and
  put it at the front.
\<close>

definition registry_add :: "'d \<Rightarrow> 'd registry \<Rightarrow> 'd registry option" where
  "registry_add d r = do {
     let p = r_brk r;
     h \<leftarrow> INIT_LIST_HEAD p ((r_cells r)(p \<mapsto> zero_cell));
     h \<leftarrow> list_add p (r_head r) h;
     Some (r\<lparr>r_cells := h, r_data := (r_data r)(p \<mapsto> d), r_brk := Suc p\<rparr>) }"

text \<open>\<open>list_for_each_entry(pindex, &(s_pall_device_info->list), list)\<close> with its body.\<close>

definition registry_scan :: "('d \<Rightarrow> 's \<Rightarrow> bool \<times> 's) \<Rightarrow> 's \<Rightarrow> 'd registry \<Rightarrow> 's option" where
  "registry_scan body s r =
     list_for_each (r_cells r) (r_head r)
       (\<lambda>p s. do { d \<leftarrow> r_data r p; Some (body d s) }) s"

text \<open>\<open>print_all_device_info\<close> visits every entry; the model collects what it visits.\<close>

definition registry_entries :: "'d registry \<Rightarrow> 'd list option" where
  "registry_entries r = registry_scan (\<lambda>d acc. (False, acc @ [d])) [] r"

subsection \<open>The table represents a list of devices, newest first\<close>

definition registry_repr :: "'d registry \<Rightarrow> 'd list \<Rightarrow> bool" where
  "registry_repr r ds \<longleftrightarrow>
     (\<exists>xs. dll (r_cells r) (r_head r) xs \<and> map (r_data r) xs = map Some ds) \<and>
     dom (r_cells r) \<subseteq> {..<r_brk r}"

lemma dom_get_next: "dom (get_next h) = dom h"
  by (auto simp: get_next_def)

lemma registry_init_repr: "\<exists>r. registry_init = Some r \<and> registry_repr r []"
proof -
  have "get_next [1 \<mapsto> zero_cell] 1 \<noteq> None" by (simp add: get_next_def)
  then obtain h where h: "INIT_LIST_HEAD 1 [1 \<mapsto> zero_cell] = Some h" "dll h 1 []"
    "frame [1 \<mapsto> zero_cell] h {1}"
    by (rule INIT_LIST_HEAD_dll)
  then have "dom h = {1}"
    by (simp add: frame_def dom_get_next)
  with h show ?thesis by (simp add: registry_init_def registry_repr_def)
qed

lemma get_new_cell:
  "get_next (h(p \<mapsto> c)) = (get_next h)(p \<mapsto> lh_next c)"
  "get_prev (h(p \<mapsto> c)) = (get_prev h)(p \<mapsto> lh_prev c)"
  by (auto simp: get_next_def get_prev_def)

lemma dll_new_cell:
  assumes "dll h head xs" "p \<notin> set (head # xs)"
  shows "dll (h(p \<mapsto> c)) head xs"
  using assms
  by (simp add: dll_def get_new_cell butlast_append del: fun_upd_apply)

lemma registry_add_repr:
  assumes "registry_repr r ds"
  shows "\<exists>r'. registry_add d r = Some r' \<and> registry_repr r' (d # ds)"
proof -
  let ?p = "r_brk r" and ?h0 = "(r_cells r)(r_brk r \<mapsto> zero_cell)"
  obtain xs where xs: "dll (r_cells r) (r_head r) xs" "map (r_data r) xs = map Some ds"
    and dom: "dom (r_cells r) \<subseteq> {..<?p}"
    using assms by (auto simp: registry_repr_def)
  have p: "?p \<notin> set (r_head r # xs)"
    using dll_dom [OF xs(1)] dom by (fastforce simp: get_dom(1))
  have "get_next ?h0 ?p \<noteq> None" by (simp add: get_next_def)
  then obtain h1 where h1: "INIT_LIST_HEAD ?p ?h0 = Some h1" "dll h1 ?p []" "frame ?h0 h1 {?p}"
    by (rule INIT_LIST_HEAD_dll)
  have d1: "dll h1 (r_head r) xs"
    using dll_frame [OF h1(3), of "r_head r" xs] p dll_new_cell [OF xs(1) p] by auto
  have "get_next h1 ?p \<noteq> None" using dll_dom [OF h1(2)] by simp
  then obtain h2 where h2: "list_add ?p (r_head r) h1 = Some h2" "dll h2 (r_head r) (?p # xs)"
    "frame h1 h2 (set (r_head r # ?p # xs))"
    using list_add_dll [OF d1 p] by blast
  have "dom h2 = insert ?p (dom (r_cells r))"
    using h1(3) h2(3) by (simp add: frame_def dom_get_next)
  then have "dom h2 \<subseteq> {..<Suc ?p}" using dom by auto
  moreover have "map ((r_data r)(?p \<mapsto> d)) (?p # xs) = map Some (d # ds)"
    using xs(2) p by (auto simp: map_fun_upd)
  ultimately have "registry_repr (r\<lparr>r_cells := h2, r_data := (r_data r)(?p \<mapsto> d), r_brk := Suc ?p\<rparr>) (d # ds)"
    using h2(2) unfolding registry_repr_def by fastforce
  with h1 h2 show ?thesis by (simp add: registry_add_def Let_def)
qed

lemma registry_scan_repr:
  assumes "registry_repr r ds"
  shows "registry_scan body s r = Some (fold_brk body ds s)"
proof -
  obtain xs where xs: "dll (r_cells r) (r_head r) xs" "map (r_data r) xs = map Some ds"
    using assms by (auto simp: registry_repr_def)
  have "registry_scan body s r = Some (fold_brk (\<lambda>p. body (the (r_data r p))) xs s)"
    unfolding registry_scan_def
  proof (rule list_for_each_dll [OF xs(1)])
    fix x s
    assume "x \<in> set xs"
    then have "r_data r x \<in> Some ` set ds" using xs(2) by (metis imageI list.set_map)
    then show "do { d \<leftarrow> r_data r x; Some (body d s) } = Some (body (the (r_data r x)) s)" by auto
  qed
  also have "map (the \<circ> r_data r) xs = ds"
    using xs(2) by (metis list.map_comp map_idI option.sel comp_apply)
  then have "fold_brk (\<lambda>p. body (the (r_data r p))) xs s = fold_brk body ds s"
    using fold_brk_map [of body "the \<circ> r_data r" xs s] by simp
  finally show ?thesis .
qed

lemma fold_brk_collect: "fold_brk (\<lambda>d acc. (False, acc @ [d])) ds acc = acc @ ds"
  by (induction ds arbitrary: acc) auto

lemma registry_entries_repr: "registry_repr r ds \<Longrightarrow> registry_entries r = Some ds"
  by (simp add: registry_entries_def registry_scan_repr fold_brk_collect)

subsection \<open>The interface the handlers use\<close>

locale device_table =
  fixes repr :: "'r \<Rightarrow> 'd list \<Rightarrow> bool"
    and create :: "'r option"
    and add :: "'d \<Rightarrow> 'r \<Rightarrow> 'r option"
    and scan :: "('d \<Rightarrow> 's \<Rightarrow> bool \<times> 's) \<Rightarrow> 's \<Rightarrow> 'r \<Rightarrow> 's option"
  assumes create_law: "\<exists>r. create = Some r \<and> repr r []"
    and add_law: "repr r ds \<Longrightarrow> \<exists>r'. add d r = Some r' \<and> repr r' (d # ds)"
    and scan_law: "repr r ds \<Longrightarrow> scan body s r = Some (fold_brk body ds s)"
begin

fun add_all :: "'d list \<Rightarrow> 'r \<Rightarrow> 'r option" where
  "add_all [] r = Some r"
| "add_all (d # ds) r = Option.bind (add d r) (add_all ds)"

lemma add_then_scan:
  assumes "repr r ds"
  shows "Option.bind (add d r) (scan body s) =
    Some (let (brk, s') = body d s in if brk then s' else fold_brk body ds s')"
  using add_law [OF assms, of d] scan_law by (auto simp: Let_def split_def)

lemma add_all_repr: "repr r ds \<Longrightarrow> \<exists>r'. add_all ns r = Some r' \<and> repr r' (rev ns @ ds)"
proof (induction ns arbitrary: r ds)
  case Nil
  then show ?case by simp
next
  case (Cons n ns)
  then obtain r' where "add n r = Some r'" "repr r' (n # ds)" using add_law by blast
  with Cons.IH [of r' "n # ds"] show ?case by simp
qed

lemma history_scan:
  assumes "create = Some r0" and "repr r0 []"
  shows "Option.bind (add_all ns r0) (scan body s) = Some (fold_brk body (rev ns) s)"
  using add_all_repr [OF assms(2), of ns] scan_law by auto

end

interpretation dev: device_table registry_repr registry_init registry_add registry_scan
  by unfold_locales (auto intro: registry_init_repr registry_add_repr registry_scan_repr)

end
