(* ===== verification/Wire.thy ===== *)
theory Wire
  imports Prelude
begin

text \<open>
  The messages of \<open>p2p_transfer.h\<close>, shared by the peers and the servers of both transports,
  and the helper functions of \<open>p2p_transfer.c\<close>. The structs go over the network as they lie
  in memory, so their layout is part of the protocol: little-endian fields at their natural
  alignment (x86-64), padding bytes zero because every message is built in a \<open>calloc\<close>ed
  buffer. \<open>dec_*\<close> reads a struct out of a receive buffer as the C casts do.
\<close>

subsection \<open>Constants\<close>

definition P2P_TRANSFER_MAGIC :: u64 where
  "P2P_TRANSFER_MAGIC = 0xbeefdead1234"

definition P2P_TRANSFER_SERVER_PORT :: u16 where "P2P_TRANSFER_SERVER_PORT = 7172"

definition P2P_TRANSFER_MAX_MSG_LENGTH :: nat where "P2P_TRANSFER_MAX_MSG_LENGTH = 128"

text \<open>The network type enumeration (also in \<open>nat_probe.h\<close>).\<close>

definition NP_UNKNOWN :: i32 where "NP_UNKNOWN = 0"
definition NP_PUBLIC_NETWORK :: i32 where "NP_PUBLIC_NETWORK = 1"
definition NP_FULL_CONE_NAT :: i32 where "NP_FULL_CONE_NAT = 2"
definition NP_RESTRICTED_CONE_NAT :: i32 where "NP_RESTRICTED_CONE_NAT = 3"
definition NP_PORT_RESTRICTED_CONE_NAT :: i32 where "NP_PORT_RESTRICTED_CONE_NAT = 4"
definition NP_SYMMETRIC_NAT :: i32 where "NP_SYMMETRIC_NAT = 5"

lemmas np_type_defs = NP_UNKNOWN_def NP_PUBLIC_NETWORK_def NP_FULL_CONE_NAT_def
  NP_RESTRICTED_CONE_NAT_def NP_PORT_RESTRICTED_CONE_NAT_def NP_SYMMETRIC_NAT_def

text \<open>The command enumeration; \<open>PUNCH_HOLE_TO_PEER\<close> and \<open>USER_DATA\<close> exist over UDP only.\<close>

definition P2P_TRANSFER_UNKNOWN_CMD :: i32 where "P2P_TRANSFER_UNKNOWN_CMD = 0"
definition P2P_TRANSFER_PING :: i32 where "P2P_TRANSFER_PING = 1"
definition P2P_TRANSFER_QUERY_DEVICE_INFO_REQUEST :: i32 where
  "P2P_TRANSFER_QUERY_DEVICE_INFO_REQUEST = 2"
definition P2P_TRANSFER_QUERY_DEVICE_INFO_RESPONSE :: i32 where
  "P2P_TRANSFER_QUERY_DEVICE_INFO_RESPONSE = 3"
definition P2P_TRANSFER_PUNCH_HOLE :: i32 where "P2P_TRANSFER_PUNCH_HOLE = 4"
definition P2P_TRANSFER_PUNCH_HOLE_TO_PEER :: i32 where "P2P_TRANSFER_PUNCH_HOLE_TO_PEER = 5"
definition P2P_TRANSFER_USER_DATA :: i32 where "P2P_TRANSFER_USER_DATA = 6"

lemmas cmd_defs = P2P_TRANSFER_UNKNOWN_CMD_def P2P_TRANSFER_PING_def
  P2P_TRANSFER_QUERY_DEVICE_INFO_REQUEST_def P2P_TRANSFER_QUERY_DEVICE_INFO_RESPONSE_def
  P2P_TRANSFER_PUNCH_HOLE_def P2P_TRANSFER_PUNCH_HOLE_TO_PEER_def P2P_TRANSFER_USER_DATA_def

subsection \<open>Names for logging\<close>

definition get_string_network_type :: "i32 \<Rightarrow> string" where
  "get_string_network_type network_type =
     (let names = [''UNKNOWN'', ''PUBLIC_NETWORK'', ''FULL_CONE_NAT'', ''RESTRICTED_CONE_NAT'',
                   ''PORT_RESTRICTED_CONE_NAT'', ''SYMMETRIC_NAT''];
          t = (if sint network_type < sint NP_UNKNOWN \<or> sint network_type > sint NP_SYMMETRIC_NAT
               then NP_UNKNOWN else network_type)
      in names ! nat (sint t))"

definition get_string_cmd :: "i32 \<Rightarrow> string" where
  "get_string_cmd cmd =
     (let names = [''P2P_TRANSFER_UNKNOWN_CMD'', ''P2P_TRANSFER_PING'',
                   ''P2P_TRANSFER_QUERY_DEVICE_INFO_REQUEST'',
                   ''P2P_TRANSFER_QUERY_DEVICE_INFO_RESPONSE'', ''P2P_TRANSFER_PUNCH_HOLE'',
                   ''P2P_TRANSFER_PUNCH_HOLE_TO_PEER'', ''P2P_TRANSFER_USER_DATA''];
          c = (if sint cmd < sint P2P_TRANSFER_UNKNOWN_CMD \<or> sint cmd > sint P2P_TRANSFER_USER_DATA
               then P2P_TRANSFER_UNKNOWN_CMD else cmd)
      in names ! nat (sint c))"

subsection \<open>Socket options\<close>

text \<open>
  The option numbers are those of Linux. \<open>set_sock_opt\<close> tests them as if they were disjoint
  flag bits. The model returns the options that were requested from the kernel, in order, with
  the result; \<open>ok\<close> says whether \<open>setsockopt\<close> succeeds for an option, \<open>reuseport\<close> whether the
  middle block is compiled in.
\<close>

definition SO_REUSEADDR :: u32 where "SO_REUSEADDR = 2"
definition SO_KEEPALIVE :: u32 where "SO_KEEPALIVE = 9"
definition SO_REUSEPORT :: u32 where "SO_REUSEPORT = 15"

lemmas so_defs = SO_REUSEADDR_def SO_KEEPALIVE_def SO_REUSEPORT_def

definition set_sock_opt :: "bool \<Rightarrow> (u32 \<Rightarrow> bool) \<Rightarrow> u32 \<Rightarrow> u32 list \<times> int" where
  "set_sock_opt reuseport ok flag =
     (let step = (\<lambda>opt (done, r). if r = 0 \<and> and flag opt \<noteq> 0
                    then (done @ [opt], if ok opt then 0 else - 1) else (done, r))
      in step SO_KEEPALIVE
           ((if reuseport then step SO_REUSEPORT else id) (step SO_REUSEADDR ([], 0))))"

subsection \<open>The message structs\<close>

record p2p_msg_ping_t =
  ping_device_sn :: u64
  ping_network_type :: i32

record p2p_msg_device_info_t =
  device_sn :: u64
  ip_addr :: u32
  port :: u16
  network_type :: i32

record p2p_msg_head_t =
  magic :: u64
  msgid :: u64
  src_device_sn :: u64
  dst_device_sn :: u64
  cmd_len :: u32
  cmd :: i32

record sockaddr_in =
  sin_addr :: u32
  sin_port :: u16

text \<open>What \<open>calloc\<close> leaves in a struct before its fields are assigned.\<close>

definition zero_head :: p2p_msg_head_t where
  "zero_head = \<lparr>magic = 0, msgid = 0, src_device_sn = 0, dst_device_sn = 0, cmd_len = 0, cmd = 0\<rparr>"

definition zero_info :: p2p_msg_device_info_t where
  "zero_info = \<lparr>device_sn = 0, ip_addr = 0, port = 0, network_type = 0\<rparr>"

definition sizeof_head :: nat where "sizeof_head = 40"
definition sizeof_ping :: nat where "sizeof_ping = 16"
definition sizeof_info :: nat where "sizeof_info = 24"

lemmas sizeof_defs = sizeof_head_def sizeof_ping_def sizeof_info_def

definition enc_head :: "p2p_msg_head_t \<Rightarrow> byte list" where
  "enc_head m = le_bytes 8 (unat (magic m)) @ le_bytes 8 (unat (msgid m)) @
     le_bytes 8 (unat (src_device_sn m)) @ le_bytes 8 (unat (dst_device_sn m)) @
     le_bytes 4 (unat (cmd_len m)) @ le_bytes 4 (unat (cmd m))"

definition enc_ping :: "p2p_msg_ping_t \<Rightarrow> byte list" where
  "enc_ping p = le_bytes 8 (unat (ping_device_sn p)) @ le_bytes 4 (unat (ping_network_type p)) @
     replicate 4 0"

definition enc_info :: "p2p_msg_device_info_t \<Rightarrow> byte list" where
  "enc_info d = le_bytes 8 (unat (device_sn d)) @ le_bytes 4 (unat (ip_addr d)) @
     le_bytes 2 (unat (port d)) @ replicate 2 0 @ le_bytes 4 (unat (network_type d)) @ replicate 4 0"

text \<open>\<open>field off k buf\<close> is the unsigned value of the \<open>k\<close> bytes at offset \<open>off\<close>.\<close>

definition field :: "nat \<Rightarrow> nat \<Rightarrow> byte list \<Rightarrow> nat" where
  "field off k buf = le_val (take k (drop off buf))"

definition dec_head :: "byte list \<Rightarrow> p2p_msg_head_t" where
  "dec_head buf = \<lparr>magic = of_nat (field 0 8 buf), msgid = of_nat (field 8 8 buf),
     src_device_sn = of_nat (field 16 8 buf), dst_device_sn = of_nat (field 24 8 buf),
     cmd_len = of_nat (field 32 4 buf), cmd = of_nat (field 36 4 buf)\<rparr>"

definition dec_ping :: "byte list \<Rightarrow> p2p_msg_ping_t" where
  "dec_ping buf = \<lparr>ping_device_sn = of_nat (field 0 8 buf), ping_network_type = of_nat (field 8 4 buf)\<rparr>"

definition dec_info :: "byte list \<Rightarrow> p2p_msg_device_info_t" where
  "dec_info buf = \<lparr>device_sn = of_nat (field 0 8 buf), ip_addr = of_nat (field 8 4 buf),
     port = of_nat (field 12 2 buf), network_type = of_nat (field 16 4 buf)\<rparr>"

text \<open>
  A datagram of any length read into a zeroed buffer of \<open>n\<close> bytes: longer input is cut off,
  the rest of the buffer keeps its zeros.
\<close>

definition fill :: "nat \<Rightarrow> byte list \<Rightarrow> byte list" where
  "fill n d = take n d @ replicate (n - length d) 0"

definition cmd_data :: "byte list \<Rightarrow> byte list" where
  "cmd_data buf = drop sizeof_head buf"

lemma length_enc [simp, wire_simps]:
  "length (enc_head m) = sizeof_head" "length (enc_ping p) = sizeof_ping"
  "length (enc_info d) = sizeof_info" "length (fill n b) = n"
  by (simp_all add: enc_head_def enc_ping_def enc_info_def sizeof_defs fill_def)

lemma dec_enc_head [simp, wire_simps]: "dec_head (enc_head m @ rest) = m"
  by (simp add: dec_head_def enc_head_def field_def)

lemma dec_enc_ping [simp, wire_simps]: "dec_ping (enc_ping p @ rest) = p"
  by (simp add: dec_ping_def enc_ping_def field_def)

lemma dec_enc_info [simp, wire_simps]: "dec_info (enc_info d @ rest) = d"
  by (simp add: dec_info_def enc_info_def field_def)

lemma cmd_data_enc [simp, wire_simps]: "cmd_data (enc_head m @ rest) = rest"
  using length_enc(1) [of m] by (simp add: cmd_data_def)

text \<open>A message that fits arrives unchanged but for trailing zeros.\<close>

lemma fill_fits [wire_simps]: "length d \<le> n \<Longrightarrow> fill n d = d @ replicate (n - length d) 0"
  by (simp add: fill_def)

subsection \<open>Properties\<close>

text \<open>A message struct written to the wire and read out of a zeroed receive buffer of any
  sufficient size comes back unchanged, header and payload.\<close>

theorem messages_round_trip:
  "dec_head (fill (sizeof_head + sizeof_info + n) (enc_head m @ enc_info d)) = m \<and>
   dec_info (cmd_data (fill (sizeof_head + sizeof_info + n) (enc_head m @ enc_info d))) = d \<and>
   dec_ping (cmd_data (fill (sizeof_head + sizeof_ping + n) (enc_head m @ enc_ping p))) = p \<and>
   dec_head (fill (sizeof_head + sizeof_ping + n) (enc_head m @ enc_ping p)) = m"
  by (simp add: fill_fits)

text \<open>\<open>set_sock_opt\<close> treats Linux's option numbers as flag bits, which they are not: asked for
  keep-alive (9) alone it also sets port reuse (15), asked for address reuse (2) alone it does so
  too, and any request that shares a bit sets both. When all calls succeed it returns 0.\<close>

theorem set_sock_opt_confuses_flags:
  "set_sock_opt True (\<lambda>_. True) SO_KEEPALIVE = ([SO_REUSEPORT, SO_KEEPALIVE], 0) \<and>
   set_sock_opt True (\<lambda>_. True) SO_REUSEADDR = ([SO_REUSEADDR, SO_REUSEPORT], 0) \<and>
   set_sock_opt True (\<lambda>_. True) SO_REUSEPORT = ([SO_REUSEADDR, SO_REUSEPORT, SO_KEEPALIVE], 0)"
  by code_simp

text \<open>The names logged for network types and commands never read outside their tables: every
  value outside the enumeration is named as the unknown one.\<close>

theorem names_clamped:
  "get_string_network_type t \<in> set [''UNKNOWN'', ''PUBLIC_NETWORK'', ''FULL_CONE_NAT'', ''RESTRICTED_CONE_NAT'',
      ''PORT_RESTRICTED_CONE_NAT'', ''SYMMETRIC_NAT''] \<and>
   (get_string_network_type t = ''UNKNOWN'' \<longleftrightarrow> sint t \<le> 0 \<or> sint t > 5) \<and>
   (get_string_cmd c = ''P2P_TRANSFER_UNKNOWN_CMD'' \<longleftrightarrow> sint c \<le> 0 \<or> sint c > 6)"
proof -
  have t: "sint t < 0 \<or> sint t > 5 \<or> sint t = 0 \<or> sint t = 1 \<or> sint t = 2 \<or> sint t = 3 \<or> sint t = 4 \<or> sint t = 5"
    by linarith
  have c: "sint c < 0 \<or> sint c > 6 \<or> sint c = 0 \<or> sint c = 1 \<or> sint c = 2 \<or> sint c = 3 \<or> sint c = 4
      \<or> sint c = 5 \<or> sint c = 6"
    by linarith
  have "get_string_network_type t \<in> set [''UNKNOWN'', ''PUBLIC_NETWORK'', ''FULL_CONE_NAT'', ''RESTRICTED_CONE_NAT'',
      ''PORT_RESTRICTED_CONE_NAT'', ''SYMMETRIC_NAT''] \<and>
   (get_string_network_type t = ''UNKNOWN'' \<longleftrightarrow> sint t \<le> 0 \<or> sint t > 5)"
    using t by (elim disjE) (simp_all add: get_string_network_type_def np_type_defs Let_def)
  moreover have "get_string_cmd c = ''P2P_TRANSFER_UNKNOWN_CMD'' \<longleftrightarrow> sint c \<le> 0 \<or> sint c > 6"
    using c by (elim disjE) (simp_all add: get_string_cmd_def cmd_defs Let_def)
  ultimately show ?thesis by blast
qed

end
