(* ===== verification/UdpWorld.thy ===== *)
theory UdpWorld
  imports Wire
begin

text \<open>
  What the UDP programs share: the datagrams a program has sent, how often it called \<open>calloc\<close>
  and \<open>sendto\<close>, and the macros around these calls from
  \<open>p2p_transfer_udp/*/p2p_transfer.h\<close> and \<open>p2p_transfer.c\<close>. The operating system is the argument
  \<open>env\<close>: it says for every call, by its number, whether it succeeds. The server and the peer
  extend the record \<open>udp_world\<close>.
\<close>

datatype errno = EINTR | ETIMEDOUT | EOTHER

record udp_env =
  calloc_ok :: "nat \<Rightarrow> bool"
  sendto_err :: "nat \<Rightarrow> errno option"

datatype recv_result = Received "byte list" sockaddr_in | RecvError errno

record udp_world =
  us_callocs :: nat
  us_sends :: nat
  us_sent :: "(byte list \<times> sockaddr_in) list"

subsection \<open>The system calls\<close>

definition us_calloc :: "udp_env \<Rightarrow> 'w udp_world_scheme \<Rightarrow> bool \<times> 'w udp_world_scheme" where
  "us_calloc env s = (calloc_ok env (us_callocs s), s\<lparr>us_callocs := Suc (us_callocs s)\<rparr>)"

text \<open>
  \<open>SAFE_SENDTO\<close>: the first component says whether control goes to \<open>ERR\<close>. The \<open>continue\<close> of the
  macro stands in a \<open>do ... while (0)\<close>, so after \<open>EINTR\<close> the loop is left and the function goes
  on as if the datagram had been sent.
\<close>

definition us_safe_sendto ::
  "udp_env \<Rightarrow> byte list \<Rightarrow> sockaddr_in \<Rightarrow> 'w udp_world_scheme \<Rightarrow> bool \<times> 'w udp_world_scheme" where
  "us_safe_sendto env buf dst s =
     (let s' = s\<lparr>us_sends := Suc (us_sends s)\<rparr> in
      case sendto_err env (us_sends s) of
        None \<Rightarrow> (False, s'\<lparr>us_sent := us_sent s @ [(buf, dst)]\<rparr>)
      | Some EINTR \<Rightarrow> (False, s')
      | Some _ \<Rightarrow> (True, s'))"

text \<open>
  \<open>inet_addr("0.0.0.0")\<close> is 0; the port goes in network order. (A sender sees the server at
  that address, which the kernel takes as the local host.)
\<close>

definition P2P_TRANSFER_SERVER_IP :: u32 where "P2P_TRANSFER_SERVER_IP = 0"

definition generate_server_addr :: sockaddr_in where
  "generate_server_addr =
     \<lparr>sin_addr = P2P_TRANSFER_SERVER_IP, sin_port = htons P2P_TRANSFER_SERVER_PORT\<rparr>"

definition generate_peer_addr :: "p2p_msg_device_info_t \<Rightarrow> sockaddr_in" where
  "generate_peer_addr d = \<lparr>sin_addr = ip_addr d, sin_port = port d\<rparr>"

text \<open>An environment in which no system call fails.\<close>

definition all_ok :: udp_env where
  "all_ok = \<lparr>calloc_ok = (\<lambda>_. True), sendto_err = (\<lambda>_. None)\<rparr>"

lemma us_calloc_all_ok [simp]: "us_calloc all_ok s = (True, s\<lparr>us_callocs := Suc (us_callocs s)\<rparr>)"
  by (simp add: us_calloc_def all_ok_def)

lemma us_safe_sendto_all_ok [simp]:
  "us_safe_sendto all_ok buf dst s =
     (False, s\<lparr>us_sends := Suc (us_sends s), us_sent := us_sent s @ [(buf, dst)]\<rparr>)"
  by (simp add: us_safe_sendto_def all_ok_def Let_def)

lemma us_safe_sendto_sent:
  "us_sent (snd (us_safe_sendto env buf dst s)) =
     us_sent s @ (if sendto_err env (us_sends s) = None then [(buf, dst)] else [])"
  by (auto simp: us_safe_sendto_def Let_def split: option.splits errno.splits)

end
