(* ===== verification/Query.thy ===== *)
theory Query
  imports Wire
begin

text \<open>
  The device search of \<open>process_query_device_info_cmd\<close> and the two messages it fills in. The
  text of this loop is the same in the UDP and in the TCP server but for one more variable
  that the TCP server assigns; the record of the loop's variables is open for it.
\<close>

definition punch_hole_msg :: "p2p_msg_device_info_t \<Rightarrow> byte list" where
  "punch_hole_msg psrc =
     enc_head (zero_head\<lparr>magic := P2P_TRANSFER_MAGIC, cmd_len := 0, cmd := P2P_TRANSFER_PUNCH_HOLE\<rparr>)
     @ enc_info psrc"

text \<open>The variables that the search loop of \<open>process_query_device_info_cmd\<close> assigns.\<close>

record query_state =
  q_cmd :: i32
  q_info :: p2p_msg_device_info_t
  q_src :: p2p_msg_device_info_t
  q_num :: int

definition query_start :: query_state where
  "query_start = \<lparr>q_cmd = P2P_TRANSFER_UNKNOWN_CMD, q_info = zero_info, q_src = zero_info, q_num = 0\<rparr>"

definition query_step ::
  "u64 \<Rightarrow> u64 \<Rightarrow> p2p_msg_device_info_t \<Rightarrow> 'a query_state_scheme \<Rightarrow> bool \<times> 'a query_state_scheme" where
  "query_step src_sn query_sn d st =
     (let st = (if device_sn d = query_sn
                then st\<lparr>q_cmd := P2P_TRANSFER_QUERY_DEVICE_INFO_RESPONSE, q_info := d,
                       q_num := q_num st + 1\<rparr> else st);
          st = (if device_sn d = src_sn then st\<lparr>q_src := d, q_num := q_num st + 1\<rparr> else st)
      in (q_num st = 2, st))"

definition response_msg :: "'a query_state_scheme \<Rightarrow> byte list" where
  "response_msg st =
     enc_head (zero_head\<lparr>magic := P2P_TRANSFER_MAGIC, cmd := q_cmd st,
       cmd_len := of_nat sizeof_info\<rparr>) @ enc_info (q_info st)"

subsection \<open>The search loop\<close>

abbreviation entries_of :: "u64 \<Rightarrow> p2p_msg_device_info_t list \<Rightarrow> p2p_msg_device_info_t list" where
  "entries_of sn ds \<equiv> filter (\<lambda>d. device_sn d = sn) ds"

lemma query_step_cases:
  "device_sn d = q \<Longrightarrow> q \<noteq> src \<Longrightarrow> query_step src q d st =
     (q_num st = 1, st\<lparr>q_cmd := P2P_TRANSFER_QUERY_DEVICE_INFO_RESPONSE, q_info := d,
                       q_num := q_num st + 1\<rparr>)"
  "device_sn d = src \<Longrightarrow> q \<noteq> src \<Longrightarrow> query_step src q d st =
     (q_num st = 1, st\<lparr>q_src := d, q_num := q_num st + 1\<rparr>)"
  "device_sn d \<noteq> q \<Longrightarrow> device_sn d \<noteq> src \<Longrightarrow> query_step src q d st = (q_num st = 2, st)"
  by (auto simp: query_step_def)

text \<open>
  The loop stops when its counter reaches 2, whatever was counted. If each of two different
  devices has at most one entry it finds what is there.
\<close>

lemma query_fold:
  assumes "src \<noteq> q" "length (entries_of q ds) \<le> 1" "length (entries_of src ds) \<le> 1"
    and "q_num st + int (length (entries_of q ds)) + int (length (entries_of src ds)) \<le> 2"
  shows "fold_brk (query_step src q) ds st =
    st\<lparr>q_cmd := (if entries_of q ds = [] then q_cmd st else P2P_TRANSFER_QUERY_DEVICE_INFO_RESPONSE),
       q_info := (case entries_of q ds of [] \<Rightarrow> q_info st | d # _ \<Rightarrow> d),
       q_src := (case entries_of src ds of [] \<Rightarrow> q_src st | d # _ \<Rightarrow> d),
       q_num := q_num st + int (length (entries_of q ds)) + int (length (entries_of src ds))\<rparr>"
  using assms
proof (induction ds arbitrary: st)
  case Nil
  then show ?case by simp
next
  case (Cons d ds)
  consider (q) "device_sn d = q" | (s) "device_sn d = src" | (no) "device_sn d \<noteq> q" "device_sn d \<noteq> src"
    by blast
  then show ?case
  proof cases
    case q
    with Cons.prems have none: "entries_of q ds = []" by simp
    with q Cons.prems Cons.IH [of "snd (query_step src q d st)"] show ?thesis
      by (cases "entries_of src ds") (auto simp: query_step_cases)
  next
    case s
    with Cons.prems have none: "entries_of src ds = []" by simp
    with s Cons.prems Cons.IH [of "snd (query_step src q d st)"] show ?thesis
      by (cases "entries_of q ds") (auto simp: query_step_cases)
  next
    case no
    show ?thesis
    proof (cases "q_num st = 2")
      case True
      with no Cons.prems have "entries_of q ds = []" "entries_of src ds = []"
        by (simp_all flip: length_0_conv)
      with no True show ?thesis by (simp add: query_step_cases)
    next
      case False
      with no Cons.prems Cons.IH [of st] show ?thesis by (auto simp: query_step_cases)
    qed
  qed
qed

text \<open>Two entries of one device use the counter up: nothing behind them is looked at.\<close>

lemma query_fold_two_src:
  assumes "device_sn d1 = src" "device_sn d2 = src" "src \<noteq> q"
  shows "fold_brk (query_step src q) (d1 # d2 # ds) query_start =
    query_start\<lparr>q_src := d2, q_num := 2\<rparr>"
  using assms by (simp add: query_step_def query_start_def)

lemma query_fold_two_query:
  assumes "device_sn d1 = q" "device_sn d2 = q" "src \<noteq> q"
  shows "fold_brk (query_step src q) (d1 # d2 # ds) query_start =
    query_start\<lparr>q_cmd := P2P_TRANSFER_QUERY_DEVICE_INFO_RESPONSE, q_info := d2, q_num := 2\<rparr>"
  using assms by (simp add: query_step_def query_start_def)

end
