(* ===== verification/UdpServer.thy ===== *)
theory UdpServer
  imports Registry UdpWorld Query
begin

text \<open>
  The UDP rendezvous server, \<open>p2p_transfer_udp/p2p_transfer_server/p2p_transfer_server.c\<close>.
  Its state is the device table on top of the socket state of \<open>UdpWorld\<close>. A handler returns
  \<open>None\<close> if it makes an invalid memory access or a loop does not end.
\<close>

record udp_server = udp_world +
  us_table :: "p2p_msg_device_info_t registry"

subsection \<open>The handlers\<close>

definition device_of_ping :: "p2p_msg_ping_t \<Rightarrow> sockaddr_in \<Rightarrow> p2p_msg_device_info_t" where
  "device_of_ping pping addr =
     \<lparr>device_sn = ping_device_sn pping, ip_addr = sin_addr addr, port = sin_port addr,
      network_type = ping_network_type pping\<rparr>"

definition udp_process_ping_cmd ::
  "udp_env \<Rightarrow> p2p_msg_ping_t \<Rightarrow> sockaddr_in \<Rightarrow> udp_server \<Rightarrow> (int \<times> udp_server) option" where
  "udp_process_ping_cmd env pping addr s =
     (let (ok, s) = us_calloc env s in
      if \<not> ok then Some (- 1, s)
      else do {
        t \<leftarrow> registry_add (device_of_ping pping addr) (us_table s);
        _ \<leftarrow> registry_entries t;
        Some (0, s\<lparr>us_table := t\<rparr>) })"

definition udp_send_punch_hole_cmd_to_peer ::
  "udp_env \<Rightarrow> p2p_msg_device_info_t \<Rightarrow> p2p_msg_device_info_t \<Rightarrow> udp_server \<Rightarrow> int \<times> udp_server" where
  "udp_send_punch_hole_cmd_to_peer env psrc pquery s =
     (let (ok, s) = us_calloc env s in
      if \<not> ok then (- 1, s)
      else let (err, s) = us_safe_sendto env (punch_hole_msg psrc) (generate_peer_addr pquery) s in
        if err then (- 1, s) else (0, s))"

definition udp_process_query_device_info_cmd ::
  "udp_env \<Rightarrow> u64 \<Rightarrow> u64 \<Rightarrow> sockaddr_in \<Rightarrow> udp_server \<Rightarrow> (int \<times> udp_server) option" where
  "udp_process_query_device_info_cmd env src_sn query_sn src_addr s =
     (let (ok1, s) = us_calloc env s in
      if \<not> ok1 then Some (- 1, s)
      else let (ok2, s) = us_calloc env s in
      if \<not> ok2 then Some (- 1, s)
      else do {
        st \<leftarrow> registry_scan (query_step src_sn query_sn) query_start (us_table s);
        let (r, s) = (if q_cmd st = P2P_TRANSFER_QUERY_DEVICE_INFO_RESPONSE
                      then udp_send_punch_hole_cmd_to_peer env (q_src st) (q_info st) s
                      else (0, s));
        if r = - 1 then Some (- 1, s)
        else let (err, s) = us_safe_sendto env (response_msg st) src_addr s in
          Some (if err then - 1 else 0, s) })"

definition udp_dispatch :: "udp_env \<Rightarrow> byte list \<Rightarrow> sockaddr_in \<Rightarrow> udp_server \<Rightarrow> udp_server option" where
  "udp_dispatch env buf addr s =
     (let req = dec_head buf in
      if cmd req = P2P_TRANSFER_PING
      then map_option snd (udp_process_ping_cmd env (dec_ping (cmd_data buf)) addr s)
      else if cmd req = P2P_TRANSFER_QUERY_DEVICE_INFO_REQUEST
      then map_option snd (udp_process_query_device_info_cmd env (src_device_sn req)
             (device_sn (dec_info (cmd_data buf))) addr s)
      else Some s)"

text \<open>
  \<open>read_cb\<close>. After \<open>EINTR\<close> the \<open>continue\<close> of \<open>SAFE_RECVFROM\<close> leaves the macro, and the handler
  goes on with the zeroed buffer and an address nobody filled in, which the zero command
  never looks at.
\<close>

definition udp_server_read_cb :: "udp_env \<Rightarrow> recv_result \<Rightarrow> udp_server \<Rightarrow> udp_server option" where
  "udp_server_read_cb env rcv s =
     (let (ok, s) = us_calloc env s in
      if \<not> ok then Some s
      else case rcv of
        Received d addr \<Rightarrow> udp_dispatch env (fill P2P_TRANSFER_MAX_MSG_LENGTH d) addr s
      | RecvError EINTR \<Rightarrow>
          udp_dispatch env (replicate P2P_TRANSFER_MAX_MSG_LENGTH 0) \<lparr>sin_addr = 0, sin_port = 0\<rparr> s
      | RecvError _ \<Rightarrow> Some s)"

definition udp_server_start :: "udp_server option" where
  "udp_server_start = map_option
     (\<lambda>t. \<lparr>us_callocs = 0, us_sends = 0, us_sent = [], us_table = t\<rparr>) registry_init"

fun udp_server_run :: "udp_env \<Rightarrow> recv_result list \<Rightarrow> udp_server \<Rightarrow> udp_server option" where
  "udp_server_run env [] s = Some s"
| "udp_server_run env (e # es) s = Option.bind (udp_server_read_cb env e s) (udp_server_run env es)"

lemmas udp_handler_defs = us_calloc_def us_safe_sendto_def udp_process_ping_cmd_def
  udp_send_punch_hole_cmd_to_peer_def udp_process_query_device_info_cmd_def udp_dispatch_def
  udp_server_read_cb_def

subsection \<open>What a handler does to the table\<close>

abbreviation udp_repr :: "udp_server \<Rightarrow> p2p_msg_device_info_t list \<Rightarrow> bool" where
  "udp_repr s ds \<equiv> registry_repr (us_table s) ds"

lemma safe_sendto_table [simp]: "us_table (snd (us_safe_sendto env buf dst s)) = us_table s"
  by (auto simp: us_safe_sendto_def Let_def split: option.splits errno.splits)

lemma send_punch_table [simp]:
  "us_table (snd (udp_send_punch_hole_cmd_to_peer env a b s)) = us_table s"
  using safe_sendto_table
  by (auto simp: udp_send_punch_hole_cmd_to_peer_def us_calloc_def Let_def split_def)

lemma process_ping_repr:
  assumes "udp_repr s ds"
  shows "\<exists>r s'. udp_process_ping_cmd env p addr s = Some (r, s') \<and>
    udp_repr s' (if calloc_ok env (us_callocs s) then device_of_ping p addr # ds else ds) \<and>
    us_sent s' = us_sent s"
proof -
  obtain t where t: "registry_add (device_of_ping p addr) (us_table s) = Some t"
    "registry_repr t (device_of_ping p addr # ds)"
    using dev.add_law [OF assms] by blast
  with assms registry_entries_repr [OF t(2)] show ?thesis
    by (auto simp: udp_process_ping_cmd_def us_calloc_def Let_def)
qed

lemma process_query_repr:
  assumes "udp_repr s ds"
  shows "\<exists>r s'. udp_process_query_device_info_cmd env src q addr s = Some (r, s') \<and> us_table s' = us_table s"
proof -
  have "registry_scan (query_step src q) query_start (us_table s)
      = Some (fold_brk (query_step src q) ds query_start)"
    using dev.scan_law [OF assms] .
  then show ?thesis
    by (auto simp: udp_process_query_device_info_cmd_def us_calloc_def Let_def split_def)
qed

text \<open>Every handler call returns, whatever the datagram and the system calls do.\<close>

text \<open>The device a datagram registers, if it is a ping.\<close>

definition ping_of :: "recv_result \<Rightarrow> p2p_msg_device_info_t list" where
  "ping_of rcv = (case rcv of
     Received d addr \<Rightarrow>
       let buf = fill P2P_TRANSFER_MAX_MSG_LENGTH d in
       if cmd (dec_head buf) = P2P_TRANSFER_PING
       then [device_of_ping (dec_ping (cmd_data buf)) addr] else []
   | RecvError _ \<Rightarrow> [])"

lemma dec_head_zero: "cmd (dec_head (replicate n 0)) = 0"
  by (simp add: dec_head_def field_def)

lemma read_cb_repr:
  assumes "udp_repr s ds"
  shows "\<exists>s'. udp_server_read_cb env rcv s = Some s' \<and>
    udp_repr s' ((if calloc_ok env (us_callocs s) \<and> calloc_ok env (Suc (us_callocs s))
                  then ping_of rcv else []) @ ds) \<and>
    (ping_of rcv \<noteq> [] \<longrightarrow> us_sent s' = us_sent s)"
proof -
  let ?s = "s\<lparr>us_callocs := Suc (us_callocs s)\<rparr>"
  have r: "udp_repr ?s ds" using assms by simp
  show ?thesis
  proof (cases rcv)
    case (Received d addr)
    let ?buf = "fill P2P_TRANSFER_MAX_MSG_LENGTH d"
    show ?thesis
    proof (cases "calloc_ok env (us_callocs s)")
      case False
      with Received r show ?thesis by (auto simp: udp_server_read_cb_def us_calloc_def)
    next
      case True
      obtain r1 s1 where p: "udp_process_ping_cmd env (dec_ping (cmd_data ?buf)) addr ?s = Some (r1, s1)"
        "udp_repr s1 (if calloc_ok env (us_callocs ?s)
           then device_of_ping (dec_ping (cmd_data ?buf)) addr # ds else ds)"
        "us_sent s1 = us_sent s"
        using process_ping_repr [OF r] by fastforce
      obtain r2 s2 where q: "udp_process_query_device_info_cmd env (src_device_sn (dec_head ?buf))
          (device_sn (dec_info (cmd_data ?buf))) addr ?s = Some (r2, s2)" "us_table s2 = us_table ?s"
        using process_query_repr [OF r] by blast
      show ?thesis
        using True Received p q assms
        by (auto simp: udp_server_read_cb_def us_calloc_def udp_dispatch_def Let_def ping_of_def cmd_defs)
    qed
  next
    case (RecvError e)
    with assms show ?thesis
      by (cases e) (auto simp: udp_server_read_cb_def us_calloc_def udp_dispatch_def Let_def
          ping_of_def dec_head_zero cmd_defs)
  qed
qed

lemma udp_server_start_repr: "\<exists>s. udp_server_start = Some s \<and> udp_repr s []"
  using dev.create_law by (auto simp: udp_server_start_def)


subsection \<open>Queries over a table without duplicates\<close>

lemma query_result:
  assumes "udp_repr s ds" "src \<noteq> q"
    and "length (entries_of q ds) \<le> 1" "length (entries_of src ds) \<le> 1"
  obtains st where "registry_scan (query_step src q) query_start (us_table s) = Some st"
    "q_cmd st = (if entries_of q ds = [] then P2P_TRANSFER_UNKNOWN_CMD
                 else P2P_TRANSFER_QUERY_DEVICE_INFO_RESPONSE)"
    "q_info st = (case entries_of q ds of [] \<Rightarrow> zero_info | d # _ \<Rightarrow> d)"
    "q_src st = (case entries_of src ds of [] \<Rightarrow> zero_info | d # _ \<Rightarrow> d)"
proof (rule that)
  show "registry_scan (query_step src q) query_start (us_table s)
      = Some (fold_brk (query_step src q) ds query_start)"
    by (rule dev.scan_law [OF assms(1)])
qed (use assms(2-4) in \<open>simp_all add: query_fold query_start_def split: list.splits\<close>)

text \<open>The two datagrams of a successful query.\<close>

definition query_answer ::
  "p2p_msg_device_info_t \<Rightarrow> p2p_msg_device_info_t \<Rightarrow> sockaddr_in \<Rightarrow> (byte list \<times> sockaddr_in) list" where
  "query_answer dsrc dq addr =
     [(punch_hole_msg dsrc, generate_peer_addr dq),
      (enc_head (zero_head\<lparr>magic := P2P_TRANSFER_MAGIC,
         cmd := P2P_TRANSFER_QUERY_DEVICE_INFO_RESPONSE, cmd_len := of_nat sizeof_info\<rparr>) @ enc_info dq, addr)]"

lemma process_query_answer:
  assumes "registry_scan (query_step src q) query_start (us_table s) = Some st"
    and "q_cmd st = P2P_TRANSFER_QUERY_DEVICE_INFO_RESPONSE"
  shows "\<exists>s'. udp_process_query_device_info_cmd all_ok src q addr s = Some (0, s') \<and>
    us_table s' = us_table s \<and> us_sent s' = us_sent s @ query_answer (q_src st) (q_info st) addr"
  using assms
  by (simp add: udp_process_query_device_info_cmd_def us_calloc_def Let_def all_ok_def
      udp_send_punch_hole_cmd_to_peer_def us_safe_sendto_def query_answer_def response_msg_def)

lemma process_query_unknown:
  assumes "registry_scan (query_step src q) query_start (us_table s) = Some st"
    and "q_cmd st = P2P_TRANSFER_UNKNOWN_CMD"
  shows "\<exists>s'. udp_process_query_device_info_cmd all_ok src q addr s = Some (0, s') \<and>
    us_table s' = us_table s \<and> us_sent s' = us_sent s @ [(response_msg st, addr)]"
  using assms
  by (simp add: udp_process_query_device_info_cmd_def us_calloc_def Let_def all_ok_def
      us_safe_sendto_def cmd_defs)

text \<open>A datagram carrying one message, and what the server makes of it.\<close>

definition query_datagram :: "u64 \<Rightarrow> u64 \<Rightarrow> byte list" where
  "query_datagram src q =
     enc_head (zero_head\<lparr>magic := P2P_TRANSFER_MAGIC, src_device_sn := src,
       cmd_len := of_nat sizeof_info, cmd := P2P_TRANSFER_QUERY_DEVICE_INFO_REQUEST\<rparr>)
     @ enc_info (zero_info\<lparr>device_sn := q\<rparr>)"

lemma dec_head_fill [simp]: "dec_head (fill P2P_TRANSFER_MAX_MSG_LENGTH (enc_head h @ enc_info d)) = h"
  "dec_head (fill P2P_TRANSFER_MAX_MSG_LENGTH (enc_head h @ enc_ping p)) = h"
  by (simp_all add: fill_fits sizeof_defs P2P_TRANSFER_MAX_MSG_LENGTH_def)

lemma cmd_data_fill [simp]:
  "dec_info (cmd_data (fill P2P_TRANSFER_MAX_MSG_LENGTH (enc_head h @ enc_info d))) = d"
  "dec_ping (cmd_data (fill P2P_TRANSFER_MAX_MSG_LENGTH (enc_head h @ enc_ping p))) = p"
  by (simp_all add: fill_fits sizeof_defs P2P_TRANSFER_MAX_MSG_LENGTH_def)

lemma read_cb_query:
  "udp_server_read_cb env (Received (query_datagram src q) addr) s =
     (let (ok, s) = us_calloc env s in
      if ok then map_option snd (udp_process_query_device_info_cmd env src q addr s) else Some s)"
  by (simp add: udp_server_read_cb_def us_calloc_def udp_dispatch_def Let_def query_datagram_def cmd_defs)

lemma run_repr:
  assumes "udp_repr s ds" "\<And>n. calloc_ok env n"
  shows "\<exists>s'. udp_server_run env es s = Some s' \<and> udp_repr s' (rev (concat (map ping_of es)) @ ds)"
  using assms(1)
proof (induction es arbitrary: s ds)
  case Nil
  then show ?case by simp
next
  case (Cons e es)
  obtain s1 where s1: "udp_server_read_cb env e s = Some s1" "udp_repr s1 (ping_of e @ ds)"
    using read_cb_repr [OF Cons.prems, of env e] assms(2) by auto
  moreover have "rev (ping_of e) = ping_of e"
    by (auto simp: ping_of_def Let_def split: recv_result.splits)
  ultimately show ?case
    using Cons.IH [OF s1(2)] by simp
qed


lemma start_run_repr:
  assumes "Option.bind udp_server_start (udp_server_run (env\<lparr>calloc_ok := \<lambda>_. True\<rparr>) es) = Some s"
  shows "udp_repr s (rev (concat (map ping_of es)))"
proof -
  obtain s0 where s0: "udp_server_start = Some s0" "udp_repr s0 []"
    using udp_server_start_repr by blast
  have "udp_server_run (env\<lparr>calloc_ok := \<lambda>_. True\<rparr>) es s0 = Some s"
    using assms by (simp add: s0(1))
  then show ?thesis
    using run_repr [OF s0(2), of "env\<lparr>calloc_ok := \<lambda>_. True\<rparr>" es] by auto
qed

lemma entries_of_rev: "entries_of q (rev ds) = rev (entries_of q ds)"
  by (simp add: rev_filter)

lemma udp_table_of_run:
  "\<exists>s. Option.bind udp_server_start (udp_server_run all_ok es) = Some s \<and>
     udp_repr s (rev (concat (map ping_of es)))"
proof -
  obtain s0 where s0: "udp_server_start = Some s0" "udp_repr s0 []"
    using udp_server_start_repr by blast
  with run_repr [OF s0(2), of all_ok es] show ?thesis
    by (auto simp: all_ok_def s0(1))
qed

lemma run_pings_sent:
  assumes "udp_repr s ds" "\<forall>e \<in> set es. ping_of e \<noteq> []" "udp_server_run env es s = Some s'"
  shows "us_sent s' = us_sent s"
  using assms
proof (induction es arbitrary: s ds)
  case Nil
  then show ?case by simp
next
  case (Cons e es)
  obtain s1 where s1: "udp_server_read_cb env e s = Some s1" "us_sent s1 = us_sent s"
    and r: "\<exists>ds1. udp_repr s1 ds1"
    using read_cb_repr [OF Cons.prems(1), of env e] Cons.prems(2) by auto
  then show ?case
    using Cons.IH Cons.prems(2,3) by (metis bind.bind_lunit list.set_intros(2) udp_server_run.simps(2))
qed

lemma udp_pings_send_nothing:
  assumes "\<forall>e \<in> set es. ping_of e \<noteq> []"
  shows "\<exists>s. Option.bind udp_server_start (udp_server_run all_ok es) = Some s \<and>
     udp_repr s (rev (concat (map ping_of es))) \<and> us_sent s = []"
proof -
  obtain s0 where s0: "udp_server_start = Some s0" "udp_repr s0 []"
    using udp_server_start_repr by blast
  then have sent: "us_sent s0 = []" by (auto simp: udp_server_start_def)
  obtain s where s: "Option.bind udp_server_start (udp_server_run all_ok es) = Some s"
    "udp_repr s (rev (concat (map ping_of es)))"
    using udp_table_of_run by blast
  then have "udp_server_run all_ok es s0 = Some s" by (simp add: s0(1))
  from run_pings_sent [OF s0(2) assms this] s sent show ?thesis by auto
qed

lemma udp_query_answer_reached:
  assumes "Option.bind udp_server_start (udp_server_run (env\<lparr>calloc_ok := \<lambda>_. True\<rparr>) es) = Some s"
    and "src \<noteq> q" and "entries_of q (concat (map ping_of es)) = [dq]"
    and "entries_of src (concat (map ping_of es)) = [dsrc]"
  shows "\<exists>s'. udp_server_read_cb all_ok (Received (query_datagram src q) addr) s = Some s' \<and>
    us_sent s' = us_sent s @ query_answer dsrc dq addr \<and> us_table s' = us_table s"
proof -
  let ?s = "s\<lparr>us_callocs := Suc (us_callocs s)\<rparr>"
  have "udp_repr ?s (rev (concat (map ping_of es)))"
    using start_run_repr [OF assms(1)] by simp
  then obtain st where st: "registry_scan (query_step src q) query_start (us_table ?s) = Some st"
    "q_cmd st = P2P_TRANSFER_QUERY_DEVICE_INFO_RESPONSE" "q_info st = dq" "q_src st = dsrc"
    using query_result [of ?s "rev (concat (map ping_of es))" src q] assms(2-4)
    by (auto simp: entries_of_rev)
  from process_query_answer [OF st(1,2), of addr] st(3,4) show ?thesis
    by (auto simp: read_cb_query)
qed

lemma udp_server_run_append:
  "udp_server_run env (es @ fs) s = Option.bind (udp_server_run env es s) (udp_server_run env fs)"
proof (induction es arbitrary: s)
  case (Cons e es)
  then show ?case by (cases "udp_server_read_cb env e s") auto
qed simp

subsection \<open>Properties\<close>

text \<open>C4: Whatever datagrams arrive and whichever allocations and sends fail, every run of the
  server from its start returns: no invalid memory access, no endless list walk. The device
  table stays a well-formed list that can be walked, and every entry in it comes from a ping
  that was received.\<close>

theorem udp_server_never_faults:
  "\<exists>s ds. Option.bind udp_server_start (udp_server_run env es) = Some s \<and>
     registry_entries (us_table s) = Some ds \<and> set ds \<subseteq> set (concat (map ping_of es))"
proof -
  have "udp_repr s0 ds0 \<Longrightarrow> \<exists>s ds. udp_server_run env es s0 = Some s \<and> udp_repr s ds \<and>
      set ds \<subseteq> set (concat (map ping_of es)) \<union> set ds0" for s0 ds0
  proof (induction es arbitrary: s0 ds0)
    case Nil
    then show ?case by auto
  next
    case (Cons e es)
    let ?new = "if calloc_ok env (us_callocs s0) \<and> calloc_ok env (Suc (us_callocs s0))
      then ping_of e else []"
    obtain s1 where s1: "udp_server_read_cb env e s0 = Some s1" "udp_repr s1 (?new @ ds0)"
      using read_cb_repr [OF Cons.prems, of env e] by blast
    obtain s ds where "udp_server_run env es s1 = Some s" "udp_repr s ds"
      "set ds \<subseteq> set (concat (map ping_of es)) \<union> set (?new @ ds0)"
      using Cons.IH [OF s1(2)] by blast
    moreover have "set (?new @ ds0) \<subseteq> set (ping_of e) \<union> set ds0" by auto
    ultimately show ?case using s1(1) by fastforce
  qed
  moreover obtain s0 where s0: "udp_server_start = Some s0" "udp_repr s0 []"
    using udp_server_start_repr by blast
  ultimately obtain s ds where "udp_server_run env es s0 = Some s" "udp_repr s ds"
    "set ds \<subseteq> set (concat (map ping_of es))"
    by fastforce
  then show ?thesis
    using registry_entries_repr by (auto simp: s0(1))
qed

text \<open>C3: As long as memory lasts, the device table is exactly the history of the pings: one
  entry per ping received, newest first, with the serial number and type the peer claims and
  the address and port the datagram was seen to come from.\<close>

theorem udp_table_is_ping_history:
  "\<exists>s. Option.bind udp_server_start (udp_server_run (env\<lparr>calloc_ok := \<lambda>_. True\<rparr>) es) = Some s \<and>
     registry_entries (us_table s) = Some (rev (concat (map ping_of es)))"
proof -
  obtain s0 where s0: "udp_server_start = Some s0" "udp_repr s0 []"
    using udp_server_start_repr by blast
  obtain s where s: "udp_server_run (env\<lparr>calloc_ok := \<lambda>_. True\<rparr>) es s0 = Some s"
    "udp_repr s (rev (concat (map ping_of es)))"
    using run_repr [OF s0(2), of "env\<lparr>calloc_ok := \<lambda>_. True\<rparr>" es] by auto
  then show ?thesis
    by (simp add: s0(1) registry_entries_repr)
qed

text \<open>A query between two devices that have each pinged once is answered with exactly two
  datagrams: first the punch-hole command, carrying the asking device's public address, to the
  public address of the device asked for; then the response, carrying that device's public
  address, to the asker. The table does not change.\<close>

theorem udp_query_answered:
  assumes "Option.bind udp_server_start (udp_server_run (env\<lparr>calloc_ok := \<lambda>_. True\<rparr>) es) = Some s"
    and "src \<noteq> q" and "entries_of q (concat (map ping_of es)) = [dq]"
    and "entries_of src (concat (map ping_of es)) = [dsrc]"
  shows "\<exists>s'. udp_server_read_cb all_ok (Received (query_datagram src q) addr) s = Some s' \<and>
    us_sent s' = us_sent s @ query_answer dsrc dq addr \<and> us_table s' = us_table s"
  using assms by (rule udp_query_answer_reached)

text \<open>A query for a device that never pinged is answered with a single datagram, to the
  asker: the unknown command with an empty device record. Nobody else is sent anything.\<close>

theorem udp_query_unknown_device:
  assumes "Option.bind udp_server_start (udp_server_run (env\<lparr>calloc_ok := \<lambda>_. True\<rparr>) es) = Some s"
    and "src \<noteq> q" and "entries_of q (concat (map ping_of es)) = []"
    and "length (entries_of src (concat (map ping_of es))) \<le> 1"
  shows "\<exists>s' h. udp_server_read_cb all_ok (Received (query_datagram src q) addr) s = Some s' \<and>
    us_sent s' = us_sent s @ [(enc_head h @ enc_info zero_info, addr)] \<and>
    cmd h = P2P_TRANSFER_UNKNOWN_CMD"
proof -
  let ?s = "s\<lparr>us_callocs := Suc (us_callocs s)\<rparr>"
  have "udp_repr ?s (rev (concat (map ping_of es)))"
    using start_run_repr [OF assms(1)] by simp
  then obtain st where st: "registry_scan (query_step src q) query_start (us_table ?s) = Some st"
    "q_cmd st = P2P_TRANSFER_UNKNOWN_CMD" "q_info st = zero_info"
    using query_result [of ?s "rev (concat (map ping_of es))" src q] assms(2-4)
    by (auto simp: entries_of_rev)
  from process_query_unknown [OF st(1,2), of addr] st(3) show ?thesis
    by (force simp: read_cb_query response_msg_def st(2))
qed

text \<open>The search counts entries, not devices. When the asking device has pinged twice since
  the device it asks for, its own two entries end the search, and the server answers "unknown"
  although the device is in the table.\<close>

theorem udp_double_ping_hides_devices:
  assumes "Option.bind udp_server_start (udp_server_run (env\<lparr>calloc_ok := \<lambda>_. True\<rparr>) es) = Some s"
    and "concat (map ping_of es) = older @ [d1, d2]"
    and "device_sn d1 = src" and "device_sn d2 = src" and "src \<noteq> q"
  shows "\<exists>s' h. udp_server_read_cb all_ok (Received (query_datagram src q) addr) s = Some s' \<and>
    us_sent s' = us_sent s @ [(enc_head h @ enc_info zero_info, addr)] \<and>
    cmd h = P2P_TRANSFER_UNKNOWN_CMD"
proof -
  let ?s = "s\<lparr>us_callocs := Suc (us_callocs s)\<rparr>"
  have r: "udp_repr ?s (d2 # d1 # rev older)"
    using start_run_repr [OF assms(1)] assms(2) by simp
  have st: "registry_scan (query_step src q) query_start (us_table ?s)
      = Some (query_start\<lparr>q_src := d1, q_num := 2\<rparr>)"
    by (simp only: dev.scan_law [OF r] query_fold_two_src [OF assms(4,3,5)])
  have "q_cmd (query_start\<lparr>q_src := d1, q_num := 2\<rparr>) = P2P_TRANSFER_UNKNOWN_CMD"
    by (simp add: query_start_def)
  from process_query_unknown [OF st this, of addr] show ?thesis
    by (force simp: read_cb_query response_msg_def query_start_def)
qed

text \<open>When the device asked for has pinged twice since the asking device, the search ends
  before it reaches the asker's entry: the punch-hole command that goes to the device asked for
  carries no address (all zeros), so that device cannot open its NAT for the asker.\<close>

theorem udp_double_ping_empties_punch:
  assumes "Option.bind udp_server_start (udp_server_run (env\<lparr>calloc_ok := \<lambda>_. True\<rparr>) es) = Some s"
    and "concat (map ping_of es) = older @ [d1, d2]"
    and "device_sn d1 = q" and "device_sn d2 = q" and "src \<noteq> q"
  shows "\<exists>s'. udp_server_read_cb all_ok (Received (query_datagram src q) addr) s = Some s' \<and>
    us_sent s' = us_sent s @ query_answer zero_info d1 addr"
proof -
  let ?s = "s\<lparr>us_callocs := Suc (us_callocs s)\<rparr>"
  let ?st = "query_start\<lparr>q_cmd := P2P_TRANSFER_QUERY_DEVICE_INFO_RESPONSE, q_info := d1, q_num := 2\<rparr>"
  have r: "udp_repr ?s (d2 # d1 # rev older)"
    using start_run_repr [OF assms(1)] assms(2) by simp
  have st: "registry_scan (query_step src q) query_start (us_table ?s) = Some ?st"
    by (simp only: dev.scan_law [OF r] query_fold_two_query [OF assms(4,3,5)])
  from process_query_answer [OF st, of addr] show ?thesis
    by (auto simp: read_cb_query query_start_def)
qed

text \<open>\<open>SAFE_SENDTO\<close> does not retry after \<open>EINTR\<close>: if the sends are interrupted, the query
  handler sends nothing at all and still reports success.\<close>

theorem udp_interrupted_reply_is_lost:
  assumes "Option.bind udp_server_start (udp_server_run (env\<lparr>calloc_ok := \<lambda>_. True\<rparr>) es) = Some s"
  shows "\<exists>s'. udp_process_query_device_info_cmd
      \<lparr>calloc_ok = \<lambda>_. True, sendto_err = \<lambda>_. Some EINTR\<rparr> src q addr s = Some (0, s') \<and>
    us_sent s' = us_sent s"
proof -
  have "registry_scan (query_step src q) query_start (us_table s)
      = Some (fold_brk (query_step src q) (rev (concat (map ping_of es))) query_start)"
    by (rule dev.scan_law [OF start_run_repr [OF assms]])
  then show ?thesis
    by (simp add: udp_process_query_device_info_cmd_def us_calloc_def Let_def us_safe_sendto_def
        udp_send_punch_hole_cmd_to_peer_def)
qed

subsection \<open>Witnesses\<close>

text \<open>A device with serial number \<open>sn\<close> pinging from port \<open>p\<close> of host 1.\<close>

definition sample_ping :: "u64 \<Rightarrow> u16 \<Rightarrow> recv_result" where
  "sample_ping sn p = Received (enc_head (zero_head\<lparr>cmd := P2P_TRANSFER_PING\<rparr>)
     @ enc_ping \<lparr>ping_device_sn = sn, ping_network_type = 4\<rparr>) \<lparr>sin_addr = 1, sin_port = p\<rparr>"

definition sample_device :: "u64 \<Rightarrow> u16 \<Rightarrow> p2p_msg_device_info_t" where
  "sample_device sn p = \<lparr>device_sn = sn, ip_addr = 1, port = p, network_type = 4\<rparr>"

definition sample_run :: "recv_result list \<Rightarrow> udp_server" where
  "sample_run es = the (Option.bind udp_server_start (udp_server_run all_ok es))"

lemma ping_of_sample [simp]: "ping_of (sample_ping sn p) = [sample_device sn p]"
  by (simp add: ping_of_def sample_ping_def sample_device_def device_of_ping_def Let_def cmd_defs)

lemma device_sn_sample [simp]: "device_sn (sample_device sn p) = sn"
  by (simp add: sample_device_def)

lemma sample_run_reached:
  "Option.bind udp_server_start (udp_server_run (all_ok\<lparr>calloc_ok := \<lambda>_. True\<rparr>) es) = Some (sample_run es)"
proof -
  have "all_ok\<lparr>calloc_ok := \<lambda>_. True\<rparr> = all_ok" by (simp add: all_ok_def)
  then show ?thesis
    using udp_table_of_run [of es] by (auto simp: sample_run_def)
qed

theorem udp_query_answered_witness:
  "\<exists>s'. udp_server_read_cb all_ok (Received (query_datagram 1 2) \<lparr>sin_addr = 1, sin_port = 10\<rparr>)
      (sample_run [sample_ping 1 10, sample_ping 2 20]) = Some s' \<and>
    us_sent s' = us_sent (sample_run [sample_ping 1 10, sample_ping 2 20]) @
      query_answer (sample_device 1 10) (sample_device 2 20) \<lparr>sin_addr = 1, sin_port = 10\<rparr> \<and>
    us_table s' = us_table (sample_run [sample_ping 1 10, sample_ping 2 20])"
  by (rule udp_query_answered [OF sample_run_reached]) simp_all

theorem udp_query_unknown_device_witness:
  "\<exists>s' h. udp_server_read_cb all_ok (Received (query_datagram 1 3) \<lparr>sin_addr = 1, sin_port = 10\<rparr>)
      (sample_run [sample_ping 1 10]) = Some s' \<and>
    us_sent s' = us_sent (sample_run [sample_ping 1 10]) @
      [(enc_head h @ enc_info zero_info, \<lparr>sin_addr = 1, sin_port = 10\<rparr>)] \<and>
    cmd h = P2P_TRANSFER_UNKNOWN_CMD"
  by (rule udp_query_unknown_device [OF sample_run_reached]) simp_all

theorem udp_double_ping_hides_devices_witness:
  "\<exists>s' h. udp_server_read_cb all_ok (Received (query_datagram 1 2) \<lparr>sin_addr = 1, sin_port = 10\<rparr>)
      (sample_run [sample_ping 2 20, sample_ping 1 10, sample_ping 1 11]) = Some s' \<and>
    us_sent s' = us_sent (sample_run [sample_ping 2 20, sample_ping 1 10, sample_ping 1 11]) @
      [(enc_head h @ enc_info zero_info, \<lparr>sin_addr = 1, sin_port = 10\<rparr>)] \<and>
    cmd h = P2P_TRANSFER_UNKNOWN_CMD"
  by (rule udp_double_ping_hides_devices
        [OF sample_run_reached, of _ "[sample_device 2 20]" "sample_device 1 10" "sample_device 1 11"])
     simp_all

theorem udp_double_ping_empties_punch_witness:
  "\<exists>s'. udp_server_read_cb all_ok (Received (query_datagram 1 2) \<lparr>sin_addr = 1, sin_port = 10\<rparr>)
      (sample_run [sample_ping 1 10, sample_ping 2 20, sample_ping 2 21]) = Some s' \<and>
    us_sent s' = us_sent (sample_run [sample_ping 1 10, sample_ping 2 20, sample_ping 2 21]) @
      query_answer zero_info (sample_device 2 20) \<lparr>sin_addr = 1, sin_port = 10\<rparr>"
  by (rule udp_double_ping_empties_punch
        [OF sample_run_reached, of _ "[sample_device 1 10]" "sample_device 2 20" "sample_device 2 21"])
     simp_all

theorem udp_interrupted_reply_is_lost_witness:
  "\<exists>s'. udp_process_query_device_info_cmd
      \<lparr>calloc_ok = \<lambda>_. True, sendto_err = \<lambda>_. Some EINTR\<rparr> 1 2 \<lparr>sin_addr = 1, sin_port = 10\<rparr>
      (sample_run [sample_ping 1 10, sample_ping 2 20]) = Some (0, s') \<and>
    us_sent s' = us_sent (sample_run [sample_ping 1 10, sample_ping 2 20])"
  by (rule udp_interrupted_reply_is_lost [OF sample_run_reached])

end
