(* ===== verification/UdpPeer.thy ===== *)
theory UdpPeer
  imports UdpWorld
begin

text \<open>
  The UDP peer, \<open>p2p_transfer_udp/p2p_transfer_peer/p2p_transfer_peer.c\<close>: it announces itself
  to the server (\<open>ping_cb\<close>), asks for the address of device 2222 (\<open>user_cb\<close>), and in
  \<open>read_cb\<close> takes its part in opening a path through the NATs. Its serial number is an
  \<open>int\<close>, widened with sign into the 64-bit message fields.
\<close>

record udp_peer = udp_world +
  up_device_sn :: i32
  up_slept :: nat
  up_user_data :: "byte list list"

definition widen_sn :: "i32 \<Rightarrow> u64" where
  "widen_sn sn = word_of_int (sint sn)"

subsection \<open>Messages\<close>

definition punch_to_peer_msg :: "i32 \<Rightarrow> byte list" where
  "punch_to_peer_msg sn =
     enc_head (zero_head\<lparr>magic := P2P_TRANSFER_MAGIC, cmd_len := 0, src_device_sn := widen_sn sn,
       cmd := P2P_TRANSFER_PUNCH_HOLE_TO_PEER\<rparr>)"

text \<open>The payload is \<open>"abc"\<close> with its terminator.\<close>

definition user_data_abc :: "byte list" where
  "user_data_abc = [97, 98, 99, 0]"

definition user_data_msg :: "i32 \<Rightarrow> byte list" where
  "user_data_msg sn =
     enc_head (zero_head\<lparr>magic := P2P_TRANSFER_MAGIC, src_device_sn := widen_sn sn,
       cmd := P2P_TRANSFER_USER_DATA, cmd_len := of_nat (length user_data_abc)\<rparr>) @ user_data_abc"

definition ping_msg :: "i32 \<Rightarrow> byte list" where
  "ping_msg sn =
     enc_head (zero_head\<lparr>magic := P2P_TRANSFER_MAGIC, cmd_len := of_nat sizeof_ping,
       src_device_sn := widen_sn sn, cmd := P2P_TRANSFER_PING\<rparr>)
     @ enc_ping \<lparr>ping_device_sn = widen_sn sn, ping_network_type = NP_PORT_RESTRICTED_CONE_NAT\<rparr>"

definition query_msg :: "i32 \<Rightarrow> u64 \<Rightarrow> byte list" where
  "query_msg sn q =
     enc_head (zero_head\<lparr>magic := P2P_TRANSFER_MAGIC, src_device_sn := widen_sn sn,
       cmd_len := of_nat sizeof_info, cmd := P2P_TRANSFER_QUERY_DEVICE_INFO_REQUEST\<rparr>)
     @ enc_info (zero_info\<lparr>device_sn := q\<rparr>)"

subsection \<open>Handlers\<close>

definition up_process_punch_hole_cmd ::
  "udp_env \<Rightarrow> p2p_msg_device_info_t \<Rightarrow> udp_peer \<Rightarrow> int \<times> udp_peer" where
  "up_process_punch_hole_cmd env d s =
     (let (ok, s) = us_calloc env s in
      if \<not> ok then (- 1, s)
      else let (err, s) = us_safe_sendto env (punch_to_peer_msg (up_device_sn s))
                            (generate_peer_addr d) s in
        (if err then - 1 else 0, s))"

definition up_punch_hole :: "udp_env \<Rightarrow> p2p_msg_device_info_t \<Rightarrow> udp_peer \<Rightarrow> int \<times> udp_peer" where
  "up_punch_hole env d s =
     (let s = s\<lparr>up_slept := up_slept s + 5\<rparr>;
          (ok, s) = us_calloc env s in
      if \<not> ok then (- 1, s)
      else let (err, s) = us_safe_sendto env (user_data_msg (up_device_sn s))
                            (generate_peer_addr d) s in
        (if err then - 1 else 0, s))"

text \<open>
  Printing the payload with \<open>%s\<close> reads up to a zero byte; without one in the buffer it reads
  on behind the allocation.
\<close>

definition c_string_in :: "byte list \<Rightarrow> byte list option" where
  "c_string_in buf = (if 0 \<in> set buf then Some (takeWhile (\<lambda>b. b \<noteq> 0) buf) else None)"

text \<open>The \<open>switch\<close> of \<open>read_cb\<close>; two of its cases run into the next one.\<close>

definition up_dispatch :: "udp_env \<Rightarrow> byte list \<Rightarrow> udp_peer \<Rightarrow> udp_peer option" where
  "up_dispatch env buf s =
     (let c = cmd (dec_head buf) in
      if c = P2P_TRANSFER_PUNCH_HOLE
      then Some (snd (up_process_punch_hole_cmd env (dec_info (cmd_data buf)) s))
      else if c = P2P_TRANSFER_QUERY_DEVICE_INFO_RESPONSE
      then Some (snd (up_punch_hole env (dec_info (cmd_data buf)) s))
      else if c = P2P_TRANSFER_PUNCH_HOLE_TO_PEER then Some s
      else if c = P2P_TRANSFER_USER_DATA
      then do { txt \<leftarrow> c_string_in (cmd_data buf);
                Some (s\<lparr>up_user_data := up_user_data s @ [txt]\<rparr>) }
      else Some s)"

definition udp_peer_read_cb :: "udp_env \<Rightarrow> recv_result \<Rightarrow> udp_peer \<Rightarrow> udp_peer option" where
  "udp_peer_read_cb env rcv s =
     (let (ok, s) = us_calloc env s in
      if \<not> ok then Some s
      else case rcv of
        Received d addr \<Rightarrow> up_dispatch env (fill P2P_TRANSFER_MAX_MSG_LENGTH d) s
      | RecvError EINTR \<Rightarrow> up_dispatch env (replicate P2P_TRANSFER_MAX_MSG_LENGTH 0) s
      | RecvError _ \<Rightarrow> Some s)"

definition up_ping_cb :: "udp_env \<Rightarrow> udp_peer \<Rightarrow> udp_peer" where
  "up_ping_cb env s =
     (let (ok, s) = us_calloc env s in
      if \<not> ok then s
      else snd (us_safe_sendto env (ping_msg (up_device_sn s)) generate_server_addr s))"

definition up_user_cb :: "udp_env \<Rightarrow> udp_peer \<Rightarrow> udp_peer" where
  "up_user_cb env s =
     (let (ok, s) = us_calloc env s in
      if \<not> ok then s
      else let (ok, s) = us_calloc env s in
      if \<not> ok then s
      else snd (us_safe_sendto env (query_msg (up_device_sn s) 2222) generate_server_addr s))"

definition up_start :: "i32 \<Rightarrow> udp_peer" where
  "up_start sn = \<lparr>us_callocs = 0, us_sends = 0, us_sent = [], up_device_sn = sn, up_slept = 0,
     up_user_data = []\<rparr>"

lemmas up_defs = up_process_punch_hole_cmd_def up_punch_hole_def up_dispatch_def
  udp_peer_read_cb_def up_ping_cb_def up_user_cb_def

subsection \<open>Reading well-formed messages\<close>

lemma length_msgs [simp, wire_simps]:
  "length (ping_msg sn) = 56" "length (query_msg sn q) = 64" "length (punch_to_peer_msg sn) = 40"
  "length (user_data_msg sn) = 44"
  by (simp_all add: ping_msg_def query_msg_def punch_to_peer_msg_def user_data_msg_def
      user_data_abc_def sizeof_defs)

lemma c_string_in_abc [simp]: "c_string_in (user_data_abc @ rest) = Some [97, 98, 99]"
  by (simp add: c_string_in_def user_data_abc_def)

lemma up_dispatch_total:
  "up_dispatch env buf s = None \<longleftrightarrow>
     cmd (dec_head buf) = P2P_TRANSFER_USER_DATA \<and> 0 \<notin> set (cmd_data buf)"
  by (auto simp: up_dispatch_def Let_def c_string_in_def cmd_defs)

lemma up_dispatch_zero: "up_dispatch env (replicate n 0) s = Some s"
  by (simp add: up_dispatch_def dec_head_def field_def cmd_defs)

lemma fill_no_zero:
  assumes "0 \<notin> set (drop k (fill n d))" "k < n"
  shows "n \<le> length d"
proof (rule ccontr)
  assume "\<not> n \<le> length d"
  then have "drop k (fill n d) = drop k d @ replicate (n - max k (length d)) 0"
    by (simp add: fill_def drop_replicate max_def)
  with assms \<open>\<not> n \<le> length d\<close> show False by (auto simp: set_replicate_conv_if max_def split: if_splits)
qed

subsection \<open>Properties\<close>

text \<open>The peer's read callback fails in exactly one case: a user-data message without a
  terminating zero, which it hands to \<open>%s\<close>. Every other datagram and every failing system call
  is handled without an invalid access.\<close>

theorem udp_peer_fault_iff:
  "udp_peer_read_cb env rcv s = None \<longleftrightarrow>
     calloc_ok env (us_callocs s) \<and>
     (\<exists>d addr. rcv = Received d addr \<and>
        cmd (dec_head (fill P2P_TRANSFER_MAX_MSG_LENGTH d)) = P2P_TRANSFER_USER_DATA \<and>
        0 \<notin> set (cmd_data (fill P2P_TRANSFER_MAX_MSG_LENGTH d)))"
  by (cases rcv)
     (auto simp: udp_peer_read_cb_def us_calloc_def Let_def up_dispatch_total up_dispatch_zero
       split: errno.splits)

text \<open>Only a datagram that fills the whole 128-byte receive buffer can make the peer read past
  it: a shorter one leaves a zero behind the payload.\<close>

theorem udp_peer_fault_needs_full_datagram:
  assumes "udp_peer_read_cb env (Received d addr) s = None"
  shows "P2P_TRANSFER_MAX_MSG_LENGTH \<le> length d"
  using assms fill_no_zero [of sizeof_head P2P_TRANSFER_MAX_MSG_LENGTH d]
  by (auto simp: udp_peer_fault_iff cmd_data_def sizeof_defs P2P_TRANSFER_MAX_MSG_LENGTH_def)

theorem udp_peer_fault_needs_full_datagram_witness:
  "P2P_TRANSFER_MAX_MSG_LENGTH \<le> length
     (enc_head (zero_head\<lparr>cmd := P2P_TRANSFER_USER_DATA\<rparr>) @ replicate 88 65)"
proof (rule udp_peer_fault_needs_full_datagram)
  let ?d = "enc_head (zero_head\<lparr>cmd := P2P_TRANSFER_USER_DATA\<rparr>) @ replicate 88 65"
  have "fill P2P_TRANSFER_MAX_MSG_LENGTH ?d = ?d"
    by (simp add: fill_def P2P_TRANSFER_MAX_MSG_LENGTH_def sizeof_defs)
  then show "udp_peer_read_cb all_ok (Received ?d \<lparr>sin_addr = 0, sin_port = 0\<rparr>) (up_start 1) = None"
    by (simp add: udp_peer_fault_iff all_ok_def)
qed

end
