(* ===== verification/UdpSystem.thy ===== *)
theory UdpSystem
  imports UdpServer UdpPeer
begin

text \<open>
  The UDP server and two peers together: what one program sends is what the other one
  receives. The network delivers unchanged datagrams and reports as sender the public address
  that the NAT gave the peer.
\<close>

lemma dec_fill [simp]:
  "length (enc_head h @ p) \<le> P2P_TRANSFER_MAX_MSG_LENGTH \<Longrightarrow>
     dec_head (fill P2P_TRANSFER_MAX_MSG_LENGTH (enc_head h @ p)) = h"
  "length (enc_head h @ p) \<le> P2P_TRANSFER_MAX_MSG_LENGTH \<Longrightarrow>
     cmd_data (fill P2P_TRANSFER_MAX_MSG_LENGTH (enc_head h @ p)) =
     p @ replicate (P2P_TRANSFER_MAX_MSG_LENGTH - length (enc_head h @ p)) 0"
  by (simp_all add: fill_fits)

lemma query_msg_eq: "query_msg sn q = query_datagram (widen_sn sn) q"
  by (simp add: query_msg_def query_datagram_def)

lemma ping_of_ping_msg [simp]:
  "ping_of (Received (ping_msg sn) addr) =
     [\<lparr>device_sn = widen_sn sn, ip_addr = sin_addr addr, port = sin_port addr,
       network_type = NP_PORT_RESTRICTED_CONE_NAT\<rparr>]"
  by (simp add: ping_of_def ping_msg_def Let_def cmd_defs device_of_ping_def)

text \<open>The messages, as the receiving peer sees them.\<close>

lemma peer_gets_punch:
  "udp_peer_read_cb all_ok (Received (punch_hole_msg d) addr) s =
     Some (s\<lparr>us_callocs := us_callocs s + 2, us_sends := Suc (us_sends s),
       us_sent := us_sent s @ [(punch_to_peer_msg (up_device_sn s), generate_peer_addr d)]\<rparr>)"
  by (simp add: udp_peer_read_cb_def up_dispatch_def punch_hole_msg_def Let_def
      up_process_punch_hole_cmd_def cmd_defs)

lemma peer_gets_response:
  "udp_peer_read_cb all_ok (Received (enc_head (zero_head\<lparr>magic := P2P_TRANSFER_MAGIC,
       cmd := P2P_TRANSFER_QUERY_DEVICE_INFO_RESPONSE, cmd_len := n\<rparr>) @ enc_info d) addr) s =
     Some (s\<lparr>us_callocs := us_callocs s + 2, us_sends := Suc (us_sends s), up_slept := up_slept s + 5,
       us_sent := us_sent s @ [(user_data_msg (up_device_sn s), generate_peer_addr d)]\<rparr>)"
  by (simp add: udp_peer_read_cb_def up_dispatch_def Let_def up_punch_hole_def cmd_defs)

lemma peer_gets_user_data:
  "udp_peer_read_cb all_ok (Received (user_data_msg sn) addr) s =
     Some (s\<lparr>us_callocs := Suc (us_callocs s), up_user_data := up_user_data s @ [[97, 98, 99]]\<rparr>)"
proof -
  have l: "length (enc_head h @ user_data_abc) \<le> P2P_TRANSFER_MAX_MSG_LENGTH" for h
    by (simp add: user_data_abc_def sizeof_defs P2P_TRANSFER_MAX_MSG_LENGTH_def)
  show ?thesis
    by (simp add: udp_peer_read_cb_def up_dispatch_def user_data_msg_def Let_def cmd_defs
        dec_fill [OF l] del: length_append)
qed

lemma peer_gets_punch_to_peer:
  "udp_peer_read_cb all_ok (Received (punch_to_peer_msg sn) addr) s =
     Some (s\<lparr>us_callocs := Suc (us_callocs s)\<rparr>)"
  using dec_fill(1) [of _ "[]"]
  by (simp add: sizeof_defs P2P_TRANSFER_MAX_MSG_LENGTH_def udp_peer_read_cb_def up_dispatch_def punch_to_peer_msg_def Let_def cmd_defs)

lemma widen_sn_2222 [simp]: "widen_sn 2222 = 2222"
  by (simp add: widen_sn_def)

subsection \<open>Properties\<close>

text \<open>The ping a peer sends is what the server registers: the peer's serial number (widened
  from \<open>int\<close>), the port-restricted type the peer always claims, and the public address its
  datagram comes from.\<close>

theorem udp_ping_registers_peer:
  "\<exists>s. Option.bind udp_server_start
         (udp_server_run all_ok [Received (fst (last (us_sent (up_ping_cb all_ok (up_start sn))))) addr]) = Some s \<and>
     registry_entries (us_table s) =
       Some [\<lparr>device_sn = widen_sn sn, ip_addr = sin_addr addr, port = sin_port addr,
              network_type = NP_PORT_RESTRICTED_CONE_NAT\<rparr>]"
proof -
  have "fst (last (us_sent (up_ping_cb all_ok (up_start sn)))) = ping_msg sn"
    by (simp add: up_ping_cb_def up_start_def)
  moreover obtain s where "Option.bind udp_server_start (udp_server_run all_ok [Received (ping_msg sn) addr]) = Some s"
    "udp_repr s (ping_of (Received (ping_msg sn) addr))"
    using udp_table_of_run [of "[Received (ping_msg sn) addr]"] by auto
  ultimately show ?thesis
    using registry_entries_repr by fastforce
qed

text \<open>C1: The whole exchange. Peers \<open>a\<close> and 2222 ping the server, and \<open>a\<close> asks for 2222. The server
  then sends one datagram to each. Delivered, the first makes 2222 send a packet to \<open>a\<close>'s
  public address (opening its own NAT for \<open>a\<close>), the second makes \<open>a\<close> wait five seconds and send
  its data to 2222's public address; delivered in turn, 2222 has received "abc".\<close>

theorem udp_hole_punching:
  assumes "widen_sn a \<noteq> 2222"
  shows "\<exists>s m1 m2 peer2222 peer_a.
    Option.bind udp_server_start (udp_server_run all_ok
      [Received (ping_msg a) addr_a, Received (ping_msg 2222) addr_b,
       Received (query_msg a 2222) addr_a]) = Some s \<and>
    us_sent s = [(m1, addr_b), (m2, addr_a)] \<and>
    udp_peer_read_cb all_ok (Received m1 srv) (up_start 2222) = Some peer2222 \<and>
    us_sent peer2222 = [(punch_to_peer_msg 2222, addr_a)] \<and>
    udp_peer_read_cb all_ok (Received m2 srv) (up_start a) = Some peer_a \<and>
    us_sent peer_a = [(user_data_msg a, addr_b)] \<and> up_slept peer_a = 5 \<and>
    map_option up_user_data (udp_peer_read_cb all_ok (Received (user_data_msg a) addr_a) peer2222)
      = Some [[97, 98, 99]]"
proof -
  let ?es = "[Received (ping_msg a) addr_a, Received (ping_msg 2222) addr_b]"
  let ?dev = "\<lambda>sn addr. \<lparr>device_sn = widen_sn sn, ip_addr = sin_addr addr, port = sin_port addr,
                network_type = NP_PORT_RESTRICTED_CONE_NAT\<rparr>"
  obtain s where s: "Option.bind udp_server_start (udp_server_run all_ok ?es) = Some s" "us_sent s = []"
    using udp_pings_send_nothing [of ?es] by auto
  have all: "all_ok\<lparr>calloc_ok := \<lambda>_. True\<rparr> = all_ok" by (simp add: all_ok_def)
  then have reach: "Option.bind udp_server_start
      (udp_server_run (all_ok\<lparr>calloc_ok := \<lambda>_. True\<rparr>) ?es) = Some s"
    using s(1) by (simp only:)
  have devs: "entries_of 2222 (concat (map ping_of ?es)) = [?dev 2222 addr_b]"
    "entries_of (widen_sn a) (concat (map ping_of ?es)) = [?dev a addr_a]"
    using assms by simp_all
  obtain s' where "udp_server_read_cb all_ok (Received (query_datagram (widen_sn a) 2222) addr_a) s = Some s'"
    "us_sent s' = us_sent s @ query_answer (?dev a addr_a) (?dev 2222 addr_b) addr_a"
    using udp_query_answer_reached [OF reach assms devs, of addr_a] by (elim exE conjE)
  then have s': "udp_server_read_cb all_ok (Received (query_msg a 2222) addr_a) s = Some s'"
    "us_sent s' = query_answer (?dev a addr_a) (?dev 2222 addr_b) addr_a"
    by (simp_all only: query_msg_eq s(2) append_Nil)
  obtain s0 where s0: "udp_server_start = Some s0" "udp_server_run all_ok ?es s0 = Some s"
    using s(1) [unfolded bind_eq_Some_conv] by (elim exE conjE)
  have "udp_server_run all_ok (?es @ [Received (query_msg a 2222) addr_a]) s0 = Some s'"
    using s0(2) s'(1) by (simp del: append.simps udp_server_run.simps(2)
        add: udp_server_run_append udp_server_run.simps(2) [of _ "Received (query_msg a 2222) addr_a"])
  then have "Option.bind udp_server_start (udp_server_run all_ok
      [Received (ping_msg a) addr_a, Received (ping_msg 2222) addr_b,
       Received (query_msg a 2222) addr_a]) = Some s'"
    by (simp only: s0(1) bind.bind_lunit append.simps)
  moreover have "generate_peer_addr (?dev 2222 addr_b) = addr_b" "generate_peer_addr (?dev a addr_a) = addr_a"
    by (simp_all add: generate_peer_addr_def)
  ultimately have run: "Option.bind udp_server_start (udp_server_run all_ok
      [Received (ping_msg a) addr_a, Received (ping_msg 2222) addr_b,
       Received (query_msg a 2222) addr_a]) = Some s'"
    and sent: "us_sent s' = [(punch_hole_msg (?dev a addr_a), addr_b),
      (enc_head (zero_head\<lparr>magic := P2P_TRANSFER_MAGIC, cmd := P2P_TRANSFER_QUERY_DEVICE_INFO_RESPONSE,
         cmd_len := of_nat sizeof_info\<rparr>) @ enc_info (?dev 2222 addr_b), addr_a)]"
    using s'(2) by (simp_all add: query_answer_def)
  show ?thesis
    by (rule exI [of _ s'], rule exI, rule exI, rule exI, rule exI, intro conjI, rule run, rule sent,
        rule peer_gets_punch, simp add: up_start_def generate_peer_addr_def,
        rule peer_gets_response, simp add: up_start_def generate_peer_addr_def,
        simp add: up_start_def, simp add: peer_gets_user_data up_start_def)
qed

theorem udp_hole_punching_witness:
  "\<exists>s m1 m2. Option.bind udp_server_start (udp_server_run all_ok
      [Received (ping_msg 1) \<lparr>sin_addr = 1, sin_port = 10\<rparr>, Received (ping_msg 2222) \<lparr>sin_addr = 2, sin_port = 20\<rparr>,
       Received (query_msg 1 2222) \<lparr>sin_addr = 1, sin_port = 10\<rparr>]) = Some s \<and>
    us_sent s = [(m1, \<lparr>sin_addr = 2, sin_port = 20\<rparr>), (m2, \<lparr>sin_addr = 1, sin_port = 10\<rparr>)]"
proof -
  have "widen_sn 1 \<noteq> 2222" by (simp add: widen_sn_def)
  from udp_hole_punching [OF this, of "\<lparr>sin_addr = 1, sin_port = 10\<rparr>" "\<lparr>sin_addr = 2, sin_port = 20\<rparr>"]
  show ?thesis by blast
qed

end
