(* ===== verification/Libevent.thy ===== *)
theory Libevent
  imports Wire
begin

text \<open>
  What the TCP programs use of libevent's bufferevents. libevent is not part of the repository:
  a connection is a number, libevent's state is a type parameter \<open>'b\<close> and its operations are the
  fields of a record that the definitions take as an argument. The faults a program can commit
  are values.
\<close>

datatype fault = AssertFailed | UseAfterFree | BadAccess

record 'b libevent =
  bufferevent_read :: "nat \<Rightarrow> nat \<Rightarrow> 'b \<Rightarrow> byte list \<times> 'b"
  bufferevent_write :: "nat \<Rightarrow> byte list \<Rightarrow> 'b \<Rightarrow> int \<times> 'b"
  bufferevent_free :: "nat \<Rightarrow> 'b \<Rightarrow> 'b"
  bufferevent_getfd :: "nat \<Rightarrow> 'b \<Rightarrow> int"
  bufferevent_socket_new :: "int \<Rightarrow> 'b \<Rightarrow> nat option \<times> 'b"

text \<open>Sequencing of results that may be faults.\<close>

definition bind_r :: "'e + 'a \<Rightarrow> ('a \<Rightarrow> 'e + 'c) \<Rightarrow> 'e + 'c" where
  "bind_r m f = (case m of Inl e \<Rightarrow> Inl e | Inr x \<Rightarrow> f x)"

lemma bind_r_simps [simp]: "bind_r (Inl e) f = Inl e" "bind_r (Inr x) f = f x"
  by (simp_all add: bind_r_def)

definition of_opt :: "'a option \<Rightarrow> fault + 'a" where
  "of_opt x = (case x of None \<Rightarrow> Inl BadAccess | Some y \<Rightarrow> Inr y)"

lemma of_opt_simps [simp]: "of_opt (Some x) = Inr x" "of_opt None = Inl BadAccess"
  by (simp_all add: of_opt_def)

end
