(* ===== verification/TcpServer.thy ===== *)
theory TcpServer
  imports Registry Query Libevent
begin

text \<open>
  The TCP rendezvous server, \<open>p2p_transfer_tcp/p2p_transfer_server/p2p_transfer_server.c\<close>.
  Connections are libevent bufferevents, numbered here; libevent itself is not part of the
  repository, so its state is a type parameter \<open>'b\<close> and its operations are the argument \<open>lib\<close>.
  The server's state holds the device table, the client address given to each connection's
  callbacks, and the history of what it did: messages written, bufferevents freed, calls that
  close descriptors, and how many heap blocks are allocated and not yet freed. Faults are
  values: a failed \<open>assert\<close>, a bufferevent used after it was freed, an invalid access.
\<close>

datatype fd_op = ClosedByFree int | ClosedByClose int

record tcp_device =
  td_info :: p2p_msg_device_info_t
  td_bev :: nat

record 'b tcp_server =
  ts_table :: "tcp_device registry"
  ts_lib :: 'b
  ts_addrs :: "nat \<rightharpoonup> sockaddr_in"
  ts_written :: "(nat \<times> byte list) list"
  ts_freed :: "nat list"
  ts_fd_ops :: "fd_op list"
  ts_callocs :: nat
  ts_live :: nat

subsection \<open>Library calls\<close>

definition ts_calloc :: "(nat \<Rightarrow> bool) \<Rightarrow> 'b tcp_server \<Rightarrow> bool \<times> 'b tcp_server" where
  "ts_calloc mem s =
     (let s' = s\<lparr>ts_callocs := Suc (ts_callocs s)\<rparr> in
      if mem (ts_callocs s) then (True, s'\<lparr>ts_live := Suc (ts_live s)\<rparr>) else (False, s'))"

definition ts_free :: "'b tcp_server \<Rightarrow> 'b tcp_server" where
  "ts_free s = s\<lparr>ts_live := ts_live s - 1\<rparr>"

definition ts_read ::
  "'b libevent \<Rightarrow> nat \<Rightarrow> nat \<Rightarrow> 'b tcp_server \<Rightarrow> fault + byte list \<times> 'b tcp_server" where
  "ts_read lib bev n s =
     (if bev \<in> set (ts_freed s) then Inl UseAfterFree
      else let (d, b) = bufferevent_read lib bev n (ts_lib s) in Inr (d, s\<lparr>ts_lib := b\<rparr>))"

definition ts_write ::
  "'b libevent \<Rightarrow> nat \<Rightarrow> byte list \<Rightarrow> 'b tcp_server \<Rightarrow> fault + int \<times> 'b tcp_server" where
  "ts_write lib bev msg s =
     (if bev \<in> set (ts_freed s) then Inl UseAfterFree
      else let (r, b) = bufferevent_write lib bev msg (ts_lib s) in
        Inr (r, s\<lparr>ts_lib := b, ts_written := (if r = - 1 then ts_written s else ts_written s @ [(bev, msg)])\<rparr>))"

subsection \<open>The handlers\<close>

text \<open>Both pointers are checked with \<open>assert\<close>; the connection's own is never \<open>NULL\<close>.\<close>

definition tcp_process_ping_cmd ::
  "(nat \<Rightarrow> bool) \<Rightarrow> nat \<Rightarrow> p2p_msg_ping_t \<Rightarrow> sockaddr_in option \<Rightarrow> 'b tcp_server \<Rightarrow>
     fault + int \<times> 'b tcp_server" where
  "tcp_process_ping_cmd mem pbev pping pclient_addr s =
     (case pclient_addr of None \<Rightarrow> Inl AssertFailed
      | Some addr \<Rightarrow>
        (let (ok, s) = ts_calloc mem s in
         if \<not> ok then Inr (- 1, s)
         else bind_r (of_opt (registry_add
                \<lparr>td_info = \<lparr>device_sn = ping_device_sn pping, ip_addr = sin_addr addr,
                            port = sin_port addr, network_type = ping_network_type pping\<rparr>,
                 td_bev = pbev\<rparr> (ts_table s)))
           (\<lambda>t. bind_r (of_opt (registry_entries t))
             (\<lambda>_. Inr (0, s\<lparr>ts_table := t\<rparr>)))))"

definition tcp_punch_hole_msg :: "p2p_msg_device_info_t \<Rightarrow> byte list" where
  "tcp_punch_hole_msg psrc =
     enc_head (zero_head\<lparr>magic := P2P_TRANSFER_MAGIC, cmd := P2P_TRANSFER_PUNCH_HOLE,
       cmd_len := of_nat sizeof_info\<rparr>) @ enc_info psrc"

definition tcp_send_punch_hole_cmd_to_peer ::
  "'b libevent \<Rightarrow> (nat \<Rightarrow> bool) \<Rightarrow> nat option \<Rightarrow> p2p_msg_device_info_t \<Rightarrow> 'b tcp_server \<Rightarrow>
     fault + int \<times> 'b tcp_server" where
  "tcp_send_punch_hole_cmd_to_peer lib mem pdst psrc s =
     (case pdst of None \<Rightarrow> Inl AssertFailed
      | Some bev \<Rightarrow>
        (let (ok, s) = ts_calloc mem s in
         if \<not> ok then Inr (- 1, s)
         else bind_r (ts_write lib bev (tcp_punch_hole_msg psrc) s)
           (\<lambda>(r, s). Inr (if r = - 1 then - 1 else 0, ts_free s))))"

record tcp_query_state = query_state +
  q_dst :: "nat option"

definition tcp_query_start :: tcp_query_state where
  "tcp_query_start = \<lparr>q_cmd = P2P_TRANSFER_UNKNOWN_CMD, q_info = zero_info, q_src = zero_info,
     q_num = 0, q_dst = None\<rparr>"

definition tcp_query_step :: "u64 \<Rightarrow> u64 \<Rightarrow> tcp_device \<Rightarrow> tcp_query_state \<Rightarrow> bool \<times> tcp_query_state" where
  "tcp_query_step src_sn query_sn d st =
     query_step src_sn query_sn (td_info d)
       (if device_sn (td_info d) = query_sn then st\<lparr>q_dst := Some (td_bev d)\<rparr> else st)"

text \<open>
  On the way out both blocks are freed. The check for \<open>pdst_peer_bev == NULL\<close> after the
  response is in the code too, but the \<open>assert\<close> in the call before it comes first.
\<close>

definition tcp_process_query_device_info_cmd ::
  "'b libevent \<Rightarrow> (nat \<Rightarrow> bool) \<Rightarrow> nat \<Rightarrow> u64 \<Rightarrow> u64 \<Rightarrow> 'b tcp_server \<Rightarrow> fault + int \<times> 'b tcp_server" where
  "tcp_process_query_device_info_cmd lib mem pquery_bev src_sn query_sn s =
     (let (ok1, s) = ts_calloc mem s in
      if \<not> ok1 then Inr (- 1, s)
      else let (ok2, s) = ts_calloc mem s in
      if \<not> ok2 then Inr (- 1, ts_free s)
      else bind_r (of_opt (registry_scan (tcp_query_step src_sn query_sn) tcp_query_start (ts_table s)))
        (\<lambda>st. bind_r (tcp_send_punch_hole_cmd_to_peer lib mem (q_dst st) (q_src st) s)
          (\<lambda>(r, s). if r = - 1 then Inr (- 1, ts_free (ts_free s))
            else bind_r (ts_write lib pquery_bev (response_msg st) s)
              (\<lambda>(r, s). Inr (if r = - 1 \<or> q_dst st = None then - 1 else 0, ts_free (ts_free s))))))"

text \<open>\<open>conn_read_cb\<close>; only the header block is freed at the end.\<close>

definition tcp_conn_read_cb ::
  "'b libevent \<Rightarrow> (nat \<Rightarrow> bool) \<Rightarrow> nat \<Rightarrow> 'b tcp_server \<Rightarrow> fault + 'b tcp_server" where
  "tcp_conn_read_cb lib mem pbev s =
     (let (ok, s) = ts_calloc mem s in
      if \<not> ok then Inr s
      else bind_r (ts_read lib pbev sizeof_head s) (\<lambda>(d, s).
        let req = dec_head (fill sizeof_head d) in
        if cmd req = P2P_TRANSFER_PING
        then let (ok, s) = ts_calloc mem s in
          if \<not> ok then Inr (ts_free s)
          else bind_r (ts_read lib pbev sizeof_ping s) (\<lambda>(d, s).
            bind_r (tcp_process_ping_cmd mem pbev (dec_ping (fill sizeof_ping d)) (ts_addrs s pbev) s)
              (\<lambda>(_, s). Inr (ts_free s)))
        else if cmd req = P2P_TRANSFER_QUERY_DEVICE_INFO_REQUEST
        then let (ok, s) = ts_calloc mem s in
          if \<not> ok then Inr (ts_free s)
          else bind_r (ts_read lib pbev sizeof_info s) (\<lambda>(d, s).
            bind_r (tcp_process_query_device_info_cmd lib mem pbev (src_device_sn req)
                     (device_sn (dec_info (fill sizeof_info d))) s)
              (\<lambda>(_, s). Inr (ts_free s)))
        else Inr (ts_free s)))"

text \<open>
  \<open>conn_event_cb\<close>: free the address, free the bufferevent (created with
  \<open>BEV_OPT_CLOSE_ON_FREE\<close>, so its descriptor is closed), then \<open>SAFE_CLOSE\<close> the descriptor
  fetched before. The device table is left alone.
\<close>

definition tcp_conn_event_cb :: "'b libevent \<Rightarrow> nat \<Rightarrow> 'b tcp_server \<Rightarrow> fault + 'b tcp_server" where
  "tcp_conn_event_cb lib bev s =
     (if bev \<in> set (ts_freed s) then Inl UseAfterFree
      else let fd = bufferevent_getfd lib bev (ts_lib s);
               s = (if ts_addrs s bev = None then s else ts_free s);
               s = s\<lparr>ts_addrs := (ts_addrs s)(bev := None), ts_lib := bufferevent_free lib bev (ts_lib s),
                     ts_freed := bev # ts_freed s, ts_fd_ops := ts_fd_ops s @ [ClosedByFree fd]\<rparr>
           in Inr (if fd > 0 then s\<lparr>ts_fd_ops := ts_fd_ops s @ [ClosedByClose fd]\<rparr> else s))"

definition tcp_listener_cb ::
  "'b libevent \<Rightarrow> (nat \<Rightarrow> bool) \<Rightarrow> int \<Rightarrow> sockaddr_in \<Rightarrow> 'b tcp_server \<Rightarrow> 'b tcp_server" where
  "tcp_listener_cb lib mem conn_sock addr s =
     (let (ok, s) = ts_calloc mem s in
      if \<not> ok then s
      else let (bev, b) = bufferevent_socket_new lib conn_sock (ts_lib s); s = s\<lparr>ts_lib := b\<rparr> in
        case bev of None \<Rightarrow> ts_free s
        | Some n \<Rightarrow> s\<lparr>ts_addrs := (ts_addrs s)(n \<mapsto> addr)\<rparr>)"

definition tcp_server_start :: "'b \<Rightarrow> 'b tcp_server option" where
  "tcp_server_start b = map_option
     (\<lambda>t. \<lparr>ts_table = t, ts_lib = b, ts_addrs = Map.empty, ts_written = [], ts_freed = [],
       ts_fd_ops = [], ts_callocs = 1, ts_live = 1\<rparr>) registry_init"

subsection \<open>The search loop\<close>

abbreviation tcp_entries :: "u64 \<Rightarrow> tcp_device list \<Rightarrow> tcp_device list" where
  "tcp_entries sn ds \<equiv> filter (\<lambda>d. device_sn (td_info d) = sn) ds"

lemma tcp_query_fold:
  assumes "src \<noteq> q" "length (tcp_entries q ds) \<le> 1" "length (tcp_entries src ds) \<le> 1"
    and "q_num st + int (length (tcp_entries q ds)) + int (length (tcp_entries src ds)) \<le> 2"
  shows "fold_brk (tcp_query_step src q) ds st =
    st\<lparr>q_cmd := (if tcp_entries q ds = [] then q_cmd st else P2P_TRANSFER_QUERY_DEVICE_INFO_RESPONSE),
       q_info := (case tcp_entries q ds of [] \<Rightarrow> q_info st | d # _ \<Rightarrow> td_info d),
       q_src := (case tcp_entries src ds of [] \<Rightarrow> q_src st | d # _ \<Rightarrow> td_info d),
       q_num := q_num st + int (length (tcp_entries q ds)) + int (length (tcp_entries src ds)),
       q_dst := (case tcp_entries q ds of [] \<Rightarrow> q_dst st | d # _ \<Rightarrow> Some (td_bev d))\<rparr>"
  using assms
proof (induction ds arbitrary: st)
  case Nil
  then show ?case by simp
next
  case (Cons d ds)
  consider (q) "device_sn (td_info d) = q" | (s) "device_sn (td_info d) = src"
    | (no) "device_sn (td_info d) \<noteq> q" "device_sn (td_info d) \<noteq> src"
    by blast
  then show ?case
  proof cases
    case q
    with Cons.prems have none: "tcp_entries q ds = []" by simp
    with q Cons.prems Cons.IH [of "snd (tcp_query_step src q d st)"] show ?thesis
      by (cases "tcp_entries src ds") (auto simp: query_step_cases tcp_query_step_def)
  next
    case s
    with Cons.prems have none: "tcp_entries src ds = []" by simp
    with s Cons.prems Cons.IH [of "snd (tcp_query_step src q d st)"] show ?thesis
      by (cases "tcp_entries q ds") (auto simp: query_step_cases tcp_query_step_def)
  next
    case no
    show ?thesis
    proof (cases "q_num st = 2")
      case True
      with no Cons.prems have "tcp_entries q ds = []" "tcp_entries src ds = []"
        by (simp_all flip: length_0_conv)
      with no True show ?thesis by (simp add: query_step_cases tcp_query_step_def)
    next
      case False
      with no Cons.prems Cons.IH [of st] show ?thesis
        by (auto simp: query_step_cases tcp_query_step_def)
    qed
  qed
qed

text \<open>The connection to send to is one of an entry of the device asked for.\<close>

lemma tcp_query_dst:
  "q_dst (fold_brk (tcp_query_step src q) ds st) \<in> Some ` td_bev ` set ds \<union> {q_dst st}"
proof (rule fold_brk_invariant)
  fix d and st' :: tcp_query_state
  assume "d \<in> set ds" "q_dst st' \<in> Some ` td_bev ` set ds \<union> {q_dst st}"
  then show "q_dst (snd (tcp_query_step src q d st')) \<in> Some ` td_bev ` set ds \<union> {q_dst st}"
    by (auto simp: tcp_query_step_def query_step_def Let_def)
qed simp

text \<open>An absent device leaves the connection unset whatever else the loop sees.\<close>

lemma tcp_query_absent:
  assumes "tcp_entries q ds = []"
  shows "q_dst (fold_brk (tcp_query_step src q) ds st) = q_dst st"
proof (rule fold_brk_invariant)
  fix d and st' :: tcp_query_state
  assume "d \<in> set ds" "q_dst st' = q_dst st"
  with assms show "q_dst (snd (tcp_query_step src q d st')) = q_dst st"
    by (auto simp: tcp_query_step_def query_step_def Let_def filter_empty_conv)
qed simp

subsection \<open>The query handler\<close>

abbreviation tcp_repr :: "'b tcp_server \<Rightarrow> tcp_device list \<Rightarrow> bool" where
  "tcp_repr s ds \<equiv> registry_repr (ts_table s) ds"

text \<open>All the memory asked for is there.\<close>

abbreviation mem_ok :: "nat \<Rightarrow> bool" where
  "mem_ok \<equiv> (\<lambda>_. True)"

text \<open>
  A query message waiting in a connection's input: libevent's documented behaviour of
  \<open>bufferevent_read\<close> at the two calls of the handler.
\<close>

definition query_waits :: "'b libevent \<Rightarrow> nat \<Rightarrow> u64 \<Rightarrow> u64 \<Rightarrow> 'b \<Rightarrow> 'b \<Rightarrow> bool" where
  "query_waits lib bev src q b b2 \<longleftrightarrow>
     (\<exists>h d b1. bufferevent_read lib bev sizeof_head b = (enc_head h, b1) \<and>
        bufferevent_read lib bev sizeof_info b1 = (enc_info d, b2) \<and>
        cmd h = P2P_TRANSFER_QUERY_DEVICE_INFO_REQUEST \<and> src_device_sn h = src \<and> device_sn d = q)"

definition writes_succeed :: "'b libevent \<Rightarrow> bool" where
  "writes_succeed lib \<longleftrightarrow> (\<forall>bev msg b. fst (bufferevent_write lib bev msg b) \<noteq> - 1)"

definition tcp_query_answer :: "tcp_device \<Rightarrow> tcp_device \<Rightarrow> nat \<Rightarrow> (nat \<times> byte list) list" where
  "tcp_query_answer dsrc dq pbev =
     [(td_bev dq, tcp_punch_hole_msg (td_info dsrc)),
      (pbev, enc_head (zero_head\<lparr>magic := P2P_TRANSFER_MAGIC,
         cmd := P2P_TRANSFER_QUERY_DEVICE_INFO_RESPONSE, cmd_len := of_nat sizeof_info\<rparr>)
        @ enc_info (td_info dq))]"

text \<open>What \<open>conn_read_cb\<close> does when a whole query is in the connection's input.\<close>

lemma process_query_unfold:
  assumes "tcp_repr s ds" "\<And>n. mem n"
  shows "tcp_process_query_device_info_cmd lib mem pbev src q s =
    (let st = fold_brk (tcp_query_step src q) ds tcp_query_start;
         s = s\<lparr>ts_callocs := ts_callocs s + 2, ts_live := ts_live s + 2\<rparr>
     in bind_r (tcp_send_punch_hole_cmd_to_peer lib mem (q_dst st) (q_src st) s)
          (\<lambda>(r, s). if r = - 1 then Inr (- 1, ts_free (ts_free s))
            else bind_r (ts_write lib pbev (response_msg st) s)
              (\<lambda>(r, s). Inr (if r = - 1 \<or> q_dst st = None then - 1 else 0, ts_free (ts_free s)))))"
proof -
  have "registry_scan (tcp_query_step src q) tcp_query_start (ts_table s)
      = Some (fold_brk (tcp_query_step src q) ds tcp_query_start)"
    by (rule dev.scan_law [OF assms(1)])
  with assms(2) show ?thesis
    by (simp add: tcp_process_query_device_info_cmd_def ts_calloc_def Let_def)
qed

lemma conn_read_query:
  assumes "tcp_repr s ds" "pbev \<notin> set (ts_freed s)" "query_waits lib pbev src q (ts_lib s) b2"
  shows "tcp_conn_read_cb lib mem_ok pbev s =
    (let st = fold_brk (tcp_query_step src q) ds tcp_query_start;
         s = s\<lparr>ts_lib := b2, ts_callocs := ts_callocs s + 4, ts_live := ts_live s + 4\<rparr>
     in bind_r (bind_r (tcp_send_punch_hole_cmd_to_peer lib mem_ok (q_dst st) (q_src st) s)
          (\<lambda>(r, s). if r = - 1 then Inr (- 1, ts_free (ts_free s))
            else bind_r (ts_write lib pbev (response_msg st) s)
              (\<lambda>(r, s). Inr (if r = - 1 \<or> q_dst st = None then - 1 else 0, ts_free (ts_free s)))))
          (\<lambda>(_ :: int, s). Inr (ts_free s)))"
proof -
  obtain h d b1 where h: "bufferevent_read lib pbev sizeof_head (ts_lib s) = (enc_head h, b1)"
    "bufferevent_read lib pbev sizeof_info b1 = (enc_info d, b2)"
    "cmd h = P2P_TRANSFER_QUERY_DEVICE_INFO_REQUEST" "src_device_sn h = src" "device_sn d = q"
    using assms(3) by (auto simp: query_waits_def)
  let ?s = "s\<lparr>ts_callocs := ts_callocs s + 2, ts_live := ts_live s + 2, ts_lib := b2\<rparr>"
  have "tcp_conn_read_cb lib mem_ok pbev s =
    bind_r (tcp_process_query_device_info_cmd lib mem_ok pbev src q ?s) (\<lambda>(_, s). Inr (ts_free s))"
    using assms(2) h dec_enc_head [of h "[]"] dec_enc_info [of d "[]"]
    by (simp add: tcp_conn_read_cb_def ts_calloc_def ts_read_def Let_def fill_fits cmd_defs)
  moreover have "?s = s\<lparr>ts_lib := b2, ts_callocs := ts_callocs s + 2, ts_live := ts_live s + 2\<rparr>"
    by (cases s) simp
  moreover have "tcp_repr ?s ds" using assms(1) by simp
  ultimately show ?thesis
    using process_query_unfold [of ?s ds mem_ok lib pbev src q] by (simp add: Let_def numeral_eq_Suc)
qed

text \<open>The two whole exchanges, kept as lemmas for the composition with the peers.\<close>

lemma conn_read_ping:
  assumes "\<forall>n b. bufferevent_read lib pbev n b = (take n (inp b), snd (bufferevent_read lib pbev n b)) \<and>
      inp (snd (bufferevent_read lib pbev n b)) = drop n (inp b)"
    and "tcp_repr s ds" and "pbev \<notin> set (ts_freed s)" and "ts_addrs s pbev = Some addr"
    and "inp (ts_lib s) = enc_head h @ enc_ping p @ rest" and "cmd h = P2P_TRANSFER_PING"
  shows "\<exists>s'. tcp_conn_read_cb lib mem_ok pbev s = Inr s' \<and> inp (ts_lib s') = rest \<and>
    tcp_repr s' (\<lparr>td_info = \<lparr>device_sn = ping_device_sn p, ip_addr = sin_addr addr,
        port = sin_port addr, network_type = ping_network_type p\<rparr>, td_bev = pbev\<rparr> # ds) \<and>
    ts_freed s' = ts_freed s \<and> ts_addrs s' = ts_addrs s \<and> ts_written s' = ts_written s \<and>
    ts_lib s' = snd (bufferevent_read lib pbev sizeof_ping (snd (bufferevent_read lib pbev sizeof_head (ts_lib s))))"
proof -
  let ?d = "\<lparr>td_info = \<lparr>device_sn = ping_device_sn p, ip_addr = sin_addr addr,
        port = sin_port addr, network_type = ping_network_type p\<rparr>, td_bev = pbev\<rparr>"
  define b1 where "b1 = snd (bufferevent_read lib pbev sizeof_head (ts_lib s))"
  define b2 where "b2 = snd (bufferevent_read lib pbev sizeof_ping b1)"
  have rd: "fst (bufferevent_read lib pbev n b) = take n (inp b)"
    "inp (snd (bufferevent_read lib pbev n b)) = drop n (inp b)" for n b
    using assms(1) by (metis fst_conv, blast)
  have r1: "bufferevent_read lib pbev sizeof_head (ts_lib s) = (enc_head h, b1)" "inp b1 = enc_ping p @ rest"
    using rd assms(5) length_enc(1) [of h] by (simp_all add: b1_def prod_eq_iff)
  have r2: "bufferevent_read lib pbev sizeof_ping b1 = (enc_ping p, b2)" "inp b2 = rest"
    using rd r1(2) length_enc(2) [of p] by (simp_all add: b2_def prod_eq_iff)
  obtain t where t: "registry_add ?d (ts_table s) = Some t" "registry_repr t (?d # ds)"
    using dev.add_law [OF assms(2)] by blast
  have dec: "dec_head (fill sizeof_head (enc_head h)) = h" "dec_ping (fill sizeof_ping (enc_ping p)) = p"
    using dec_enc_head [of h "[]"] dec_enc_ping [of p "[]"] by (simp_all add: fill_fits)
  show ?thesis
    using assms(3,4,6) r1(1) r2 t dec registry_entries_repr [OF t(2)]
    by (simp add: tcp_conn_read_cb_def ts_calloc_def ts_read_def Let_def tcp_process_ping_cmd_def ts_free_def)
qed

lemma conn_read_query_answered:
  assumes "tcp_repr s ds" and "src \<noteq> q" and "tcp_entries q ds = [dq]" and "tcp_entries src ds = [dsrc]"
    and "pbev \<notin> set (ts_freed s)" and "td_bev dq \<notin> set (ts_freed s)"
    and "query_waits lib pbev src q (ts_lib s) b2" and "writes_succeed lib"
  shows "\<exists>s'. tcp_conn_read_cb lib mem_ok pbev s = Inr s' \<and>
    ts_written s' = ts_written s @ tcp_query_answer dsrc dq pbev \<and>
    ts_table s' = ts_table s \<and> ts_live s' = ts_live s + 1"
proof -
  let ?st = "fold_brk (tcp_query_step src q) ds tcp_query_start"
  have st: "q_cmd ?st = P2P_TRANSFER_QUERY_DEVICE_INFO_RESPONSE" "q_info ?st = td_info dq"
    "q_src ?st = td_info dsrc" "q_dst ?st = Some (td_bev dq)"
    using tcp_query_fold [OF assms(2), of ds tcp_query_start] assms(3,4)
    by (simp_all add: tcp_query_start_def)
  have w: "\<And>bev msg b. fst (bufferevent_write lib bev msg b) \<noteq> - 1"
    using assms(8) by (simp add: writes_succeed_def)
  show ?thesis
    using conn_read_query [OF assms(1,5,7)] st assms(5,6) w
    by (simp add: tcp_send_punch_hole_cmd_to_peer_def ts_calloc_def ts_write_def ts_free_def Let_def
        split_def tcp_query_answer_def response_msg_def)
qed

subsection \<open>Properties\<close>

text \<open>A query between two devices with one table entry each, over open connections, writes
  the punch-hole command with the asker's address to the connection of the device asked for,
  then the response with that device's address to the asker. It leaves the table alone but one
  heap block behind.\<close>

theorem tcp_query_answered:
  assumes "tcp_repr s ds" and "src \<noteq> q" and "tcp_entries q ds = [dq]" and "tcp_entries src ds = [dsrc]"
    and "pbev \<notin> set (ts_freed s)" and "td_bev dq \<notin> set (ts_freed s)"
    and "query_waits lib pbev src q (ts_lib s) b2" and "writes_succeed lib"
  shows "\<exists>s'. tcp_conn_read_cb lib mem_ok pbev s = Inr s' \<and>
    ts_written s' = ts_written s @ tcp_query_answer dsrc dq pbev \<and>
    ts_table s' = ts_table s \<and> ts_live s' = ts_live s + 1"
  using assms by (rule conn_read_query_answered)

text \<open>A query for a device that is not in the table kills the server: the connection to send
  the punch-hole command to is still \<open>NULL\<close> and the \<open>assert\<close> fails. Any client can do this.\<close>

theorem tcp_query_unknown_device_aborts:
  assumes "tcp_repr s ds" and "tcp_entries q ds = []" and "pbev \<notin> set (ts_freed s)"
    and "query_waits lib pbev src q (ts_lib s) b2"
  shows "tcp_conn_read_cb lib mem_ok pbev s = Inl AssertFailed"
proof -
  have "q_dst (fold_brk (tcp_query_step src q) ds tcp_query_start) = None"
    using tcp_query_absent [OF assms(2)] by (simp add: tcp_query_start_def)
  then show ?thesis
    using conn_read_query [OF assms(1,3,4)] by (simp add: tcp_send_punch_hole_cmd_to_peer_def Let_def)
qed

text \<open>C19: Closing a connection leaves its table entries behind. The next query for such a device
  writes to the freed bufferevent.\<close>

theorem tcp_query_after_close_uses_freed:
  assumes "tcp_repr s ds" and "src \<noteq> q" and "tcp_entries q ds = [dq]" and "tcp_entries src ds = [dsrc]"
    and "tcp_conn_event_cb lib (td_bev dq) s = Inr s1" and "pbev \<notin> set (ts_freed s1)"
    and "query_waits lib pbev src q (ts_lib s1) b2"
  shows "tcp_conn_read_cb lib mem_ok pbev s1 = Inl UseAfterFree"
proof -
  have s1: "tcp_repr s1 ds" "td_bev dq \<in> set (ts_freed s1)"
    using assms(1,5) by (auto simp: tcp_conn_event_cb_def Let_def ts_free_def split: if_splits)
  have "q_dst (fold_brk (tcp_query_step src q) ds tcp_query_start) = Some (td_bev dq)"
    using tcp_query_fold [OF assms(2), of ds tcp_query_start] assms(3,4)
    by (simp add: tcp_query_start_def)
  then show ?thesis
    using conn_read_query [OF s1(1) assms(6,7)] s1(2)
    by (simp add: tcp_send_punch_hole_cmd_to_peer_def Let_def ts_calloc_def ts_write_def)
qed

text \<open>C18: While the connections of all registered devices are open, the only fault the read
  callback can commit is the failing \<open>assert\<close>, whatever bytes arrive and whatever allocations
  and writes fail.\<close>

theorem tcp_open_connections_no_bad_access:
  assumes "tcp_repr s ds" and "\<forall>d \<in> set ds. td_bev d \<notin> set (ts_freed s)"
    and "pbev \<notin> set (ts_freed s)" and "ts_addrs s pbev \<noteq> None"
    and "tcp_conn_read_cb lib mem pbev s = Inl f"
  shows "f = AssertFailed"
proof -
  have ping: "tcp_process_ping_cmd mem pbev p (ts_addrs s pbev) s' \<noteq> Inl f'" if repr: "tcp_repr s' ds" for p s' f'
  proof -
    obtain addr where "ts_addrs s pbev = Some addr" using assms(4) by auto
    obtain t where "registry_add \<lparr>td_info = \<lparr>device_sn = ping_device_sn p, ip_addr = sin_addr addr,
        port = sin_port addr, network_type = ping_network_type p\<rparr>, td_bev = pbev\<rparr> (ts_table s') = Some t"
      "registry_entries t \<noteq> None"
      using dev.add_law [OF repr] registry_entries_repr by (metis option.distinct(1))
    with \<open>ts_addrs s pbev = Some addr\<close> show ?thesis
      by (auto simp: tcp_process_ping_cmd_def ts_calloc_def Let_def)
  qed
  have query: "f' = AssertFailed"
    if "tcp_process_query_device_info_cmd lib mem pbev src q s' = Inl f'" "tcp_repr s' ds"
      "ts_freed s' = ts_freed s" for src q s' f'
  proof -
    have scan: "registry_scan (tcp_query_step src q) tcp_query_start (ts_table s')
        = Some (fold_brk (tcp_query_step src q) ds tcp_query_start)"
      by (rule dev.scan_law [OF that(2)])
    have "q_dst (fold_brk (tcp_query_step src q) ds tcp_query_start) \<notin> Some ` set (ts_freed s)"
      using tcp_query_dst [of src q ds tcp_query_start] assms(2) by (auto simp: tcp_query_start_def)
    with that scan assms(3) show ?thesis
      by (auto simp: tcp_process_query_device_info_cmd_def tcp_send_punch_hole_cmd_to_peer_def ts_calloc_def
          ts_write_def ts_free_def Let_def bind_r_def split_def split: if_splits option.splits sum.splits)
  qed
  show ?thesis
    using assms(1,3,5)
    by (auto simp: tcp_conn_read_cb_def ts_calloc_def ts_read_def Let_def bind_r_def split_def ping ts_free_def
        split: if_splits sum.splits dest!: query)
qed

text \<open>One call of the read callback handles one message. A second message that arrived
  together with it stays in the input buffer: with bytes delivered in order, after a ping has
  been registered the rest of the input is untouched.\<close>

theorem tcp_read_handles_one_message:
  assumes "\<forall>n b. bufferevent_read lib pbev n b = (take n (inp b), snd (bufferevent_read lib pbev n b)) \<and>
      inp (snd (bufferevent_read lib pbev n b)) = drop n (inp b)"
    and "tcp_repr s ds" and "pbev \<notin> set (ts_freed s)" and "ts_addrs s pbev = Some addr"
    and "inp (ts_lib s) = enc_head h @ enc_ping p @ rest" and "cmd h = P2P_TRANSFER_PING"
  shows "\<exists>s'. tcp_conn_read_cb lib mem_ok pbev s = Inr s' \<and> inp (ts_lib s') = rest \<and>
    tcp_repr s' (\<lparr>td_info = \<lparr>device_sn = ping_device_sn p, ip_addr = sin_addr addr,
        port = sin_port addr, network_type = ping_network_type p\<rparr>, td_bev = pbev\<rparr> # ds)"
  using conn_read_ping [OF assms] by blast

text \<open>When a connection ends, its descriptor (any positive one) is closed twice: libevent
  closes it because of \<open>BEV_OPT_CLOSE_ON_FREE\<close>, and the callback closes the number again, which
  by then may belong to someone else.\<close>

theorem tcp_event_closes_twice:
  assumes "bev \<notin> set (ts_freed s)" and "bufferevent_getfd lib bev (ts_lib s) > 0"
  shows "\<exists>s'. tcp_conn_event_cb lib bev s = Inr s' \<and>
    ts_fd_ops s' = ts_fd_ops s @ [ClosedByFree (bufferevent_getfd lib bev (ts_lib s)),
                                  ClosedByClose (bufferevent_getfd lib bev (ts_lib s))] \<and>
    ts_table s' = ts_table s"
  using assms by (simp add: tcp_conn_event_cb_def Let_def ts_free_def)

subsection \<open>Witnesses\<close>

text \<open>
  A concrete libevent: each connection has the bytes waiting in it, writes succeed, descriptor
  numbers are the connection's plus ten; and a server whose table has the given entries.
\<close>

definition sample_lib :: "(nat \<Rightarrow> byte list) libevent" where
  "sample_lib = \<lparr>bufferevent_read = (\<lambda>bev n b. (take n (b bev), b(bev := drop n (b bev)))),
     bufferevent_write = (\<lambda>_ _ b. (0, b)), bufferevent_free = (\<lambda>_ b. b),
     bufferevent_getfd = (\<lambda>bev _. int bev + 10), bufferevent_socket_new = (\<lambda>fd b. (Some (nat fd), b))\<rparr>"

definition sample_server :: "tcp_device list \<Rightarrow> (nat \<Rightarrow> byte list) \<Rightarrow> nat list \<Rightarrow> (nat \<Rightarrow> byte list) tcp_server" where
  "sample_server ds b freed =
     \<lparr>ts_table = the (Option.bind registry_init (dev.add_all (rev ds))), ts_lib = b,
      ts_addrs = (\<lambda>_. Some \<lparr>sin_addr = 7, sin_port = 70\<rparr>), ts_written = [], ts_freed = freed, ts_fd_ops = [],
      ts_callocs = 0, ts_live = 0\<rparr>"

lemma sample_server_repr: "tcp_repr (sample_server ds b freed) ds"
proof -
  obtain r :: "tcp_device registry" where r: "registry_init = Some r" "registry_repr r []"
    using dev.create_law by blast
  obtain r' where "dev.add_all (rev ds) r = Some r'" "registry_repr r' ds"
    using dev.add_all_repr [OF r(2), of "rev ds"] by auto
  then show ?thesis by (simp add: sample_server_def r(1) del: Option.bind.simps) (simp add: r(1))
qed

lemma sample_server_simps:
  "ts_freed (sample_server ds b freed) = freed" "ts_lib (sample_server ds b freed) = b"
  "ts_written (sample_server ds b freed) = []" "ts_live (sample_server ds b freed) = 0"
  "ts_addrs (sample_server ds b freed) n = Some \<lparr>sin_addr = 7, sin_port = 70\<rparr>"
  "ts_fd_ops (sample_server ds b freed) = []"
  by (simp_all add: sample_server_def)

definition sample_dev :: "u64 \<Rightarrow> nat \<Rightarrow> tcp_device" where
  "sample_dev sn bev = \<lparr>td_info = zero_info\<lparr>device_sn := sn\<rparr>, td_bev = bev\<rparr>"

definition sample_query :: "byte list" where
  "sample_query = enc_head (zero_head\<lparr>cmd := P2P_TRANSFER_QUERY_DEVICE_INFO_REQUEST, src_device_sn := 1\<rparr>)
     @ enc_info (zero_info\<lparr>device_sn := 2\<rparr>)"

lemma sample_query_waits: "query_waits sample_lib bev 1 2 (\<lambda>_. sample_query) ((\<lambda>_. sample_query)(bev := []))"
  unfolding query_waits_def
  by (rule exI [of _ "zero_head\<lparr>cmd := P2P_TRANSFER_QUERY_DEVICE_INFO_REQUEST, src_device_sn := 1\<rparr>"],
      rule exI [of _ "zero_info\<lparr>device_sn := 2\<rparr>"])
     (simp add: sample_lib_def sample_query_def)

lemma sample_writes: "writes_succeed sample_lib"
  by (simp add: writes_succeed_def sample_lib_def)

lemmas sample_facts = sample_server_simps sample_dev_def

theorem tcp_query_answered_witness:
  "\<exists>s'. tcp_conn_read_cb sample_lib mem_ok 5
      (sample_server [sample_dev 1 5, sample_dev 2 6] (\<lambda>_. sample_query) []) = Inr s' \<and>
    ts_written s' = tcp_query_answer (sample_dev 1 5) (sample_dev 2 6) 5 \<and> ts_live s' = 1"
proof -
  let ?ds = "[sample_dev 1 5, sample_dev 2 6]"
  let ?s = "sample_server ?ds (\<lambda>_. sample_query) []"
  have "\<exists>s'. tcp_conn_read_cb sample_lib mem_ok 5 ?s = Inr s' \<and>
    ts_written s' = ts_written ?s @ tcp_query_answer (sample_dev 1 5) (sample_dev 2 6) 5 \<and>
    ts_table s' = ts_table ?s \<and> ts_live s' = ts_live ?s + 1"
  proof (rule tcp_query_answered [OF sample_server_repr])
    show "query_waits sample_lib 5 1 2 (ts_lib ?s) ((\<lambda>_. sample_query)(5 := []))"
      unfolding sample_server_simps by (rule sample_query_waits)
  qed (simp_all add: sample_facts sample_writes)
  then show ?thesis by (auto simp: sample_server_simps)
qed

theorem tcp_query_unknown_device_aborts_witness:
  "tcp_conn_read_cb sample_lib mem_ok 5 (sample_server [sample_dev 1 5] (\<lambda>_. sample_query) []) = Inl AssertFailed"
proof (rule tcp_query_unknown_device_aborts [OF sample_server_repr])
  show "query_waits sample_lib 5 1 2 (ts_lib (sample_server [sample_dev 1 5] (\<lambda>_. sample_query) []))
      ((\<lambda>_. sample_query)(5 := []))"
    unfolding sample_server_simps by (rule sample_query_waits)
qed (simp_all add: sample_facts)

theorem tcp_query_after_close_uses_freed_witness:
  "\<exists>s1. tcp_conn_event_cb sample_lib 6
      (sample_server [sample_dev 1 5, sample_dev 2 6] (\<lambda>_. sample_query) []) = Inr s1 \<and>
    tcp_conn_read_cb sample_lib mem_ok 5 s1 = Inl UseAfterFree"
proof -
  let ?ds = "[sample_dev 1 5, sample_dev 2 6]"
  let ?s = "sample_server ?ds (\<lambda>_. sample_query) []"
  obtain s1 where s1: "tcp_conn_event_cb sample_lib 6 ?s = Inr s1"
    "ts_freed s1 = [6]" "ts_lib s1 = (\<lambda>_. sample_query)"
    by (simp add: tcp_conn_event_cb_def Let_def sample_facts sample_lib_def ts_free_def)
  have ev: "tcp_conn_event_cb sample_lib (td_bev (sample_dev 2 6)) ?s = Inr s1"
    using s1(1) by (simp add: sample_dev_def)
  have "tcp_conn_read_cb sample_lib mem_ok 5 s1 = Inl UseAfterFree"
  proof (rule tcp_query_after_close_uses_freed [OF sample_server_repr _ _ _ ev])
    show "query_waits sample_lib 5 1 2 (ts_lib s1) ((\<lambda>_. sample_query)(5 := []))"
      unfolding s1 by (rule sample_query_waits)
    show "tcp_entries 1 ?ds = [sample_dev 1 5]" by (simp add: sample_dev_def)
  qed (use s1 in \<open>simp_all add: sample_dev_def\<close>)
  with s1(1) show ?thesis by blast
qed

theorem tcp_open_connections_no_bad_access_witness:
  "\<exists>f. tcp_conn_read_cb sample_lib mem_ok 5 (sample_server [sample_dev 1 5] (\<lambda>_. sample_query) []) = Inl f \<and>
    f = AssertFailed"
proof -
  let ?s = "sample_server [sample_dev 1 5] (\<lambda>_. sample_query) []"
  have w: "query_waits sample_lib 5 1 2 (ts_lib ?s) ((\<lambda>_. sample_query)(5 := []))"
    unfolding sample_server_simps by (rule sample_query_waits)
  obtain f where f: "tcp_conn_read_cb sample_lib mem_ok 5 ?s = Inl f"
    using conn_read_query [OF sample_server_repr _ w]
    by (simp add: sample_facts Let_def tcp_query_step_def query_step_def tcp_query_start_def
        tcp_send_punch_hole_cmd_to_peer_def)
  moreover have "f = AssertFailed"
    by (rule tcp_open_connections_no_bad_access [OF sample_server_repr _ _ _ f]) (simp_all add: sample_facts)
  ultimately show ?thesis by blast
qed

theorem tcp_read_handles_one_message_witness:
  "\<exists>s'. tcp_conn_read_cb sample_lib mem_ok 5
      (sample_server [] (\<lambda>_. enc_head (zero_head\<lparr>cmd := P2P_TRANSFER_PING\<rparr>) @
         enc_ping \<lparr>ping_device_sn = 1, ping_network_type = 2\<rparr> @ sample_query) []) = Inr s' \<and>
    ts_lib s' 5 = sample_query \<and>
    tcp_repr s' [\<lparr>td_info = \<lparr>device_sn = 1, ip_addr = 7, port = 70, network_type = 2\<rparr>, td_bev = 5\<rparr>]"
  using tcp_read_handles_one_message [of sample_lib 5 "\<lambda>b. b 5"
      "sample_server [] (\<lambda>_. enc_head (zero_head\<lparr>cmd := P2P_TRANSFER_PING\<rparr>) @
         enc_ping \<lparr>ping_device_sn = 1, ping_network_type = 2\<rparr> @ sample_query) []"
      "[]" "\<lparr>sin_addr = 7, sin_port = 70\<rparr>" "zero_head\<lparr>cmd := P2P_TRANSFER_PING\<rparr>"
      "\<lparr>ping_device_sn = 1, ping_network_type = 2\<rparr>" sample_query]
  by (simp add: sample_server_repr sample_server_simps sample_lib_def)

theorem tcp_event_closes_twice_witness:
  "\<exists>s'. tcp_conn_event_cb sample_lib 5 (sample_server [] (\<lambda>_. []) []) = Inr s' \<and>
    ts_fd_ops s' = [ClosedByFree 15, ClosedByClose 15]"
  using tcp_event_closes_twice [of 5 "sample_server [] (\<lambda>_. []) []" sample_lib]
  by (auto simp: sample_facts sample_lib_def)

end
