(* ===== verification/TcpPeer.thy ===== *)
theory TcpPeer
  imports Libevent UdpWorld Log
begin

text \<open>
  The TCP peer, \<open>p2p_transfer_tcp/p2p_transfer_peer/p2p_transfer_peer.c\<close>: it listens on and
  connects from one fixed local port, pings the server once, asks for device 2222 (unless it is
  that device itself) and punches holes with \<open>connect_peer\<close>. Every system call is recorded in
  \<open>tp_trace\<close>; the operating system is the argument \<open>env\<close>, whose fields answer a call from the
  calls made before it. libevent's bufferevents are the argument \<open>lib\<close>.
\<close>

definition P2P_TRANSFER_CLIENT_PORT :: u16 where "P2P_TRANSFER_CLIENT_PORT = 5152"

text \<open>\<open>inet_addr("58.220.12.22")\<close>, the bytes in network order.\<close>

definition TCP_SERVER_ADDR :: sockaddr_in where
  "TCP_SERVER_ADDR = \<lparr>sin_addr = of_nat (le_val [58, 220, 12, 22]), sin_port = htons P2P_TRANSFER_SERVER_PORT\<rparr>"

definition SOCK_FLAGS :: u32 where
  "SOCK_FLAGS = or (or SO_REUSEADDR SO_REUSEPORT) SO_KEEPALIVE"

datatype timer = PingTimer | UserTimer | ReadEvent

datatype sys_call =
    Calloc bool | Free
  | Socket int | SetSockOpt int "u32 list" int | Bind int sockaddr_in int
  | Connect int sockaddr_in "errno option" | Close int | Sleep nat
  | Send int "byte list" int | Recv int nat "byte list option"
  | PthreadCreate p2p_msg_device_info_t bool
  | BevNew int "nat option" | BevFree nat int | BevWrite nat "byte list" int
  | ListenerNew sockaddr_in "int option" | ListenerFree int
  | EventNew timer bool | EventAdd timer nat | EventActive timer | EventFree timer
  | BaseNew bool | BaseFree | Dispatch int

type_synonym trace = "sys_call list"

record peer_env =
  e_calloc :: "trace \<Rightarrow> bool"
  e_socket :: "trace \<Rightarrow> int"
  e_setsockopt :: "trace \<Rightarrow> u32 \<Rightarrow> bool"
  e_bind :: "trace \<Rightarrow> int"
  e_connect :: "trace \<Rightarrow> errno option"
  e_send :: "trace \<Rightarrow> int"
  e_recv :: "trace \<Rightarrow> byte list option"
  e_thread :: "trace \<Rightarrow> bool"
  e_listen :: "trace \<Rightarrow> int option"
  e_event_new :: "trace \<Rightarrow> bool"
  e_base_new :: "trace \<Rightarrow> bool"
  e_log_file :: "nat option"
  e_dispatch :: "trace \<Rightarrow> int"

record 'b tcp_peer =
  tp_device_sn :: u64
  tp_local_ip :: u32
  tp_user_event :: bool
  tp_ping_event :: bool
  tp_conn_server_sock :: int
  tp_ping_bev :: "nat option"
  tp_listen_local_sock :: int
  tp_listener :: "int option"
  tp_base :: bool
  tp_lib :: 'b
  tp_freed :: "nat list"
  tp_threads :: "p2p_msg_device_info_t list"
  tp_received :: "byte list list"
  tp_trace :: trace
  tp_log :: log_state

subsection \<open>System calls\<close>

definition tp_do :: "sys_call \<Rightarrow> 'b tcp_peer \<Rightarrow> 'b tcp_peer" where
  "tp_do c s = s\<lparr>tp_trace := tp_trace s @ [c]\<rparr>"

definition tp_calloc :: "peer_env \<Rightarrow> 'b tcp_peer \<Rightarrow> bool \<times> 'b tcp_peer" where
  "tp_calloc env s = (let ok = e_calloc env (tp_trace s) in (ok, tp_do (Calloc ok) s))"

definition tp_socket :: "peer_env \<Rightarrow> 'b tcp_peer \<Rightarrow> int \<times> 'b tcp_peer" where
  "tp_socket env s = (let r = e_socket env (tp_trace s) in (r, tp_do (Socket r) s))"

definition tp_set_sock_opt :: "peer_env \<Rightarrow> int \<Rightarrow> 'b tcp_peer \<Rightarrow> int \<times> 'b tcp_peer" where
  "tp_set_sock_opt env sock s =
     (let (opts, r) = set_sock_opt True (e_setsockopt env (tp_trace s)) SOCK_FLAGS
      in (r, tp_do (SetSockOpt sock opts r) s))"

definition tp_bind :: "peer_env \<Rightarrow> int \<Rightarrow> sockaddr_in \<Rightarrow> 'b tcp_peer \<Rightarrow> int \<times> 'b tcp_peer" where
  "tp_bind env sock a s = (let r = e_bind env (tp_trace s) in (r, tp_do (Bind sock a r) s))"

definition tp_connect :: "peer_env \<Rightarrow> int \<Rightarrow> sockaddr_in \<Rightarrow> 'b tcp_peer \<Rightarrow> errno option \<times> 'b tcp_peer" where
  "tp_connect env sock a s = (let r = e_connect env (tp_trace s) in (r, tp_do (Connect sock a r) s))"

text \<open>\<open>SAFE_CLOSE\<close>: descriptor 0 is not closed either.\<close>

definition tp_safe_close :: "int \<Rightarrow> 'b tcp_peer \<Rightarrow> 'b tcp_peer" where
  "tp_safe_close sock s = (if sock > 0 then tp_do (Close sock) s else s)"

definition tp_send :: "peer_env \<Rightarrow> int \<Rightarrow> byte list \<Rightarrow> 'b tcp_peer \<Rightarrow> int \<times> 'b tcp_peer" where
  "tp_send env sock msg s = (let r = e_send env (tp_trace s) in (r, tp_do (Send sock msg r) s))"

text \<open>\<open>recv\<close> of at most \<open>n\<close> bytes; \<open>None\<close> is the result -1.\<close>

definition tp_recv :: "peer_env \<Rightarrow> int \<Rightarrow> nat \<Rightarrow> 'b tcp_peer \<Rightarrow> byte list option \<times> 'b tcp_peer" where
  "tp_recv env sock n s =
     (let r = map_option (take n) (e_recv env (tp_trace s)) in (r, tp_do (Recv sock n r) s))"

definition tp_bev_read :: "'b libevent \<Rightarrow> nat \<Rightarrow> nat \<Rightarrow> 'b tcp_peer \<Rightarrow> fault + byte list \<times> 'b tcp_peer" where
  "tp_bev_read lib bev n s =
     (if bev \<in> set (tp_freed s) then Inl UseAfterFree
      else let (d, b) = bufferevent_read lib bev n (tp_lib s) in Inr (d, s\<lparr>tp_lib := b\<rparr>))"

definition tp_bev_write ::
  "'b libevent \<Rightarrow> nat \<Rightarrow> byte list \<Rightarrow> 'b tcp_peer \<Rightarrow> fault + int \<times> 'b tcp_peer" where
  "tp_bev_write lib bev msg s =
     (if bev \<in> set (tp_freed s) then Inl UseAfterFree
      else let (r, b) = bufferevent_write lib bev msg (tp_lib s)
           in Inr (r, tp_do (BevWrite bev msg r) (s\<lparr>tp_lib := b\<rparr>)))"

subsection \<open>Pinging the server\<close>

definition tp_ping_msg :: "u64 \<Rightarrow> byte list" where
  "tp_ping_msg sn =
     enc_head (zero_head\<lparr>magic := P2P_TRANSFER_MAGIC, cmd_len := of_nat sizeof_ping,
       src_device_sn := sn, cmd := P2P_TRANSFER_PING\<rparr>)
     @ enc_ping \<lparr>ping_device_sn = sn, ping_network_type = NP_PORT_RESTRICTED_CONE_NAT\<rparr>"

definition tp_ping_cb :: "peer_env \<Rightarrow> 'b libevent \<Rightarrow> 'b tcp_peer \<Rightarrow> fault + 'b tcp_peer" where
  "tp_ping_cb env lib s =
     (let (ok, s) = tp_calloc env s in
      if \<not> ok then Inr s
      else bind_r (of_opt (tp_ping_bev s)) (\<lambda>bev.
        bind_r (tp_bev_write lib bev (tp_ping_msg (tp_device_sn s)) s) (\<lambda>(_, s).
          Inr (tp_do Free s))))"

subsection \<open>Connecting to the other peer\<close>

definition tp_local_addr :: "'b tcp_peer \<Rightarrow> sockaddr_in" where
  "tp_local_addr s = \<lparr>sin_addr = tp_local_ip s, sin_port = htons P2P_TRANSFER_CLIENT_PORT\<rparr>"

text \<open>One round of the loop in \<open>connect_peer\<close>: \<open>Some\<close> socket for \<open>break\<close>, \<open>None\<close> for \<open>NEXT\<close>.\<close>

definition connect_attempt ::
  "peer_env \<Rightarrow> sockaddr_in \<Rightarrow> 'b tcp_peer \<Rightarrow> int option \<times> 'b tcp_peer" where
  "connect_attempt env peer_addr s =
     (let (sock, s) = tp_socket env s in
      if sock < 0 then (None, tp_safe_close sock s)
      else let (r, s) = tp_set_sock_opt env sock s in
      if r = - 1 then (None, tp_safe_close sock s)
      else let (r, s) = tp_bind env sock (tp_local_addr s) s in
      if r = - 1 then (None, tp_safe_close sock s)
      else let (e, s) = tp_connect env sock peer_addr s in
      case e of None \<Rightarrow> (Some sock, s)
      | Some err \<Rightarrow> (None, tp_safe_close sock (if err \<noteq> ETIMEDOUT then tp_do (Sleep 20) s else s)))"

text \<open>The loop, given the value of \<open>retry\<close> after \<open>--retry\<close>; at 0 the loop is left.\<close>

fun connect_loop :: "peer_env \<Rightarrow> sockaddr_in \<Rightarrow> nat \<Rightarrow> 'b tcp_peer \<Rightarrow> int \<times> 'b tcp_peer" where
  "connect_loop env peer_addr 0 s = (- 1, s)"
| "connect_loop env peer_addr (Suc retry) s =
     (case connect_attempt env peer_addr s of
        (Some sock, s) \<Rightarrow> (sock, s)
      | (None, s) \<Rightarrow> connect_loop env peer_addr retry s)"

definition connect_peer :: "peer_env \<Rightarrow> p2p_msg_device_info_t \<Rightarrow> 'b tcp_peer \<Rightarrow> int \<times> 'b tcp_peer" where
  "connect_peer env d s =
     (let retry = 10 in connect_loop env \<lparr>sin_addr = ip_addr d, sin_port = port d\<rparr> (retry - 1) s)"

text \<open>
  The thread started for a punch-hole command. The ten-byte buffer is logged with \<open>%s\<close>: if ten
  bytes without a zero arrive, the logger reads beyond it.
\<close>

definition process_punch_hole_cmd_cb ::
  "peer_env \<Rightarrow> p2p_msg_device_info_t \<Rightarrow> 'b tcp_peer \<Rightarrow> fault + 'b tcp_peer" where
  "process_punch_hole_cmd_cb env d s =
     (let (sock, s) = connect_peer env d s in
      if sock = - 1 then Inr (tp_safe_close sock s)
      else let (r, s) = tp_recv env sock 10 s in
      case r of None \<Rightarrow> Inr (tp_safe_close sock s)
      | Some d \<Rightarrow> (let buf = fill 10 d in
          if 0 \<notin> set buf then Inl BadAccess
          else Inr (tp_safe_close sock (s\<lparr>tp_received := tp_received s @ [takeWhile (\<lambda>c. c \<noteq> 0) buf]\<rparr>))))"

definition process_punch_hole_cmd ::
  "peer_env \<Rightarrow> p2p_msg_device_info_t \<Rightarrow> 'b tcp_peer \<Rightarrow> int \<times> 'b tcp_peer" where
  "process_punch_hole_cmd env d s =
     (let ok = e_thread env (tp_trace s); s = tp_do (PthreadCreate d ok) s in
      if ok then (0, s\<lparr>tp_threads := tp_threads s @ [d]\<rparr>) else (- 1, s))"

subsection \<open>Callbacks of the server's connection\<close>

definition tp_conn_read_cb :: "peer_env \<Rightarrow> 'b libevent \<Rightarrow> nat \<Rightarrow> 'b tcp_peer \<Rightarrow> fault + 'b tcp_peer" where
  "tp_conn_read_cb env lib pbev s =
     (let (ok, s) = tp_calloc env s in
      if \<not> ok then Inr s
      else bind_r (tp_bev_read lib pbev sizeof_head s) (\<lambda>(d, s).
        if cmd (dec_head (fill sizeof_head d)) = P2P_TRANSFER_PUNCH_HOLE
        then let (ok, s) = tp_calloc env s in
          if \<not> ok then Inr (tp_do Free s)
          else bind_r (tp_bev_read lib pbev sizeof_info s) (\<lambda>(d, s).
            Inr (tp_do Free (snd (process_punch_hole_cmd env (dec_info (fill sizeof_info d)) s))))
        else Inr (tp_do Free s)))"

definition tp_conn_event_cb :: "'b libevent \<Rightarrow> nat \<Rightarrow> 'b tcp_peer \<Rightarrow> fault + 'b tcp_peer" where
  "tp_conn_event_cb lib bev s =
     (if bev \<in> set (tp_freed s) then Inl UseAfterFree
      else let conn_sock = bufferevent_getfd lib bev (tp_lib s);
               s = tp_do (BevFree bev conn_sock) s;
               s = s\<lparr>tp_lib := bufferevent_free lib bev (tp_lib s), tp_freed := bev # tp_freed s\<rparr>
           in Inr (tp_safe_close conn_sock s))"

subsection \<open>The user's timer\<close>

definition data_abc :: "byte list" where "data_abc = [97, 98, 99]"

definition punch_hole :: "peer_env \<Rightarrow> p2p_msg_device_info_t \<Rightarrow> 'b tcp_peer \<Rightarrow> int \<times> 'b tcp_peer" where
  "punch_hole env d s =
     (let (sock, s) = connect_peer env d s in
      if sock = - 1 then (- 1, tp_safe_close sock s)
      else let (r, s) = tp_send env sock data_abc s in
      if r = - 1 then (- 1, tp_safe_close sock s)
      else (0, tp_safe_close sock s))"

definition tp_query_msg :: "u64 \<Rightarrow> u64 \<Rightarrow> byte list" where
  "tp_query_msg sn q =
     enc_head (zero_head\<lparr>magic := P2P_TRANSFER_MAGIC, src_device_sn := sn,
       cmd_len := of_nat sizeof_info, cmd := P2P_TRANSFER_QUERY_DEVICE_INFO_REQUEST\<rparr>)
     @ enc_info (zero_info\<lparr>device_sn := q\<rparr>)"

definition tp_user_cb :: "peer_env \<Rightarrow> 'b tcp_peer \<Rightarrow> 'b tcp_peer" where
  "tp_user_cb env s =
     (let total_len = sizeof_head + sizeof_info; sock = tp_conn_server_sock s;
          (ok, s) = tp_calloc env s in
      if \<not> ok then s
      else let (ok, s) = tp_calloc env s in
      if \<not> ok then tp_do Free s
      else let (r, s) = tp_send env sock (tp_query_msg (tp_device_sn s) 2222) s in
      if r = - 1 then tp_do Free (tp_do Free s)
      else let (d, s) = tp_recv env sock total_len s in
      case d of None \<Rightarrow> tp_do Free (tp_do Free s)
      | Some d \<Rightarrow>
        let presponse = fill total_len d in
        if cmd (dec_head presponse) = P2P_TRANSFER_UNKNOWN_CMD then tp_do Free (tp_do Free s)
        else tp_do Free (tp_do Free (snd (punch_hole env (dec_info (cmd_data presponse)) s))))"

subsection \<open>Setting up and shutting down\<close>

definition tp_connect_server :: "peer_env \<Rightarrow> 'b libevent \<Rightarrow> 'b tcp_peer \<Rightarrow> int \<times> 'b tcp_peer" where
  "tp_connect_server env lib s =
     (let (sock, s) = tp_socket env s in
      if sock = - 1 then (- 1, tp_safe_close sock s)
      else let (r, s) = tp_set_sock_opt env sock s in
      if r = - 1 then (- 1, tp_safe_close sock s)
      else let (r, s) = tp_bind env sock (tp_local_addr s) s in
      if r = - 1 then (- 1, tp_safe_close sock s)
      else let (e, s) = tp_connect env sock TCP_SERVER_ADDR s in
      if e \<noteq> None then (- 1, tp_safe_close sock s)
      else let (bev, b) = bufferevent_socket_new lib sock (tp_lib s);
               s = tp_do (BevNew sock bev) (s\<lparr>tp_lib := b\<rparr>) in
      if bev = None then (- 1, tp_safe_close sock s)
      else (0, s\<lparr>tp_conn_server_sock := sock, tp_ping_bev := bev\<rparr>))"

definition tp_listen_local :: "peer_env \<Rightarrow> 'b tcp_peer \<Rightarrow> int \<times> 'b tcp_peer" where
  "tp_listen_local env s =
     (let l = e_listen env (tp_trace s); s = tp_do (ListenerNew (tp_local_addr s) l) s in
      case l of None \<Rightarrow> (- 1, s)
      | Some sock \<Rightarrow>
        let (r, s) = tp_set_sock_opt env sock s in
        if r = - 1 then (- 1, tp_do (ListenerFree sock) s)
        else (0, s\<lparr>tp_listen_local_sock := sock, tp_listener := l\<rparr>))"

definition tp_event_new :: "peer_env \<Rightarrow> timer \<Rightarrow> 'b tcp_peer \<Rightarrow> bool \<times> 'b tcp_peer" where
  "tp_event_new env t s = (let ok = e_event_new env (tp_trace s) in (ok, tp_do (EventNew t ok) s))"

definition tp_add_ping_timer :: "peer_env \<Rightarrow> 'b tcp_peer \<Rightarrow> int \<times> 'b tcp_peer" where
  "tp_add_ping_timer env s =
     (let (ok, s) = tp_event_new env PingTimer s in
      if \<not> ok then (- 1, s)
      else (0, (tp_do (EventActive PingTimer) (tp_do (EventAdd PingTimer 5) s))\<lparr>tp_ping_event := True\<rparr>))"

definition tp_add_user_timer :: "peer_env \<Rightarrow> 'b tcp_peer \<Rightarrow> int \<times> 'b tcp_peer" where
  "tp_add_user_timer env s =
     (let (ok, s) = tp_event_new env UserTimer s in
      if \<not> ok then (- 1, s)
      else (0, (tp_do (EventAdd UserTimer 10) s)\<lparr>tp_user_event := True\<rparr>))"

text \<open>
  \<open>init\<close>: the arguments are \<open>atoi\<close> of the first and \<open>inet_addr\<close> of the second command-line
  argument. The first component is the pointer returned, \<open>False\<close> for \<open>NULL\<close>.
\<close>

definition tp_calloced :: "'b \<Rightarrow> 'b tcp_peer" where
  "tp_calloced b = \<lparr>tp_device_sn = 0, tp_local_ip = 0, tp_user_event = False, tp_ping_event = False,
     tp_conn_server_sock = 0, tp_ping_bev = None, tp_listen_local_sock = 0, tp_listener = None,
     tp_base = False, tp_lib = b, tp_freed = [], tp_threads = [], tp_received = [], tp_trace = [],
     tp_log = log_state0\<rparr>"

definition tp_init :: "peer_env \<Rightarrow> i32 option \<Rightarrow> u32 option \<Rightarrow> 'b \<Rightarrow> bool \<times> 'b tcp_peer" where
  "tp_init env sn local_ip b =
     (let (r, lg) = configure_log EN_PRINT_DEBUG (Some (e_log_file env)) True log_state0;
          s = (tp_calloced b)\<lparr>tp_log := lg\<rparr> in
      if r = - 1 then (False, s)
      else let (ok, s) = tp_calloc env s in
      if \<not> ok then (False, s)
      else let s = s\<lparr>tp_device_sn := (case sn of Some n \<Rightarrow> word_of_int (sint n) | None \<Rightarrow> 1111)\<rparr>;
               s = (case local_ip of Some ip \<Rightarrow> s\<lparr>tp_local_ip := ip\<rparr> | None \<Rightarrow> s);
               s = s\<lparr>tp_conn_server_sock := - 1, tp_listen_local_sock := - 1\<rparr>;
               ok = e_base_new env (tp_trace s); s = (tp_do (BaseNew ok) s)\<lparr>tp_base := ok\<rparr> in
        (ok, s))"

text \<open>\<open>uninit\<close>, one function for each of its \<open>if\<close>s.\<close>

definition uninit_user :: "'b tcp_peer \<Rightarrow> 'b tcp_peer" where
  "uninit_user s = (if tp_user_event s then (tp_do (EventFree UserTimer) s)\<lparr>tp_user_event := False\<rparr> else s)"

definition uninit_ping :: "'b tcp_peer \<Rightarrow> 'b tcp_peer" where
  "uninit_ping s = (if tp_ping_event s then (tp_do (EventFree PingTimer) s)\<lparr>tp_ping_event := False\<rparr> else s)"

definition uninit_listener :: "'b tcp_peer \<Rightarrow> 'b tcp_peer" where
  "uninit_listener s = (case tp_listener s of None \<Rightarrow> s
     | Some fd \<Rightarrow> (tp_do (ListenerFree fd) s)\<lparr>tp_listener := None\<rparr>)"

definition uninit_conn_sock :: "'b tcp_peer \<Rightarrow> 'b tcp_peer" where
  "uninit_conn_sock s = (if tp_conn_server_sock s > 0
     then (tp_do (Close (tp_conn_server_sock s)) s)\<lparr>tp_conn_server_sock := - 1\<rparr> else s)"

definition uninit_listen_sock :: "'b tcp_peer \<Rightarrow> 'b tcp_peer" where
  "uninit_listen_sock s = (if tp_listen_local_sock s > 0
     then (tp_do (Close (tp_listen_local_sock s)) s)\<lparr>tp_listen_local_sock := - 1\<rparr> else s)"

definition uninit_base :: "'b tcp_peer \<Rightarrow> 'b tcp_peer" where
  "uninit_base s = (if tp_base s then (tp_do BaseFree s)\<lparr>tp_base := False\<rparr> else s)"

definition tp_uninit :: "'b tcp_peer \<Rightarrow> 'b tcp_peer" where
  "tp_uninit s =
     uninit_base (uninit_listen_sock (uninit_conn_sock (uninit_listener (uninit_ping (uninit_user s)))))"

lemmas uninit_defs = uninit_user_def uninit_ping_def uninit_listener_def uninit_conn_sock_def
  uninit_listen_sock_def uninit_base_def

text \<open>What the event loop may run, in the order it runs it.\<close>

datatype peer_event = FirePing | FireUser | ReadReady nat | ConnEvent nat

fun tp_handle :: "peer_env \<Rightarrow> 'b libevent \<Rightarrow> peer_event \<Rightarrow> 'b tcp_peer \<Rightarrow> fault + 'b tcp_peer" where
  "tp_handle env lib FirePing s = tp_ping_cb env lib s"
| "tp_handle env lib FireUser s = Inr (tp_user_cb env s)"
| "tp_handle env lib (ReadReady bev) s = tp_conn_read_cb env lib bev s"
| "tp_handle env lib (ConnEvent bev) s = tp_conn_event_cb lib bev s"

fun tp_run :: "peer_env \<Rightarrow> 'b libevent \<Rightarrow> peer_event list \<Rightarrow> 'b tcp_peer \<Rightarrow> fault + 'b tcp_peer" where
  "tp_run env lib [] s = Inr s"
| "tp_run env lib (e # es) s = bind_r (tp_handle env lib e s) (tp_run env lib es)"

text \<open>
  \<open>main\<close>; \<open>events\<close> are the callbacks that \<open>event_base_dispatch\<close> runs. \<open>uninit(NULL)\<close> does nothing.
\<close>

definition tp_main ::
  "peer_env \<Rightarrow> 'b libevent \<Rightarrow> i32 option \<Rightarrow> u32 option \<Rightarrow> peer_event list \<Rightarrow> 'b \<Rightarrow> fault + int \<times> 'b tcp_peer" where
  "tp_main env lib sn local_ip events b =
     (let (ok, s) = tp_init env sn local_ip b in
      if \<not> ok then Inr (- 1, s)
      else let (r, s) = tp_listen_local env s in
      if r = - 1 then Inr (- 1, tp_uninit s)
      else let (r, s) = tp_connect_server env lib s in
      if r = - 1 then Inr (- 1, tp_uninit s)
      else let (r, s) = tp_add_ping_timer env s in
      if r = - 1 then Inr (- 1, tp_uninit s)
      else let (r, s) = (if tp_device_sn s \<noteq> 2222 then tp_add_user_timer env s else (0, s)) in
      if r = - 1 then Inr (- 1, tp_uninit s)
      else bind_r (tp_run env lib events s) (\<lambda>s.
        let r = e_dispatch env (tp_trace s); s = tp_do (Dispatch r) s
        in Inr (if r = - 1 then - 1 else 0, tp_uninit s)))"

subsection \<open>What a stretch of calls did\<close>

text \<open>Positive descriptors opened and closed, rounds begun, seconds slept, addresses bound.\<close>

definition opened :: "trace \<Rightarrow> int list" where
  "opened tr = concat (map (\<lambda>c. case c of Socket fd \<Rightarrow> if fd > 0 then [fd] else [] | _ \<Rightarrow> []) tr)"

definition closed :: "trace \<Rightarrow> int list" where
  "closed tr = concat (map (\<lambda>c. case c of Close fd \<Rightarrow> [fd] | _ \<Rightarrow> []) tr)"

definition rounds :: "trace \<Rightarrow> nat" where
  "rounds tr = length (filter (\<lambda>c. case c of Socket _ \<Rightarrow> True | _ \<Rightarrow> False) tr)"

definition slept :: "trace \<Rightarrow> nat" where
  "slept tr = sum_list (map (\<lambda>c. case c of Sleep n \<Rightarrow> n | _ \<Rightarrow> 0) tr)"

definition connects :: "trace \<Rightarrow> sockaddr_in list" where
  "connects tr = concat (map (\<lambda>c. case c of Connect _ a _ \<Rightarrow> [a] | _ \<Rightarrow> []) tr)"

definition binds :: "trace \<Rightarrow> sockaddr_in list" where
  "binds tr = concat (map (\<lambda>c. case c of Bind _ a _ \<Rightarrow> [a] | ListenerNew a _ \<Rightarrow> [a] | _ \<Rightarrow> []) tr)"

lemmas observation_defs = opened_def closed_def rounds_def slept_def connects_def binds_def

lemmas tp_call_defs = tp_calloc_def tp_socket_def tp_set_sock_opt_def tp_bind_def tp_connect_def
  tp_safe_close_def tp_send_def tp_recv_def tp_event_new_def tp_do_def

text \<open>One round of the loop either connects or leaves no descriptor behind.\<close>

lemma connect_attempt_trace:
  obtains ext where "tp_trace (snd (connect_attempt env a s)) = tp_trace s @ ext"
    "rounds ext = 1" "slept ext \<le> 20" "set (connects ext) \<subseteq> {a}" "set (binds ext) \<subseteq> {tp_local_addr s}"
    "case fst (connect_attempt env a s) of
       None \<Rightarrow> opened ext = closed ext
     | Some sock \<Rightarrow> sock \<ge> 0 \<and> opened ext = (if sock > 0 then [sock] else []) \<and> closed ext = [] \<and>
         ext \<noteq> [] \<and> last ext = Connect sock a None \<and> slept ext = 0"
proof -
  let ?r = "connect_attempt env a s"
  have "\<exists>ext. tp_trace (snd ?r) = tp_trace s @ ext \<and> rounds ext = 1 \<and> slept ext \<le> 20 \<and>
     set (connects ext) \<subseteq> {a} \<and> set (binds ext) \<subseteq> {tp_local_addr s} \<and>
     (case fst ?r of
       None \<Rightarrow> opened ext = closed ext
     | Some sock \<Rightarrow> sock \<ge> 0 \<and> opened ext = (if sock > 0 then [sock] else []) \<and> closed ext = [] \<and>
         ext \<noteq> [] \<and> last ext = Connect sock a None \<and> slept ext = 0)"
    by (auto simp: connect_attempt_def tp_call_defs observation_defs tp_local_addr_def Let_def split_def
        split: option.splits if_splits)
  then show thesis using that by blast
qed

lemma connect_attempt_keeps:
  "tp_local_ip (snd (connect_attempt env a s)) = tp_local_ip s"
  by (auto simp: connect_attempt_def tp_call_defs Let_def split_def split: option.splits)

lemma observation_append [simp]:
  "opened (x @ y) = opened x @ opened y" "closed (x @ y) = closed x @ closed y"
  "rounds (x @ y) = rounds x + rounds y" "slept (x @ y) = slept x + slept y"
  "connects (x @ y) = connects x @ connects y" "binds (x @ y) = binds x @ binds y"
  by (simp_all add: observation_defs)

lemma connect_loop_trace:
  "\<exists>ext. tp_trace (snd (connect_loop env a n s)) = tp_trace s @ ext \<and>
     slept ext \<le> 20 * n \<and> set (connects ext) \<subseteq> {a} \<and> set (binds ext) \<subseteq> {tp_local_addr s} \<and>
     (let r = fst (connect_loop env a n s) in
      if r = - 1 then rounds ext = n \<and> opened ext = closed ext
      else r \<ge> 0 \<and> rounds ext \<le> n \<and> opened ext = closed ext @ (if r > 0 then [r] else []) \<and>
        ext \<noteq> [] \<and> last ext = Connect r a None)"
proof (induction n arbitrary: s)
  case 0
  then show ?case by (simp add: observation_defs)
next
  case (Suc n)
  obtain r s1 where at: "connect_attempt env a s = (r, s1)" by fastforce
  obtain e1 where e1: "tp_trace s1 = tp_trace s @ e1" "rounds e1 = 1" "slept e1 \<le> 20"
    "set (connects e1) \<subseteq> {a}" "set (binds e1) \<subseteq> {tp_local_addr s}"
    "case r of None \<Rightarrow> opened e1 = closed e1
     | Some sock \<Rightarrow> sock \<ge> 0 \<and> opened e1 = (if sock > 0 then [sock] else []) \<and> closed e1 = [] \<and>
         e1 \<noteq> [] \<and> last e1 = Connect sock a None \<and> slept e1 = 0"
    using connect_attempt_trace [of env a s] at by auto
  show ?case
  proof (cases r)
    case (Some sock)
    with at e1 show ?thesis by (intro exI [of _ e1]) (auto simp: Let_def)
  next
    case None
    have la: "tp_local_addr s1 = tp_local_addr s"
      using connect_attempt_keeps [of env a s] at by (simp add: tp_local_addr_def)
    obtain e2 where e2: "tp_trace (snd (connect_loop env a n s1)) = tp_trace s1 @ e2"
      "slept e2 \<le> 20 * n" "set (connects e2) \<subseteq> {a}" "set (binds e2) \<subseteq> {tp_local_addr s}"
      "let r = fst (connect_loop env a n s1) in
      if r = - 1 then rounds e2 = n \<and> opened e2 = closed e2
      else r \<ge> 0 \<and> rounds e2 \<le> n \<and> opened e2 = closed e2 @ (if r > 0 then [r] else []) \<and>
        e2 \<noteq> [] \<and> last e2 = Connect r a None"
      using Suc.IH [of s1] la by auto
    from at None e1 e2 show ?thesis
      by (intro exI [of _ "e1 @ e2"]) (auto simp: Let_def split: if_splits)
  qed
qed

subsection \<open>All sockets share one local address\<close>

text \<open>The calls an operation adds to the trace, with the bound addresses among them.\<close>

definition bound_only :: "u32 \<Rightarrow> 'b tcp_peer \<Rightarrow> bool" where
  "bound_only ip s \<longleftrightarrow> tp_local_ip s = ip \<and>
     set (binds (tp_trace s)) \<subseteq> {\<lparr>sin_addr = ip, sin_port = htons P2P_TRANSFER_CLIENT_PORT\<rparr>}"

lemma binds_calls [simp]:
  "binds [] = []"
  "binds (c # tr) = (case c of Bind _ a _ \<Rightarrow> [a] | ListenerNew a _ \<Rightarrow> [a] | _ \<Rightarrow> []) @ binds tr"
  by (simp_all add: binds_def)

lemma bound_only_do [simp]:
  "bound_only ip (tp_do c s) \<longleftrightarrow> bound_only ip s \<and>
     (case c of Bind _ a _ \<Rightarrow> a = \<lparr>sin_addr = ip, sin_port = htons P2P_TRANSFER_CLIENT_PORT\<rparr>
      | ListenerNew a _ \<Rightarrow> a = \<lparr>sin_addr = ip, sin_port = htons P2P_TRANSFER_CLIENT_PORT\<rparr> | _ \<Rightarrow> True)"
  by (auto simp: bound_only_def tp_do_def split: sys_call.splits)

lemma tp_do_simps [simp]:
  "tp_local_ip (tp_do c s) = tp_local_ip s" "tp_freed (tp_do c s) = tp_freed s" "tp_lib (tp_do c s) = tp_lib s"
  "tp_ping_bev (tp_do c s) = tp_ping_bev s" "tp_device_sn (tp_do c s) = tp_device_sn s"
  "tp_conn_server_sock (tp_do c s) = tp_conn_server_sock s" "tp_trace (tp_do c s) = tp_trace s @ [c]"
  "tp_listener (tp_do c s) = tp_listener s" "tp_listen_local_sock (tp_do c s) = tp_listen_local_sock s"
  "tp_base (tp_do c s) = tp_base s" "tp_user_event (tp_do c s) = tp_user_event s"
  "tp_ping_event (tp_do c s) = tp_ping_event s" "tp_received (tp_do c s) = tp_received s"
  "tp_threads (tp_do c s) = tp_threads s"
  by (simp_all add: tp_do_def)

lemma bound_only_upd [simp]:
  "bound_only ip (s\<lparr>tp_lib := b\<rparr>) = bound_only ip s" "bound_only ip (s\<lparr>tp_freed := f\<rparr>) = bound_only ip s"
  "bound_only ip (s\<lparr>tp_threads := t\<rparr>) = bound_only ip s" "bound_only ip (s\<lparr>tp_received := d\<rparr>) = bound_only ip s"
  "bound_only ip (s\<lparr>tp_conn_server_sock := fd\<rparr>) = bound_only ip s"
  "bound_only ip (s\<lparr>tp_ping_bev := v\<rparr>) = bound_only ip s"
  "bound_only ip (s\<lparr>tp_listen_local_sock := fd\<rparr>) = bound_only ip s"
  "bound_only ip (s\<lparr>tp_listener := l\<rparr>) = bound_only ip s"
  "bound_only ip (s\<lparr>tp_user_event := u\<rparr>) = bound_only ip s"
  "bound_only ip (s\<lparr>tp_ping_event := u\<rparr>) = bound_only ip s" "bound_only ip (s\<lparr>tp_base := u\<rparr>) = bound_only ip s"
  by (simp_all add: bound_only_def)

lemma connect_loop_ip: "tp_local_ip (snd (connect_loop env a n s)) = tp_local_ip s"
proof (induction n arbitrary: s)
  case (Suc n)
  then show ?case
    using connect_attempt_keeps [of env a s] by (auto split: prod.splits option.splits)
qed simp

lemma bound_only_connect_peer: "bound_only ip s \<Longrightarrow> bound_only ip (snd (connect_peer env d s))"
  using connect_loop_trace [of env "\<lparr>sin_addr = ip_addr d, sin_port = port d\<rparr>" 9 s]
  by (auto simp: bound_only_def connect_peer_def tp_local_addr_def connect_loop_ip)

lemma bound_only_punch_hole: "bound_only ip s \<Longrightarrow> bound_only ip (snd (punch_hole env d s))"
  using bound_only_connect_peer [of ip s env d]
  by (simp add: punch_hole_def tp_send_def tp_safe_close_def Let_def split_def)

lemma bound_only_user_cb: "bound_only ip s \<Longrightarrow> bound_only ip (tp_user_cb env s)"
  by (simp add: tp_user_cb_def tp_calloc_def tp_send_def tp_recv_def Let_def split_def bound_only_punch_hole
      split: option.split)

lemma bound_only_handle:
  assumes "bound_only ip s" "tp_handle env lib e s = Inr s'"
  shows "bound_only ip s'"
proof (cases e)
  case FirePing
  with assms show ?thesis
    by (auto simp: tp_ping_cb_def tp_calloc_def tp_bev_write_def of_opt_def bind_r_def Let_def split_def
        split: if_splits option.splits)
next
  case FireUser
  with assms bound_only_user_cb show ?thesis by auto
next
  case (ReadReady bev)
  with assms show ?thesis
    by (auto simp: tp_conn_read_cb_def tp_calloc_def tp_bev_read_def process_punch_hole_cmd_def bind_r_def
        Let_def split_def split: if_splits)
next
  case (ConnEvent bev)
  with assms show ?thesis
    by (auto simp: tp_conn_event_cb_def tp_safe_close_def Let_def split: if_splits)
qed

lemma bound_only_run: "bound_only ip s \<Longrightarrow> tp_run env lib es s = Inr s' \<Longrightarrow> bound_only ip s'"
proof (induction es arbitrary: s)
  case (Cons e es)
  then show ?case
    using bound_only_handle [of ip s env lib e] by (auto simp: bind_r_def split: sum.splits)
qed simp

lemma bound_only_uninits:
  assumes "bound_only ip s"
  shows "bound_only ip (uninit_user s)" "bound_only ip (uninit_ping s)" "bound_only ip (uninit_listener s)"
    "bound_only ip (uninit_conn_sock s)" "bound_only ip (uninit_listen_sock s)" "bound_only ip (uninit_base s)"
  using assms by (simp_all add: uninit_defs split: option.split)

lemma bound_only_uninit: "bound_only ip s \<Longrightarrow> bound_only ip (tp_uninit s)"
  by (simp add: tp_uninit_def bound_only_uninits)

lemma bound_only_set_opt [intro]: "bound_only ip s \<Longrightarrow> bound_only ip (snd (tp_set_sock_opt env fd s))"
  by (auto simp: tp_set_sock_opt_def split_def Let_def)

lemma bound_only_bind [intro]: "bound_only ip s \<Longrightarrow> bound_only ip (snd (tp_bind env fd (tp_local_addr s) s))"
  by (auto simp: tp_bind_def tp_do_def Let_def bound_only_def tp_local_addr_def)

lemma bound_only_setup:
  assumes "bound_only ip s"
  shows "bound_only ip (snd (tp_listen_local env s))" "bound_only ip (snd (tp_connect_server env lib s))"
    "bound_only ip (snd (tp_add_ping_timer env s))" "bound_only ip (snd (tp_add_user_timer env s))"
proof -
  have la: "tp_local_addr s = \<lparr>sin_addr = ip, sin_port = htons P2P_TRANSFER_CLIENT_PORT\<rparr>"
    "\<And>c. tp_local_addr (tp_do c s) = tp_local_addr s"
    using assms by (simp_all add: tp_local_addr_def bound_only_def)
  show "bound_only ip (snd (tp_listen_local env s))"
    using assms la by (simp add: tp_listen_local_def tp_set_sock_opt_def Let_def split_def split: option.split)
  show "bound_only ip (snd (tp_connect_server env lib s))"
    using assms la
    by (simp add: tp_connect_server_def tp_socket_def tp_set_sock_opt_def tp_bind_def tp_connect_def
        tp_safe_close_def Let_def split_def tp_local_addr_def)
  show "bound_only ip (snd (tp_add_ping_timer env s))" "bound_only ip (snd (tp_add_user_timer env s))"
    using assms by (simp_all add: tp_add_ping_timer_def tp_add_user_timer_def tp_event_new_def Let_def)
qed

subsection \<open>Properties\<close>

text \<open>C15: Connecting to a peer makes at most nine rounds (not ten: \<open>retry\<close> is decremented before the
  first), sleeping at most 180 seconds in all. Every positive descriptor a round opens is closed
  again except the one returned; -1 is returned exactly after nine failed rounds, and otherwise
  the result is the socket whose connection to the device's address succeeded last. All sockets
  were bound to the peer's one local address.\<close>

theorem connect_peer_correct:
  "\<exists>ext. tp_trace (snd (connect_peer env d s)) = tp_trace s @ ext \<and>
     slept ext \<le> 180 \<and> set (connects ext) \<subseteq> {\<lparr>sin_addr = ip_addr d, sin_port = port d\<rparr>} \<and>
     set (binds ext) \<subseteq> {tp_local_addr s} \<and>
     (let r = fst (connect_peer env d s) in
      if r = - 1 then rounds ext = 9 \<and> opened ext = closed ext
      else r \<ge> 0 \<and> rounds ext \<le> 9 \<and> opened ext = closed ext @ (if r > 0 then [r] else []) \<and>
        ext \<noteq> [] \<and> last ext = Connect r \<lparr>sin_addr = ip_addr d, sin_port = port d\<rparr> None)"
  using connect_loop_trace [of env "\<lparr>sin_addr = ip_addr d, sin_port = port d\<rparr>" 9 s]
  by (simp add: connect_peer_def)


text \<open>The answer to the peer's query is taken on trust: whatever message is first in the stream
  (the magic number, the sender and the serial number are not looked at), the peer connects to
  the address in it unless its command is the unknown one, and then to nothing. A punch-hole
  command of another device that arrives first is such a message.\<close>

theorem tp_user_cb_trusts_any_message:
  "set (connects (tp_trace (tp_user_cb
      (env\<lparr>e_calloc := \<lambda>_. True, e_send := \<lambda>_. 0, e_recv := \<lambda>_. Some m, e_socket := \<lambda>_. 5,
           e_setsockopt := \<lambda>_ _. True, e_bind := \<lambda>_. 0, e_connect := \<lambda>_. None\<rparr>)
      (s\<lparr>tp_trace := []\<rparr>)))) =
   (let req = fill (sizeof_head + sizeof_info) m in
    if cmd (dec_head req) = P2P_TRANSFER_UNKNOWN_CMD then {}
    else {\<lparr>sin_addr = ip_addr (dec_info (cmd_data req)), sin_port = port (dec_info (cmd_data req))\<rparr>})"
proof -
  have opts: "set_sock_opt True (\<lambda>_. True) SOCK_FLAGS = ([SO_REUSEADDR, SO_REUSEPORT, SO_KEEPALIVE], 0)"
    by code_simp
  have f: "fill n (take n m) = fill n m" for n by (simp add: fill_def)
  show ?thesis
    by (simp add: tp_user_cb_def tp_calloc_def tp_send_def tp_recv_def punch_hole_def connect_peer_def f
        connect_attempt_def tp_socket_def tp_set_sock_opt_def tp_bind_def tp_connect_def opts
        tp_safe_close_def connects_def Let_def numeral_eq_Suc)
qed

text \<open>The punch-hole thread commits a fault exactly when it connects and the first ten bytes that
  arrive are all nonzero: its ten-byte buffer is then logged as a string without a terminator.\<close>

theorem punch_thread_fault_iff:
  "process_punch_hole_cmd_cb env d s = Inl f \<longleftrightarrow>
     f = BadAccess \<and> fst (connect_peer env d s) \<noteq> - 1 \<and>
     (\<exists>m. e_recv env (tp_trace (snd (connect_peer env d s))) = Some m \<and> length m \<ge> 10 \<and> 0 \<notin> set (take 10 m))"
  by (auto simp: process_punch_hole_cmd_cb_def tp_recv_def Let_def split_def fill_def split: option.splits)

subsection \<open>A normal life\<close>

text \<open>An operating system in which everything works: the listener gets descriptor \<open>l\<close>, the
  server's socket \<open>c\<close>.\<close>

definition ideal_env :: "int \<Rightarrow> int \<Rightarrow> nat option \<Rightarrow> peer_env" where
  "ideal_env l c lf = \<lparr>e_calloc = \<lambda>_. True, e_socket = \<lambda>_. c, e_setsockopt = \<lambda>_ _. True, e_bind = \<lambda>_. 0,
     e_connect = \<lambda>_. None, e_send = \<lambda>_. 0, e_recv = \<lambda>_. None, e_thread = \<lambda>_. True, e_listen = \<lambda>_. Some l,
     e_event_new = \<lambda>_. True, e_base_new = \<lambda>_. True, e_log_file = lf, e_dispatch = \<lambda>_. 0\<rparr>"

text \<open>With everything working, the calls of a peer 2222 whose event loop runs the ping timer once
  are exactly these. The listener's descriptor is closed by \<open>evconnlistener_free\<close> (it has
  \<open>LEV_OPT_CLOSE_ON_FREE\<close>) and then once more by number; the bufferevent is never freed, nor is
  the client's block.\<close>

theorem tp_main_calls:
  "\<exists>s. tp_main (ideal_env 4 3 lf)
       (lib\<lparr>bufferevent_socket_new := \<lambda>_ b. (Some 0, b), bufferevent_write := \<lambda>_ _ b. (0, b)\<rparr>)
       (Some 2222) (Some ip) [FirePing] b = Inr (0, s) \<and>
     tp_trace s = [Calloc True, BaseNew True,
       ListenerNew \<lparr>sin_addr = ip, sin_port = htons 5152\<rparr> (Some 4),
       SetSockOpt 4 [SO_REUSEADDR, SO_REUSEPORT, SO_KEEPALIVE] 0,
       Socket 3, SetSockOpt 3 [SO_REUSEADDR, SO_REUSEPORT, SO_KEEPALIVE] 0,
       Bind 3 \<lparr>sin_addr = ip, sin_port = htons 5152\<rparr> 0, Connect 3 TCP_SERVER_ADDR None,
       BevNew 3 (Some 0), EventNew PingTimer True, EventAdd PingTimer 5, EventActive PingTimer,
       Calloc True, BevWrite 0 (tp_ping_msg 2222) 0, Free, Dispatch 0,
       EventFree PingTimer, ListenerFree 4, Close 3, Close 4, BaseFree]"
proof -
  have opts: "set_sock_opt True (\<lambda>_. True) SOCK_FLAGS = ([SO_REUSEADDR, SO_REUSEPORT, SO_KEEPALIVE], 0)"
    by code_simp
  show ?thesis
    by (simp add: tp_main_def tp_init_def tp_calloc_def tp_calloced_def tp_listen_local_def
        tp_connect_server_def tp_socket_def tp_set_sock_opt_def tp_bind_def tp_connect_def opts
        tp_add_ping_timer_def tp_event_new_def tp_ping_cb_def tp_bev_write_def tp_uninit_def uninit_defs
        ideal_env_def tp_local_addr_def P2P_TRANSFER_CLIENT_PORT_def Let_def split_def)
qed

end
