(* ===== verification/TcpSystem.thy ===== *)
theory TcpSystem
  imports TcpServer TcpPeer
begin

text \<open>
  The TCP programs together: the messages the peers produce, what the server makes of them and
  what its answers make the peers do. The byte streams are those of \<open>sample_lib\<close>, in which a read
  takes bytes from the front of a connection's input, as libevent documents.
\<close>

lemma tp_query_waits:
  assumes "b bev = tp_query_msg sn q"
  shows "query_waits sample_lib bev sn q b (b(bev := []))"
  unfolding query_waits_def
  by (rule exI [of _ "zero_head\<lparr>magic := P2P_TRANSFER_MAGIC, src_device_sn := sn,
        cmd_len := of_nat sizeof_info, cmd := P2P_TRANSFER_QUERY_DEVICE_INFO_REQUEST\<rparr>"],
      rule exI [of _ "zero_info\<lparr>device_sn := q\<rparr>"])
     (simp add: sample_lib_def assms tp_query_msg_def)

text \<open>A registered device: its ping was read from connection \<open>bev\<close>, accepted from \<open>addr\<close>.\<close>

definition pinged :: "u64 \<Rightarrow> nat \<Rightarrow> sockaddr_in \<Rightarrow> tcp_device" where
  "pinged sn bev addr = \<lparr>td_info = \<lparr>device_sn = sn, ip_addr = sin_addr addr, port = sin_port addr,
     network_type = NP_PORT_RESTRICTED_CONE_NAT\<rparr>, td_bev = bev\<rparr>"

lemma read_tp_ping:
  assumes "tcp_repr s ds" "bev \<notin> set (ts_freed s)" "ts_addrs s bev = Some addr"
    and "ts_lib s bev = tp_ping_msg sn @ rest"
  obtains s' where "tcp_conn_read_cb sample_lib mem_ok bev s = Inr s'" "tcp_repr s' (pinged sn bev addr # ds)"
    "ts_freed s' = ts_freed s" "ts_addrs s' = ts_addrs s" "ts_written s' = ts_written s"
    "ts_lib s' = (ts_lib s)(bev := rest)"
proof -
  let ?h = "zero_head\<lparr>magic := P2P_TRANSFER_MAGIC, cmd_len := of_nat sizeof_ping,
       src_device_sn := sn, cmd := P2P_TRANSFER_PING\<rparr>"
  let ?p = "\<lparr>ping_device_sn = sn, ping_network_type = NP_PORT_RESTRICTED_CONE_NAT\<rparr>"
  have in': "ts_lib s bev = enc_head ?h @ enc_ping ?p @ rest"
    using assms(4) by (simp add: tp_ping_msg_def)
  have lib: "snd (bufferevent_read sample_lib bev sizeof_ping (snd (bufferevent_read sample_lib bev sizeof_head (ts_lib s))))
      = (ts_lib s)(bev := rest)"
    using length_enc(1) [of ?h] length_enc(2) [of ?p] by (simp add: sample_lib_def in' del: length_enc)
  show thesis
    using conn_read_ping [of sample_lib bev "\<lambda>b. b bev" s ds addr ?h ?p rest] assms in' lib that
    by (auto simp: sample_lib_def pinged_def)
qed

subsection \<open>The peers' side\<close>

lemma ideal_opts: "set_sock_opt True (\<lambda>_. True) SOCK_FLAGS = ([SO_REUSEADDR, SO_REUSEPORT, SO_KEEPALIVE], 0)"
  by code_simp

text \<open>Where everything works, connecting takes one round.\<close>

lemma ideal_connect:
  assumes "e_socket env = (\<lambda>_. 5)" "e_setsockopt env = (\<lambda>_ _. True)" "e_bind env = (\<lambda>_. 0)"
    "e_connect env = (\<lambda>_. None)"
  shows "connect_peer env d s = (5, s\<lparr>tp_trace := tp_trace s @ [Socket 5,
      SetSockOpt 5 [SO_REUSEADDR, SO_REUSEPORT, SO_KEEPALIVE] 0,
      Bind 5 (tp_local_addr s) 0, Connect 5 \<lparr>sin_addr = ip_addr d, sin_port = port d\<rparr> None]\<rparr>)"
  using assms
  by (simp add: connect_peer_def connect_attempt_def tp_call_defs ideal_opts Let_def numeral_eq_Suc tp_local_addr_def)

lemma peer_reads_punch_hole:
  assumes "e_calloc env = (\<lambda>_. True)" "e_thread env = (\<lambda>_. True)" "tp_freed p = []"
    and "tp_lib p 0 = tcp_punch_hole_msg d"
  shows "\<exists>p'. tp_conn_read_cb env sample_lib 0 p = Inr p' \<and> tp_threads p' = tp_threads p @ [d]"
proof -
  let ?h = "zero_head\<lparr>magic := P2P_TRANSFER_MAGIC, cmd := P2P_TRANSFER_PUNCH_HOLE, cmd_len := of_nat sizeof_info\<rparr>"
  have "take sizeof_head (tp_lib p 0) = enc_head ?h" "take sizeof_info (drop sizeof_head (tp_lib p 0)) = enc_info d"
    using length_enc(1) [of ?h] length_enc(3) [of d]
    by (simp_all add: assms(4) tcp_punch_hole_msg_def del: length_enc)
  moreover have "dec_head (fill sizeof_head (enc_head ?h)) = ?h" "dec_info (fill sizeof_info (enc_info d)) = d"
    using dec_enc_head [of ?h "[]"] dec_enc_info [of d "[]"] by (simp_all add: fill_fits)
  ultimately show ?thesis
    using assms(1-3)
    by (simp add: tp_conn_read_cb_def tp_calloc_def tp_bev_read_def sample_lib_def process_punch_hole_cmd_def
        Let_def)
qed

subsection \<open>Property\<close>

text \<open>C2: The whole exchange over TCP. Connections 1 and 2 are accepted, both peers ping, and the
  first (\<open>a\<close>) asks for 2222. The server writes one message to each. The one to 2222 makes it start
  a thread that connects to \<open>a\<close>'s public address; the one to \<open>a\<close> makes it connect to 2222's and
  send its data, which the thread receives.\<close>

theorem tcp_hole_punching:
  fixes pa p2 :: "(nat \<Rightarrow> byte list) tcp_peer"
  assumes "a \<noteq> 2222"
  shows "\<exists>s0 s m1 m2 d p2'.
    tcp_server_start ((\<lambda>_. [])(1 := tp_ping_msg a @ tp_query_msg a 2222, 2 := tp_ping_msg 2222)) = Some s0 \<and>
    bind_r (tcp_conn_read_cb sample_lib mem_ok 1
             (tcp_listener_cb sample_lib mem_ok 2 addr_b (tcp_listener_cb sample_lib mem_ok 1 addr_a s0)))
      (\<lambda>s. bind_r (tcp_conn_read_cb sample_lib mem_ok 2 s) (tcp_conn_read_cb sample_lib mem_ok 1)) = Inr s \<and>
    ts_written s = [(2, m1), (1, m2)] \<and>
    tp_conn_read_cb (ideal_env 4 5 lf) sample_lib 0 (p2\<lparr>tp_lib := \<lambda>_. m1, tp_freed := [], tp_threads := []\<rparr>) = Inr p2' \<and>
    tp_threads p2' = [d] \<and>
    (\<exists>p. process_punch_hole_cmd_cb (ideal_env 4 5 lf\<lparr>e_recv := \<lambda>_. Some data_abc\<rparr>) d
           (p2\<lparr>tp_trace := [], tp_received := []\<rparr>) = Inr p \<and>
       connects (tp_trace p) = [addr_a] \<and> tp_received p = [data_abc]) \<and>
    (let tr = tp_trace (tp_user_cb (ideal_env 4 5 lf\<lparr>e_recv := \<lambda>_. Some m2\<rparr>)
           (pa\<lparr>tp_device_sn := a, tp_conn_server_sock := 3, tp_trace := []\<rparr>)) in
     Send 3 (tp_query_msg a 2222) 0 \<in> set tr \<and> connects tr = [addr_b] \<and> Send 5 data_abc 0 \<in> set tr)"
proof -
  let ?b = "(\<lambda>_. [])(1 := tp_ping_msg a @ tp_query_msg a 2222, 2 := tp_ping_msg 2222) :: nat \<Rightarrow> byte list"
  obtain r :: "tcp_device registry" where r: "registry_init = Some r" "registry_repr r []"
    using dev.create_law by blast
  define s0 where "s0 = \<lparr>ts_table = r, ts_lib = ?b, ts_addrs = Map.empty, ts_written = [], ts_freed = [],
       ts_fd_ops = [], ts_callocs = 1, ts_live = 1\<rparr>"
  have start: "tcp_server_start ?b = Some s0"
    by (simp add: tcp_server_start_def r(1) s0_def)
  define s1 where "s1 = tcp_listener_cb sample_lib mem_ok 2 addr_b (tcp_listener_cb sample_lib mem_ok 1 addr_a s0)"
  have s1: "tcp_repr s1 []" "ts_freed s1 = []" "ts_written s1 = []" "ts_lib s1 = ?b"
    "ts_addrs s1 1 = Some addr_a" "ts_addrs s1 2 = Some addr_b"
    using r(2) by (simp_all add: s1_def s0_def tcp_listener_cb_def ts_calloc_def sample_lib_def Let_def)
  obtain s2 where s2: "tcp_conn_read_cb sample_lib mem_ok 1 s1 = Inr s2" "tcp_repr s2 [pinged a 1 addr_a]"
    "ts_freed s2 = []" "ts_addrs s2 = ts_addrs s1" "ts_written s2 = []" "ts_lib s2 = ?b(1 := tp_query_msg a 2222)"
    by (rule read_tp_ping [of s1 "[]" 1 addr_a a "tp_query_msg a 2222"]) (use s1 in \<open>simp_all\<close>)
  obtain s3 where s3: "tcp_conn_read_cb sample_lib mem_ok 2 s2 = Inr s3"
    "tcp_repr s3 [pinged 2222 2 addr_b, pinged a 1 addr_a]"
    "ts_freed s3 = []" "ts_written s3 = []" "ts_lib s3 1 = tp_query_msg a 2222"
    by (rule read_tp_ping [of s2 "[pinged a 1 addr_a]" 2 addr_b 2222 "[]"]) (use s1 s2 in \<open>simp_all\<close>)
  have wait: "query_waits sample_lib 1 a 2222 (ts_lib s3) ((ts_lib s3)(1 := []))"
    by (rule tp_query_waits [of "ts_lib s3" 1, OF s3(5)])
  obtain s4 where s4: "tcp_conn_read_cb sample_lib mem_ok 1 s3 = Inr s4"
    "ts_written s4 = tcp_query_answer (pinged a 1 addr_a) (pinged 2222 2 addr_b) 1"
    using conn_read_query_answered [OF s3(2) assms _ _ _ _ wait sample_writes,
        of "pinged 2222 2 addr_b" "pinged a 1 addr_a"] assms s3(3,4)
    by (auto simp: pinged_def)
  let ?d = "td_info (pinged a 1 addr_a)" and ?q = "td_info (pinged 2222 2 addr_b)"
  let ?h = "zero_head\<lparr>magic := P2P_TRANSFER_MAGIC, cmd := P2P_TRANSFER_QUERY_DEVICE_INFO_RESPONSE,
     cmd_len := of_nat sizeof_info\<rparr>"
  have sent: "ts_written s4 = [(2, tcp_punch_hole_msg ?d), (1, enc_head ?h @ enc_info ?q)]"
    by (simp add: s4(2) tcp_query_answer_def pinged_def)
  obtain p2' where p2': "tp_conn_read_cb (ideal_env 4 5 lf) sample_lib 0
      (p2\<lparr>tp_lib := \<lambda>_. tcp_punch_hole_msg ?d, tp_freed := [], tp_threads := []\<rparr>) = Inr p2'" "tp_threads p2' = [?d]"
    using peer_reads_punch_hole [of "ideal_env 4 5 lf"
        "p2\<lparr>tp_lib := \<lambda>_. tcp_punch_hole_msg ?d, tp_freed := [], tp_threads := []\<rparr>" ?d]
    by (auto simp: ideal_env_def)
  have thread: "\<exists>p. process_punch_hole_cmd_cb (ideal_env 4 5 lf\<lparr>e_recv := \<lambda>_. Some data_abc\<rparr>) ?d
           (p2\<lparr>tp_trace := [], tp_received := []\<rparr>) = Inr p \<and>
       connects (tp_trace p) = [addr_a] \<and> tp_received p = [data_abc]"
    using ideal_connect [of "ideal_env 4 5 lf\<lparr>e_recv := \<lambda>_. Some data_abc\<rparr>" ?d "p2\<lparr>tp_trace := [], tp_received := []\<rparr>"]
    by (auto simp: process_punch_hole_cmd_cb_def tp_recv_def tp_safe_close_def connects_def ideal_env_def
        pinged_def fill_def data_abc_def tp_do_def Let_def)
  have user: "let tr = tp_trace (tp_user_cb (ideal_env 4 5 lf\<lparr>e_recv := \<lambda>_. Some (enc_head ?h @ enc_info ?q)\<rparr>)
           (pa\<lparr>tp_device_sn := a, tp_conn_server_sock := 3, tp_trace := []\<rparr>)) in
     Send 3 (tp_query_msg a 2222) 0 \<in> set tr \<and> connects tr = [addr_b] \<and> Send 5 data_abc 0 \<in> set tr"
  proof -
    have c: "connect_peer (ideal_env 4 5 lf\<lparr>e_recv := \<lambda>_. Some (enc_head ?h @ enc_info ?q)\<rparr>) ?q s =
      (5, s\<lparr>tp_trace := tp_trace s @ [Socket 5, SetSockOpt 5 [SO_REUSEADDR, SO_REUSEPORT, SO_KEEPALIVE] 0,
      Bind 5 (tp_local_addr s) 0, Connect 5 \<lparr>sin_addr = ip_addr ?q, sin_port = port ?q\<rparr> None]\<rparr>)"
      for s :: "(nat \<Rightarrow> byte list) tcp_peer"
      by (rule ideal_connect) (simp_all add: ideal_env_def)
    have dec: "dec_head (enc_head ?h @ enc_info ?q) = ?h" "dec_info (cmd_data (enc_head ?h @ enc_info ?q)) = ?q"
      "fill (sizeof_head + sizeof_info) (enc_head ?h @ enc_info ?q) = enc_head ?h @ enc_info ?q"
      using dec_enc_info [of ?q "[]"] by (simp_all add: fill_def)
    show ?thesis
      using c dec
      by (simp add: tp_user_cb_def tp_calloc_def tp_send_def tp_recv_def punch_hole_def tp_safe_close_def
          connects_def Let_def ideal_env_def cmd_defs) (simp add: pinged_def)
  qed
  have run: "bind_r (tcp_conn_read_cb sample_lib mem_ok 1
             (tcp_listener_cb sample_lib mem_ok 2 addr_b (tcp_listener_cb sample_lib mem_ok 1 addr_a s0)))
      (\<lambda>s. bind_r (tcp_conn_read_cb sample_lib mem_ok 2 s) (tcp_conn_read_cb sample_lib mem_ok 1)) = Inr s4"
    unfolding s1_def [symmetric] s2(1) bind_r_simps s3(1) by (rule s4(1))
  show ?thesis
    by (rule exI [of _ s0], rule exI [of _ s4], rule exI, rule exI, rule exI, rule exI, intro conjI,
        rule start, rule run, rule sent, rule p2'(1), rule p2'(2), rule thread, rule user)
qed

theorem tcp_hole_punching_witness:
  "\<exists>s0 s m1 m2. tcp_server_start ((\<lambda>_. [])(1 := tp_ping_msg 1 @ tp_query_msg 1 2222, 2 := tp_ping_msg 2222)) = Some s0 \<and>
    bind_r (tcp_conn_read_cb sample_lib mem_ok 1
             (tcp_listener_cb sample_lib mem_ok 2 \<lparr>sin_addr = 2, sin_port = 20\<rparr>
               (tcp_listener_cb sample_lib mem_ok 1 \<lparr>sin_addr = 1, sin_port = 10\<rparr> s0)))
      (\<lambda>s. bind_r (tcp_conn_read_cb sample_lib mem_ok 2 s) (tcp_conn_read_cb sample_lib mem_ok 1)) = Inr s \<and>
    ts_written s = [(2, m1), (1, m2)]"
proof -
  have "(1 :: u64) \<noteq> 2222" by simp
  from tcp_hole_punching [OF this, where addr_a = "\<lparr>sin_addr = 1, sin_port = 10\<rparr>"
      and addr_b = "\<lparr>sin_addr = 2, sin_port = 20\<rparr>"]
  show ?thesis by blast
qed

end
