(* ===== verification/Mains.thy ===== *)
theory Mains
  imports TcpPeer UdpServer UdpPeer
begin

text \<open>
  The \<open>main\<close> functions of the UDP server, the UDP peer and the TCP server: which system calls
  each makes, in order, how it leaves on every failure, and its exit code. The calls are those of
  the TCP peer's trace; the callbacks the event loop runs are modelled with their programs, so
  here the loop is one call.
\<close>

definition TCP_LISTEN_ADDR :: sockaddr_in where
  "TCP_LISTEN_ADDR = TCP_SERVER_ADDR"

text \<open>
  The UDP server. At \<open>ERR\<close> the base and the table are released if they exist; the socket and the
  event never are.
\<close>

definition udp_server_err :: "bool \<Rightarrow> bool \<Rightarrow> trace \<Rightarrow> int \<times> trace" where
  "udp_server_err base table tr =
     (let tr = (if base then tr @ [BaseFree] else tr); tr = (if table then tr @ [Free] else tr) in (- 1, tr))"

definition udp_server_main :: "peer_env \<Rightarrow> int \<times> trace" where
  "udp_server_main env =
     (let ok = e_calloc env []; tr = [Calloc ok] in
      if \<not> ok then udp_server_err False False tr
      else let (r, lg) = configure_log EN_PRINT_DEBUG (Some (e_log_file env)) True log_state0 in
      if r = - 1 then udp_server_err False True tr
      else let sock = e_socket env tr; tr = tr @ [Socket sock] in
      if sock = - 1 then udp_server_err False True tr
      else let r = e_bind env tr; tr = tr @ [Bind sock generate_server_addr r] in
      if r = - 1 then udp_server_err False True tr
      else let ok = e_base_new env tr; tr = tr @ [BaseNew ok] in
      if \<not> ok then udp_server_err False True tr
      else let ok = e_event_new env tr; tr = tr @ [EventNew ReadEvent ok] in
      if \<not> ok then udp_server_err True True tr
      else let tr = tr @ [EventAdd ReadEvent 0]; r = e_dispatch env tr; tr = tr @ [Dispatch r] in
      if r = - 1 then udp_server_err True True tr
      else (0, tr @ [BaseFree]))"

text \<open>The UDP peer: \<open>argv1\<close> is \<open>atoi\<close> of its argument, if there is one. Nothing is ever released.\<close>

definition udp_peer_main :: "peer_env \<Rightarrow> i32 option \<Rightarrow> int \<times> trace" where
  "udp_peer_main env argv1 =
     (let (r, lg) = configure_log EN_PRINT_DEBUG (Some (e_log_file env)) True log_state0 in
      if r = - 1 then (- 1, [])
      else case argv1 of None \<Rightarrow> (- 1, [])
      | Some sn \<Rightarrow>
      let sock = e_socket env []; tr = [Socket sock] in
      if sock = - 1 then (- 1, tr)
      else let r = e_bind env tr; tr = tr @ [Bind sock \<lparr>sin_addr = 0, sin_port = htons P2P_TRANSFER_CLIENT_PORT\<rparr> r] in
      if r = - 1 then (- 1, tr)
      else let ok = e_base_new env tr; tr = tr @ [BaseNew ok] in
      if \<not> ok then (- 1, tr)
      else let ok = e_event_new env tr; tr = tr @ [EventNew ReadEvent ok] in
      if \<not> ok then (- 1, tr)
      else let tr = tr @ [EventAdd ReadEvent 0]; ok = e_event_new env tr; tr = tr @ [EventNew PingTimer ok] in
      if \<not> ok then (- 1, tr)
      else let tr = tr @ [EventAdd PingTimer 5, EventActive PingTimer];
               (ok, tr) = (if sn \<noteq> 2222
                 then let ok = e_event_new env tr; tr = tr @ [EventNew UserTimer ok]
                      in (ok, if ok then tr @ [EventAdd UserTimer 10] else tr)
                 else (True, tr)) in
      if \<not> ok then (- 1, tr)
      else let r = e_dispatch env tr; tr = tr @ [Dispatch r] in
      (if r = - 1 then - 1 else 0, tr))"

text \<open>The TCP server. The listener exists from \<open>evconnlistener_new_bind\<close> on.\<close>

definition tcp_server_err :: "int option \<Rightarrow> bool \<Rightarrow> bool \<Rightarrow> trace \<Rightarrow> int \<times> trace" where
  "tcp_server_err listener base table tr =
     (let tr = (case listener of None \<Rightarrow> tr | Some l \<Rightarrow> tr @ [ListenerFree l]);
          tr = (if base then tr @ [BaseFree] else tr);
          tr = (if table then tr @ [Free] else tr) in (- 1, tr))"

definition tcp_server_main :: "peer_env \<Rightarrow> int \<times> trace" where
  "tcp_server_main env =
     (let ok = e_calloc env []; tr = [Calloc ok] in
      if \<not> ok then tcp_server_err None False False tr
      else let (r, lg) = configure_log EN_PRINT_DEBUG (Some (e_log_file env)) True log_state0 in
      if r = - 1 then tcp_server_err None False True tr
      else let ok = e_base_new env tr; tr = tr @ [BaseNew ok] in
      if \<not> ok then tcp_server_err None False True tr
      else let l = e_listen env tr; tr = tr @ [ListenerNew TCP_LISTEN_ADDR l] in
      case l of None \<Rightarrow> tcp_server_err None True True tr
      | Some fd \<Rightarrow>
      let r = e_dispatch env tr; tr = tr @ [Dispatch r] in
      if r = - 1 then tcp_server_err l True True tr
      else (0, tr @ [ListenerFree fd, BaseFree]))"

subsection \<open>Properties\<close>

text \<open>The servers' mains return 0 exactly when every step succeeded and the event loop ended
  without error, otherwise -1; on every path the event base is released exactly if it was
  created, and never before the loop. A log file that cannot be opened stops none of them.\<close>

theorem server_mains_exit:
  "(case udp_server_main env of (r, tr) \<Rightarrow>
      r = (if \<exists>d. d \<noteq> - 1 \<and> Dispatch d \<in> set tr then 0 else - 1) \<and>
      length (filter (\<lambda>c. c = BaseFree) tr) = length (filter (\<lambda>c. c = BaseNew True) tr) \<and>
      closed tr = []) \<and>
   (case tcp_server_main env of (r, tr) \<Rightarrow>
      r = (if \<exists>d. d \<noteq> - 1 \<and> Dispatch d \<in> set tr then 0 else - 1) \<and>
      length (filter (\<lambda>c. c = BaseFree) tr) = length (filter (\<lambda>c. c = BaseNew True) tr)) \<and>
   fst (udp_server_main (env\<lparr>e_log_file := None\<rparr>)) = fst (udp_server_main (env\<lparr>e_log_file := Some 3\<rparr>))"
proof (intro conjI)
  show "case udp_server_main env of (r, tr) \<Rightarrow>
      r = (if \<exists>d. d \<noteq> - 1 \<and> Dispatch d \<in> set tr then 0 else - 1) \<and>
      length (filter (\<lambda>c. c = BaseFree) tr) = length (filter (\<lambda>c. c = BaseNew True) tr) \<and> closed tr = []"
    by (simp add: udp_server_main_def udp_server_err_def closed_def Let_def split_def)
  show "case tcp_server_main env of (r, tr) \<Rightarrow>
      r = (if \<exists>d. d \<noteq> - 1 \<and> Dispatch d \<in> set tr then 0 else - 1) \<and>
      length (filter (\<lambda>c. c = BaseFree) tr) = length (filter (\<lambda>c. c = BaseNew True) tr)"
    by (simp add: tcp_server_main_def tcp_server_err_def Let_def split_def split: option.split)
  show "fst (udp_server_main (env\<lparr>e_log_file := None\<rparr>)) = fst (udp_server_main (env\<lparr>e_log_file := Some 3\<rparr>))"
    by (simp add: udp_server_main_def udp_server_err_def Let_def split_def)
qed

text \<open>The UDP peer's main arms its user timer, which asks for device 2222, exactly when it is not
  2222 itself and everything before that succeeded; without an argument it makes no call at all.
  The ping timer is armed once and not again.\<close>

theorem udp_peer_main_timers:
  "udp_peer_main env None = (- 1, []) \<and>
   (EventAdd UserTimer 10 \<in> set (snd (udp_peer_main env (Some sn))) \<longleftrightarrow>
      sn \<noteq> 2222 \<and> EventAdd PingTimer 5 \<in> set (snd (udp_peer_main env (Some sn))) \<and>
      EventNew UserTimer True \<in> set (snd (udp_peer_main env (Some sn)))) \<and>
   length (filter (\<lambda>c. c = EventAdd PingTimer 5) (snd (udp_peer_main env (Some sn)))) \<le> 1"
  by (simp add: udp_peer_main_def Let_def split_def)

end
