(* ===== verification/CjDouble.thy ===== *)
theory CjDouble
  imports Prelude "HOL-Library.Log_Nat"
begin

text \<open>
  The C \<open>double\<close> as far as \<open>cJSON.c\<close> uses it: IEEE binary64 numbers are rationals rounded to 53
  significant bits (half to even, subnormals at the fixed exponent), with infinities and a NaN.
  The sign of zero is not kept; no operation modelled here depends on it. A conversion to \<open>int\<close>
  that is out of range gives the smallest \<open>int\<close>, which is what x86-64 does.
\<close>

datatype double = Fin rat | Inf bool | NaN

definition round_half_even :: "rat \<Rightarrow> int" where
  "round_half_even x =
     (let f = \<lfloor>x\<rfloor>; d = x - of_int f in
      if d < 1 / 2 then f else if d > 1 / 2 then f + 1 else if even f then f else f + 1)"

text \<open>The exponent \<open>e\<close> with \<open>2 ^ e \<le> x < 2 ^ (e + 1)\<close> of a positive \<open>x\<close>.\<close>

definition exponent :: "rat \<Rightarrow> int" where
  "exponent x = (if x \<ge> 1 then int (floorlog 2 (nat \<lfloor>x\<rfloor>)) - 1
                 else - int (floorlog 2 (nat (\<lceil>1 / x\<rceil> - 1))))"

definition pow2 :: "int \<Rightarrow> rat" where
  "pow2 k = (if k \<ge> 0 then 2 ^ nat k else 1 / 2 ^ nat (- k))"

definition round_double :: "rat \<Rightarrow> double" where
  "round_double x =
     (if x = 0 then Fin 0
      else let u = pow2 (max (exponent \<bar>x\<bar>) (- 1022) - 52);
               y = of_int (round_half_even (x / u)) * u
           in if \<bar>y\<bar> \<ge> 2 ^ 1024 then Inf (x < 0) else Fin y)"

definition dmul :: "double \<Rightarrow> double \<Rightarrow> double" where
  "dmul a b = (case (a, b) of
       (Fin x, Fin y) \<Rightarrow> round_double (x * y)
     | (NaN, _) \<Rightarrow> NaN | (_, NaN) \<Rightarrow> NaN
     | (Inf s, Inf t) \<Rightarrow> Inf (s \<noteq> t)
     | (Inf s, Fin x) \<Rightarrow> if x = 0 then NaN else Inf (s \<noteq> (x < 0))
     | (Fin x, Inf s) \<Rightarrow> if x = 0 then NaN else Inf (s \<noteq> (x < 0)))"

definition dadd :: "double \<Rightarrow> double \<Rightarrow> double" where
  "dadd a b = (case (a, b) of
       (Fin x, Fin y) \<Rightarrow> round_double (x + y)
     | (NaN, _) \<Rightarrow> NaN | (_, NaN) \<Rightarrow> NaN
     | (Inf s, Inf t) \<Rightarrow> if s = t then Inf s else NaN
     | (Inf s, Fin _) \<Rightarrow> Inf s
     | (Fin _, Inf s) \<Rightarrow> Inf s)"

text \<open>
  \<open>pow(10.0, k)\<close> for an integral \<open>k\<close>, taken to be correctly rounded. Above 400 it overflows,
  below -400 it underflows to zero.
\<close>

definition pow10 :: "int \<Rightarrow> double" where
  "pow10 k = (if k > 400 then Inf False else if k < - 400 then Fin 0
     else if k \<ge> 0 then round_double (10 ^ nat k) else round_double (1 / 10 ^ nat (- k)))"

definition INT_MIN :: int where "INT_MIN = - (2 ^ 31)"
definition INT_MAX :: int where "INT_MAX = 2 ^ 31 - 1"

definition trunc :: "rat \<Rightarrow> int" where
  "trunc x = (if x \<ge> 0 then \<lfloor>x\<rfloor> else \<lceil>x\<rceil>)"

definition double_to_int :: "double \<Rightarrow> int" where
  "double_to_int d = (case d of
       Fin x \<Rightarrow> if INT_MIN \<le> trunc x \<and> trunc x \<le> INT_MAX then trunc x else INT_MIN
     | _ \<Rightarrow> INT_MIN)"

subsection \<open>Integers are exact\<close>

lemma round_half_even_of_int [simp]: "round_half_even (of_int n) = n"
  by (simp add: round_half_even_def Let_def)

lemma exponent_of_int:
  assumes "n > 0" "n < 2 ^ 53"
  shows "0 \<le> exponent (of_int n)" "exponent (of_int n) \<le> 52"
proof -
  have n: "nat n > 0" "nat n < 2 ^ 53" using assms by (simp_all add: nat_less_iff)
  have "floorlog 2 (nat n) \<le> 53" using floorlog_le_iff [of 2 "nat n" 53] n by auto
  moreover have "floorlog 2 (nat n) > 0" using n by (simp add: floorlog_def)
  moreover have "exponent (of_int n) = int (floorlog 2 (nat n)) - 1" using assms(1) by (simp add: exponent_def)
  ultimately show "0 \<le> exponent (of_int n)" "exponent (of_int n) \<le> 52" by simp_all
qed

lemma round_double_of_int:
  assumes "\<bar>n\<bar> < 2 ^ 53"
  shows "round_double (of_int n) = Fin (of_int n)"
proof (cases "n = 0")
  case False
  define e where "e = exponent (of_int \<bar>n\<bar>)"
  have e: "0 \<le> e" "e \<le> 52"
    using exponent_of_int [of "\<bar>n\<bar>"] assms False by (simp_all add: e_def)
  define u where "u = pow2 (e - 52)"
  have u: "u = 1 / 2 ^ nat (52 - e)" using e by (auto simp: u_def pow2_def)
  have "of_int n / u = of_int (n * 2 ^ nat (52 - e))" by (simp add: u)
  then have r: "of_int (round_half_even (of_int n / u)) * u = of_int n"
    by (simp only: round_half_even_of_int) (simp add: u)
  have "\<bar>of_int n :: rat\<bar> < 2 ^ 53"
    using assms by (metis of_int_abs of_int_less_iff of_int_numeral of_int_power)
  also have "\<dots> \<le> (2 :: rat) ^ 1024" by (rule power_increasing) simp_all
  finally have "\<not> \<bar>of_int n :: rat\<bar> \<ge> 2 ^ 1024" by simp
  moreover have "max (exponent \<bar>of_int n\<bar>) (- 1022) = e" using e by (simp add: e_def)
  ultimately show ?thesis
    using False r by (simp add: round_double_def Let_def u_def [symmetric])
qed (simp add: round_double_def)

lemma dmul_of_int: "\<bar>a * b\<bar> < 2 ^ 53 \<Longrightarrow> dmul (Fin (of_int a)) (Fin (of_int b)) = Fin (of_int (a * b))"
  using round_double_of_int [of "a * b"] by (simp add: dmul_def)

lemma dadd_of_int: "\<bar>a + b\<bar> < 2 ^ 53 \<Longrightarrow> dadd (Fin (of_int a)) (Fin (of_int b)) = Fin (of_int (a + b))"
  using round_double_of_int [of "a + b"] by (simp add: dadd_def)

lemma pow10_0 [simp]: "pow10 0 = Fin 1"
  using round_double_of_int [of 1] by (simp add: pow10_def)

lemma double_to_int_of_int: "INT_MIN \<le> n \<Longrightarrow> n \<le> INT_MAX \<Longrightarrow> double_to_int (Fin (of_int n)) = n"
  by (simp add: double_to_int_def trunc_def)

end
