(* ===== verification/Cjson.thy ===== *)
theory Cjson
  imports CjDouble
begin

text \<open>
  The JSON library of NatProbe, \<open>cjson/cJSON.c\<close>: items and the parser. A \<open>char *\<close> into the input
  is the list of the bytes from there to the end of the object it points into, so reading past
  that end is a \<open>Fault\<close>; a heap block is a list of its length. An item's chain of children
  (\<open>child\<close>, \<open>next\<close>, \<open>prev\<close>) is a list: the parser builds each chain front to back and shares nothing.
  \<open>mem\<close> says for each \<open>cJSON_malloc\<close> of a call, by its number, whether it succeeds. Parsing recurses
  into values, so the parser has fuel; the length of the input is proved to be enough.
\<close>

subsection \<open>Items\<close>

definition cJSON_False :: int where "cJSON_False = 0"
definition cJSON_True :: int where "cJSON_True = 1"
definition cJSON_NULL :: int where "cJSON_NULL = 2"
definition cJSON_Number :: int where "cJSON_Number = 3"
definition cJSON_String :: int where "cJSON_String = 4"
definition cJSON_Array :: int where "cJSON_Array = 5"
definition cJSON_Object :: int where "cJSON_Object = 6"

lemmas cj_type_defs = cJSON_False_def cJSON_True_def cJSON_NULL_def cJSON_Number_def cJSON_String_def
  cJSON_Array_def cJSON_Object_def

datatype cJSON = Item (ctype: int) (valuestring: "byte list option") (valueint: int)
  (valuedouble: double) (cstring: "byte list option") (children: "cJSON list")

text \<open>\<open>cJSON_New_Item\<close> without the allocation: all members zero.\<close>

definition zero_item :: cJSON where
  "zero_item = Item 0 None 0 (Fin 0) None []"

subsection \<open>Results\<close>

datatype 'a pres = Fault | OutOfFuel | Fail "byte list option" | Ok 'a

definition bind_p :: "'a pres \<Rightarrow> ('a \<Rightarrow> 'b pres) \<Rightarrow> 'b pres" where
  "bind_p r f = (case r of Fault \<Rightarrow> Fault | OutOfFuel \<Rightarrow> OutOfFuel | Fail ep \<Rightarrow> Fail ep | Ok x \<Rightarrow> f x)"

lemma bind_p_simps [simp]:
  "bind_p Fault f = Fault" "bind_p OutOfFuel f = OutOfFuel" "bind_p (Fail ep) f = Fail ep" "bind_p (Ok x) f = f x"
  by (simp_all add: bind_p_def)

definition read_p :: "byte list \<Rightarrow> byte pres" where
  "read_p p = (case p of [] \<Rightarrow> Fault | c # _ \<Rightarrow> Ok c)"

lemma read_p_simps [simp]: "read_p [] = Fault" "read_p (c # cs) = Ok c"
  by (simp_all add: read_p_def)

definition cj_malloc :: "(nat \<Rightarrow> bool) \<Rightarrow> nat \<Rightarrow> (nat \<Rightarrow> 'a pres) \<Rightarrow> 'a pres" where
  "cj_malloc mem m k = (if mem m then k (Suc m) else Fail None)"

subsection \<open>Scanning\<close>

fun skip :: "byte list \<Rightarrow> byte list pres" where
  "skip [] = Fault"
| "skip (c # cs) = (if c \<noteq> 0 \<and> c \<le> 32 then skip cs else Ok (c # cs))"

text \<open>\<open>!strncmp(p, lit, n)\<close> for a literal of \<open>n\<close> characters.\<close>

fun strncmp_eq :: "byte list \<Rightarrow> byte list \<Rightarrow> bool pres" where
  "strncmp_eq _ [] = Ok True"
| "strncmp_eq [] (_ # _) = Fault"
| "strncmp_eq (c # cs) (l # ls) = (if c = l then strncmp_eq cs ls else Ok False)"

subsection \<open>Numbers\<close>

definition is_dig :: "byte \<Rightarrow> bool" where
  "is_dig c \<longleftrightarrow> 48 \<le> c \<and> c \<le> 57"

definition dig :: "byte \<Rightarrow> int" where
  "dig c = int (unat c) - 48"

definition push_digit :: "double \<Rightarrow> byte \<Rightarrow> double" where
  "push_digit n c = dadd (dmul n (Fin 10)) (Fin (of_int (dig c)))"

fun num_digits :: "double \<Rightarrow> byte list \<Rightarrow> (double \<times> byte list) pres" where
  "num_digits n [] = Fault"
| "num_digits n (c # cs) = (if is_dig c then num_digits (push_digit n c) cs else Ok (n, c # cs))"

fun frac_digits :: "double \<Rightarrow> int \<Rightarrow> byte list \<Rightarrow> (double \<times> int \<times> byte list) pres" where
  "frac_digits n scale [] = Fault"
| "frac_digits n scale (c # cs) =
     (if is_dig c then frac_digits (push_digit n c) (scale - 1) cs else Ok (n, scale, c # cs))"

text \<open>\<open>subscale\<close> is an \<open>int\<close>; its overflow wraps around as compiled code does.\<close>

fun exp_digits :: "i32 \<Rightarrow> byte list \<Rightarrow> (i32 \<times> byte list) pres" where
  "exp_digits subscale [] = Fault"
| "exp_digits subscale (c # cs) =
     (if is_dig c then exp_digits (subscale * 10 + of_int (dig c)) cs else Ok (subscale, c # cs))"

text \<open>
  The three parts of a number behind its sign. The bytes are \<open>-\<close> 45, \<open>0\<close> 48, \<open>1\<close> 49, \<open>.\<close> 46, \<open>e\<close> 101,
  \<open>E\<close> 69 and \<open>+\<close> 43.
\<close>

definition int_part :: "byte list \<Rightarrow> (double \<times> byte list) pres" where
  "int_part num =
     bind_p (read_p num) (\<lambda>c.
     let num = (if c = 48 then tl num else num) in
     bind_p (read_p num) (\<lambda>c.
     if 49 \<le> c \<and> c \<le> 57 then num_digits (Fin 0) num else Ok (Fin 0, num)))"

definition frac_part :: "double \<Rightarrow> byte list \<Rightarrow> (double \<times> int \<times> byte list) pres" where
  "frac_part n num =
     bind_p (read_p num) (\<lambda>c.
     bind_p (if c = 46 then bind_p (read_p (tl num)) (\<lambda>d. Ok (is_dig d)) else Ok False) (\<lambda>frac.
     if frac then frac_digits n 0 (tl num) else Ok (n, 0, num)))"

definition exp_part :: "byte list \<Rightarrow> (int \<times> byte list) pres" where
  "exp_part num =
     bind_p (read_p num) (\<lambda>c.
     if c = 101 \<or> c = 69 then
       let num = tl num in
       bind_p (read_p num) (\<lambda>c.
       let (signsubscale, num) = (if c = 43 then (1, tl num) else if c = 45 then (- 1, tl num) else (1, num)) in
       bind_p (exp_digits 0 num) (\<lambda>(subscale, num). Ok (signsubscale * sint subscale, num)))
     else Ok (0, num))"

definition parse_number :: "cJSON \<Rightarrow> byte list \<Rightarrow> (cJSON \<times> byte list) pres" where
  "parse_number item num =
     bind_p (read_p num) (\<lambda>c.
     let (sign, num) = (if c = 45 then (- 1, tl num) else (1, num)) in
     bind_p (int_part num) (\<lambda>(n, num).
     bind_p (frac_part n num) (\<lambda>(n, scale, num).
     bind_p (exp_part num) (\<lambda>(sub, num).
     let n = dmul (dmul (Fin sign) n) (pow10 (scale + sub))
     in Ok (Item cJSON_Number (valuestring item) (double_to_int n) n (cstring item) (children item), num)))))"

lemmas number_defs = parse_number_def int_part_def frac_part_def exp_part_def

subsection \<open>Strings\<close>

fun hex_digit :: "byte \<Rightarrow> nat option" where
  "hex_digit c = (if 48 \<le> c \<and> c \<le> 57 then Some (unat c - 48)
     else if 65 \<le> c \<and> c \<le> 70 then Some (10 + unat c - 65)
     else if 97 \<le> c \<and> c \<le> 102 then Some (10 + unat c - 97) else None)"

text \<open>\<open>parse_hex4\<close>, with \<open>k\<close> of its four steps to go: a byte that is no hex digit ends it with 0.\<close>

fun hex_steps :: "nat \<Rightarrow> nat \<Rightarrow> byte list \<Rightarrow> nat pres" where
  "hex_steps 0 h str = Ok h"
| "hex_steps (Suc k) h str = bind_p (read_p str) (\<lambda>c.
     case hex_digit c of None \<Rightarrow> Ok 0 | Some v \<Rightarrow> hex_steps k (h * 16 + v) (tl str))"

definition parse_hex4 :: "byte list \<Rightarrow> nat pres" where
  "parse_hex4 str = hex_steps 4 0 str"

text \<open>The code point written as UTF-8.\<close>

definition utf8 :: "nat \<Rightarrow> byte list" where
  "utf8 uc = (let cont = (\<lambda>u. of_nat (128 + u mod 64)) in
     if uc < 0x80 then [of_nat uc]
     else if uc < 0x800 then [of_nat (0xC0 + uc div 64), cont uc]
     else if uc < 0x10000 then [of_nat (0xE0 + uc div 4096), cont (uc div 64), cont uc]
     else [of_nat (0xF0 + uc div 262144), cont (uc div 4096), cont (uc div 64), cont uc])"

text \<open>
  One escape: \<open>p\<close> points behind the backslash; the result is what is written and where \<open>ptr\<close>
  points before the final \<open>ptr++\<close>. The bytes are \<open>b\<close> 98, \<open>f\<close> 102, \<open>n\<close> 110, \<open>r\<close> 114, \<open>t\<close> 116, \<open>u\<close> 117,
  backslash 92.
\<close>

definition parse_escape :: "byte list \<Rightarrow> (byte list \<times> byte list) pres" where
  "parse_escape p = bind_p (read_p p) (\<lambda>c.
     if c = 98 then Ok ([8], p)
     else if c = 102 then Ok ([12], p)
     else if c = 110 then Ok ([10], p)
     else if c = 114 then Ok ([13], p)
     else if c = 116 then Ok ([9], p)
     else if c = 117 then
       bind_p (parse_hex4 (tl p)) (\<lambda>uc.
       let p = drop 4 p in
       if (0xDC00 \<le> uc \<and> uc \<le> 0xDFFF) \<or> uc = 0 then Ok ([], p)
       else if 0xD800 \<le> uc \<and> uc \<le> 0xDBFF then
         bind_p (read_p (tl p)) (\<lambda>c1.
         if c1 \<noteq> 92 then Ok ([], p)
         else bind_p (read_p (drop 2 p)) (\<lambda>c2.
         if c2 \<noteq> 117 then Ok ([], p)
         else bind_p (parse_hex4 (drop 3 p)) (\<lambda>uc2.
         let p = drop 6 p in
         if uc2 < 0xDC00 \<or> uc2 > 0xDFFF then Ok ([], p)
         else Ok (utf8 (0x10000 + (uc mod 1024) * 1024 + uc2 mod 1024), p))))
       else Ok (utf8 uc, p))
     else Ok ([c], p))"

text \<open>The first pass: the number of characters, escapes counting once. The quote is 34.\<close>

fun scan_len :: "byte list \<Rightarrow> nat pres" where
  "scan_len [] = Fault"
| "scan_len (c # cs) = (if c = 34 \<or> c = 0 then Ok 0
     else bind_p (scan_len (if c = 92 then tl cs else cs)) (\<lambda>n. Ok (Suc n)))"

text \<open>Writing \<open>ws\<close> at offset \<open>i\<close> of a heap block.\<close>

definition write_at :: "nat \<Rightarrow> byte list \<Rightarrow> byte list \<Rightarrow> byte list pres" where
  "write_at i ws out =
     (if i + length ws \<le> length out then Ok (take i out @ ws @ drop (i + length ws) out) else Fault)"

lemma bind_p_cong [fundef_cong]:
  "r = r' \<Longrightarrow> (\<And>x. r' = Ok x \<Longrightarrow> f x = f' x) \<Longrightarrow> bind_p r f = bind_p r' f'"
  by (cases r') simp_all

lemma parse_escape_shorter: "parse_escape p = Ok (ws, q) \<Longrightarrow> length q \<le> length p"
  by (auto simp: parse_escape_def bind_p_def Let_def split: pres.splits if_splits)

text \<open>The second pass, with the block \<open>out\<close> and the offset of \<open>ptr2\<close> in it.\<close>

function copy_string :: "byte list \<Rightarrow> byte list \<Rightarrow> nat \<Rightarrow> (byte list \<times> byte list \<times> nat) pres" where
  "copy_string [] out i = Fault"
| "copy_string (c # cs) out i =
     (if c = 34 \<or> c = 0 then Ok (c # cs, out, i)
      else if c \<noteq> 92 then bind_p (write_at i [c] out) (\<lambda>out. copy_string cs out (Suc i))
      else bind_p (parse_escape cs) (\<lambda>(ws, q).
        bind_p (write_at i ws out) (\<lambda>out. copy_string (tl q) out (i + length ws))))"
  by pat_completeness auto
termination
proof (relation "measure (\<lambda>(p, out, i). length p)")
  fix c :: byte and cs out :: "byte list" and i x ws q out'
  assume "parse_escape cs = Ok x" "(ws, q) = x"
  then have "length q \<le> length cs" using parse_escape_shorter by metis
  then show "((tl q, out', i + length ws), c # cs, out, i) \<in> measure (\<lambda>(p, out, i). length p)" by simp
qed simp_all

definition c_string :: "byte list \<Rightarrow> byte list" where
  "c_string bs = takeWhile (\<lambda>c. c \<noteq> 0) bs"

definition parse_string :: "(nat \<Rightarrow> bool) \<Rightarrow> cJSON \<Rightarrow> byte list \<Rightarrow> nat \<Rightarrow> (cJSON \<times> byte list \<times> nat) pres" where
  "parse_string mem item str m = bind_p (read_p str) (\<lambda>c.
     if c \<noteq> 34 then Fail (Some str)
     else bind_p (scan_len (tl str)) (\<lambda>len.
       cj_malloc mem m (\<lambda>m.
       bind_p (copy_string (tl str) (replicate (len + 1) 0) 0) (\<lambda>(p, out, i).
       bind_p (write_at i [0] out) (\<lambda>out.
       bind_p (read_p p) (\<lambda>c.
       let p = (if c = 34 then tl p else p)
       in Ok (Item cJSON_String (Some (c_string out)) (valueint item) (valuedouble item) (cstring item)
                (children item), p, m)))))))"

subsection \<open>Values\<close>

definition LIT_null :: "byte list" where "LIT_null = [110, 117, 108, 108]"
definition LIT_false :: "byte list" where "LIT_false = [102, 97, 108, 115, 101]"
definition LIT_true :: "byte list" where "LIT_true = [116, 114, 117, 101]"

lemmas LIT_defs = LIT_null_def LIT_false_def LIT_true_def

definition set_type :: "int \<Rightarrow> cJSON \<Rightarrow> cJSON" where
  "set_type t i = Item t (valuestring i) (valueint i) (valuedouble i) (cstring i) (children i)"

text \<open>\<open>child->string = child->valuestring; child->valuestring = 0\<close>.\<close>

definition name_item :: "cJSON \<Rightarrow> cJSON" where
  "name_item i = Item (ctype i) None (valueint i) (valuedouble i) (valuestring i) (children i)"

type_synonym value_parser = "cJSON \<Rightarrow> byte list \<Rightarrow> nat \<Rightarrow> (cJSON \<times> byte list \<times> nat) pres"

text \<open>
  \<open>parse_elems\<close> and \<open>parse_members\<close> are the loops of \<open>parse_array\<close> and \<open>parse_object\<close>: they parse one
  child from \<open>value\<close> (past the bracket or comma) and go on while a comma follows; \<open>cs\<close> are the
  children parsed before. The recursive calls to \<open>parse_value\<close> are the argument \<open>pv\<close>. The bytes are
  brackets 91 and 93, braces 123 and 125, comma 44, colon 58.
\<close>

primrec parse_elems ::
  "nat \<Rightarrow> value_parser \<Rightarrow> (nat \<Rightarrow> bool) \<Rightarrow> cJSON list \<Rightarrow> byte list \<Rightarrow> nat \<Rightarrow> (cJSON list \<times> byte list \<times> nat) pres" where
  "parse_elems 0 pv mem cs value m = OutOfFuel"
| "parse_elems (Suc n) pv mem cs value m = cj_malloc mem m (\<lambda>m.
     bind_p (skip value) (\<lambda>value.
     bind_p (pv zero_item value m) (\<lambda>(c, value, m).
     bind_p (skip value) (\<lambda>value.
     bind_p (read_p value) (\<lambda>b.
     if b = 44 then parse_elems n pv mem (cs @ [c]) (tl value) m
     else Ok (cs @ [c], value, m))))))"

primrec parse_members ::
  "nat \<Rightarrow> value_parser \<Rightarrow> (nat \<Rightarrow> bool) \<Rightarrow> cJSON list \<Rightarrow> byte list \<Rightarrow> nat \<Rightarrow> (cJSON list \<times> byte list \<times> nat) pres" where
  "parse_members 0 pv mem cs value m = OutOfFuel"
| "parse_members (Suc n) pv mem cs value m = cj_malloc mem m (\<lambda>m.
     bind_p (skip value) (\<lambda>value.
     bind_p (parse_string mem zero_item value m) (\<lambda>(c, value, m).
     bind_p (skip value) (\<lambda>value.
     bind_p (read_p value) (\<lambda>b.
     if b \<noteq> 58 then Fail (Some value)
     else bind_p (skip (tl value)) (\<lambda>value.
     bind_p (pv (name_item c) value m) (\<lambda>(c, value, m).
     bind_p (skip value) (\<lambda>value.
     bind_p (read_p value) (\<lambda>b.
     if b = 44 then parse_members n pv mem (cs @ [c]) (tl value) m
     else Ok (cs @ [c], value, m))))))))))"

definition parse_array :: "nat \<Rightarrow> value_parser \<Rightarrow> (nat \<Rightarrow> bool) \<Rightarrow> value_parser" where
  "parse_array n pv mem item value m = bind_p (read_p value) (\<lambda>c.
     if c \<noteq> 91 then Fail (Some value)
     else bind_p (skip (tl value)) (\<lambda>value.
     bind_p (read_p value) (\<lambda>c.
     if c = 93 then Ok (set_type cJSON_Array item, tl value, m)
     else bind_p (parse_elems n pv mem [] value m) (\<lambda>(cs, value, m).
     bind_p (read_p value) (\<lambda>c.
     if c = 93 then Ok (Item cJSON_Array (valuestring item) (valueint item) (valuedouble item) (cstring item) cs,
                        tl value, m)
     else Fail (Some value))))))"

definition parse_object :: "nat \<Rightarrow> value_parser \<Rightarrow> (nat \<Rightarrow> bool) \<Rightarrow> value_parser" where
  "parse_object n pv mem item value m = bind_p (read_p value) (\<lambda>c.
     if c \<noteq> 123 then Fail (Some value)
     else bind_p (skip (tl value)) (\<lambda>value.
     bind_p (read_p value) (\<lambda>c.
     if c = 125 then Ok (set_type cJSON_Object item, tl value, m)
     else bind_p (parse_members n pv mem [] value m) (\<lambda>(cs, value, m).
     bind_p (read_p value) (\<lambda>c.
     if c = 125 then Ok (Item cJSON_Object (valuestring item) (valueint item) (valuedouble item) (cstring item) cs,
                         tl value, m)
     else Fail (Some value))))))"

primrec parse_value :: "nat \<Rightarrow> (nat \<Rightarrow> bool) \<Rightarrow> value_parser" where
  "parse_value 0 mem = (\<lambda>item value m. OutOfFuel)"
| "parse_value (Suc n) mem = (\<lambda>item value m.
     bind_p (strncmp_eq value LIT_null) (\<lambda>isnull.
     if isnull then Ok (set_type cJSON_NULL item, drop 4 value, m)
     else bind_p (strncmp_eq value LIT_false) (\<lambda>isfalse.
     if isfalse then Ok (set_type cJSON_False item, drop 5 value, m)
     else bind_p (strncmp_eq value LIT_true) (\<lambda>istrue.
     if istrue then Ok (Item cJSON_True (valuestring item) 1 (valuedouble item) (cstring item) (children item),
                        drop 4 value, m)
     else bind_p (read_p value) (\<lambda>c.
     if c = 34 then parse_string mem item value m
     else if c = 45 \<or> is_dig c then bind_p (parse_number item value) (\<lambda>(i, p). Ok (i, p, m))
     else if c = 91 then parse_array n (parse_value n mem) mem item value m
     else if c = 123 then parse_object n (parse_value n mem) mem item value m
     else Fail (Some value))))))"

text \<open>
  \<open>cJSON_ParseWithOpts\<close>; the second component of the result is what \<open>return_parse_end\<close> receives.
\<close>

definition cJSON_ParseWithOpts :: "(nat \<Rightarrow> bool) \<Rightarrow> byte list \<Rightarrow> bool \<Rightarrow> (cJSON \<times> byte list) pres" where
  "cJSON_ParseWithOpts mem value require_null_terminated = cj_malloc mem 0 (\<lambda>m.
     bind_p (skip value) (\<lambda>v.
     bind_p (parse_value (length value + 1) mem zero_item v m) (\<lambda>(c, end, _).
     if require_null_terminated
     then bind_p (skip end) (\<lambda>end. bind_p (read_p end) (\<lambda>b. if b \<noteq> 0 then Fail (Some end) else Ok (c, end)))
     else Ok (c, end))))"

definition cJSON_Parse :: "(nat \<Rightarrow> bool) \<Rightarrow> byte list \<Rightarrow> cJSON pres" where
  "cJSON_Parse mem value = bind_p (cJSON_ParseWithOpts mem value False) (\<lambda>(c, _). Ok c)"

subsection \<open>Looking things up\<close>

definition tolower :: "byte \<Rightarrow> byte" where
  "tolower c = (if 65 \<le> c \<and> c \<le> 90 then c + 32 else c)"

text \<open>
  \<open>!cJSON_strcasecmp(s1, s2)\<close> on strings without their terminators; one \<open>NULL\<close> string differs from
  everything but \<open>NULL\<close>.
\<close>

fun strcase_eq :: "byte list \<Rightarrow> byte list \<Rightarrow> bool" where
  "strcase_eq [] [] = True"
| "strcase_eq (a # as) (b # bs) = (tolower a = tolower b \<and> strcase_eq as bs)"
| "strcase_eq _ _ = False"

definition cJSON_strcasecmp_eq :: "byte list option \<Rightarrow> byte list option \<Rightarrow> bool" where
  "cJSON_strcasecmp_eq s1 s2 = (case (s1, s2) of
       (Some a, Some b) \<Rightarrow> strcase_eq a b | (None, None) \<Rightarrow> True | _ \<Rightarrow> False)"

definition cJSON_GetObjectItem :: "cJSON \<Rightarrow> byte list \<Rightarrow> cJSON option" where
  "cJSON_GetObjectItem object string =
     List.find (\<lambda>c. cJSON_strcasecmp_eq (cstring c) (Some string)) (children object)"

definition cJSON_GetArraySize :: "cJSON \<Rightarrow> int" where
  "cJSON_GetArraySize array = int (length (children array))"

definition cJSON_GetArrayItem :: "cJSON \<Rightarrow> int \<Rightarrow> cJSON option" where
  "cJSON_GetArrayItem array item =
     (let k = nat item in if k < length (children array) then Some (children array ! k) else None)"

end
