(* ===== verification/CjsonPrint.thy ===== *)
theory CjsonPrint
  imports Cjson
begin

text \<open>
  Printing and building items (\<open>cJSON_Print\<close>, \<open>cJSON_Create*\<close>, \<open>cJSON_AddItemToObject\<close>). The text is
  assembled in blocks whose size the code computes beforehand; a text that does not fit its block
  is a fault. A result is \<open>None\<close> for a fault, otherwise the text (\<open>None\<close> for \<open>NULL\<close>) and the number of
  allocations so far.
\<close>

type_synonym 'a qres = "('a option \<times> nat) option"

text \<open>\<open>cJSON_malloc(cap)\<close>, and if that succeeds the text and its terminator written into the block.\<close>

definition q_text :: "(nat \<Rightarrow> bool) \<Rightarrow> nat \<Rightarrow> byte list \<Rightarrow> nat \<Rightarrow> byte list qres" where
  "q_text mem cap txt m =
     (if \<not> mem m then Some (None, Suc m)
      else if length txt + 1 \<le> cap then Some (Some txt, Suc m) else None)"

definition cJSON_strdup :: "(nat \<Rightarrow> bool) \<Rightarrow> byte list \<Rightarrow> nat \<Rightarrow> byte list qres" where
  "cJSON_strdup mem str m = q_text mem (length str + 1) str m"

subsection \<open>Numbers\<close>

fun dec_nat :: "nat \<Rightarrow> byte list" where
  "dec_nat n = (if n < 10 then [of_nat (48 + n)] else dec_nat (n div 10) @ [of_nat (48 + n mod 10)])"

declare dec_nat.simps [simp del]

text \<open>\<open>sprintf(str, "%d", i)\<close>.\<close>

definition dec_int :: "int \<Rightarrow> byte list" where
  "dec_int i = (if i < 0 then 45 # dec_nat (nat (- i)) else dec_nat (nat i))"

definition zeros :: "nat \<Rightarrow> byte list \<Rightarrow> byte list" where
  "zeros k ds = replicate (k - length ds) 48 @ ds"

definition signed :: "rat \<Rightarrow> byte list \<Rightarrow> byte list" where
  "signed x ds = (if x < 0 then 45 # ds else ds)"

text \<open>\<open>"%.0f"\<close>, \<open>"%f"\<close> and \<open>"%e"\<close> of a finite number, rounding half to even.\<close>

definition fmt_0f :: "rat \<Rightarrow> byte list" where
  "fmt_0f x = signed x (dec_nat (nat (round_half_even \<bar>x\<bar>)))"

definition fmt_f :: "rat \<Rightarrow> byte list" where
  "fmt_f x = (let k = nat (round_half_even (\<bar>x\<bar> * 10 ^ 6)) in
     signed x (dec_nat (k div 10 ^ 6) @ [46] @ zeros 6 (dec_nat (k mod 10 ^ 6))))"

definition exponent10 :: "rat \<Rightarrow> int" where
  "exponent10 x = (if x \<ge> 1 then int (floorlog 10 (nat \<lfloor>x\<rfloor>)) - 1
                   else - int (floorlog 10 (nat (\<lceil>1 / x\<rceil> - 1))))"

definition fmt_e :: "rat \<Rightarrow> byte list" where
  "fmt_e x = (let e = exponent10 \<bar>x\<bar>;
       scale = (if e \<ge> 6 then 1 / 10 ^ nat (e - 6) else 10 ^ nat (6 - e));
       k = nat (round_half_even (\<bar>x\<bar> * scale));
       (k, e) = (if k = 10 ^ 7 then (10 ^ 6, e + 1) else (k, e)) in
     signed x (dec_nat (k div 10 ^ 6) @ [46] @ zeros 6 (dec_nat (k mod 10 ^ 6)) @ [101] @
       (if e < 0 then [45] else [43]) @ zeros 2 (dec_nat (nat \<bar>e\<bar>))))"

definition DBL_EPSILON :: rat where "DBL_EPSILON = 1 / 2 ^ 52"

definition abs_le :: "double \<Rightarrow> rat \<Rightarrow> bool" where
  "abs_le d b = (case d of Fin y \<Rightarrow> \<bar>y\<bar> \<le> b | _ \<Rightarrow> False)"

text \<open>The size of the block that is asked for, and the text.\<close>

definition number_text :: "int \<Rightarrow> double \<Rightarrow> nat \<times> byte list" where
  "number_text vi d = (case d of
       NaN \<Rightarrow> (64, [110, 97, 110])
     | Inf s \<Rightarrow> (64, (if s then [45] else []) @ [105, 110, 102])
     | Fin x \<Rightarrow>
       if x = 0 then (2, [48])
       else if abs_le (round_double (of_int vi - x)) DBL_EPSILON \<and> x \<le> of_int INT_MAX \<and> x \<ge> of_int INT_MIN
       then (21, dec_int vi)
       else if abs_le (round_double (of_int \<lfloor>x\<rfloor> - x)) DBL_EPSILON \<and> \<bar>x\<bar> < 10 ^ 60
       then (64, fmt_0f x)
       else if \<bar>x\<bar> < 1 / 10 ^ 6 \<or> \<bar>x\<bar> > 10 ^ 9 then (64, fmt_e x)
       else (64, fmt_f x))"

definition print_number :: "(nat \<Rightarrow> bool) \<Rightarrow> int \<Rightarrow> double \<Rightarrow> nat \<Rightarrow> byte list qres" where
  "print_number mem vi d m = (case number_text vi d of (cap, txt) \<Rightarrow> q_text mem cap txt m)"

subsection \<open>Strings\<close>

definition hex_char :: "nat \<Rightarrow> byte" where
  "hex_char n = of_nat (if n < 10 then 48 + n else 87 + n)"

text \<open>What one character is written as: quote 34, backslash 92, and \<open>%04x\<close> for the other control characters.\<close>

definition escape :: "byte \<Rightarrow> byte list" where
  "escape c = (if c > 31 \<and> c \<noteq> 34 \<and> c \<noteq> 92 then [c]
     else if c = 92 then [92, 92]
     else if c = 34 then [92, 34]
     else if c = 8 then [92, 98]
     else if c = 12 then [92, 102]
     else if c = 10 then [92, 110]
     else if c = 13 then [92, 114]
     else if c = 9 then [92, 116]
     else [92, 117, 48, 48, hex_char (unat c div 16), hex_char (unat c mod 16)])"

definition needs_escape :: "byte \<Rightarrow> bool" where
  "needs_escape c \<longleftrightarrow> (0 < c \<and> c < 32) \<or> c = 34 \<or> c = 92"

text \<open>The space the first pass over the string reckons for a character.\<close>

definition escape_len :: "byte \<Rightarrow> nat" where
  "escape_len c = (if c \<in> {34, 92, 8, 12, 10, 13, 9} then 2 else if c < 32 then 6 else 1)"

definition string_text :: "byte list \<Rightarrow> nat \<times> byte list" where
  "string_text s = (if \<not> list_ex needs_escape s then (length s + 3, 34 # s @ [34])
     else (sum_list (map escape_len s) + 3, 34 # concat (map escape s) @ [34]))"

text \<open>\<open>print_string_ptr\<close>: a \<open>NULL\<close> string is read before it is tested.\<close>

definition print_string_ptr :: "(nat \<Rightarrow> bool) \<Rightarrow> byte list option \<Rightarrow> nat \<Rightarrow> byte list qres" where
  "print_string_ptr mem str m = (case str of None \<Rightarrow> None
     | Some s \<Rightarrow> (case string_text s of (cap, txt) \<Rightarrow> q_text mem cap txt m))"

subsection \<open>Values\<close>

definition tabs :: "nat \<Rightarrow> byte list" where
  "tabs n = replicate n 9"

text \<open>The compositions at the end of \<open>print_array\<close> and \<open>print_object\<close>, with the sizes of their blocks.\<close>

fun commas :: "bool \<Rightarrow> byte list list \<Rightarrow> byte list" where
  "commas fmt [] = []"
| "commas fmt [e] = e"
| "commas fmt (e # es) = e @ [44] @ (if fmt then [32] else []) @ commas fmt es"

definition join_array :: "(nat \<Rightarrow> bool) \<Rightarrow> bool \<Rightarrow> byte list list option \<Rightarrow> nat \<Rightarrow> byte list qres" where
  "join_array mem fmt es m = (case es of None \<Rightarrow> Some (None, m)
     | Some es \<Rightarrow> q_text mem (5 + sum_list (map (\<lambda>e. length e + 2 + (if fmt then 1 else 0)) es))
         ([91] @ commas fmt es @ [93]) m)"

fun members :: "bool \<Rightarrow> nat \<Rightarrow> (byte list \<times> byte list) list \<Rightarrow> byte list" where
  "members fmt depth [] = []"
| "members fmt depth ((name, e) # es) =
     (if fmt then tabs depth else []) @ name @ [58] @ (if fmt then [9] else []) @ e @
     (if es = [] then [] else [44]) @ (if fmt then [10] else []) @ members fmt depth es"

text \<open>\<open>depth\<close> is the value after \<open>depth++\<close>.\<close>

definition join_object ::
  "(nat \<Rightarrow> bool) \<Rightarrow> bool \<Rightarrow> nat \<Rightarrow> (byte list \<times> byte list) list option \<Rightarrow> nat \<Rightarrow> byte list qres" where
  "join_object mem fmt depth es m = (case es of None \<Rightarrow> Some (None, m)
     | Some es \<Rightarrow> q_text mem (7 + (if fmt then depth else 0) +
           sum_list (map (\<lambda>(name, e). length e + length name + 2 + (if fmt then 2 + depth else 0)) es))
         ([123] @ (if fmt then [10] else []) @ members fmt depth es @ (if fmt then tabs (depth - 1) else []) @ [125]) m)"

definition empty_object :: "bool \<Rightarrow> nat \<Rightarrow> byte list" where
  "empty_object fmt depth = [123] @ (if fmt then 10 # tabs (depth - 1) else []) @ [125]"

fun print_value :: "(nat \<Rightarrow> bool) \<Rightarrow> bool \<Rightarrow> nat \<Rightarrow> cJSON \<Rightarrow> nat \<Rightarrow> byte list qres"
  and print_elems :: "(nat \<Rightarrow> bool) \<Rightarrow> bool \<Rightarrow> nat \<Rightarrow> cJSON list \<Rightarrow> nat \<Rightarrow> byte list list qres"
  and print_members :: "(nat \<Rightarrow> bool) \<Rightarrow> bool \<Rightarrow> nat \<Rightarrow> cJSON list \<Rightarrow> nat \<Rightarrow> (byte list \<times> byte list) list qres"
where
  "print_value mem fmt depth (Item t vs vi vd nm cs) m =
     (let t = t mod 256 in
      if t = cJSON_NULL then cJSON_strdup mem LIT_null m
      else if t = cJSON_False then cJSON_strdup mem LIT_false m
      else if t = cJSON_True then cJSON_strdup mem LIT_true m
      else if t = cJSON_Number then print_number mem vi vd m
      else if t = cJSON_String then print_string_ptr mem vs m
      else if t = cJSON_Array then
        (if cs = [] then q_text mem 3 [91, 93] m
         else if \<not> mem m then Some (None, Suc m)
         else Option.bind (print_elems mem fmt (depth + 1) cs (Suc m)) (\<lambda>(es, m). join_array mem fmt es m))
      else if t = cJSON_Object then
        (if cs = [] then q_text mem (if fmt then depth + 4 else 3) (empty_object fmt depth) m
         else if \<not> mem m then Some (None, Suc m)
         else if \<not> mem (Suc m) then Some (None, Suc (Suc m))
         else Option.bind (print_members mem fmt (depth + 1) cs (Suc (Suc m)))
                (\<lambda>(es, m). join_object mem fmt (depth + 1) es m))
      else Some (None, m))"
| "print_elems mem fmt depth [] m = Some (Some [], m)"
| "print_elems mem fmt depth (c # cs) m =
     Option.bind (print_value mem fmt depth c m) (\<lambda>(r, m).
       case r of None \<Rightarrow> Some (None, m)
       | Some e \<Rightarrow> map_option (map_prod (map_option (\<lambda>es. e # es)) id) (print_elems mem fmt depth cs m))"
| "print_members mem fmt depth [] m = Some (Some [], m)"
| "print_members mem fmt depth (c # cs) m =
     Option.bind (print_string_ptr mem (cstring c) m) (\<lambda>(name, m).
     Option.bind (print_value mem fmt depth c m) (\<lambda>(r, m).
       map_option (map_prod (\<lambda>es. case (name, r, es) of
           (Some a, Some b, Some l) \<Rightarrow> Some ((a, b) # l) | _ \<Rightarrow> None) id)
         (print_members mem fmt depth cs m)))"

definition cJSON_Print :: "(nat \<Rightarrow> bool) \<Rightarrow> cJSON \<Rightarrow> byte list qres" where
  "cJSON_Print mem item = print_value mem True 0 item 0"

definition cJSON_PrintUnformatted :: "(nat \<Rightarrow> bool) \<Rightarrow> cJSON \<Rightarrow> byte list qres" where
  "cJSON_PrintUnformatted mem item = print_value mem False 0 item 0"

end
