(* ===== verification/CjsonTrip.thy ===== *)
theory CjsonTrip
  imports CjsonPrint
begin

text \<open>
  What printing and parsing JSON mean, and that they fit together: \<open>render\<close> is the text of an item
  as a pure function; the printer produces it inside its blocks, and the parser reads it back.
\<close>

subsection \<open>Items that represent JSON values\<close>

text \<open>As the parser builds them, with numbers restricted to the range of \<open>int\<close>; names are free.\<close>

inductive canon :: "cJSON \<Rightarrow> bool" where
  canon_null: "canon (Item cJSON_NULL None 0 (Fin 0) nm [])"
| canon_false: "canon (Item cJSON_False None 0 (Fin 0) nm [])"
| canon_true: "canon (Item cJSON_True None 1 (Fin 0) nm [])"
| canon_number: "INT_MIN \<le> i \<Longrightarrow> i \<le> INT_MAX \<Longrightarrow> canon (Item cJSON_Number None i (Fin (of_int i)) nm [])"
| canon_string: "0 \<notin> set s \<Longrightarrow> canon (Item cJSON_String (Some s) 0 (Fin 0) nm [])"
| canon_array: "(\<And>c. c \<in> set cs \<Longrightarrow> canon c) \<Longrightarrow> (\<And>c. c \<in> set cs \<Longrightarrow> cstring c = None) \<Longrightarrow>
    canon (Item cJSON_Array None 0 (Fin 0) nm cs)"
| canon_object: "(\<And>c. c \<in> set cs \<Longrightarrow> canon c) \<Longrightarrow> (\<And>c. c \<in> set cs \<Longrightarrow> \<exists>s. cstring c = Some s \<and> 0 \<notin> set s) \<Longrightarrow>
    canon (Item cJSON_Object None 0 (Fin 0) nm cs)"

definition quote :: "byte list \<Rightarrow> byte list" where
  "quote s = 34 # concat (map escape s) @ [34]"

fun render :: "bool \<Rightarrow> nat \<Rightarrow> cJSON \<Rightarrow> byte list" where
  "render fmt d (Item t vs vi vd nm cs) =
     (if t = cJSON_NULL then LIT_null
      else if t = cJSON_False then LIT_false
      else if t = cJSON_True then LIT_true
      else if t = cJSON_Number then dec_int vi
      else if t = cJSON_String then quote (the vs)
      else if t = cJSON_Array then [91] @ commas fmt (map (render fmt (d + 1)) cs) @ [93]
      else if cs = [] then empty_object fmt d
      else [123] @ (if fmt then [10] else []) @
        members fmt (d + 1) (map (\<lambda>c. (quote (the (cstring c)), render fmt (d + 1) c)) cs) @
        (if fmt then tabs d else []) @ [125])"

subsection \<open>The blocks are large enough\<close>

lemma length_dec_nat: "n < 10 ^ Suc k \<Longrightarrow> length (dec_nat n) \<le> Suc k"
proof (induction k arbitrary: n)
  case 0
  then show ?case by (simp add: dec_nat.simps)
next
  case (Suc k)
  then have "n div 10 < 10 ^ Suc k" by simp
  then show ?case using Suc.IH [of "n div 10"] by (subst dec_nat.simps) simp
qed

lemma length_dec_int:
  assumes "INT_MIN \<le> i" "i \<le> INT_MAX"
  shows "length (dec_int i) \<le> 11"
proof -
  have "nat \<bar>i\<bar> < 10 ^ Suc 9" using assms by (simp add: INT_MIN_def INT_MAX_def nat_less_iff)
  then show ?thesis using length_dec_nat [of "nat \<bar>i\<bar>" 9] by (auto simp: dec_int_def)
qed

lemma gt_31: "31 < c \<longleftrightarrow> \<not> c < (32 :: byte)"
  by (auto simp: word_less_nat_alt)

lemma length_escape: "length (escape c) \<le> escape_len c"
  by (auto simp: escape_def escape_len_def gt_31)

lemma length_escapes: "length (concat (map escape s)) \<le> sum_list (map escape_len s)"
  by (induction s) (auto intro: add_mono length_escape)

lemma escape_plain: "\<not> needs_escape c \<Longrightarrow> c \<noteq> 0 \<Longrightarrow> escape c = [c]"
  by (auto simp: needs_escape_def escape_def gt_31 word_gt_0)

lemma escapes_plain: "\<not> list_ex needs_escape s \<Longrightarrow> 0 \<notin> set s \<Longrightarrow> concat (map escape s) = s"
  by (induction s) (auto simp: escape_plain)

lemma length_commas:
  "length (commas fmt es) \<le> sum_list (map (\<lambda>e. length e + 2 + (if fmt then 1 else 0)) es)"
  by (induction fmt es rule: commas.induct) auto

lemma length_members:
  "length (members fmt d es) \<le> sum_list (map (\<lambda>(n, e). length e + length n + 2 + (if fmt then 2 + d else 0)) es)"
  by (induction fmt d es rule: members.induct) (auto simp: tabs_def)

text \<open>A call that yields the text \<open>txt\<close> unless memory runs out.\<close>

definition yields :: "(nat \<Rightarrow> bool) \<Rightarrow> 'a qres \<Rightarrow> 'a \<Rightarrow> bool" where
  "yields mem q txt \<longleftrightarrow> (\<exists>r m. q = Some (r, m) \<and> (r = None \<or> r = Some txt) \<and> ((\<forall>k. mem k) \<longrightarrow> r \<noteq> None))"

lemma yields_text: "length txt + 1 \<le> cap \<Longrightarrow> yields mem (q_text mem cap txt m) txt"
  by (auto simp: yields_def q_text_def)

lemma number_text_int:
  assumes "INT_MIN \<le> i" "i \<le> INT_MAX"
  shows "snd (number_text i (Fin (of_int i))) = dec_int i" "length (dec_int i) + 1 \<le> fst (number_text i (Fin (of_int i)))"
    "fst (number_text i (Fin (of_int i))) \<le> 21"
proof -
  have "dec_int 0 = [48]" by (simp add: dec_int_def dec_nat.simps)
  moreover have "abs_le (round_double 0) DBL_EPSILON"
    by (simp add: round_double_def abs_le_def DBL_EPSILON_def)
  ultimately show "snd (number_text i (Fin (of_int i))) = dec_int i" "length (dec_int i) + 1 \<le> fst (number_text i (Fin (of_int i)))"
    "fst (number_text i (Fin (of_int i))) \<le> 21"
    using assms length_dec_int [OF assms] by (simp_all add: number_text_def)
qed

lemma yields_number:
  assumes "INT_MIN \<le> i" "i \<le> INT_MAX"
  shows "yields mem (print_number mem i (Fin (of_int i)) m) (dec_int i)"
  using number_text_int [OF assms] by (simp add: print_number_def split_def yields_text)

lemma string_text_quote:
  assumes "0 \<notin> set s"
  shows "snd (string_text s) = quote s" "length (quote s) + 1 \<le> fst (string_text s)"
  using assms length_escapes [of s] escapes_plain [of s] by (simp_all add: string_text_def quote_def)

lemma yields_string: "0 \<notin> set s \<Longrightarrow> yields mem (print_string_ptr mem (Some s) m) (quote s)"
  using string_text_quote [of s] by (simp add: print_string_ptr_def split_def yields_text)

lemma yields_elems:
  assumes "\<And>c m. c \<in> set cs \<Longrightarrow> yields mem (print_value mem fmt d c m) (render fmt d c)"
  shows "yields mem (print_elems mem fmt d cs m) (map (render fmt d) cs)"
  using assms
proof (induction cs arbitrary: m)
  case Nil
  then show ?case by (simp add: yields_def)
next
  case (Cons c cs)
  obtain r m1 where r: "print_value mem fmt d c m = Some (r, m1)" "r = None \<or> r = Some (render fmt d c)"
    "(\<forall>k. mem k) \<longrightarrow> r \<noteq> None"
    using Cons.prems [of c m] by (auto simp: yields_def)
  obtain rs m2 where "print_elems mem fmt d cs m1 = Some (rs, m2)" "rs = None \<or> rs = Some (map (render fmt d) cs)"
    "(\<forall>k. mem k) \<longrightarrow> rs \<noteq> None"
    using Cons.IH [of m1] Cons.prems by (auto simp: yields_def)
  with r show ?case by (auto simp: yields_def)
qed

lemma yields_members:
  assumes "\<And>c m. c \<in> set cs \<Longrightarrow> yields mem (print_value mem fmt d c m) (render fmt d c)"
    and "\<And>c. c \<in> set cs \<Longrightarrow> \<exists>s. cstring c = Some s \<and> 0 \<notin> set s"
  shows "yields mem (print_members mem fmt d cs m)
    (map (\<lambda>c. (quote (the (cstring c)), render fmt d c)) cs)"
  using assms
proof (induction cs arbitrary: m)
  case Nil
  then show ?case by (simp add: yields_def)
next
  case (Cons c cs)
  obtain s where s: "cstring c = Some s" "0 \<notin> set s" using Cons.prems(2) [of c] by auto
  obtain n m0 where n: "print_string_ptr mem (Some s) m = Some (n, m0)" "n = None \<or> n = Some (quote s)"
    "(\<forall>k. mem k) \<longrightarrow> n \<noteq> None"
    using yields_string [OF s(2), of mem m] by (auto simp: yields_def)
  obtain r m1 where r: "print_value mem fmt d c m0 = Some (r, m1)" "r = None \<or> r = Some (render fmt d c)"
    "(\<forall>k. mem k) \<longrightarrow> r \<noteq> None"
    using Cons.prems(1) [of c m0] by (auto simp: yields_def)
  obtain rs m2 where "print_members mem fmt d cs m1 = Some (rs, m2)"
    "rs = None \<or> rs = Some (map (\<lambda>c. (quote (the (cstring c)), render fmt d c)) cs)"
    "(\<forall>k. mem k) \<longrightarrow> rs \<noteq> None"
    using Cons.IH [of m1] Cons.prems by (auto simp: yields_def)
  with s n r show ?case by (auto simp: yields_def)
qed

lemma yields_bind:
  assumes "yields mem q x" "\<And>m. yields mem (f (Some x) m) y" "\<And>m. f None m = Some (None, m)"
  shows "yields mem (Option.bind q (\<lambda>(r, m). f r m)) y"
proof -
  obtain r m where r: "q = Some (r, m)" "r = None \<or> r = Some x" "(\<forall>k. mem k) \<longrightarrow> r \<noteq> None"
    using assms(1) by (auto simp: yields_def)
  from r(2) show ?thesis
  proof
    assume "r = None"
    with r assms(3) [of m] show ?thesis by (simp add: yields_def)
  next
    assume "r = Some x"
    with r assms(2) [of m] show ?thesis by simp
  qed
qed

lemma yields_array:
  assumes "yields mem (print_elems mem fmt d cs m) es"
  shows "yields mem (Option.bind (print_elems mem fmt d cs m) (\<lambda>(es, m). join_array mem fmt es m))
    ([91] @ commas fmt es @ [93])"
  using assms length_commas [of fmt es]
  by (intro yields_bind) (auto simp: join_array_def intro!: yields_text)

lemma yields_object:
  assumes "yields mem (print_members mem fmt d cs m) es"
  shows "yields mem (Option.bind (print_members mem fmt d cs m) (\<lambda>(es, m). join_object mem fmt d es m))
    ([123] @ (if fmt then [10] else []) @ members fmt d es @ (if fmt then tabs (d - 1) else []) @ [125])"
  using assms length_members [of fmt d es]
  by (intro yields_bind) (auto simp: join_object_def tabs_def intro!: yields_text)

lemma print_yields: "canon t \<Longrightarrow> yields mem (print_value mem fmt d t m) (render fmt d t)"
proof (induction arbitrary: d m rule: canon.induct)
  case (canon_array cs nm)
  have "yields mem (print_elems mem fmt (d + 1) cs (Suc m)) (map (render fmt (d + 1)) cs)"
    using canon_array by (intro yields_elems) auto
  then show ?case
    using yields_array [of mem fmt "d + 1" cs "Suc m"]
    by (auto simp: cj_type_defs yields_text) (auto simp: yields_def)
next
  case (canon_object cs nm)
  have "yields mem (print_members mem fmt (d + 1) cs (Suc (Suc m)))
      (map (\<lambda>c. (quote (the (cstring c)), render fmt (d + 1) c)) cs)"
    using canon_object by (intro yields_members) auto
  then show ?case
    using yields_object [of mem fmt "d + 1" cs "Suc (Suc m)"]
    by (auto simp: cj_type_defs yields_text empty_object_def tabs_def) (auto simp: yields_def)
qed (simp_all add: cj_type_defs cJSON_strdup_def yields_text yields_number yields_string)

subsection \<open>Parsing what was printed: numbers\<close>

lemma unat_char [simp]: "k < 10 \<Longrightarrow> unat (48 + of_nat k :: byte) = 48 + k"
  by (simp add: unat_word_ariths unat_of_nat)

lemma uint_char [simp]: "k < 10 \<Longrightarrow> uint (48 + of_nat k :: byte) = 48 + int k"
  by (metis of_nat_add of_nat_numeral of_nat_unat unat_char)

lemma is_dig_char [simp]: "k < 10 \<Longrightarrow> is_dig (48 + of_nat k)"
  by (simp add: is_dig_def word_le_nat_alt)

lemma dig_char [simp]: "k < 10 \<Longrightarrow> dig (48 + of_nat k) = int k"
  by (simp add: dig_def del: of_nat_unat)

definition value_of :: "int \<Rightarrow> byte list \<Rightarrow> int" where
  "value_of a ds = foldl (\<lambda>a c. a * 10 + dig c) a ds"

lemma value_of_simps [simp]:
  "value_of a [] = a" "value_of a (c # ds) = value_of (a * 10 + dig c) ds"
  "value_of a (ds @ es) = value_of (value_of a ds) es"
  by (simp_all add: value_of_def)

lemma dec_nat_digits: "c \<in> set (dec_nat n) \<Longrightarrow> is_dig c"
proof (induction n rule: dec_nat.induct)
  case (1 n)
  then show ?case by (subst (asm) dec_nat.simps) (auto split: if_splits)
qed

lemma value_of_dec_nat: "value_of 0 (dec_nat n) = int n"
proof (induction n rule: dec_nat.induct)
  case (1 n)
  then show ?case by (subst dec_nat.simps) (auto simp: zdiv_int zmod_int)
qed

lemma dig_nonneg: "is_dig c \<Longrightarrow> dig c \<ge> 0" "is_dig c \<Longrightarrow> dig c < 10"
  by (auto simp: is_dig_def dig_def word_le_nat_alt simp del: of_nat_unat)

lemma value_of_mono: "(\<And>c. c \<in> set ds \<Longrightarrow> is_dig c) \<Longrightarrow> a \<ge> 0 \<Longrightarrow> value_of a ds \<ge> a"
proof (induction ds arbitrary: a)
  case (Cons c ds)
  have "dig c \<ge> 0" using Cons.prems(1) [of c] dig_nonneg by simp
  then have "value_of (a * 10 + dig c) ds \<ge> a * 10 + dig c"
    using Cons.prems by (intro Cons.IH) auto
  with Cons.prems(2) \<open>dig c \<ge> 0\<close> show ?case by simp
qed simp

lemma push_digit_int:
  assumes "0 \<le> a" "is_dig c" "a * 10 + dig c < 2 ^ 53"
  shows "push_digit (Fin (of_int a)) c = Fin (of_int (a * 10 + dig c))"
  using dmul_of_int [of a 10] dadd_of_int [of "a * 10" "dig c"] assms dig_nonneg [OF assms(2)]
  by (simp add: push_digit_def)

text \<open>What may follow a number without becoming part of it.\<close>

definition follows :: "byte list \<Rightarrow> bool" where
  "follows rest \<longleftrightarrow> (case rest of [] \<Rightarrow> False | c # _ \<Rightarrow> \<not> is_dig c \<and> c \<notin> {46, 69, 101})"

lemma num_digits_value:
  assumes "\<And>c. c \<in> set ds \<Longrightarrow> is_dig c" "a \<ge> 0" "value_of a ds < 2 ^ 53" "follows rest"
  shows "num_digits (Fin (of_int a)) (ds @ rest) = Ok (Fin (of_int (value_of a ds)), rest)"
  using assms
proof (induction ds arbitrary: a)
  case Nil
  then show ?case by (cases rest) (auto simp: follows_def)
next
  case (Cons c ds)
  have c: "is_dig c" "dig c \<ge> 0" using Cons.prems(1) [of c] dig_nonneg by auto
  have "a * 10 + dig c \<le> value_of (a * 10 + dig c) ds"
    using Cons.prems(1,2) c by (intro value_of_mono) auto
  with Cons.prems c push_digit_int [of a c] Cons.IH [of "a * 10 + dig c"] show ?case by simp
qed

lemma dec_nat_first:
  assumes "n > 0"
  obtains c ds where "dec_nat n = c # ds" "49 \<le> c" "c \<le> 57"
proof -
  have "\<exists>c ds. dec_nat n = c # ds \<and> 49 \<le> c \<and> c \<le> 57"
    using assms
  proof (induction n rule: dec_nat.induct)
    case (1 n)
    show ?case
    proof (cases "n < 10")
      case True
      with 1(2) show ?thesis by (subst dec_nat.simps) (auto simp: word_le_nat_alt)
    next
      case False
      with 1(1) show ?thesis by (subst dec_nat.simps) force
    qed
  qed
  with that show thesis by blast
qed

lemma parse_number_unsigned:
  assumes "int n \<le> 2 ^ 31" "follows rest" "\<bar>sg * int n\<bar> < 2 ^ 53" "sg = 1 \<or> sg = - 1"
  shows "parse_number (Item t None 0 (Fin 0) nm []) ((if sg = - 1 then [45] else []) @ dec_nat n @ rest) =
    Ok (Item cJSON_Number None (double_to_int (Fin (of_int (sg * int n)))) (Fin (of_int (sg * int n))) nm [], rest)"
proof -
  obtain r rs where rest: "rest = r # rs" "\<not> is_dig r" "r \<noteq> 46" "r \<noteq> 69" "r \<noteq> 101"
    using assms(2) by (cases rest) (auto simp: follows_def)
  then have r: "\<not> (49 \<le> r \<and> r \<le> 57)" "r \<noteq> 48"
    by (auto simp: is_dig_def word_le_nat_alt)
  have m: "dmul (dmul (Fin (of_int sg)) (Fin (of_int (int n)))) (Fin 1) = Fin (of_int (sg * int n))"
    using dmul_of_int [of sg "int n"] dmul_of_int [of "sg * int n" 1] assms(3) by simp
  show ?thesis
  proof (cases "n = 0")
    case True
    have "dec_nat 0 = [48]" by (simp add: dec_nat.simps)
    with True rest r m assms(4) show ?thesis by (auto simp: number_defs Let_def)
  next
    case False
    then obtain c ds where d: "dec_nat n = c # ds" "49 \<le> c" "c \<le> 57"
      using dec_nat_first by blast
    then have "c \<noteq> 45" "c \<noteq> 48" by (auto simp: word_le_nat_alt)
    moreover have "num_digits (Fin 0) (dec_nat n @ rest) = Ok (Fin (of_int (int n)), rest)"
      using num_digits_value [of "dec_nat n" 0 rest] dec_nat_digits [of _ n] value_of_dec_nat [of n] assms(1,2)
      by simp
    ultimately show ?thesis
      using d rest m assms(4) by (auto simp: number_defs Let_def)
  qed
qed

lemma parse_number_dec_int:
  assumes "INT_MIN \<le> i" "i \<le> INT_MAX" "follows rest"
  shows "parse_number (Item t None 0 (Fin 0) nm []) (dec_int i @ rest) =
    Ok (Item cJSON_Number None i (Fin (of_int i)) nm [], rest)"
proof (cases "i < 0")
  case True
  with assms parse_number_unsigned [of "nat (- i)" rest "- 1" t nm] double_to_int_of_int [of i] show ?thesis
    by (simp add: dec_int_def INT_MIN_def INT_MAX_def)
next
  case False
  with assms parse_number_unsigned [of "nat i" rest 1 t nm] double_to_int_of_int [of i] show ?thesis
    by (simp add: dec_int_def INT_MIN_def INT_MAX_def)
qed

subsection \<open>Parsing what was printed: strings\<close>

lemma unat_small: "k < 256 \<Longrightarrow> unat (of_nat k :: byte) = k"
  by (simp add: unat_of_nat)

lemma unat_hex_char: "k < 16 \<Longrightarrow> unat (hex_char k) = (if k < 10 then 48 + k else 87 + k)"
  unfolding hex_char_def by (subst unat_small) auto

lemma hex_digit_char: "k < 16 \<Longrightarrow> hex_digit (hex_char k) = Some k"
  using unat_hex_char [of k] by (auto simp: word_le_nat_alt)

lemma hex_char_plain: "k < 16 \<Longrightarrow> hex_char k \<notin> {0, 34, 92}"
  using unat_hex_char [of k] by (auto split: if_splits)

lemma parse_hex4_byte:
  "parse_hex4 (48 # 48 # hex_char (unat c div 16) # hex_char (unat c mod 16) # q) = Ok (unat (c :: byte))"
proof -
  have "unat c div 16 < 16" using unat_less_power [OF refl, of c] by simp
  moreover have "hex_digit 48 = Some 0" by simp
  moreover have "(4 :: nat) = Suc (Suc (Suc (Suc 0)))" by simp
  moreover have "unat c div 16 * 16 + unat c mod 16 = unat c" by simp
  ultimately show ?thesis
    by (simp only: parse_hex4_def hex_steps.simps read_p_simps bind_p_simps list.sel option.simps mult_zero_left
        add_0 hex_digit_char mod_less_divisor zero_less_numeral)
qed

text \<open>An escape is read back to the character it stands for.\<close>

lemma parse_escape_escape:
  assumes "escape c \<noteq> [c]" "c \<noteq> 0"
  obtains e p where "escape c = 92 # e" "parse_escape (e @ q) = Ok ([c], p)" "tl p = q"
proof (cases "c \<in> {92, 34, 8, 12, 10, 13, 9}")
  case True
  then have "escape c = 92 # tl (escape c)" "\<exists>p. parse_escape (tl (escape c) @ q) = Ok ([c], p) \<and> tl p = q"
    by (auto simp: escape_def parse_escape_def)
  with that show thesis by blast
next
  case False
  with assms have e: "escape c = [92, 117, 48, 48, hex_char (unat c div 16), hex_char (unat c mod 16)]" "c \<le> 31"
    by (auto simp: escape_def split: if_splits)
  have u: "unat c \<noteq> 0" "unat c < 32" using e(2) assms(2) by (auto simp: word_le_nat_alt unat_eq_0)
  have "parse_escape (tl (escape c) @ q) = Ok ([c], hex_char (unat c mod 16) # q)"
    using u parse_hex4_byte [of c q] by (simp add: e(1) parse_escape_def Let_def utf8_def)
  with that [of "tl (escape c)" "hex_char (unat c mod 16) # q"] e(1) show thesis by simp
qed

lemma escape_plain_byte: "escape c = [c] \<Longrightarrow> c \<noteq> 34 \<and> c \<noteq> 92"
  by (auto simp: escape_def)

lemma scan_len_escape:
  assumes "c \<noteq> 0" "scan_len q = Ok n"
  shows "\<exists>k. scan_len (escape c @ q) = Ok k \<and> n < k"
proof (cases "escape c = [c]")
  case True
  with assms escape_plain_byte [OF True] show ?thesis by simp
next
  case False
  show ?thesis
  proof (cases "c \<in> {92, 34, 8, 12, 10, 13, 9}")
    case True
    with assms(2) show ?thesis by (auto simp: escape_def)
  next
    case in_set: False
    with False assms(1) have "escape c = [92, 117, 48, 48, hex_char (unat c div 16), hex_char (unat c mod 16)]"
      by (auto simp: escape_def split: if_splits)
    moreover have "hex_char (unat c div 16) \<notin> {0, 34, 92}" "hex_char (unat c mod 16) \<notin> {0, 34, 92}"
      using unat_less_power [OF refl, of c] hex_char_plain by simp_all
    ultimately show ?thesis using assms(2) by simp
  qed
qed

lemma scan_len_escapes:
  "0 \<notin> set s \<Longrightarrow> \<exists>n. scan_len (concat (map escape s) @ 34 # rest) = Ok n \<and> length s \<le> n"
proof (induction s)
  case (Cons c s)
  then obtain n where "scan_len (concat (map escape s) @ 34 # rest) = Ok n" "length s \<le> n" by auto
  with Cons.prems scan_len_escape [of c "concat (map escape s) @ 34 # rest" n] show ?case by force
qed simp

lemma write_at_fits: "i + length ws \<le> length out \<Longrightarrow> write_at i ws out = Ok (take i out @ ws @ drop (i + length ws) out)"
  by (simp add: write_at_def)

lemma copy_escape:
  assumes "c \<noteq> 0" "i < length out"
  shows "copy_string (escape c @ q) out i = copy_string q (take i out @ c # drop (Suc i) out) (Suc i)"
proof (cases "escape c = [c]")
  case True
  with assms escape_plain_byte [OF True] show ?thesis by (simp add: write_at_def)
next
  case False
  then obtain e p where "escape c = 92 # e" "parse_escape (e @ q) = Ok ([c], p)" "tl p = q"
    using parse_escape_escape [OF False assms(1), of q] by blast
  with assms(2) show ?thesis by (simp add: write_at_def)
qed

lemma copy_escapes:
  assumes "0 \<notin> set s" "i + length s \<le> length out"
  shows "copy_string (concat (map escape s) @ 34 # rest) out i =
    Ok (34 # rest, take i out @ s @ drop (i + length s) out, i + length s)"
  using assms
proof (induction s arbitrary: out i)
  case (Cons c s)
  have "c \<noteq> 0" "i < length out" using Cons.prems by auto
  with Cons.prems Cons.IH [of "Suc i" "take i out @ c # drop (Suc i) out"]
  show ?case by (simp add: copy_escape min_def) (simp add: add.commute)
qed simp

lemma parse_string_quote:
  assumes "0 \<notin> set s"
  shows "parse_string (\<lambda>_. True) (Item t None 0 (Fin 0) nm []) (quote s @ rest) m =
    Ok (Item cJSON_String (Some s) 0 (Fin 0) nm [], rest, Suc m)"
proof -
  obtain n where n: "scan_len (concat (map escape s) @ 34 # rest) = Ok n" "length s \<le> n"
    using scan_len_escapes [OF assms] by blast
  define out :: "byte list" where "out = replicate (Suc n) 0"
  have out: "length out = Suc n" by (simp add: out_def)
  have "c_string (s @ 0 # r) = s" for r
    using assms by (simp add: c_string_def takeWhile_eq_all_conv [THEN iffD2] takeWhile_append)
  then show ?thesis
    using n out copy_escapes [OF assms, of 0 out rest]
    by (simp add: parse_string_def quote_def cj_malloc_def write_at_def out_def [symmetric] del: replicate.simps)
qed

subsection \<open>Parsing what was printed: values\<close>

lemma skip_white: "(\<And>c. c \<in> set ws \<Longrightarrow> c \<noteq> 0 \<and> c \<le> 32) \<Longrightarrow> skip (ws @ p) = skip p"
  by (induction ws) auto

lemma skip_stop [simp]: "c > 32 \<Longrightarrow> skip (c # cs) = Ok (c # cs)"
  by (auto simp: not_le [symmetric])

lemma skip_tabs [simp]: "skip (tabs k @ p) = skip p"
  by (rule skip_white) (auto simp: tabs_def)

lemma skip_newline [simp]: "skip (10 # p) = skip p" "skip (32 # p) = skip p"
  by simp_all

declare skip.simps [simp del]

text \<open>No rendered item begins with white space, and an array's or object's bracket shows what it is.\<close>

lemma dec_int_first: "\<exists>c ds. dec_int i = c # ds \<and> (c = 45 \<or> is_dig c)"
proof -
  have "\<exists>c ds. dec_nat n = c # ds \<and> is_dig c" for n
    using dec_nat_digits [of _ n] by (cases "dec_nat n") (auto simp: dec_nat.simps [of n] split: if_splits)
  then show ?thesis unfolding dec_int_def by (metis (full_types))
qed

lemma is_dig_gt: "is_dig c \<Longrightarrow> c > 32 \<and> c \<notin> {34, 45, 93, 102, 110, 116, 123, 125, 91, 44}"
  by (auto simp: is_dig_def word_le_nat_alt word_less_nat_alt)

lemma render_first: "canon t \<Longrightarrow> \<exists>c cs. render fmt d t = c # cs \<and> c > 32 \<and> c \<noteq> 93"
proof (induction rule: canon.induct)
  case (canon_number i nm)
  obtain c ds where "dec_int i = c # ds" "c = 45 \<or> is_dig c" using dec_int_first by blast
  with is_dig_gt [of c] show ?case by (auto simp: cj_type_defs)
qed (auto simp: cj_type_defs LIT_defs quote_def empty_object_def)

text \<open>What a parser of values does with a rendered item.\<close>

definition reads :: "value_parser \<Rightarrow> cJSON \<Rightarrow> byte list \<Rightarrow> bool" where
  "reads pv t txt \<longleftrightarrow> (\<forall>ty rest m. follows rest \<longrightarrow>
     (\<exists>m'. pv (Item ty None 0 (Fin 0) (cstring t) []) (txt @ rest) m = Ok (t, rest, m')))"

text \<open>An object ends with its brace, so it is read whatever follows.\<close>

definition closes :: "value_parser \<Rightarrow> cJSON \<Rightarrow> byte list \<Rightarrow> bool" where
  "closes pv t txt \<longleftrightarrow> (\<forall>ty rest m. \<exists>m'. pv (Item ty None 0 (Fin 0) (cstring t) []) (txt @ rest) m = Ok (t, rest, m'))"

lemma closes_reads: "closes pv t txt \<Longrightarrow> reads pv t txt"
  by (simp add: closes_def reads_def)

lemma follows_simps [simp]: "follows (44 # p)" "follows (93 # p)" "follows (125 # p)" "follows (10 # p)" "follows (0 # p)"
  by (simp_all add: follows_def is_dig_def)

abbreviation all_mem :: "nat \<Rightarrow> bool" where
  "all_mem \<equiv> (\<lambda>_. True)"

lemma elems_loop:
  assumes "cs \<noteq> []" "length cs \<le> k" "skip v = skip (commas fmt (map r cs) @ 93 # rest)"
    and "\<And>c. c \<in> set cs \<Longrightarrow> reads pv c (r c) \<and> cstring c = None \<and> (\<exists>b bs. r c = b # bs \<and> b > 32)"
  shows "\<exists>m'. parse_elems k pv all_mem pre v m = Ok (pre @ cs, 93 # rest, m')"
  using assms
proof (induction cs arbitrary: k v pre m)
  case (Cons c cs)
  obtain n where k: "k = Suc n" using Cons.prems(2) by (cases k) auto
  obtain b bs where b: "r c = b # bs" "b > 32" using Cons.prems(4) [of c] by auto
  have item: "zero_item = Item 0 None 0 (Fin 0) (cstring c) []"
    using Cons.prems(4) [of c] by (simp add: zero_item_def)
  have reads: "\<exists>m'. pv zero_item (r c @ p) m = Ok (c, p, m')" if "follows p" for p m
  proof -
    have "reads pv c (r c)" using Cons.prems(4) [of c] by simp
    with that show ?thesis unfolding reads_def item by blast
  qed
  show ?case
  proof (cases cs)
    case Nil
    with b Cons.prems(3) have "skip v = Ok (r c @ 93 # rest)" by simp
    moreover obtain m' where "pv zero_item (r c @ 93 # rest) (Suc m) = Ok (c, 93 # rest, m')"
      using reads [of "93 # rest"] by auto
    ultimately show ?thesis by (simp add: k Nil cj_malloc_def)
  next
    case (Cons c2 cs2)
    define tail where "tail = (if fmt then [32] else []) @ commas fmt (map r cs) @ 93 # rest"
    have "skip v = Ok (r c @ 44 # tail)" using b Cons.prems(3) by (simp add: Cons tail_def)
    moreover obtain m' where "pv zero_item (r c @ 44 # tail) (Suc m) = Ok (c, 44 # tail, m')"
      using reads [of "44 # tail"] by auto
    moreover have "\<exists>m''. parse_elems n pv all_mem (pre @ [c]) tail m' = Ok ((pre @ [c]) @ cs, 93 # rest, m'')" for m'
      using Cons.prems(2,4) by (intro Cons.IH) (auto simp: Cons k tail_def)
    ultimately show ?thesis by (simp add: k cj_malloc_def)
  qed
qed simp

lemma members_loop:
  assumes "cs \<noteq> []" "length cs \<le> k"
    and "skip v = skip (members fmt d (map (\<lambda>c. (quote (the (cstring c)), r c)) cs) @ (if fmt then tabs e else []) @ 125 # rest)"
    and "\<And>c. c \<in> set cs \<Longrightarrow> reads pv c (r c) \<and> (\<exists>s. cstring c = Some s \<and> 0 \<notin> set s) \<and> (\<exists>b bs. r c = b # bs \<and> b > 32)"
  shows "\<exists>m'. parse_members k pv all_mem pre v m = Ok (pre @ cs, 125 # rest, m')"
  using assms
proof (induction cs arbitrary: k v pre m)
  case (Cons c cs)
  let ?q = "\<lambda>c. (quote (the (cstring c)), r c)" and ?close = "(if fmt then tabs e else []) @ 125 # rest"
  obtain n where k: "k = Suc n" using Cons.prems(2) by (cases k) auto
  obtain b bs where b: "r c = b # bs" "b > 32" using Cons.prems(4) [of c] by auto
  obtain s where s: "cstring c = Some s" "0 \<notin> set s" using Cons.prems(4) [of c] by auto
  have reads: "\<exists>m'. pv (Item cJSON_String None 0 (Fin 0) (Some s) []) (r c @ p) m = Ok (c, p, m')"
    if "follows p" for p m
  proof -
    have "reads pv c (r c)" using Cons.prems(4) [of c] by simp
    with that s(1) show ?thesis unfolding reads_def by simp
  qed
  define more where "more = (if cs = [] then [] else [44]) @ (if fmt then [10] else []) @ members fmt d (map ?q cs) @ ?close"
  have v: "skip v = Ok (quote s @ 58 # (if fmt then [9] else []) @ r c @ more)"
    using Cons.prems(3) s(1) by (simp add: more_def quote_def)
  have str: "parse_string all_mem zero_item (quote s @ p) m = Ok (Item cJSON_String (Some s) 0 (Fin 0) None [], p, Suc m)"
    for p m
    using parse_string_quote [OF s(2), of 0 None p m] by (simp add: zero_item_def)
  have val: "skip ((if fmt then [9] else []) @ r c @ more) = Ok (r c @ more)"
    using b skip_tabs [of 1 "r c @ more"] by (simp add: tabs_def)
  have fol: "follows more" by (cases cs; cases fmt) (simp_all add: more_def)
  show ?case
  proof (cases cs)
    case Nil
    have stop: "skip more = Ok (125 # rest)" by (simp add: more_def Nil)
    obtain m' where "pv (Item cJSON_String None 0 (Fin 0) (Some s) []) (r c @ more) (Suc (Suc m)) = Ok (c, more, m')"
      using reads [OF fol] by blast
    with v val stop show ?thesis by (simp add: k Nil cj_malloc_def str name_item_def)
  next
    case (Cons c2 cs2)
    define tail where "tail = (if fmt then [10] else []) @ members fmt d (map ?q cs) @ ?close"
    have more: "more = 44 # tail" by (simp add: more_def tail_def Cons)
    obtain m' where "pv (Item cJSON_String None 0 (Fin 0) (Some s) []) (r c @ more) (Suc (Suc m)) = Ok (c, more, m')"
      using reads [OF fol] by blast
    moreover have "\<exists>m''. parse_members n pv all_mem (pre @ [c]) tail m' = Ok ((pre @ [c]) @ cs, 125 # rest, m'')" for m'
      using Cons.prems(2,4) by (intro Cons.IH) (auto simp: Cons k tail_def)
    ultimately show ?thesis using v val by (simp add: k cj_malloc_def str name_item_def more)
  qed
qed simp

lemma length_commas_elem: "e \<in> set es \<Longrightarrow> length e \<le> length (commas fmt es)"
  by (induction fmt es rule: commas.induct) auto

lemma length_commas_count: "(\<And>e. e \<in> set es \<Longrightarrow> e \<noteq> []) \<Longrightarrow> length es \<le> length (commas fmt es)"
proof (induction fmt es rule: commas.induct)
  case (2 fmt e)
  then show ?case by (cases e) auto
next
  case (3 fmt e e2 es)
  then show ?case by (cases e) auto
qed simp

lemma length_members_elem: "(n, e) \<in> set es \<Longrightarrow> length e \<le> length (members fmt d es)"
  by (induction fmt d es rule: members.induct) auto

lemma length_members_count: "length es \<le> length (members fmt d es)"
  by (induction fmt d es rule: members.induct) auto

lemma reads_array:
  assumes "\<And>c. c \<in> set cs \<Longrightarrow> canon c" "\<And>c. c \<in> set cs \<Longrightarrow> cstring c = None"
    and "\<And>c. c \<in> set cs \<Longrightarrow> reads pv c (render fmt (Suc d) c)" "length cs \<le> n"
  shows "reads (parse_array n pv all_mem) (Item cJSON_Array None 0 (Fin 0) nm cs)
    ([91] @ commas fmt (map (render fmt (Suc d)) cs) @ [93])"
proof (cases cs)
  case Nil
  then show ?thesis by (simp add: reads_def parse_array_def set_type_def)
next
  case (Cons c2 cs2)
  let ?txt = "commas fmt (map (render fmt (Suc d)) cs)"
  have first: "\<exists>b bs. render fmt (Suc d) c = b # bs \<and> b > 32 \<and> b \<noteq> 93" if "c \<in> set cs" for c
    using render_first assms(1) that by blast
  show ?thesis
    unfolding reads_def
  proof (intro allI impI)
    fix ty rest m
    obtain b bs where b: "?txt @ 93 # rest = b # bs" "b > 32" "b \<noteq> 93"
      using first [of c2] by (cases cs2) (auto simp: Cons)
    obtain m' where "parse_elems n pv all_mem [] (b # bs) m = Ok (cs, 93 # rest, m')"
      using elems_loop [of cs n "b # bs" fmt "render fmt (Suc d)" rest pv "[]" m] assms(2-4) first Cons b(1)
      by fastforce
    then show "\<exists>m'. parse_array n pv all_mem (Item ty None 0 (Fin 0) (cstring (Item cJSON_Array None 0 (Fin 0) nm cs)) [])
        (([91] @ ?txt @ [93]) @ rest) m = Ok (Item cJSON_Array None 0 (Fin 0) nm cs, rest, m')"
      using b by (simp add: parse_array_def)
  qed
qed

lemma closes_object:
  assumes "\<And>c. c \<in> set cs \<Longrightarrow> canon c" "\<And>c. c \<in> set cs \<Longrightarrow> \<exists>s. cstring c = Some s \<and> 0 \<notin> set s"
    and "\<And>c. c \<in> set cs \<Longrightarrow> reads pv c (render fmt (Suc d) c)" "length cs \<le> n" "cs \<noteq> []"
  shows "closes (parse_object n pv all_mem) (Item cJSON_Object None 0 (Fin 0) nm cs)
    ([123] @ (if fmt then [10] else []) @
        members fmt (Suc d) (map (\<lambda>c. (quote (the (cstring c)), render fmt (Suc d) c)) cs) @
        (if fmt then tabs d else []) @ [125])"
  unfolding closes_def
proof (intro allI)
  fix ty rest m
  let ?q = "\<lambda>c. (quote (the (cstring c)), render fmt (Suc d) c)"
  let ?txt = "members fmt (Suc d) (map ?q cs) @ (if fmt then tabs d else []) @ 125 # rest"
  obtain c2 cs2 where cs: "cs = c2 # cs2" using assms(5) by (cases cs) auto
  have "\<exists>bs. skip ?txt = Ok (34 # bs)" by (cases fmt) (simp_all add: cs quote_def)
  then obtain bs where b: "skip ?txt = Ok (34 # bs)" by blast
  have "skip (34 # bs) = skip ?txt" using b by simp
  then obtain m' where "parse_members n pv all_mem [] (34 # bs) m = Ok (cs, 125 # rest, m')"
    using members_loop [of cs n "34 # bs" fmt "Suc d" "render fmt (Suc d)" d rest pv "[]" m] assms render_first
    by (metis append_Nil)
  then show "\<exists>m'. parse_object n pv all_mem (Item ty None 0 (Fin 0) (cstring (Item cJSON_Object None 0 (Fin 0) nm cs)) [])
      (([123] @ (if fmt then [10] else []) @ members fmt (Suc d) (map ?q cs) @ (if fmt then tabs d else []) @ [125]) @ rest) m
      = Ok (Item cJSON_Object None 0 (Fin 0) nm cs, rest, m')"
    using b by (cases fmt) (simp_all add: parse_object_def)
qed

lemma strncmp_neq [simp]: "l \<noteq> c \<Longrightarrow> strncmp_eq (c # cs) (l # ls) = Ok False"
  by auto

lemma reads_value_bracket:
  assumes "reads (parse_array n (parse_value n all_mem) all_mem) t (91 # txt)"
  shows "reads (parse_value (Suc n) all_mem) t (91 # txt)"
  using assms by (simp add: reads_def LIT_defs is_dig_def)

lemma closes_value_brace:
  assumes "closes (parse_object n (parse_value n all_mem) all_mem) t (123 # txt)"
  shows "closes (parse_value (Suc n) all_mem) t (123 # txt)"
  using assms by (simp add: closes_def LIT_defs is_dig_def)

lemma closes_object_value:
  assumes "\<And>c. c \<in> set cs \<Longrightarrow> canon c" "\<And>c. c \<in> set cs \<Longrightarrow> \<exists>s. cstring c = Some s \<and> 0 \<notin> set s"
    and "\<And>c. c \<in> set cs \<Longrightarrow> length (render fmt (Suc d) c) < k \<Longrightarrow> reads (parse_value k all_mem) c (render fmt (Suc d) c)"
    and "cs \<noteq> []" "length (render fmt d (Item cJSON_Object None 0 (Fin 0) nm cs)) < Suc k"
  shows "closes (parse_value (Suc k) all_mem) (Item cJSON_Object None 0 (Fin 0) nm cs)
    (render fmt d (Item cJSON_Object None 0 (Fin 0) nm cs))"
proof -
  let ?q = "\<lambda>c. (quote (the (cstring c)), render fmt (Suc d) c)"
  have len: "length (members fmt (Suc d) (map ?q cs)) < k"
    using assms(4,5) by (simp add: cj_type_defs)
  have "reads (parse_value k all_mem) c (render fmt (Suc d) c)" if "c \<in> set cs" for c
    using assms(3) [OF that] len that
      length_members_elem [of "quote (the (cstring c))" "render fmt (Suc d) c" "map ?q cs" fmt "Suc d"]
    by force
  moreover have "length cs \<le> k" using length_members_count [of "map ?q cs" fmt "Suc d"] len by simp
  ultimately show ?thesis
    using closes_object [of cs "parse_value k all_mem" fmt d k nm] assms closes_value_brace
    by (simp add: cj_type_defs del: parse_value.simps)
qed

lemma reads_number:
  assumes "INT_MIN \<le> i" "i \<le> INT_MAX"
  shows "reads (parse_value (Suc n) all_mem) (Item cJSON_Number None i (Fin (of_int i)) nm []) (dec_int i)"
proof -
  obtain c ds where c: "dec_int i = c # ds" "c = 45 \<or> is_dig c" using dec_int_first by blast
  with is_dig_gt [of c] have "c \<noteq> 34" "c \<noteq> 110" "c \<noteq> 102" "c \<noteq> 116" by auto
  with c parse_number_dec_int [OF assms] show ?thesis
    by (auto simp: reads_def LIT_defs)
qed

lemma parse_render:
  "canon t \<Longrightarrow> length (render fmt d t) < n \<Longrightarrow> reads (parse_value n all_mem) t (render fmt d t)"
proof (induction arbitrary: n d rule: canon.induct)
  case (canon_number i nm)
  then show ?case using reads_number [of i "n - 1" nm] by (cases n) (simp_all add: cj_type_defs)
next
  case (canon_string s nm)
  then obtain k where "n = Suc k" by (cases n) auto
  with canon_string parse_string_quote [OF canon_string(1)] show ?case
    by (simp add: reads_def cj_type_defs LIT_defs quote_def is_dig_def)
next
  case (canon_array cs nm)
  then obtain k where k: "n = Suc k" by (cases n) auto
  have len: "length (commas fmt (map (render fmt (Suc d)) cs)) < k"
    using canon_array.prems by (simp add: k cj_type_defs)
  have "reads (parse_value k all_mem) c (render fmt (Suc d) c)" if "c \<in> set cs" for c
    using canon_array.IH [OF that, of "Suc d" k] len that
      length_commas_elem [of "render fmt (Suc d) c" "map (render fmt (Suc d)) cs" fmt]
    by simp
  moreover have "render fmt (Suc d) c \<noteq> []" if "c \<in> set cs" for c
    using render_first [OF canon_array.hyps(1) [OF that], of fmt "Suc d"] by auto
  then have "length cs \<le> k"
    using length_commas_count [of "map (render fmt (Suc d)) cs" fmt] len by force
  ultimately show ?case
    using reads_array [of cs "parse_value k all_mem" fmt d k nm] canon_array.hyps reads_value_bracket
    by (simp add: k cj_type_defs del: parse_value.simps)
next
  case (canon_object cs nm)
  then obtain k where k: "n = Suc k" by (cases n) auto
  show ?case
  proof (cases "cs = []")
    case True
    then show ?thesis
      by (auto simp: k reads_def cj_type_defs empty_object_def LIT_defs is_dig_def parse_object_def set_type_def)
  next
    case False
    show ?thesis
      unfolding k
      by (rule closes_reads, rule closes_object_value) (use canon_object False k in auto)
  qed
next
  case (canon_null nm)
  then obtain k where "n = Suc k" by (cases n) auto
  then show ?case by (simp add: reads_def cj_type_defs LIT_defs set_type_def)
next
  case (canon_false nm)
  then obtain k where "n = Suc k" by (cases n) auto
  then show ?case by (simp add: reads_def cj_type_defs LIT_defs set_type_def)
next
  case (canon_true nm)
  then obtain k where "n = Suc k" by (cases n) auto
  then show ?case by (simp add: reads_def cj_type_defs LIT_defs)
qed

subsection \<open>The properties of the printer and the round trip\<close>

lemma print_value_render: "canon t \<Longrightarrow> \<exists>m. print_value all_mem fmt 0 t 0 = Some (Some (render fmt 0 t), m)"
  using print_yields [of t all_mem fmt 0 0] by (auto simp: yields_def)

lemma skip_zero: "skip (0 # junk) = Ok (0 # junk)"
  by (simp add: skip.simps)

lemma parse_printed:
  assumes "canon t" "cstring t = None"
  shows "cJSON_ParseWithOpts all_mem (render fmt 0 t @ 0 # junk) strict = Ok (t, 0 # junk)"
proof -
  have "reads (parse_value (length (render fmt 0 t @ 0 # junk) + 1) all_mem) t (render fmt 0 t)"
    using assms(1) by (intro parse_render) auto
  moreover have "zero_item = Item 0 None 0 (Fin 0) (cstring t) []" by (simp add: zero_item_def assms(2))
  ultimately obtain m' where "parse_value (length (render fmt 0 t @ 0 # junk) + 1) all_mem zero_item
      (render fmt 0 t @ 0 # junk) 1 = Ok (t, 0 # junk, m')"
    unfolding reads_def using follows_simps(5) by metis
  moreover have "skip (render fmt 0 t @ 0 # junk) = Ok (render fmt 0 t @ 0 # junk)"
    using render_first [OF assms(1), of fmt 0] by (auto simp: skip.simps)
  ultimately show ?thesis
    by (simp add: cJSON_ParseWithOpts_def cj_malloc_def skip_zero del: parse_value.simps)
qed

text \<open>An object with members is read back whatever follows its text, a terminator or not.\<close>

lemma parse_printed_object:
  assumes "\<And>c. c \<in> set cs \<Longrightarrow> canon c" "\<And>c. c \<in> set cs \<Longrightarrow> \<exists>s. cstring c = Some s \<and> 0 \<notin> set s" "cs \<noteq> []"
  shows "cJSON_Parse all_mem (render fmt 0 (Item cJSON_Object None 0 (Fin 0) None cs) @ junk) =
    Ok (Item cJSON_Object None 0 (Fin 0) None cs)" (is "cJSON_Parse _ (render _ _ ?t @ _) = _")
proof -
  have canon: "canon ?t" using assms(1,2) by (rule canon_object)
  have "closes (parse_value (Suc (length (render fmt 0 ?t @ junk))) all_mem) ?t (render fmt 0 ?t)"
    using assms by (intro closes_object_value parse_render) auto
  then obtain m' where "parse_value (length (render fmt 0 ?t @ junk) + 1) all_mem zero_item (render fmt 0 ?t @ junk) 1
      = Ok (?t, junk, m')"
    unfolding closes_def zero_item_def by (metis Suc_eq_plus1 cJSON.sel(5))
  moreover have "skip (render fmt 0 ?t @ junk) = Ok (render fmt 0 ?t @ junk)"
    using render_first [OF canon, of fmt 0] by (auto simp: skip.simps simp del: render.simps)
  ultimately show ?thesis
    by (simp add: cJSON_Parse_def cJSON_ParseWithOpts_def cj_malloc_def del: parse_value.simps render.simps)
qed



text \<open>The item \<open>{"a": [-7, "\n"], "b": null}\<close>.\<close>

definition sample_item :: cJSON where
  "sample_item = Item cJSON_Object None 0 (Fin 0) None
     [Item cJSON_Array None 0 (Fin 0) (Some [97])
        [Item cJSON_Number None (- 7) (Fin (of_int (- 7))) None [], Item cJSON_String (Some [10]) 0 (Fin 0) None []],
      Item cJSON_NULL None 0 (Fin 0) (Some [98]) []]"

lemma canon_sample: "canon sample_item" "cstring sample_item = None"
proof -
  have "canon (Item cJSON_Number None (- 7) (Fin (- 7)) None [])"
    using canon_number [of "- 7" None] by (simp add: INT_MIN_def INT_MAX_def)
  then show "canon sample_item"
    unfolding sample_item_def
    by (intro canon_object canon_array) (auto intro!: canon.intros)
qed (simp add: sample_item_def)



end
