(* ===== verification/CjsonMinify.thy ===== *)
theory CjsonMinify
  imports CjsonTrip
begin

text \<open>
  \<open>cJSON_Minify\<close>: it works in place, but the write pointer never overtakes the read pointer, so the
  text it leaves is what it copies. Reading past the end of the text is a fault.
\<close>

subsection \<open>The loops\<close>

text \<open>A comment to the end of the line; the bytes are newline 10, star 42, slash 47.\<close>

fun skip_line :: "byte list \<Rightarrow> byte list pres" where
  "skip_line [] = Fault"
| "skip_line (c # cs) = (if c \<noteq> 0 \<and> c \<noteq> 10 then skip_line cs else Ok (c # cs))"

text \<open>The inside of a comment; behind it two bytes are skipped, whether the comment is closed or not.\<close>

fun skip_comment :: "byte list \<Rightarrow> byte list pres" where
  "skip_comment [] = Fault"
| "skip_comment (c # cs) = (if c = 0 then Ok (c # cs)
     else if c = 42 then bind_p (read_p cs) (\<lambda>d. if d = 47 then Ok (c # cs) else skip_comment cs)
     else skip_comment cs)"

text \<open>A string behind its opening quote, up to and with the closing quote (or the terminator).\<close>

fun copy_literal :: "byte list \<Rightarrow> (byte list \<times> byte list) pres" where
  "copy_literal [] = Fault"
| "copy_literal (c # cs) = (if c = 0 \<or> c = 34 then Ok ([c], cs)
     else if c = 92 then (case cs of [] \<Rightarrow> Fault
       | d # ds \<Rightarrow> bind_p (copy_literal ds) (\<lambda>(out, rest). Ok (c # d # out, rest)))
     else bind_p (copy_literal cs) (\<lambda>(out, rest). Ok (c # out, rest)))"

lemma skip_line_length: "skip_line p = Ok q \<Longrightarrow> length q \<le> length p"
  by (induction p) (auto split: if_splits)

lemma skip_comment_length: "skip_comment p = Ok q \<Longrightarrow> length q \<le> length p"
proof (induction p rule: skip_comment.induct)
  case (2 c cs)
  then show ?case by (cases cs) (auto split: if_splits)
qed simp

lemma copy_literal_length: "copy_literal p = Ok (out, q) \<Longrightarrow> length q < length p"
proof (induction p arbitrary: out q rule: copy_literal.induct)
  case (2 c cs)
  then show ?case
    by (cases cs) (fastforce simp: bind_p_def split: if_splits pres.splits prod.splits)+
qed simp

function cJSON_Minify :: "byte list \<Rightarrow> byte list pres" where
  "cJSON_Minify [] = Fault"
| "cJSON_Minify (c # cs) =
     (if c = 0 then Ok []
      else if c = 32 \<or> c = 9 \<or> c = 13 \<or> c = 10 then cJSON_Minify cs
      else bind_p (if c = 47 then read_p cs else Ok 0) (\<lambda>d.
        if d = 47 then bind_p (skip_line (c # cs)) cJSON_Minify
        else if d = 42 then bind_p (skip_comment (c # cs)) (\<lambda>p. cJSON_Minify (drop 2 p))
        else if c = 34 then bind_p (copy_literal cs) (\<lambda>(out, rest).
          bind_p (cJSON_Minify rest) (\<lambda>more. Ok (c # out @ more)))
        else bind_p (cJSON_Minify cs) (\<lambda>more. Ok (c # more))))"
  by pat_completeness auto

termination
proof (relation "measure length")
  fix c d :: byte and cs p :: "byte list"
  assume r: "(if c = 47 then read_p cs else Ok 0) = Ok d"
  show "(p, c # cs) \<in> measure length" if "d = 47" "skip_line (c # cs) = Ok p"
    using that r skip_line_length [of cs p] by (auto split: if_splits)
  show "(drop 2 p, c # cs) \<in> measure length" if "d = 42" "skip_comment (c # cs) = Ok p"
    using that r skip_comment_length [of cs p] by (auto split: if_splits)
next
  fix c d :: byte and cs out rest :: "byte list" and x
  assume "copy_literal cs = Ok x" "(out, rest) = x"
  then show "(rest, c # cs) \<in> measure length"
    using copy_literal_length [of cs out rest] by auto
qed auto

subsection \<open>Minifying what was printed\<close>

text \<open>\<open>a\<close> is turned into \<open>b\<close> wherever it stands.\<close>

definition minifies :: "byte list \<Rightarrow> byte list \<Rightarrow> bool" where
  "minifies a b \<longleftrightarrow> (\<forall>rest. cJSON_Minify (a @ rest) = bind_p (cJSON_Minify rest) (\<lambda>more. Ok (b @ more)))"

lemma bind_p_Ok [simp]: "bind_p r Ok = r"
  by (cases r) auto

lemma bind_p_assoc: "bind_p (bind_p r f) g = bind_p r (\<lambda>x. bind_p (f x) g)"
  by (cases r) auto

lemma minifies_nil: "minifies [] []"
  by (simp add: minifies_def)

lemma minifies_append: "minifies a b \<Longrightarrow> minifies a' b' \<Longrightarrow> minifies (a @ a') (b @ b')"
  by (simp add: minifies_def bind_p_assoc)

lemma minifies_blank: "c \<in> {32, 9, 13, 10} \<Longrightarrow> minifies [c] []"
  by (auto simp: minifies_def)

lemma minifies_plain: "c \<notin> {0, 32, 9, 13, 10, 47, 34} \<Longrightarrow> minifies [c] [c]"
  by (simp add: minifies_def)

lemma minifies_plains: "set cs \<inter> {0, 32, 9, 13, 10, 47, 34} = {} \<Longrightarrow> minifies cs cs"
proof (induction cs)
  case (Cons c cs)
  then have "minifies ([c] @ cs) ([c] @ cs)" by (intro minifies_append minifies_plain) auto
  then show ?case by simp
qed (rule minifies_nil)

lemma minifies_blanks: "set cs \<subseteq> {32, 9, 13, 10} \<Longrightarrow> minifies cs []"
proof (induction cs)
  case (Cons c cs)
  then have "minifies ([c] @ cs) ([] @ [])" by (intro minifies_append minifies_blank) auto
  then show ?case by simp
qed (rule minifies_nil)

lemma copy_literal_plain: "c \<notin> {0, 34, 92} \<Longrightarrow> copy_literal (c # p) = bind_p (copy_literal p) (\<lambda>(out, rest). Ok (c # out, rest))"
  by simp

lemma hex_char_no_quote: "n < 16 \<Longrightarrow> hex_char n \<notin> {0, 34, 92}"
proof -
  assume "n < 16"
  then have "unat (hex_char n) = (if n < 10 then 48 + n else 87 + n)"
    by (simp add: hex_char_def unat_of_nat)
  then show ?thesis using \<open>n < 16\<close> by (auto split: if_splits)
qed

lemma copy_literal_escape:
  assumes "c \<noteq> 0" "copy_literal p = Ok (out, rest)"
  shows "copy_literal (escape c @ p) = Ok (escape c @ out, rest)"
proof -
  have c: "unat c < 256" using unat_less_power [OF refl, of c] by simp
  then have "unat c div 16 < 16" by (simp add: less_mult_imp_div_less)
  then have h: "hex_char (unat c div 16) \<notin> {0, 34, 92}" "hex_char (unat c mod 16) \<notin> {0, 34, 92}"
    using hex_char_no_quote [of "unat c div 16"] hex_char_no_quote [of "unat c mod 16"] by simp_all
  show ?thesis using assms h by (simp add: escape_def)
qed

lemma copy_literal_escapes: "0 \<notin> set s \<Longrightarrow> copy_literal (concat (map escape s) @ 34 # rest) = Ok (concat (map escape s) @ [34], rest)"
proof (induction s)
  case (Cons c s)
  then show ?case using copy_literal_escape [of c "concat (map escape s) @ 34 # rest"] by simp
qed simp

lemma minifies_quote: "0 \<notin> set s \<Longrightarrow> minifies (quote s) (quote s)"
  using copy_literal_escapes [of s] by (simp add: minifies_def quote_def)

lemma minifies_commas:
  "list_all2 minifies es fs \<Longrightarrow> minifies (commas True es) (commas False fs)"
proof (induction True es arbitrary: fs rule: commas.induct)
  case 1
  then show ?case by (simp add: minifies_nil)
next
  case (2 e)
  then show ?case by (auto simp: list_all2_Cons1)
next
  case (3 e e2 es)
  then obtain f f2 fs' where fs: "fs = f # f2 # fs'" "minifies e f" "list_all2 minifies (e2 # es) (f2 # fs')"
    by (auto simp: list_all2_Cons1)
  have "minifies (e @ [44] @ [32] @ commas True (e2 # es)) (f @ [44] @ [] @ commas False (f2 # fs'))"
    by (intro minifies_append minifies_plain minifies_blank fs(2) 3(1) fs(3)) auto
  then show ?case by (simp add: fs(1))
qed

lemma minifies_tabs: "minifies (tabs d) []"
  by (rule minifies_blanks) (auto simp: tabs_def)

lemma minifies_members:
  "list_all2 (\<lambda>(n, e) (n', e'). minifies n n' \<and> minifies e e') es fs \<Longrightarrow>
   minifies (members True d es) (members False d' fs)"
proof (induction es arbitrary: fs)
  case Nil
  then show ?case by (simp add: minifies_nil)
next
  case (Cons ne es)
  obtain n e where ne: "ne = (n, e)" by (cases ne)
  from Cons.prems obtain n' e' fs' where fs: "fs = (n', e') # fs'" "minifies n n'" "minifies e e'"
    "list_all2 (\<lambda>(n, e) (n', e'). minifies n n' \<and> minifies e e') es fs'"
    by (auto simp: list_all2_Cons1 ne)
  have eq: "es = [] \<longleftrightarrow> fs' = []" using fs(4) by auto
  have comma: "minifies (if es = [] then [] else [44]) (if fs' = [] then [] else [44])"
    using eq by (auto intro!: minifies_nil minifies_plain)
  have "minifies (tabs d @ n @ [58] @ [9] @ e @ (if es = [] then [] else [44]) @ [10] @ members True d es)
      ([] @ n' @ [58] @ [] @ e' @ (if fs' = [] then [] else [44]) @ [] @ members False d' fs')"
    by (intro minifies_append minifies_tabs minifies_plain minifies_blank comma fs(2,3) Cons.IH fs(4)) auto
  then show ?case by (simp add: ne fs(1))
qed

lemma minifies_dec_int: "minifies (dec_int i) (dec_int i)"
proof (rule minifies_plains)
  have "c \<notin> {0, 32, 9, 13, 10, 47, 34}" if "is_dig c" for c
    using that by (auto simp: is_dig_def)
  then show "set (dec_int i) \<inter> {0, 32, 9, 13, 10, 47, 34} = {}"
    using dec_nat_digits by (auto simp: dec_int_def)
qed

lemma minifies_literal:
  "minifies LIT_null LIT_null" "minifies LIT_false LIT_false" "minifies LIT_true LIT_true"
  by (auto simp: LIT_defs intro!: minifies_plains)

lemma minifies_render: "canon t \<Longrightarrow> minifies (render True d t) (render False d' t)"
proof (induction arbitrary: d d' rule: canon.induct)
  case (canon_array cs nm)
  have "minifies ([91] @ commas True (map (render True (d + 1)) cs) @ [93])
      ([91] @ commas False (map (render False (d' + 1)) cs) @ [93])"
    using canon_array by (intro minifies_append minifies_commas minifies_plain) (auto simp: list_all2_conv_all_nth)
  then show ?case by (simp add: cj_type_defs)
next
  case (canon_object cs nm)
  show ?case
  proof (cases "cs = []")
    case True
    have "minifies ([123] @ [10] @ tabs (d - 1) @ [125]) ([123] @ [] @ [] @ [125])"
      by (intro minifies_append minifies_tabs minifies_plain minifies_blank) auto
    with True show ?thesis by (simp add: cj_type_defs empty_object_def)
  next
    case False
    let ?q = "\<lambda>fmt d c. (quote (the (cstring c)), render fmt d c)"
    have q: "minifies (quote (the (cstring c))) (quote (the (cstring c)))" if "c \<in> set cs" for c
      using canon_object.hyps(2) [OF that] minifies_quote by auto
    have "list_all2 (\<lambda>(n, e) (n', e'). minifies n n' \<and> minifies e e')
        (map (?q True (d + 1)) cs) (map (?q False (d' + 1)) cs)"
      unfolding list_all2_map1 list_all2_map2 by (rule list_all2_same [THEN iffD2]) (simp add: q canon_object.IH)
    then have "minifies ([123] @ [10] @ members True (d + 1) (map (?q True (d + 1)) cs) @ tabs d @ [125])
        ([123] @ [] @ members False (d' + 1) (map (?q False (d' + 1)) cs) @ [] @ [125])"
      by (intro minifies_append minifies_members minifies_tabs minifies_plain minifies_blank) simp_all
    with False show ?thesis by (simp add: cj_type_defs)
  qed
qed (simp_all add: cj_type_defs minifies_dec_int minifies_quote minifies_literal)



text \<open>An unterminated string or comment makes \<open>cJSON_Minify\<close> run past the end of the text: of the
  closing quote or the closing \<open>*/\<close> it skips the terminator.\<close>

lemma cjson_minify_overruns:
  assumes "set s \<inter> {0, 34, 92} = {}"
  shows "cJSON_Minify (34 # s @ [0]) = Fault" "cJSON_Minify [47, 42, 0] = Fault"
proof -
  have "copy_literal (s @ [0]) = Ok (s @ [0], [])"
    using assms by (induction s) auto
  then show "cJSON_Minify (34 # s @ [0]) = Fault" by simp
qed simp

end
