(* ===== verification/CjsonBuffer.thy ===== *)
theory CjsonBuffer
  imports CjsonTrip
begin

text \<open>
  The other printer of \<open>cJSON.c\<close>, \<open>cJSON_PrintBuffered\<close>: one block that grows when it is too small and in
  which every part of the text is written behind the one before. It gives the same text as the printer that
  joins blocks. The bytes of a new block are unknown (\<open>None\<close>); to read one, or to access a byte outside the
  block, is a fault. An \<open>int\<close> that overflows wraps around as compiled code does.
\<close>

subsection \<open>The buffer\<close>

record printbuffer =
  pb_buffer :: "byte option list option"
  pb_length :: int
  pb_offset :: int

definition wrap_int :: "int \<Rightarrow> int" where
  "wrap_int x = signed_take_bit 31 x"

definition pow2gt :: "int \<Rightarrow> int" where
  "pow2gt x = (let x = wrap_int (x - 1); x = or x (drop_bit 1 x); x = or x (drop_bit 2 x); x = or x (drop_bit 4 x);
     x = or x (drop_bit 8 x); x = or x (drop_bit 16 x) in wrap_int (x + 1))"

text \<open>
  The result of a call is \<open>None\<close> for a fault, otherwise what it returns, the buffer and the number of allocations
  so far. A negative size is one of more than \<open>2 ^ 63\<close> bytes for \<open>cJSON_malloc\<close>, which nobody has.
\<close>

type_synonym 'a bres = "('a \<times> printbuffer \<times> nat) option"

definition ensure :: "(nat \<Rightarrow> bool) \<Rightarrow> int \<Rightarrow> printbuffer \<Rightarrow> nat \<Rightarrow> int option bres" where
  "ensure mem needed p m = (case pb_buffer p of None \<Rightarrow> Some (None, p, m)
     | Some b \<Rightarrow> let needed = wrap_int (needed + pb_offset p) in
       if needed \<le> pb_length p then Some (Some (pb_offset p), p, m)
       else let newsize = pow2gt needed in
         if newsize < 0 \<or> \<not> mem m then Some (None, p\<lparr>pb_buffer := None, pb_length := 0\<rparr>, Suc m)
         else if nat (pb_length p) \<le> length b \<and> pb_length p \<le> newsize
         then Some (Some (pb_offset p), p\<lparr>pb_buffer := Some (take (nat (pb_length p)) b @ replicate (nat newsize - nat (pb_length p)) None),
           pb_length := newsize\<rparr>, Suc m)
         else None)"

fun strlen_at :: "byte option list \<Rightarrow> int option" where
  "strlen_at [] = None"
| "strlen_at (None # bs) = None"
| "strlen_at (Some c # bs) = (if c = 0 then Some 0 else map_option (\<lambda>n. n + 1) (strlen_at bs))"

definition update :: "printbuffer \<Rightarrow> int option" where
  "update p = (case pb_buffer p of None \<Rightarrow> Some 0
     | Some b \<Rightarrow> if pb_offset p < 0 then None
       else map_option (\<lambda>n. wrap_int (pb_offset p + n)) (strlen_at (drop (nat (pb_offset p)) b)))"

text \<open>The bytes \<open>bs\<close> stored from offset \<open>off\<close> on.\<close>

definition pb_store :: "int \<Rightarrow> byte list \<Rightarrow> printbuffer \<Rightarrow> printbuffer option" where
  "pb_store off bs p = (case pb_buffer p of None \<Rightarrow> None
     | Some b \<Rightarrow> if 0 \<le> off \<and> nat off + length bs \<le> length b
       then Some (p\<lparr>pb_buffer := Some (take (nat off) b @ map Some bs @ drop (nat off + length bs) b)\<rparr>) else None)"

definition pb_advance :: "int \<Rightarrow> printbuffer \<Rightarrow> printbuffer" where
  "pb_advance n p = p\<lparr>pb_offset := wrap_int (pb_offset p + n)\<rparr>"

text \<open>\<open>ensure\<close>, and the bytes stored where it points to; the result is that pointer.\<close>

definition pb_put :: "(nat \<Rightarrow> bool) \<Rightarrow> int \<Rightarrow> byte list \<Rightarrow> printbuffer \<Rightarrow> nat \<Rightarrow> int option bres" where
  "pb_put mem needed bs p m = Option.bind (ensure mem needed p m) (\<lambda>(ptr, p, m). case ptr of None \<Rightarrow> Some (None, p, m)
     | Some off \<Rightarrow> map_option (\<lambda>p. (Some off, p, m)) (pb_store off bs p))"

text \<open>The same, then \<open>k\<close>; a \<open>NULL\<close> from \<open>ensure\<close> ends the caller, which returns \<open>NULL\<close>.\<close>

definition pb_then :: "(nat \<Rightarrow> bool) \<Rightarrow> int \<Rightarrow> byte list \<Rightarrow> printbuffer \<Rightarrow> nat \<Rightarrow> (printbuffer \<Rightarrow> nat \<Rightarrow> 'a option bres) \<Rightarrow> 'a option bres" where
  "pb_then mem needed bs p m k = Option.bind (pb_put mem needed bs p m) (\<lambda>(ptr, p, m). if ptr = None then Some (None, p, m) else k p m)"

text \<open>\<open>p->offset = update(p)\<close>, then \<open>k\<close>.\<close>

definition pb_update :: "printbuffer \<Rightarrow> (printbuffer \<Rightarrow> 'a bres) \<Rightarrow> 'a bres" where
  "pb_update p k = Option.bind (update p) (\<lambda>off. k (p\<lparr>pb_offset := off\<rparr>))"

subsection \<open>Printing\<close>

definition pb_text :: "(nat \<Rightarrow> bool) \<Rightarrow> nat \<times> byte list \<Rightarrow> printbuffer \<Rightarrow> nat \<Rightarrow> int option bres" where
  "pb_text mem txt p m = pb_put mem (int (fst txt)) (snd txt @ [0]) p m"

definition bprint_string_ptr :: "(nat \<Rightarrow> bool) \<Rightarrow> byte list option \<Rightarrow> printbuffer \<Rightarrow> nat \<Rightarrow> int option bres" where
  "bprint_string_ptr mem str p m = (case str of None \<Rightarrow> None | Some s \<Rightarrow> pb_text mem (string_text s) p m)"

text \<open>
  The loops of \<open>print_array\<close> and \<open>print_object\<close> return \<open>NULL\<close> or go on behind the loop, for which their result is
  \<open>Some 0\<close>. \<open>depth\<close> is that of the children.
\<close>

fun bprint_value :: "(nat \<Rightarrow> bool) \<Rightarrow> bool \<Rightarrow> nat \<Rightarrow> cJSON \<Rightarrow> printbuffer \<Rightarrow> nat \<Rightarrow> int option bres"
  and bprint_elems :: "(nat \<Rightarrow> bool) \<Rightarrow> bool \<Rightarrow> nat \<Rightarrow> cJSON list \<Rightarrow> printbuffer \<Rightarrow> nat \<Rightarrow> int option bres"
  and bprint_members :: "(nat \<Rightarrow> bool) \<Rightarrow> bool \<Rightarrow> nat \<Rightarrow> cJSON list \<Rightarrow> printbuffer \<Rightarrow> nat \<Rightarrow> int option bres"
where
  "bprint_value mem fmt depth (Item t vs vi vd nm cs) p m =
     (let t = t mod 256 in
      if t = cJSON_NULL then pb_text mem (5, LIT_null) p m
      else if t = cJSON_False then pb_text mem (6, LIT_false) p m
      else if t = cJSON_True then pb_text mem (5, LIT_true) p m
      else if t = cJSON_Number then pb_text mem (number_text vi vd) p m
      else if t = cJSON_String then bprint_string_ptr mem vs p m
      else if t = cJSON_Array then
        (if cs = [] then pb_text mem (3, [91, 93]) p m
         else pb_then mem 1 [91] p m (\<lambda>q m.
           Option.bind (bprint_elems mem fmt (depth + 1) cs (pb_advance 1 q) m) (\<lambda>(r, q, m). if r = None then Some (None, q, m)
           else pb_then mem 2 [93, 0] q m (\<lambda>q m. Some (Some (pb_offset p), q, m)))))
      else if t = cJSON_Object then
        (if cs = [] then pb_text mem (if fmt then depth + 4 else 3, empty_object fmt depth) p m
         else pb_then mem (if fmt then 3 else 2) ([123] @ (if fmt then [10] else []) @ [0]) p m (\<lambda>q m.
           Option.bind (bprint_members mem fmt (depth + 1) cs (pb_advance (if fmt then 2 else 1) q) m) (\<lambda>(r, q, m).
             if r = None then Some (None, q, m)
             else pb_then mem (if fmt then int depth + 2 else 2) ((if fmt then tabs depth else []) @ [125, 0]) q m
               (\<lambda>q m. Some (Some (pb_offset p), q, m)))))
      else Some (None, p, m))"
| "bprint_elems mem fmt depth [] p m = Some (Some 0, p, m)"
| "bprint_elems mem fmt depth (c # cs) p m =
     Option.bind (bprint_value mem fmt depth c p m) (\<lambda>(_, p, m).
     pb_update p (\<lambda>p.
     if cs = [] then Some (Some 0, p, m)
     else let len = (if fmt then 2 else 1) in
       pb_then mem (len + 1) ([44] @ (if fmt then [32] else []) @ [0]) p m (\<lambda>p m.
         bprint_elems mem fmt depth cs (pb_advance len p) m)))"
| "bprint_members mem fmt depth [] p m = Some (Some 0, p, m)"
| "bprint_members mem fmt depth (c # cs) p m =
     (let name = (\<lambda>p m.
        Option.bind (bprint_string_ptr mem (cstring c) p m) (\<lambda>(_, p, m).
        pb_update p (\<lambda>p.
        let len = (if fmt then 2 else 1) in
        pb_then mem len ([58] @ (if fmt then [9] else [])) p m (\<lambda>p m.
        Option.bind (bprint_value mem fmt depth c (pb_advance len p) m) (\<lambda>(_, p, m).
        pb_update p (\<lambda>p.
        let len = (if fmt then 1 else 0) + (if cs = [] then 0 else 1) in
        pb_then mem (len + 1) ((if cs = [] then [] else [44]) @ (if fmt then [10] else []) @ [0]) p m (\<lambda>p m.
        bprint_members mem fmt depth cs (pb_advance len p) m)))))))
      in if fmt then pb_then mem (int depth) (tabs depth) p m (\<lambda>p m. name (pb_advance (int depth) p) m) else name p m)"

text \<open>The text from a pointer on, as the caller gets it.\<close>

definition string_at :: "printbuffer \<Rightarrow> int \<Rightarrow> byte list option" where
  "string_at p off = (case pb_buffer p of None \<Rightarrow> None
     | Some b \<Rightarrow> map_option (\<lambda>n. map the (take (nat n) (drop (nat off) b))) (strlen_at (drop (nat off) b)))"

definition cJSON_PrintBuffered :: "(nat \<Rightarrow> bool) \<Rightarrow> cJSON \<Rightarrow> int \<Rightarrow> bool \<Rightarrow> int option bres" where
  "cJSON_PrintBuffered mem item prebuffer fmt =
     (let p = \<lparr>pb_buffer = (if prebuffer < 0 \<or> \<not> mem 0 then None else Some (replicate (nat prebuffer) None)),
        pb_length = prebuffer, pb_offset = 0\<rparr> in bprint_value mem fmt 0 item p 1)"

subsection \<open>The buffer grows\<close>

lemma wrap_int_id [simp]: "- (2 ^ 31) \<le> x \<Longrightarrow> x < 2 ^ 31 \<Longrightarrow> wrap_int x = x"
  by (simp add: wrap_int_def signed_take_bit_int_eq_self)

lemma smear:
  fixes x :: int
  assumes "0 \<le> x" "x < 2 ^ 30"
  shows "x \<le> or x (drop_bit k x)" "or x (drop_bit k x) < 2 ^ 30"
proof -
  have "0 \<le> drop_bit k x" "drop_bit k x \<le> x" using assms(1) zdiv_mono2 [of x 1 "2 ^ k"] by (simp_all add: drop_bit_eq_div pos_imp_zdiv_nonneg_iff)
  with assms show "x \<le> or x (drop_bit k x)" "or x (drop_bit k x) < 2 ^ 30"
    using or_greater_eq [of "drop_bit k x" x] OR_upper [of x 30 "drop_bit k x"] by simp_all
qed

lemma pow2gt_bounds:
  assumes "0 < x" "x \<le> 2 ^ 30"
  shows "x \<le> pow2gt x" "pow2gt x \<le> 2 ^ 30"
proof -
  define a where "a = or (x - 1) (drop_bit 1 (x - 1))"
  define b where "b = or a (drop_bit 2 a)"
  define c where "c = or b (drop_bit 4 b)"
  define d where "d = or c (drop_bit 8 c)"
  define e where "e = or d (drop_bit 16 d)"
  have a: "x - 1 \<le> a" "a < 2 ^ 30" using smear [of "x - 1" 1] assms unfolding a_def by simp_all
  have b: "a \<le> b" "b < 2 ^ 30" using smear [of a 2] a assms unfolding b_def by simp_all
  have c: "b \<le> c" "c < 2 ^ 30" using smear [of b 4] a b assms unfolding c_def by simp_all
  have d: "c \<le> d" "d < 2 ^ 30" using smear [of c 8] a b c assms unfolding d_def by simp_all
  have e: "d \<le> e" "e < 2 ^ 30" using smear [of d 16] a b c d assms unfolding e_def by simp_all
  have "pow2gt x = wrap_int (e + 1)" using assms by (simp add: pow2gt_def Let_def a_def b_def c_def d_def e_def)
  with a b c d e assms show "x \<le> pow2gt x" "pow2gt x \<le> 2 ^ 30" by simp_all
qed

text \<open>A buffer that begins with \<open>D\<close>; one that was given up because an allocation failed.\<close>

definition pb_holds :: "printbuffer \<Rightarrow> byte list \<Rightarrow> bool" where
  "pb_holds p D \<longleftrightarrow> (\<exists>rest. pb_buffer p = Some (map Some D @ rest) \<and> pb_length p = int (length D + length rest) \<and> pb_length p \<le> 2 ^ 30)"

definition pb_dead :: "(nat \<Rightarrow> bool) \<Rightarrow> printbuffer \<Rightarrow> bool" where
  "pb_dead mem p \<longleftrightarrow> pb_buffer p = None \<and> (\<exists>k. \<not> mem k)"

lemma pb_holds_prefix: "pb_holds p (A @ B) \<Longrightarrow> pb_holds p A"
  by (auto simp: pb_holds_def)

lemma pb_holds_simps [simp]: "pb_holds (p\<lparr>pb_offset := n\<rparr>) D = pb_holds p D" "pb_holds (pb_advance n p) D = pb_holds p D"
  by (simp_all add: pb_holds_def pb_advance_def)

lemma pb_dead_simps [simp]: "pb_dead mem (p\<lparr>pb_offset := n\<rparr>) = pb_dead mem p" "pb_dead mem (pb_advance n p) = pb_dead mem p"
  by (simp_all add: pb_dead_def pb_advance_def)

lemma ensure_ok:
  assumes "pb_holds p D" "pb_offset p = int (length D)" "0 \<le> needed" "int (length D) + needed \<le> 2 ^ 30"
  shows "\<exists>ptr q m'. ensure mem needed p m = Some (ptr, q, m') \<and> (ptr = None \<and> pb_dead mem q \<or>
    ptr = Some (int (length D)) \<and> pb_offset q = int (length D) \<and> int (length D) + needed \<le> pb_length q \<and> pb_holds q D)"
proof -
  obtain rest where p: "pb_buffer p = Some (map Some D @ rest)" "pb_length p = int (length D + length rest)" "pb_length p \<le> 2 ^ 30"
    using assms(1) by (auto simp: pb_holds_def)
  define n where "n = needed + pb_offset p"
  have n: "n = int (length D) + needed" using assms(2) by (simp add: n_def)
  have wrap: "wrap_int n = n" using n assms(3,4) by simp
  have ens: "ensure mem needed p m = (if n \<le> pb_length p then Some (Some (pb_offset p), p, m)
     else let newsize = pow2gt n in
       if newsize < 0 \<or> \<not> mem m then Some (None, p\<lparr>pb_buffer := None, pb_length := 0\<rparr>, Suc m)
       else if pb_length p \<le> newsize
       then Some (Some (pb_offset p), p\<lparr>pb_buffer := Some (map Some D @ rest @ replicate (nat newsize - nat (pb_length p)) None),
         pb_length := newsize\<rparr>, Suc m)
       else None)"
    using p by (simp add: ensure_def n_def [symmetric] wrap Let_def nat_int_add)
  show ?thesis
  proof (cases "n \<le> pb_length p")
    case True
    with ens assms(1,2) n show ?thesis by simp
  next
    case False
    then have pos: "0 < n" "n \<le> 2 ^ 30" using p(2) n assms(4) by simp_all
    note size = pow2gt_bounds [OF pos]
    show ?thesis
    proof (cases "mem m")
      case True
      with False size pos have "ensure mem needed p m = Some (Some (pb_offset p),
          p\<lparr>pb_buffer := Some (map Some D @ rest @ replicate (nat (pow2gt n) - nat (pb_length p)) None), pb_length := pow2gt n\<rparr>, Suc m)"
        unfolding ens by (simp add: Let_def)
      moreover have "int (length D + length (rest @ replicate (nat (pow2gt n) - nat (pb_length p)) None)) = pow2gt n"
        using False size p(2) by (simp add: nat_int_add)
      ultimately show ?thesis using size n assms(2) by (auto simp: pb_holds_def)
    next
      case mem: False
      with False ens show ?thesis by (auto simp: Let_def pb_dead_def)
    qed
  qed
qed

lemma pb_put_ok:
  assumes "pb_holds p D" "pb_offset p = int (length D)" "int (length bs) \<le> needed" "int (length D) + needed \<le> 2 ^ 30"
  shows "\<exists>ptr q m'. pb_put mem needed bs p m = Some (ptr, q, m') \<and> (ptr = None \<and> pb_dead mem q \<or>
    ptr = Some (int (length D)) \<and> pb_offset q = int (length D) \<and> pb_holds q (D @ bs))"
proof -
  have "0 \<le> needed" using assms(3) by simp
  from ensure_ok [OF assms(1,2) this assms(4), of mem m] obtain ptr q m' where
    e: "ensure mem needed p m = Some (ptr, q, m')" "ptr = None \<and> pb_dead mem q \<or>
      ptr = Some (int (length D)) \<and> pb_offset q = int (length D) \<and> int (length D) + needed \<le> pb_length q \<and> pb_holds q D" by blast
  from e(2) show ?thesis
  proof
    assume "ptr = None \<and> pb_dead mem q"
    with e(1) show ?thesis by (simp add: pb_put_def)
  next
    assume q: "ptr = Some (int (length D)) \<and> pb_offset q = int (length D) \<and> int (length D) + needed \<le> pb_length q \<and> pb_holds q D"
    then obtain rest where rest: "pb_buffer q = Some (map Some D @ rest)" "pb_length q = int (length D + length rest)" "pb_length q \<le> 2 ^ 30"
      by (auto simp: pb_holds_def)
    then have "length bs \<le> length rest" using q assms(3) by simp
    with e(1) q rest show ?thesis
      by (auto simp: pb_put_def pb_store_def pb_holds_def intro!: exI [of _ "drop (length bs) rest"])
  qed
qed

text \<open>A rule for each step of the printers, for any \<open>Q\<close> that holds of a run that was given up.\<close>

lemma pb_then_ok:
  assumes "pb_holds p D" "pb_offset p = int (length D)" "int (length bs) \<le> needed" "int (length D) + needed \<le> 2 ^ 30"
    and dead: "\<And>q m. pb_dead mem q \<Longrightarrow> Q (Some (None, q, m))"
    and ok: "\<And>q m. pb_holds q (D @ bs) \<Longrightarrow> pb_offset q = int (length D) \<Longrightarrow> Q (k q m)"
  shows "Q (pb_then mem needed bs p m k)"
  using pb_put_ok [OF assms(1-4), of mem m] dead ok by (auto simp: pb_then_def)

lemma pb_then_dead: "pb_dead mem p \<Longrightarrow> pb_then mem needed bs p m k = Some (None, p, m)"
  by (simp add: pb_then_def pb_put_def ensure_def pb_dead_def)

lemma strlen_at_text: "0 \<notin> set ts \<Longrightarrow> strlen_at (map Some (ts @ [0]) @ rest) = Some (int (length ts))"
  by (induction ts) auto

lemma update_ok:
  assumes "pb_holds p (D @ ts @ [0])" "int (length D) \<le> pb_offset p" "pb_offset p \<le> int (length (D @ ts))" "0 \<notin> set ts"
  shows "update p = Some (int (length (D @ ts)))"
proof -
  obtain rest where p: "pb_buffer p = Some (map Some (D @ ts @ [0]) @ rest)" "length (D @ ts) < 2 ^ 30"
    using assms(1) by (auto simp: pb_holds_def)
  define k where "k = nat (pb_offset p) - length D"
  have k: "nat (pb_offset p) = length D + k" "k \<le> length ts" using assms(2,3) by (simp_all add: k_def nat_le_iff)
  have "drop (nat (pb_offset p)) (map Some (D @ ts @ [0]) @ rest) = map Some (drop k ts @ [0]) @ rest"
    using k by (simp add: drop_map)
  moreover have "0 \<notin> set (drop k ts)" using assms(4) by (meson in_set_dropD)
  ultimately have "strlen_at (drop (nat (pb_offset p)) (map Some (D @ ts @ [0]) @ rest)) = Some (int (length ts - k))"
    using strlen_at_text [of "drop k ts" rest] by simp
  with p assms(2) k show ?thesis by (simp add: update_def)
qed

subsection \<open>What is printed\<close>

text \<open>
  A call that prints \<open>ts\<close> behind \<open>D\<close>: either an allocation failed and the buffer is gone, or the result is where the
  text begins, and the offset is somewhere in it. Behind a loop the offset is the end.
\<close>

definition pb_prints :: "(nat \<Rightarrow> bool) \<Rightarrow> byte list \<Rightarrow> byte list \<Rightarrow> int option bres \<Rightarrow> bool" where
  "pb_prints mem D ts r \<longleftrightarrow> (\<exists>ptr p m. r = Some (ptr, p, m) \<and> (ptr = None \<and> pb_dead mem p \<or>
     ptr = Some (int (length D)) \<and> pb_holds p (D @ ts @ [0]) \<and> int (length D) \<le> pb_offset p \<and> pb_offset p \<le> int (length (D @ ts))))"

definition pb_lists :: "(nat \<Rightarrow> bool) \<Rightarrow> byte list \<Rightarrow> byte list \<Rightarrow> int option bres \<Rightarrow> bool" where
  "pb_lists mem D ts r \<longleftrightarrow> (\<exists>ptr p m. r = Some (ptr, p, m) \<and> (pb_dead mem p \<or>
     ptr = Some 0 \<and> pb_holds p (D @ ts) \<and> pb_offset p = int (length (D @ ts))))"

lemma pb_prints_dead [simp]: "pb_dead mem p \<Longrightarrow> pb_prints mem D ts (Some (None, p, m))"
  by (simp add: pb_prints_def)

lemma pb_lists_dead [simp]: "pb_dead mem p \<Longrightarrow> pb_lists mem D ts (Some (r, p, m))"
  by (simp add: pb_lists_def)

lemma pb_prints_text:
  assumes "pb_holds p D" "pb_offset p = int (length D)" "snd t = ts" "length ts + 1 \<le> fst t" "int (length D + fst t) \<le> 2 ^ 30"
  shows "pb_prints mem D ts (pb_text mem t p m)"
proof -
  have "int (length (ts @ [0])) \<le> int (fst t)" "int (length D) + int (fst t) \<le> 2 ^ 30" using assms(4,5) by simp_all
  from pb_put_ok [OF assms(1,2) this, of mem m] assms(3) show ?thesis
    by (auto simp: pb_text_def pb_prints_def)
qed

lemma pb_update_dead: "pb_dead mem p \<Longrightarrow> pb_update p k = k (p\<lparr>pb_offset := 0\<rparr>)"
  by (simp add: pb_update_def update_def pb_dead_def)

text \<open>Printing something and going on behind it.\<close>

lemma pb_prints_then:
  assumes "pb_prints mem D ts r" "0 \<notin> set ts"
    and dead: "\<And>q m. pb_dead mem q \<Longrightarrow> Q (k q m)"
    and ok: "\<And>q m. pb_holds q (D @ ts) \<Longrightarrow> pb_offset q = int (length (D @ ts)) \<Longrightarrow> Q (k q m)"
  shows "Q (Option.bind r (\<lambda>(_, p, m). pb_update p (\<lambda>p. k p m)))"
proof -
  from assms(1) obtain ptr p m where r: "r = Some (ptr, p, m)" "ptr = None \<and> pb_dead mem p \<or>
     ptr = Some (int (length D)) \<and> pb_holds p (D @ ts @ [0]) \<and> int (length D) \<le> pb_offset p \<and> pb_offset p \<le> int (length (D @ ts))"
    by (auto simp: pb_prints_def)
  from r(2) show ?thesis
  proof
    assume "ptr = None \<and> pb_dead mem p"
    then have "pb_update p (\<lambda>p. k p m) = k (p\<lparr>pb_offset := 0\<rparr>) m" using pb_update_dead [of mem p] by blast
    with r(1) dead [of "p\<lparr>pb_offset := 0\<rparr>" m] \<open>ptr = None \<and> pb_dead mem p\<close> show ?thesis by simp
  next
    assume p: "ptr = Some (int (length D)) \<and> pb_holds p (D @ ts @ [0]) \<and> int (length D) \<le> pb_offset p \<and> pb_offset p \<le> int (length (D @ ts))"
    then have "update p = Some (int (length (D @ ts)))" using update_ok [of p D ts] assms(2) by blast
    moreover have "pb_holds p (D @ ts)" using p pb_holds_prefix [of p "D @ ts" "[0]"] by simp
    ultimately show ?thesis using ok [of "p\<lparr>pb_offset := int (length (D @ ts))\<rparr>"] r(1) by (simp add: pb_update_def)
  qed
qed

lemma pb_lists_then:
  assumes "pb_lists mem D ts r"
    and dead: "\<And>q m. pb_dead mem q \<Longrightarrow> Q (Some (None, q, m))" "\<And>q m. pb_dead mem q \<Longrightarrow> Q (k q m)"
    and ok: "\<And>q m. pb_holds q (D @ ts) \<Longrightarrow> pb_offset q = int (length (D @ ts)) \<Longrightarrow> Q (k q m)"
  shows "Q (Option.bind r (\<lambda>(r, q, m). if r = None then Some (None, q, m) else k q m))"
  using assms(1) dead ok by (auto simp: pb_lists_def)

lemma pb_advance_offset: "pb_offset p = int n \<Longrightarrow> int n + k \<le> 2 ^ 30 \<Longrightarrow> 0 \<le> k \<Longrightarrow> pb_offset (pb_advance k p) = int n + k"
  by (simp add: pb_advance_def)

subsection \<open>No byte of the text is zero\<close>

lemma escape_no_zero: "c \<noteq> 0 \<Longrightarrow> 0 \<notin> set (escape c)"
proof -
  assume "c \<noteq> 0"
  have hex: "hex_char n \<noteq> 0" if "n < 16" for n
  proof -
    have "unat (hex_char n) = (if n < 10 then 48 + n else 87 + n)"
      using that by (simp add: hex_char_def unat_of_nat del: of_nat_add)
    then show ?thesis by (metis add_is_0 unat_0 zero_neq_numeral)
  qed
  have "unat c div 16 < 16" "unat c mod 16 < 16" using unat_less_power [OF refl, of c] by (simp_all add: div_less_iff_less_mult)
  then show ?thesis using \<open>c \<noteq> 0\<close> hex by (auto simp: escape_def)
qed

lemma length_escape_eq: "c \<noteq> 0 \<Longrightarrow> length (escape c) = escape_len c"
  by (auto simp: escape_def escape_len_def gt_31)

lemma string_text_size: "0 \<notin> set s \<Longrightarrow> fst (string_text s) = length (quote s) + 1"
proof -
  assume s: "0 \<notin> set s"
  then have "length (concat (map escape s)) = sum_list (map escape_len s)"
    by (induction s) (simp_all add: length_escape_eq)
  with s escapes_plain [of s] show ?thesis by (cases "list_ex needs_escape s") (simp_all add: string_text_def quote_def)
qed

lemma quote_no_zero: "0 \<notin> set s \<Longrightarrow> 0 \<notin> set (quote s)"
  by (induction s) (auto simp: quote_def escape_no_zero)

lemma dec_int_no_zero: "0 \<notin> set (dec_int i)"
  using dec_nat_digits [of 0] by (auto simp: dec_int_def is_dig_def)

lemma commas_no_zero: "0 \<notin> set (commas fmt es) \<longleftrightarrow> (\<forall>e \<in> set es. 0 \<notin> set e)"
  by (induction fmt es rule: commas.induct) auto

lemma members_no_zero: "0 \<notin> set (members fmt d es) \<longleftrightarrow> (\<forall>(n, e) \<in> set es. 0 \<notin> set n \<and> 0 \<notin> set e)"
  by (induction fmt d es rule: members.induct) (auto simp: tabs_def)

lemma render_no_zero: "canon t \<Longrightarrow> 0 \<notin> set (render fmt d t)"
proof (induction arbitrary: d rule: canon.induct)
  case (canon_array cs nm)
  then show ?case by (simp add: cj_type_defs commas_no_zero)
next
  case (canon_object cs nm)
  have "0 \<notin> set (quote (the (cstring c))) \<and> 0 \<notin> set (render fmt (d + 1) c)" if "c \<in> set cs" for c
    using canon_object.hyps(2) [OF that] canon_object.IH [OF that] quote_no_zero by auto
  then show ?case by (auto simp: cj_type_defs members_no_zero empty_object_def tabs_def)
qed (simp_all add: cj_type_defs LIT_defs dec_int_no_zero quote_no_zero)

subsection \<open>Values, arrays and objects\<close>

text \<open>A printer \<open>pr\<close> of \<open>ts\<close>: in every buffer that can hold it.\<close>

definition buffered :: "(nat \<Rightarrow> bool) \<Rightarrow> byte list \<Rightarrow> (printbuffer \<Rightarrow> nat \<Rightarrow> int option bres) \<Rightarrow> bool" where
  "buffered mem ts pr \<longleftrightarrow> (\<forall>p D m. pb_holds p D \<longrightarrow> pb_offset p = int (length D) \<longrightarrow> length D + length ts + 32 \<le> 2 ^ 30 \<longrightarrow>
     pb_prints mem D ts (pr p m))"

lemma bufferedD: "buffered mem ts pr \<Longrightarrow> pb_holds p D \<Longrightarrow> pb_offset p = int (length D) \<Longrightarrow> length D + length ts + 32 \<le> 2 ^ 30 \<Longrightarrow>
    pb_prints mem D ts (pr p m)"
  by (simp add: buffered_def)

lemma buffered_text:
  "snd t = ts \<Longrightarrow> length ts + 1 \<le> fst t \<Longrightarrow> fst t \<le> length ts + 32 \<Longrightarrow> buffered mem ts (pb_text mem t)"
  using pb_prints_text by (auto simp: buffered_def)

lemma buffered_string: "0 \<notin> set s \<Longrightarrow> buffered mem (quote s) (bprint_string_ptr mem (Some s))"
  using string_text_quote [of s] string_text_size [of s] buffered_text [of "string_text s" "quote s" mem]
  by (simp add: buffered_def bprint_string_ptr_def)

text \<open>The offset is the end of what was printed.\<close>

definition pb_at :: "printbuffer \<Rightarrow> byte list \<Rightarrow> bool" where
  "pb_at p D \<longleftrightarrow> pb_holds p D \<and> pb_offset p = int (length D)"

lemma pb_at_lists: "pb_at p (D @ ts) \<Longrightarrow> pb_lists mem D ts (Some (Some 0, p, m))"
  by (simp add: pb_at_def pb_lists_def)

lemma pb_emit_ok:
  assumes "pb_at p D" "len = int (length part)" "len + int (length pad) \<le> needed" "int (length D) + needed \<le> 2 ^ 30"
    and dead: "\<And>q m. pb_dead mem q \<Longrightarrow> Q (Some (None, q, m))"
    and ok: "\<And>q m. pb_at q (D @ part) \<Longrightarrow> Q (k q m)"
  shows "Q (pb_then mem needed (part @ pad) p m (\<lambda>p m. k (pb_advance len p) m))"
proof (rule pb_then_ok [where D = D])
  show "pb_holds p D" "pb_offset p = int (length D)" "int (length (part @ pad)) \<le> needed" "int (length D) + needed \<le> 2 ^ 30"
    using assms(1-4) by (simp_all add: pb_at_def)
next
  fix q m
  assume q: "pb_holds q (D @ part @ pad)" "pb_offset q = int (length D)"
  have "pb_offset (pb_advance len q) = int (length D) + len"
    by (rule pb_advance_offset [OF q(2)]) (use assms(2-4) in simp_all)
  with q(1) pb_holds_prefix [of q "D @ part" pad] assms(2) have "pb_at (pb_advance len q) (D @ part)" by (simp add: pb_at_def)
  then show "Q (k (pb_advance len q) m)" by (rule ok)
qed (rule dead)

lemma pb_print_ok:
  assumes "buffered mem ts pr" "pb_at p D" "0 \<notin> set ts" "length D + length ts + 32 \<le> 2 ^ 30"
    and dead: "\<And>q m. pb_dead mem q \<Longrightarrow> Q (k q m)"
    and ok: "\<And>q m. pb_at q (D @ ts) \<Longrightarrow> Q (k q m)"
  shows "Q (Option.bind (pr p m) (\<lambda>(_, p, m). pb_update p (\<lambda>p. k p m)))"
proof (rule pb_prints_then [where D = D and ts = ts])
  show "pb_prints mem D ts (pr p m)" using bufferedD [OF assms(1) _ _ assms(4)] assms(2) by (simp add: pb_at_def)
qed (use assms(3) dead ok in \<open>simp_all add: pb_at_def\<close>)

lemma bprint_elems_ok:
  assumes "\<And>c. c \<in> set cs \<Longrightarrow> buffered mem (render fmt d c) (bprint_value mem fmt d c)"
    and "\<And>c. c \<in> set cs \<Longrightarrow> 0 \<notin> set (render fmt d c)"
    and "pb_at p D" "length D + length (commas fmt (map (render fmt d) cs)) + 32 \<le> 2 ^ 30"
  shows "pb_lists mem D (commas fmt (map (render fmt d) cs)) (bprint_elems mem fmt d cs p m)"
  using assms
proof (induction cs arbitrary: p D m)
  case Nil
  then show ?case by (simp add: pb_lists_def pb_at_def)
next
  case (Cons c cs)
  let ?e = "render fmt d c" and ?es = "commas fmt (map (render fmt d) cs)"
  define sep :: "byte list" where "sep = [44] @ (if fmt then [32] else [])"
  let ?len = "if fmt then 2 else 1 :: int"
  have all: "commas fmt (map (render fmt d) (c # cs)) = ?e @ (if cs = [] then [] else sep @ ?es)"
    by (cases cs) (simp_all add: sep_def)
  define rest where "rest = (\<lambda>q m. if cs = [] then Some (Some 0, q, m)
       else pb_then mem (?len + 1) (sep @ [0]) q m (\<lambda>p m. bprint_elems mem fmt d cs (pb_advance ?len p) m))"
  have rest: "bprint_elems mem fmt d (c # cs) p m =
      Option.bind (bprint_value mem fmt d c p m) (\<lambda>(_, p, m). pb_update p (\<lambda>p. rest p m))"
    by (simp only: bprint_elems.simps rest_def sep_def Let_def append_assoc)
  show ?case
    unfolding rest
  proof (rule pb_print_ok [OF Cons.prems(1) Cons.prems(3)])
    show "length D + length ?e + 32 \<le> 2 ^ 30" using Cons.prems(4) unfolding all by simp
  next
    fix q m
    assume q: "pb_at q (D @ ?e)"
    show "pb_lists mem D (commas fmt (map (render fmt d) (c # cs))) (rest q m)"
    proof (cases "cs = []")
      case True
      with pb_at_lists [OF q] show ?thesis by (simp add: rest_def all)
    next
      case False
      have room: "length ((D @ ?e) @ sep) + length ?es + 32 \<le> 2 ^ 30" using Cons.prems(4) False unfolding all by simp
      have "pb_lists mem D (commas fmt (map (render fmt d) (c # cs)))
        (pb_then mem (?len + 1) (sep @ [0]) q m (\<lambda>p m. bprint_elems mem fmt d cs (pb_advance ?len p) m))"
      proof (rule pb_emit_ok [OF q])
        fix p' m'
        assume "pb_at p' ((D @ ?e) @ sep)"
        from Cons.IH [OF Cons.prems(1,2) this room] show "pb_lists mem D (commas fmt (map (render fmt d) (c # cs))) (bprint_elems mem fmt d cs p' m')"
          unfolding all using False by (simp add: pb_lists_def)
      qed (use room in \<open>auto simp: sep_def\<close>)
      with False show ?thesis by (simp add: rest_def)
    qed
  qed (simp_all add: rest_def pb_then_dead Cons.prems(2))
qed

lemma bprint_members_ok:
  assumes "\<And>c. c \<in> set cs \<Longrightarrow> buffered mem (render fmt d c) (bprint_value mem fmt d c)"
    and "\<And>c. c \<in> set cs \<Longrightarrow> 0 \<notin> set (render fmt d c)"
    and "\<And>c. c \<in> set cs \<Longrightarrow> \<exists>s. cstring c = Some s \<and> 0 \<notin> set s"
    and "pb_at p D" "length D + length (members fmt d (map (\<lambda>c. (quote (the (cstring c)), render fmt d c)) cs)) + 32 \<le> 2 ^ 30"
  shows "pb_lists mem D (members fmt d (map (\<lambda>c. (quote (the (cstring c)), render fmt d c)) cs)) (bprint_members mem fmt d cs p m)"
  using assms
proof (induction cs arbitrary: p D m)
  case Nil
  then show ?case by (simp add: pb_lists_def pb_at_def)
next
  case (Cons c cs)
  obtain s where s: "cstring c = Some s" "0 \<notin> set s" using Cons.prems(3) [of c] by auto
  let ?e = "render fmt d c" and ?es = "members fmt d (map (\<lambda>c. (quote (the (cstring c)), render fmt d c)) cs)"
  define T :: "byte list" where "T = (if fmt then tabs d else [])"
  define C :: "byte list" where "C = [58] @ (if fmt then [9] else [])"
  define S :: "byte list" where "S = (if cs = [] then [] else [44]) @ (if fmt then [10] else [])"
  let ?l = "if fmt then 2 else 1 :: int" and ?k = "(if fmt then 1 else 0) + (if cs = [] then 0 else 1) :: int"
  have all: "members fmt d (map (\<lambda>c. (quote (the (cstring c)), render fmt d c)) (c # cs)) = T @ quote s @ C @ ?e @ S @ ?es"
    by (simp add: T_def C_def S_def s(1))
  define Q where "Q = pb_lists mem D (members fmt d (map (\<lambda>c. (quote (the (cstring c)), render fmt d c)) (c # cs)))"
  have Q_dead: "Q (Some (None, q, m))" if "pb_dead mem q" for q m using that by (simp add: Q_def)
  define k3 where "k3 = (\<lambda>q m. pb_then mem (?k + 1) (S @ [0]) q m (\<lambda>p m. bprint_members mem fmt d cs (pb_advance ?k p) m))"
  define k2' where "k2' = (\<lambda>p m. Option.bind (bprint_value mem fmt d c p m) (\<lambda>(_, p, m). pb_update p (\<lambda>p. k3 p m)))"
  define k2 where "k2 = (\<lambda>q m. pb_then mem ?l (C @ []) q m (\<lambda>p m. k2' (pb_advance ?l p) m))"
  define k1 where "k1 = (\<lambda>p m. Option.bind (bprint_string_ptr mem (Some s) p m) (\<lambda>(_, p, m). pb_update p (\<lambda>p. k2 p m)))"
  have run: "bprint_members mem fmt d (c # cs) p m =
      (if fmt then pb_then mem (int d) (tabs d @ []) p m (\<lambda>p m. k1 (pb_advance (int d) p) m) else k1 p m)"
    by (simp only: bprint_members.simps k1_def k2_def k2'_def k3_def S_def C_def s(1) Let_def append_assoc append_Nil2)
  have room: "length (((((D @ T) @ quote s) @ C) @ ?e) @ S) + length ?es + 32 \<le> 2 ^ 30" using Cons.prems(5) unfolding all by simp
  have k3: "Q (k3 q m)" if "pb_at q ((((D @ T) @ quote s) @ C) @ ?e)" for q m
    unfolding k3_def
  proof (rule pb_emit_ok [OF that])
    fix p' m'
    assume "pb_at p' (((((D @ T) @ quote s) @ C) @ ?e) @ S)"
    from Cons.IH [OF Cons.prems(1,2,3) this room, of m'] show "Q (bprint_members mem fmt d cs p' m')"
      unfolding Q_def all by (simp add: pb_lists_def)
  qed (use room Q_dead in \<open>auto simp: S_def\<close>)
  have k2': "Q (k2' q m)" if "pb_at q (((D @ T) @ quote s) @ C)" for q m
    unfolding k2'_def
    by (rule pb_print_ok [OF Cons.prems(1) that]) (use room k3 Q_dead Cons.prems(2) in \<open>auto simp: k3_def pb_then_dead\<close>)
  have k2: "Q (k2 q m)" if "pb_at q ((D @ T) @ quote s)" for q m
    unfolding k2_def by (rule pb_emit_ok [OF that]) (use room k2' Q_dead in \<open>auto simp: C_def\<close>)
  have k1: "Q (k1 q m)" if "pb_at q (D @ T)" for q m
    unfolding k1_def
    by (rule pb_print_ok [OF buffered_string [OF s(2)] that quote_no_zero [OF s(2)]]) (use room k2 Q_dead in \<open>auto simp: k2_def pb_then_dead\<close>)
  have "Q (bprint_members mem fmt d (c # cs) p m)"
  proof (cases fmt)
    case True
    have "Q (pb_then mem (int d) (tabs d @ []) p m (\<lambda>p m. k1 (pb_advance (int d) p) m))"
      by (rule pb_emit_ok [OF Cons.prems(4)]) (use room k1 Q_dead True in \<open>auto simp: T_def tabs_def\<close>)
    with True show ?thesis unfolding run by simp
  next
    case False
    with k1 [of p m] Cons.prems(4) show ?thesis unfolding run by (simp add: T_def)
  qed
  then show ?case by (simp add: Q_def)
qed

text \<open>What \<open>print_array\<close> and \<open>print_object\<close> put around their children.\<close>

lemma pb_brackets_ok:
  assumes p: "pb_at p D" and sizes: "len = int (length A)" "len + int (length pad) \<le> n" "int (length D) + n \<le> 2 ^ 30"
    "int (length B) + 1 \<le> n'" "int (length (D @ A @ ts)) + n' \<le> 2 ^ 30"
    and loop: "\<And>q m. pb_at q (D @ A) \<Longrightarrow> pb_lists mem (D @ A) ts (lp q m)"
  shows "pb_prints mem D (A @ ts @ B) (pb_then mem n (A @ pad) p m (\<lambda>q m.
    Option.bind (lp (pb_advance len q) m) (\<lambda>(r, q, m). if r = None then Some (None, q, m)
      else pb_then mem n' (B @ [0]) q m (\<lambda>q m. Some (Some (pb_offset p), q, m)))))"
proof (rule pb_emit_ok [OF p sizes(1-3), where k = "\<lambda>q m. Option.bind (lp q m) (\<lambda>(r, q, m). if r = None then Some (None, q, m)
      else pb_then mem n' (B @ [0]) q m (\<lambda>q m. Some (Some (pb_offset p), q, m)))"])
  fix q m
  assume "pb_at q (D @ A)"
  then have "pb_lists mem (D @ A) ts (lp q m)" by (rule loop)
  then show "pb_prints mem D (A @ ts @ B) (Option.bind (lp q m) (\<lambda>(r, q, m). if r = None then Some (None, q, m)
      else pb_then mem n' (B @ [0]) q m (\<lambda>q m. Some (Some (pb_offset p), q, m))))"
  proof (rule pb_lists_then)
    fix q m
    assume "pb_holds q ((D @ A) @ ts)" "pb_offset q = int (length ((D @ A) @ ts))"
    then show "pb_prints mem D (A @ ts @ B) (pb_then mem n' (B @ [0]) q m (\<lambda>q m. Some (Some (pb_offset p), q, m)))"
      by (rule pb_then_ok) (use sizes p in \<open>auto simp: pb_prints_def pb_at_def\<close>)
  qed (simp_all add: pb_then_dead)
qed simp

lemma buffered_array:
  assumes "\<And>c. c \<in> set cs \<Longrightarrow> buffered mem (render fmt (d + 1) c) (bprint_value mem fmt (d + 1) c)"
    and "\<And>c. c \<in> set cs \<Longrightarrow> 0 \<notin> set (render fmt (d + 1) c)"
  shows "buffered mem (render fmt d (Item cJSON_Array None 0 (Fin 0) nm cs)) (bprint_value mem fmt d (Item cJSON_Array None 0 (Fin 0) nm cs))"
proof (cases "cs = []")
  case True
  then show ?thesis using buffered_text [of "(3, [91, 93])" "[91, 93]" mem] by (simp add: buffered_def cj_type_defs)
next
  case False
  let ?es = "commas fmt (map (render fmt (d + 1)) cs)"
  have "pb_prints mem D ([91] @ ?es @ [93]) (pb_then mem 1 ([91] @ []) p m (\<lambda>q m.
       Option.bind (bprint_elems mem fmt (d + 1) cs (pb_advance 1 q) m) (\<lambda>(r, q, m). if r = None then Some (None, q, m)
         else pb_then mem 2 ([93] @ [0]) q m (\<lambda>q m. Some (Some (pb_offset p), q, m)))))"
    if p: "pb_holds p D" "pb_offset p = int (length D)" and room: "length D + length ([91] @ ?es @ [93]) + 32 \<le> 2 ^ 30" for p D m
  proof (rule pb_brackets_ok)
    show "pb_at p D" using p by (simp add: pb_at_def)
    show "pb_lists mem (D @ [91]) ?es (bprint_elems mem fmt (d + 1) cs q m)" if "pb_at q (D @ [91])" for q m
      by (rule bprint_elems_ok [OF assms that]) (use room in simp_all)
  qed (use room in simp_all)
  with False show ?thesis by (simp add: buffered_def cj_type_defs cong: if_cong)
qed

lemma buffered_object:
  assumes "\<And>c. c \<in> set cs \<Longrightarrow> buffered mem (render fmt (d + 1) c) (bprint_value mem fmt (d + 1) c)"
    and "\<And>c. c \<in> set cs \<Longrightarrow> 0 \<notin> set (render fmt (d + 1) c)"
    and "\<And>c. c \<in> set cs \<Longrightarrow> \<exists>s. cstring c = Some s \<and> 0 \<notin> set s"
  shows "buffered mem (render fmt d (Item cJSON_Object None 0 (Fin 0) nm cs)) (bprint_value mem fmt d (Item cJSON_Object None 0 (Fin 0) nm cs))"
proof (cases "cs = []")
  case True
  have "buffered mem (empty_object fmt d) (pb_text mem (if fmt then d + 4 else 3, empty_object fmt d))"
    by (rule buffered_text) (auto simp: empty_object_def tabs_def)
  with True show ?thesis by (simp add: buffered_def cj_type_defs)
next
  case False
  let ?es = "members fmt (d + 1) (map (\<lambda>c. (quote (the (cstring c)), render fmt (d + 1) c)) cs)"
  let ?A = "[123] @ (if fmt then [10] else []) :: byte list" and ?B = "(if fmt then tabs d else []) @ [125]"
  have "pb_prints mem D (?A @ ?es @ ?B) (pb_then mem (if fmt then 3 else 2) (?A @ [0]) p m (\<lambda>q m.
       Option.bind (bprint_members mem fmt (d + 1) cs (pb_advance (if fmt then 2 else 1) q) m) (\<lambda>(r, q, m). if r = None then Some (None, q, m)
         else pb_then mem (if fmt then int d + 2 else 2) (?B @ [0]) q m (\<lambda>q m. Some (Some (pb_offset p), q, m)))))"
    if p: "pb_holds p D" "pb_offset p = int (length D)" and room: "length D + length (?A @ ?es @ ?B) + 32 \<le> 2 ^ 30" for p D m
  proof (rule pb_brackets_ok)
    show "pb_at p D" using p by (simp add: pb_at_def)
    show "pb_lists mem (D @ ?A) ?es (bprint_members mem fmt (d + 1) cs q m)" if "pb_at q (D @ ?A)" for q m
      by (rule bprint_members_ok [OF assms that]) (use room in simp_all)
  qed (use room in \<open>auto simp: tabs_def\<close>)
  then have "buffered mem (?A @ ?es @ ?B) (\<lambda>p m. pb_then mem (if fmt then 3 else 2) (?A @ [0]) p m (\<lambda>q m.
       Option.bind (bprint_members mem fmt (d + 1) cs (pb_advance (if fmt then 2 else 1) q) m) (\<lambda>(r, q, m). if r = None then Some (None, q, m)
         else pb_then mem (if fmt then int d + 2 else 2) (?B @ [0]) q m (\<lambda>q m. Some (Some (pb_offset p), q, m)))))"
    unfolding buffered_def by blast
  moreover have "render fmt d (Item cJSON_Object None 0 (Fin 0) nm cs) = ?A @ ?es @ ?B" using False by (simp add: cj_type_defs)
  moreover have "bprint_value mem fmt d (Item cJSON_Object None 0 (Fin 0) nm cs) = (\<lambda>p m. pb_then mem (if fmt then 3 else 2) (?A @ [0]) p m (\<lambda>q m.
       Option.bind (bprint_members mem fmt (d + 1) cs (pb_advance (if fmt then 2 else 1) q) m) (\<lambda>(r, q, m). if r = None then Some (None, q, m)
         else pb_then mem (if fmt then int d + 2 else 2) (?B @ [0]) q m (\<lambda>q m. Some (Some (pb_offset p), q, m)))))"
    using False by (intro ext) (simp add: cj_type_defs cong: if_cong)
  ultimately show ?thesis by simp
qed

lemma buffered_value: "canon t \<Longrightarrow> buffered mem (render fmt d t) (bprint_value mem fmt d t)"
proof (induction arbitrary: d rule: canon.induct)
  case (canon_null nm)
  show ?case using buffered_text [of "(5, LIT_null)" LIT_null mem] by (simp add: buffered_def cj_type_defs LIT_defs)
next
  case (canon_false nm)
  show ?case using buffered_text [of "(6, LIT_false)" LIT_false mem] by (simp add: buffered_def cj_type_defs LIT_defs)
next
  case (canon_true nm)
  show ?case using buffered_text [of "(5, LIT_true)" LIT_true mem] by (simp add: buffered_def cj_type_defs LIT_defs)
next
  case (canon_number i nm)
  have "buffered mem (dec_int i) (pb_text mem (number_text i (Fin (of_int i))))"
    by (rule buffered_text) (use number_text_int [OF canon_number] in simp_all)
  then show ?case by (simp add: buffered_def cj_type_defs)
next
  case (canon_string s nm)
  show ?case using buffered_string [OF canon_string, of mem] by (simp add: buffered_def cj_type_defs)
next
  case (canon_array cs nm)
  show ?case by (rule buffered_array) (use canon_array.IH canon_array.hyps(1) render_no_zero in blast)+
next
  case (canon_object cs nm)
  show ?case by (rule buffered_object) (use canon_object.IH canon_object.hyps render_no_zero in blast)+
qed

lemma bprint_dead: "canon t \<Longrightarrow> pb_dead mem p \<Longrightarrow> bprint_value mem fmt d t p m = Some (None, p, m)"
  by (induction rule: canon.cases)
    (auto simp: cj_type_defs pb_then_dead pb_text_def bprint_string_ptr_def pb_put_def ensure_def pb_dead_def)

lemma string_at_holds:
  assumes "pb_holds p (ts @ [0])" "0 \<notin> set ts"
  shows "string_at p 0 = Some ts"
proof -
  obtain rest where "pb_buffer p = Some (map Some (ts @ [0]) @ rest)" using assms(1) by (auto simp: pb_holds_def)
  with strlen_at_text [OF assms(2), of rest] show ?thesis by (simp add: string_at_def comp_def)
qed



text \<open>
  An item whose type is none of the seven prints nothing. Inside of an array the buffered printer then looks for the
  end of a text that was not written, in bytes that nobody has set; the other printer returns \<open>NULL\<close>.
\<close>

lemma cjson_print_buffered_unknown:
  "cJSON_PrintBuffered (\<lambda>_. True) (Item cJSON_Array None 0 (Fin 0) None [Item 7 None 0 (Fin 0) None []]) 16 False = None \<and>
   cJSON_PrintUnformatted (\<lambda>_. True) (Item cJSON_Array None 0 (Fin 0) None [Item 7 None 0 (Fin 0) None []]) = Some (None, 1)"
  by code_simp

end
