(* ===== verification/CjsonBuild.thy ===== *)
theory CjsonBuild
  imports CjsonPrint
begin

text \<open>
  Building, editing, copying and releasing items, and the hooks. An item that is linked into a chain belongs to that
  chain only; how the chains lie in memory, and the reference items of \<open>create_reference\<close>, which share the children
  of another item, are in \<open>CjsonHeap\<close>. \<open>NULL\<close> pointers to items are \<open>None\<close>; a result \<open>None\<close>
  around that is a \<open>NULL\<close> dereference. \<open>mem\<close> and the number of the next allocation are passed as in
  the parser.
\<close>

subsection \<open>Creating and releasing\<close>

definition cJSON_IsReference :: int where "cJSON_IsReference = 256"
definition cJSON_StringIsConst :: int where "cJSON_StringIsConst = 512"

definition flag_set :: "int \<Rightarrow> int \<Rightarrow> bool" where
  "flag_set t f \<longleftrightarrow> odd (t div f)"

definition cJSON_New_Item :: "(nat \<Rightarrow> bool) \<Rightarrow> nat \<Rightarrow> cJSON option \<times> nat" where
  "cJSON_New_Item mem m = (if mem m then Some zero_item else None, Suc m)"

text \<open>\<open>cJSON_Delete\<close> of an item outside any chain: the number of blocks it frees.\<close>

fun cJSON_Delete :: "cJSON \<Rightarrow> nat" where
  "cJSON_Delete (Item t vs vi vd nm cs) =
     (if flag_set t cJSON_IsReference then 0 else sum_list (map cJSON_Delete cs)) +
     (if \<not> flag_set t cJSON_IsReference \<and> vs \<noteq> None then 1 else 0) +
     (if \<not> flag_set t cJSON_StringIsConst \<and> nm \<noteq> None then 1 else 0) + 1"

definition create :: "int \<Rightarrow> (nat \<Rightarrow> bool) \<Rightarrow> nat \<Rightarrow> cJSON option \<times> nat" where
  "create t mem m = (let (i, m) = cJSON_New_Item mem m in (map_option (set_type t) i, m))"

definition cJSON_CreateNull :: "(nat \<Rightarrow> bool) \<Rightarrow> nat \<Rightarrow> cJSON option \<times> nat" where
  "cJSON_CreateNull = create cJSON_NULL"

definition cJSON_CreateTrue :: "(nat \<Rightarrow> bool) \<Rightarrow> nat \<Rightarrow> cJSON option \<times> nat" where
  "cJSON_CreateTrue = create cJSON_True"

definition cJSON_CreateFalse :: "(nat \<Rightarrow> bool) \<Rightarrow> nat \<Rightarrow> cJSON option \<times> nat" where
  "cJSON_CreateFalse = create cJSON_False"

definition cJSON_CreateBool :: "int \<Rightarrow> (nat \<Rightarrow> bool) \<Rightarrow> nat \<Rightarrow> cJSON option \<times> nat" where
  "cJSON_CreateBool b = create (if b \<noteq> 0 then cJSON_True else cJSON_False)"

definition cJSON_CreateNumber :: "(nat \<Rightarrow> bool) \<Rightarrow> double \<Rightarrow> nat \<Rightarrow> cJSON option \<times> nat" where
  "cJSON_CreateNumber mem num m = (let (i, m) = cJSON_New_Item mem m in
     (map_option (\<lambda>_. Item cJSON_Number None (double_to_int num) num None []) i, m))"

text \<open>\<open>cJSON_strdup\<close> never overruns its block, so only whether it succeeds matters.\<close>

definition strdup :: "(nat \<Rightarrow> bool) \<Rightarrow> byte list \<Rightarrow> nat \<Rightarrow> byte list option \<times> nat" where
  "strdup mem s m = (case cJSON_strdup mem s m of None \<Rightarrow> (None, m) | Some (r, m) \<Rightarrow> (r, m))"

lemma strdup_eq [simp]: "strdup mem s m = (if mem m then Some s else None, Suc m)"
  by (simp add: strdup_def cJSON_strdup_def q_text_def)

definition cJSON_CreateString :: "(nat \<Rightarrow> bool) \<Rightarrow> byte list \<Rightarrow> nat \<Rightarrow> cJSON option \<times> nat" where
  "cJSON_CreateString mem s m = (case cJSON_New_Item mem m of (None, m) \<Rightarrow> (None, m)
     | (Some i, m) \<Rightarrow> (let (v, m) = strdup mem s m in
          (Some (Item cJSON_String v (valueint i) (valuedouble i) (cstring i) (children i)), m)))"

definition cJSON_CreateArray :: "(nat \<Rightarrow> bool) \<Rightarrow> nat \<Rightarrow> cJSON option \<times> nat" where
  "cJSON_CreateArray = create cJSON_Array"

definition cJSON_CreateObject :: "(nat \<Rightarrow> bool) \<Rightarrow> nat \<Rightarrow> cJSON option \<times> nat" where
  "cJSON_CreateObject = create cJSON_Object"

text \<open>
  The loops of \<open>cJSON_CreateIntArray\<close> and its siblings. The new item is linked behind the previous
  one without a test: a \<open>NULL\<close> that is not the last is dereferenced.
\<close>

fun create_loop ::
  "('x \<Rightarrow> nat \<Rightarrow> cJSON option \<times> nat) \<Rightarrow> bool \<Rightarrow> 'x list \<Rightarrow> nat \<Rightarrow> (cJSON list \<times> nat) option" where
  "create_loop mk first [] m = Some ([], m)"
| "create_loop mk first (x # xs) m = (case mk x m of
       (None, m) \<Rightarrow> if first \<and> xs = [] then Some ([], m) else None
     | (Some n, m) \<Rightarrow> map_option (map_prod (\<lambda>ns. n # ns) id) (create_loop mk False xs m))"

definition create_array ::
  "(nat \<Rightarrow> bool) \<Rightarrow> ('x \<Rightarrow> nat \<Rightarrow> cJSON option \<times> nat) \<Rightarrow> 'x list \<Rightarrow> nat \<Rightarrow> (cJSON option \<times> nat) option" where
  "create_array mem mk xs m = (case cJSON_CreateArray mem m of (None, m) \<Rightarrow> Some (None, m)
     | (Some a, m) \<Rightarrow> map_option (map_prod (\<lambda>ns.
          Some (Item (ctype a) (valuestring a) (valueint a) (valuedouble a) (cstring a) ns)) id)
          (create_loop mk True xs m))"

definition cJSON_CreateIntArray :: "(nat \<Rightarrow> bool) \<Rightarrow> i32 list \<Rightarrow> nat \<Rightarrow> (cJSON option \<times> nat) option" where
  "cJSON_CreateIntArray mem numbers =
     create_array mem (\<lambda>i. cJSON_CreateNumber mem (Fin (of_int (sint i)))) numbers"

definition cJSON_CreateDoubleArray :: "(nat \<Rightarrow> bool) \<Rightarrow> double list \<Rightarrow> nat \<Rightarrow> (cJSON option \<times> nat) option" where
  "cJSON_CreateDoubleArray mem numbers = create_array mem (cJSON_CreateNumber mem) numbers"

text \<open>A \<open>float\<close> is the \<open>double\<close> of the same value, to which the call converts it.\<close>

definition cJSON_CreateFloatArray :: "(nat \<Rightarrow> bool) \<Rightarrow> double list \<Rightarrow> nat \<Rightarrow> (cJSON option \<times> nat) option" where
  "cJSON_CreateFloatArray mem numbers = create_array mem (cJSON_CreateNumber mem) numbers"

definition cJSON_CreateStringArray :: "(nat \<Rightarrow> bool) \<Rightarrow> byte list list \<Rightarrow> nat \<Rightarrow> (cJSON option \<times> nat) option" where
  "cJSON_CreateStringArray mem strings = create_array mem (cJSON_CreateString mem) strings"

subsection \<open>Editing\<close>

definition set_children :: "cJSON \<Rightarrow> cJSON list \<Rightarrow> cJSON" where
  "set_children a cs = Item (ctype a) (valuestring a) (valueint a) (valuedouble a) (cstring a) cs"

definition set_name :: "cJSON \<Rightarrow> byte list option \<Rightarrow> cJSON" where
  "set_name i nm = Item (ctype i) (valuestring i) (valueint i) (valuedouble i) nm (children i)"

lemma set_children_simps [simp]:
  "children (set_children a cs) = cs" "ctype (set_children a cs) = ctype a" "cstring (set_children a cs) = cstring a"
  "set_children (set_children a cs) ds = set_children a ds" "set_children a (children a) = a"
  by (simp_all add: set_children_def)

lemma set_name_simps [simp]: "cstring (set_name i nm) = nm" "children (set_name i nm) = children i"
  by (simp_all add: set_name_def)

text \<open>The array is read before the item is tested.\<close>

definition cJSON_AddItemToArray :: "cJSON option \<Rightarrow> cJSON option \<Rightarrow> cJSON option" where
  "cJSON_AddItemToArray array item = (case array of None \<Rightarrow> None
     | Some a \<Rightarrow> Some (case item of None \<Rightarrow> a | Some i \<Rightarrow> set_children a (children a @ [i])))"

definition cJSON_AddItemToObject ::
  "(nat \<Rightarrow> bool) \<Rightarrow> cJSON option \<Rightarrow> byte list \<Rightarrow> cJSON option \<Rightarrow> nat \<Rightarrow> (cJSON option \<times> nat) option" where
  "cJSON_AddItemToObject mem object string item m = (case item of None \<Rightarrow> Some (object, m)
     | Some i \<Rightarrow> (let (nm, m) = strdup mem string m in
          map_option (\<lambda>ob. (Some ob, m)) (cJSON_AddItemToArray object (Some (set_name i nm)))))"

definition cJSON_AddItemToObjectCS :: "cJSON option \<Rightarrow> byte list \<Rightarrow> cJSON option \<Rightarrow> cJSON option option" where
  "cJSON_AddItemToObjectCS object string item = (case item of None \<Rightarrow> Some object
     | Some i \<Rightarrow> map_option Some (cJSON_AddItemToArray object
          (Some (Item (if flag_set (ctype i) cJSON_StringIsConst then ctype i else ctype i + cJSON_StringIsConst)
             (valuestring i) (valueint i) (valuedouble i) (Some string) (children i)))))"

text \<open>The macros that create an item and add it, like \<open>cJSON_AddNumberToObject\<close> and \<open>cJSON_AddStringToObject\<close>.\<close>

definition cJSON_AddNumberToObject ::
  "(nat \<Rightarrow> bool) \<Rightarrow> cJSON option \<Rightarrow> byte list \<Rightarrow> double \<Rightarrow> nat \<Rightarrow> (cJSON option \<times> nat) option" where
  "cJSON_AddNumberToObject mem object name n m =
     (let (i, m) = cJSON_CreateNumber mem n m in cJSON_AddItemToObject mem object name i m)"

definition cJSON_AddStringToObject ::
  "(nat \<Rightarrow> bool) \<Rightarrow> cJSON option \<Rightarrow> byte list \<Rightarrow> byte list \<Rightarrow> nat \<Rightarrow> (cJSON option \<times> nat) option" where
  "cJSON_AddStringToObject mem object name s m =
     (let (i, m) = cJSON_CreateString mem s m in cJSON_AddItemToObject mem object name i m)"

definition cJSON_AddNullToObject :: "(nat \<Rightarrow> bool) \<Rightarrow> cJSON option \<Rightarrow> byte list \<Rightarrow> nat \<Rightarrow> (cJSON option \<times> nat) option" where
  "cJSON_AddNullToObject mem object name m =
     (let (i, m) = cJSON_CreateNull mem m in cJSON_AddItemToObject mem object name i m)"

definition cJSON_AddTrueToObject :: "(nat \<Rightarrow> bool) \<Rightarrow> cJSON option \<Rightarrow> byte list \<Rightarrow> nat \<Rightarrow> (cJSON option \<times> nat) option" where
  "cJSON_AddTrueToObject mem object name m =
     (let (i, m) = cJSON_CreateTrue mem m in cJSON_AddItemToObject mem object name i m)"

definition cJSON_AddFalseToObject :: "(nat \<Rightarrow> bool) \<Rightarrow> cJSON option \<Rightarrow> byte list \<Rightarrow> nat \<Rightarrow> (cJSON option \<times> nat) option" where
  "cJSON_AddFalseToObject mem object name m =
     (let (i, m) = cJSON_CreateFalse mem m in cJSON_AddItemToObject mem object name i m)"

definition cJSON_AddBoolToObject ::
  "(nat \<Rightarrow> bool) \<Rightarrow> cJSON option \<Rightarrow> byte list \<Rightarrow> int \<Rightarrow> nat \<Rightarrow> (cJSON option \<times> nat) option" where
  "cJSON_AddBoolToObject mem object name b m =
     (let (i, m) = cJSON_CreateBool b mem m in cJSON_AddItemToObject mem object name i m)"

text \<open>The macros that set a number: the \<open>double\<close> first, then the integer from it.\<close>

definition cJSON_SetNumberValue :: "cJSON option \<Rightarrow> double \<Rightarrow> cJSON option" where
  "cJSON_SetNumberValue object val =
     map_option (\<lambda>ob. Item (ctype ob) (valuestring ob) (double_to_int val) val (cstring ob) (children ob)) object"

definition cJSON_SetIntValue :: "cJSON option \<Rightarrow> i32 \<Rightarrow> cJSON option" where
  "cJSON_SetIntValue object val = cJSON_SetNumberValue object (Fin (of_int (sint val)))"

lemma set_int_value:
  "cJSON_SetIntValue (Some ob) val = Some (Item (ctype ob) (valuestring ob) (sint val) (Fin (of_int (sint val))) (cstring ob) (children ob))"
proof -
  have "double_to_int (Fin (of_int (sint val))) = sint val"
    by (rule double_to_int_of_int) (use sint_range_size [of val] in \<open>simp_all add: INT_MIN_def INT_MAX_def word_size\<close>)
  then show ?thesis by (simp add: cJSON_SetIntValue_def cJSON_SetNumberValue_def)
qed

definition cJSON_DetachItemFromArray :: "cJSON \<Rightarrow> int \<Rightarrow> cJSON option \<times> cJSON" where
  "cJSON_DetachItemFromArray array which = (let k = nat which; cs = children array in
     if k < length cs then (Some (cs ! k), set_children array (take k cs @ drop (Suc k) cs)) else (None, array))"

definition cJSON_DeleteItemFromArray :: "cJSON \<Rightarrow> int \<Rightarrow> cJSON \<times> nat" where
  "cJSON_DeleteItemFromArray array which = (let (c, a) = cJSON_DetachItemFromArray array which in
     (a, case c of None \<Rightarrow> 0 | Some c \<Rightarrow> cJSON_Delete c))"

definition find_name :: "cJSON \<Rightarrow> byte list \<Rightarrow> nat" where
  "find_name object string = length (takeWhile (\<lambda>c. \<not> cJSON_strcasecmp_eq (cstring c) (Some string)) (children object))"

definition cJSON_DetachItemFromObject :: "cJSON \<Rightarrow> byte list \<Rightarrow> cJSON option \<times> cJSON" where
  "cJSON_DetachItemFromObject object string = (let i = find_name object string in
     if i < length (children object) then cJSON_DetachItemFromArray object (int i) else (None, object))"

definition cJSON_DeleteItemFromObject :: "cJSON \<Rightarrow> byte list \<Rightarrow> cJSON \<times> nat" where
  "cJSON_DeleteItemFromObject object string = (let (c, a) = cJSON_DetachItemFromObject object string in
     (a, case c of None \<Rightarrow> 0 | Some c \<Rightarrow> cJSON_Delete c))"

definition cJSON_InsertItemInArray :: "cJSON \<Rightarrow> int \<Rightarrow> cJSON \<Rightarrow> cJSON" where
  "cJSON_InsertItemInArray array which newitem = (let k = nat which; cs = children array in
     if k < length cs then set_children array (take k cs @ newitem # drop k cs)
     else set_children array (cs @ [newitem]))"

definition cJSON_ReplaceItemInArray :: "cJSON \<Rightarrow> int \<Rightarrow> cJSON \<Rightarrow> cJSON" where
  "cJSON_ReplaceItemInArray array which newitem =
     (if nat which < length (children array) then set_children array ((children array) [nat which := newitem]) else array)"

definition cJSON_ReplaceItemInObject :: "(nat \<Rightarrow> bool) \<Rightarrow> cJSON \<Rightarrow> byte list \<Rightarrow> cJSON \<Rightarrow> nat \<Rightarrow> cJSON \<times> nat" where
  "cJSON_ReplaceItemInObject mem object string newitem m = (let i = find_name object string in
     if i < length (children object)
     then let (nm, m) = strdup mem string m
       in (cJSON_ReplaceItemInArray object (int i) (set_name newitem nm), m)
     else (object, m))"

subsection \<open>Copying\<close>

text \<open>The copy without its children: \<open>type\<close> without \<open>cJSON_IsReference\<close>, then the two strings.\<close>

definition dup_head :: "(nat \<Rightarrow> bool) \<Rightarrow> cJSON \<Rightarrow> nat \<Rightarrow> cJSON option \<times> nat" where
  "dup_head mem item m = (case cJSON_New_Item mem m of (None, m) \<Rightarrow> (None, m)
     | (Some _, m) \<Rightarrow>
       (case (case valuestring item of None \<Rightarrow> (Some None, m)
                | Some s \<Rightarrow> (let (r, m) = strdup mem s m in (map_option Some r, m))) of
          (None, m) \<Rightarrow> (None, m)
        | (Some vs, m) \<Rightarrow>
          (case (case cstring item of None \<Rightarrow> (Some None, m)
                   | Some s \<Rightarrow> (let (r, m) = strdup mem s m in (map_option Some r, m))) of
             (None, m) \<Rightarrow> (None, m)
           | (Some nm, m) \<Rightarrow>
             (Some (Item (if flag_set (ctype item) cJSON_IsReference then ctype item - cJSON_IsReference else ctype item)
                vs (valueint item) (valuedouble item) nm []), m))))"

fun dup_item :: "(nat \<Rightarrow> bool) \<Rightarrow> cJSON \<Rightarrow> nat \<Rightarrow> cJSON option \<times> nat"
  and dup_items :: "(nat \<Rightarrow> bool) \<Rightarrow> cJSON list \<Rightarrow> nat \<Rightarrow> cJSON list option \<times> nat"
where
  "dup_item mem (Item t vs vi vd nm cs) m = (case dup_head mem (Item t vs vi vd nm []) m of
       (None, m) \<Rightarrow> (None, m)
     | (Some i, m) \<Rightarrow> (let (r, m) = dup_items mem cs m in (map_option (set_children i) r, m)))"
| "dup_items mem [] m = (Some [], m)"
| "dup_items mem (c # cs) m = (case dup_item mem c m of (None, m) \<Rightarrow> (None, m)
     | (Some d, m) \<Rightarrow> (let (r, m) = dup_items mem cs m in (map_option (\<lambda>ds. d # ds) r, m)))"

definition cJSON_Duplicate :: "(nat \<Rightarrow> bool) \<Rightarrow> cJSON option \<Rightarrow> bool \<Rightarrow> nat \<Rightarrow> cJSON option \<times> nat" where
  "cJSON_Duplicate mem item recurse m = (case item of None \<Rightarrow> (None, m)
     | Some i \<Rightarrow> if recurse then dup_item mem i m else dup_head mem i m)"

subsection \<open>Hooks\<close>

text \<open>The allocator of the C library is \<open>malloc\<close> and \<open>free\<close>; the result is what \<open>cJSON_malloc\<close> and \<open>cJSON_free\<close> are set to.\<close>

record ('m, 'f) cJSON_Hooks =
  malloc_fn :: "'m option"
  free_fn :: "'f option"

definition cJSON_InitHooks :: "'m \<Rightarrow> 'f \<Rightarrow> ('m, 'f) cJSON_Hooks option \<Rightarrow> 'm \<times> 'f" where
  "cJSON_InitHooks malloc free hooks = (case hooks of None \<Rightarrow> (malloc, free)
     | Some hs \<Rightarrow> (case malloc_fn hs of None \<Rightarrow> malloc | Some f \<Rightarrow> f, case free_fn hs of None \<Rightarrow> free | Some f \<Rightarrow> f))"

end
