(* ===== verification/CjsonWf.thy ===== *)
theory CjsonWf
  imports CjsonBuild
begin

text \<open>
  The shape of the items that the parser builds, what it allocates for them and what
  \<open>cJSON_Delete\<close> frees, and the functional behaviour of the editing operations and of copying.
\<close>

subsection \<open>The type invariant\<close>

definition named :: "cJSON \<Rightarrow> bool" where
  "named c \<longleftrightarrow> (case cstring c of None \<Rightarrow> False | Some s \<Rightarrow> 0 \<notin> set s)"

text \<open>
  A type of \<open>cJSON.h\<close> without flags, a C string in \<open>valuestring\<close> for strings and for nothing else,
  children only in arrays (without names) and objects (with names).
\<close>

fun wf_item :: "cJSON \<Rightarrow> bool" where
  "wf_item (Item t vs vi vd nm cs) \<longleftrightarrow> 0 \<le> t \<and> t \<le> 6 \<and>
     (case vs of None \<Rightarrow> t \<noteq> cJSON_String | Some s \<Rightarrow> t = cJSON_String \<and> 0 \<notin> set s) \<and>
     (cs = [] \<or> t = cJSON_Array \<or> t = cJSON_Object) \<and>
     list_all (\<lambda>c. wf_item c \<and> (if t = cJSON_Object then named c else cstring c = None)) cs"

text \<open>An item as the parser receives it: \<open>wf_item\<close> but for its value.\<close>

definition fresh :: "cJSON \<Rightarrow> bool" where
  "fresh i \<longleftrightarrow> 0 \<le> ctype i \<and> ctype i \<le> 6 \<and> valuestring i = None \<and> children i = []"

lemma fresh_simps [simp]:
  "fresh zero_item" "fresh (Item cJSON_String None vi vd nm [])"
  by (simp_all add: fresh_def zero_item_def cJSON_String_def)

lemma no_flags: "0 \<le> t \<Longrightarrow> t \<le> 6 \<Longrightarrow> \<not> flag_set t cJSON_IsReference \<and> \<not> flag_set t cJSON_StringIsConst"
  by (simp add: flag_set_def cJSON_IsReference_def cJSON_StringIsConst_def div_pos_pos_trivial)

text \<open>What a successful step returns, started at item \<open>i\<close> with \<open>m\<close> allocations made.\<close>

definition post :: "('a \<Rightarrow> bool) \<Rightarrow> 'a pres \<Rightarrow> bool" where
  "post P r \<longleftrightarrow> (\<forall>x. r = Ok x \<longrightarrow> P x)"

lemma post_simps [simp]: "post P Fault" "post P OutOfFuel" "post P (Fail ep)" "post P (Ok x) \<longleftrightarrow> P x"
  by (auto simp: post_def)

lemma post_bind: "post Q r \<Longrightarrow> (\<And>x. Q x \<Longrightarrow> post P (f x)) \<Longrightarrow> post P (bind_p r f)"
  by (cases r) auto

lemma post_bind_any: "(\<And>x. post P (f x)) \<Longrightarrow> post P (bind_p r f)"
  by (cases r) auto

lemma post_malloc: "post P (f (Suc m)) \<Longrightarrow> post P (cj_malloc mem m f)"
  by (simp add: cj_malloc_def)

lemma post_split: "(\<And>a b. x = (a, b) \<Longrightarrow> post P (f a b)) \<Longrightarrow> post P (case x of (a, b) \<Rightarrow> f a b)"
  by (cases x) simp

lemma post_if: "(c \<Longrightarrow> post P a) \<Longrightarrow> (\<not> c \<Longrightarrow> post P b) \<Longrightarrow> post P (if c then a else b)"
  by simp

definition built :: "cJSON \<Rightarrow> nat \<Rightarrow> cJSON \<times> byte list \<times> nat \<Rightarrow> bool" where
  "built i m = (\<lambda>(c, q, m'). wf_item c \<and> cstring c = cstring i \<and> cJSON_Delete c + m = cJSON_Delete i + m' \<and> m \<le> m')"

text \<open>The children of an array or object, and the allocations made for them.\<close>

definition built_all :: "(cJSON \<Rightarrow> bool) \<Rightarrow> nat \<Rightarrow> cJSON list \<times> byte list \<times> nat \<Rightarrow> bool" where
  "built_all N m = (\<lambda>(cs, q, m'). list_all (\<lambda>c. wf_item c \<and> N c) cs \<and>
     sum_list (map cJSON_Delete cs) + m = m' \<and> m \<le> m')"

lemma cJSON_Delete_fresh:
  assumes "fresh i"
  shows "cJSON_Delete i = (if cstring i = None then 1 else 2)"
  using assms no_flags [of "ctype i"] by (cases i) (auto simp: fresh_def)

lemma c_string_no_zero: "0 \<notin> set (c_string bs)"
  by (auto simp: c_string_def dest: set_takeWhileD)

definition string_item :: "cJSON \<Rightarrow> byte list \<Rightarrow> cJSON" where
  "string_item i s = Item cJSON_String (Some s) (valueint i) (valuedouble i) (cstring i) (children i)"

lemma parse_string_item:
  "post (\<lambda>(c, q, m'). (\<exists>s. c = string_item i s \<and> 0 \<notin> set s) \<and> m' = Suc m) (parse_string mem i p m)"
  unfolding parse_string_def Let_def
  by (intro post_bind_any post_if post_malloc post_split) (auto simp: string_item_def c_string_no_zero)

lemma string_item_built:
  assumes "fresh i" "0 \<notin> set s"
  shows "built i m (string_item i s, q, Suc m)"
  using assms no_flags [of cJSON_String] cJSON_Delete_fresh [of i]
  by (cases i) (auto simp: built_def string_item_def fresh_def cj_type_defs)

lemma parse_string_built: "fresh i \<Longrightarrow> post (built i m) (parse_string mem i p m)"
  using parse_string_item [of i m mem p] string_item_built by (fastforce simp: post_def)

lemma Delete_simps [simp]:
  "cJSON_Delete zero_item = 1" "cJSON_Delete (Item cJSON_String None vi vd (Some s) []) = 2"
  by (simp_all add: zero_item_def flag_set_def cJSON_IsReference_def cJSON_StringIsConst_def cJSON_String_def)

declare cJSON_Delete.simps [simp del]

lemma cstring_zero_item [simp]: "cstring zero_item = None"
  by (simp add: zero_item_def)

definition built_by :: "value_parser \<Rightarrow> bool" where
  "built_by pv \<longleftrightarrow> (\<forall>i p m. fresh i \<longrightarrow> post (built i m) (pv i p m))"

lemma built_byD: "built_by pv \<Longrightarrow> fresh i \<Longrightarrow> post (built i m) (pv i p m)"
  by (simp add: built_by_def)

lemma built_all_snoc:
  assumes "built_all N k (cs, q, m)" "wf_item c" "N c" "cJSON_Delete c + m = m'" "m \<le> m'"
  shows "built_all N k (cs @ [c], q', m')"
  using assms by (auto simp: built_all_def)

lemma elems_built:
  assumes "built_by pv"
  shows "built_all (\<lambda>c. cstring c = None) k (cs, q, m) \<Longrightarrow>
    post (built_all (\<lambda>c. cstring c = None) k) (parse_elems n pv mem cs p m)"
proof (induction n arbitrary: cs p q m)
  case (Suc n)
  have more: "built_all (\<lambda>c. cstring c = None) k (cs @ [c], q', m')" if "built zero_item (Suc m) (c, q'', m')" for c q' q'' m'
    using built_all_snoc [OF Suc.prems, of c m' q'] that by (auto simp: built_def)
  have tail: "post (built_all (\<lambda>c. cstring c = None) k) (bind_p (skip v) (\<lambda>value. bind_p (read_p value) (\<lambda>b.
      if b = 44 then parse_elems n pv mem (cs @ [c]) (tl value) m' else Ok (cs @ [c], value, m'))))"
    if "built zero_item (Suc m) (c, v, m')" for c v m'
    by (intro post_bind_any post_if Suc.IH) (use more [OF that] in auto)
  show ?case
    unfolding parse_elems.simps
  proof (rule post_malloc, rule post_bind_any, rule post_bind [OF built_byD [OF assms fresh_simps(1)]])
    fix x :: "cJSON \<times> byte list \<times> nat"
    assume "built zero_item (Suc m) x"
    with tail show "post (built_all (\<lambda>c. cstring c = None) k) (case x of (c, value, m) \<Rightarrow> bind_p (skip value)
      (\<lambda>value. bind_p (read_p value) (\<lambda>b. if b = 44 then parse_elems n pv mem (cs @ [c]) (tl value) m
        else Ok (cs @ [c], value, m))))"
      by (cases x) simp
  qed
qed simp

lemma members_built:
  assumes "built_by pv"
  shows "built_all named k (cs, q, m) \<Longrightarrow> post (built_all named k) (parse_members n pv mem cs p m)"
proof (induction n arbitrary: cs p q m)
  case (Suc n)
  have tail: "post (built_all named k) (bind_p (skip v) (\<lambda>value. bind_p (read_p value) (\<lambda>b.
      if b = 44 then parse_members n pv mem (cs @ [d]) (tl value) m' else Ok (cs @ [d], value, m'))))"
    if "0 \<notin> set s" "built (name_item (string_item zero_item s)) (Suc (Suc m)) (d, v, m')" for s d v m'
  proof -
    have "named d" "cJSON_Delete d + m = m'" "m \<le> m'" "wf_item d"
      using that by (auto simp: built_def name_item_def string_item_def named_def zero_item_def)
    then have "built_all named k (cs @ [d], q', m')" for q'
      using built_all_snoc [OF Suc.prems] by blast
    then show ?thesis by (intro post_bind_any post_if Suc.IH) auto
  qed
  have fresh: "fresh (name_item (string_item zero_item s))" for s
    by (simp add: name_item_def string_item_def zero_item_def)
  show ?case
    unfolding parse_members.simps
  proof (rule post_malloc, rule post_bind_any, rule post_bind [OF parse_string_item])
    fix x :: "cJSON \<times> byte list \<times> nat"
    assume x: "case x of (c, q, m') \<Rightarrow> (\<exists>s. c = string_item zero_item s \<and> 0 \<notin> set s) \<and> m' = Suc (Suc m)"
    then obtain s v where s: "x = (string_item zero_item s, v, Suc (Suc m))" "0 \<notin> set s" by (cases x) auto
    have "post (built_all named k) (case y of (c, value, m) \<Rightarrow> bind_p (skip value) (\<lambda>value. bind_p (read_p value)
        (\<lambda>b. if b = 44 then parse_members n pv mem (cs @ [c]) (tl value) m else Ok (cs @ [c], value, m))))"
      if "built (name_item (string_item zero_item s)) (Suc (Suc m)) y" for y
      using tail [OF s(2)] that by (cases y) simp
    then show "post (built_all named k) (case x of (c, value, m) \<Rightarrow> bind_p (skip value) (\<lambda>value. bind_p (read_p value)
        (\<lambda>b. if b \<noteq> 58 then Fail (Some value) else bind_p (skip (tl value)) (\<lambda>value. bind_p (pv (name_item c) value m)
        (\<lambda>(c, value, m). bind_p (skip value) (\<lambda>value. bind_p (read_p value)
        (\<lambda>b. if b = 44 then parse_members n pv mem (cs @ [c]) (tl value) m else Ok (cs @ [c], value, m))))))))"
      unfolding s prod.case
      by (intro post_bind_any post_if post_bind [OF built_byD [OF assms fresh]]) auto
  qed
qed simp

lemma built_item:
  assumes "fresh i" "built_all N m (cs, q, m')" "t = cJSON_Array \<and> N = (\<lambda>c. cstring c = None) \<or> t = cJSON_Object \<and> N = named"
  shows "built i m (Item t (valuestring i) (valueint i) (valuedouble i) (cstring i) cs, q', m')"
proof -
  have "wf_item (Item t None (valueint i) (valuedouble i) (cstring i) cs)"
    using assms(2,3) by (auto simp: built_all_def cj_type_defs)
  moreover have "cJSON_Delete (Item t None (valueint i) (valuedouble i) (cstring i) cs) + m = cJSON_Delete i + m'"
    using assms no_flags [of t] cJSON_Delete_fresh [OF assms(1)]
    by (auto simp: built_all_def cj_type_defs cJSON_Delete.simps)
  ultimately show ?thesis using assms(1,2) by (simp add: built_def fresh_def built_all_def)
qed

lemma built_nil: "built_all N m ([], q, m)"
  by (simp add: built_all_def)

lemma array_built:
  assumes "built_by pv" "fresh i"
  shows "post (built i m) (parse_array n pv mem i p m)"
proof -
  have empty: "built i m (set_type cJSON_Array i, q, m)" for q
    using built_item [OF assms(2) built_nil [of "\<lambda>c. cstring c = None" m], of cJSON_Array] assms(2)
    by (simp add: set_type_def fresh_def)
  have elems: "post (built i m) (case x of (cs, value, m) \<Rightarrow> bind_p (read_p value) (\<lambda>c. if c = 93
      then Ok (Item cJSON_Array (valuestring i) (valueint i) (valuedouble i) (cstring i) cs, tl value, m)
      else Fail (Some value)))" if "built_all (\<lambda>c. cstring c = None) m x" for x
    using built_item [OF assms(2), of _ m] that
    by (cases x) (auto intro!: post_bind_any)
  show ?thesis
    unfolding parse_array_def
  proof (rule post_bind_any, rule post_if, simp, rule post_bind_any, rule post_bind_any, rule post_if)
    show "post (built i m) (bind_p (parse_elems n pv mem [] v m) (\<lambda>(cs, value, m). bind_p (read_p value) (\<lambda>c. if c = 93
        then Ok (Item cJSON_Array (valuestring i) (valueint i) (valuedouble i) (cstring i) cs, tl value, m)
        else Fail (Some value))))" for v
      by (rule post_bind [OF elems_built [OF assms(1) built_nil]]) (rule elems)
  qed (simp add: empty)
qed

lemma object_built:
  assumes "built_by pv" "fresh i"
  shows "post (built i m) (parse_object n pv mem i p m)"
proof -
  have empty: "built i m (set_type cJSON_Object i, q, m)" for q
    using built_item [OF assms(2) built_nil [of named m], of cJSON_Object] assms(2)
    by (simp add: set_type_def fresh_def)
  have elems: "post (built i m) (case x of (cs, value, m) \<Rightarrow> bind_p (read_p value) (\<lambda>c. if c = 125
      then Ok (Item cJSON_Object (valuestring i) (valueint i) (valuedouble i) (cstring i) cs, tl value, m)
      else Fail (Some value)))" if "built_all named m x" for x
    using built_item [OF assms(2), of _ m] that
    by (cases x) (auto intro!: post_bind_any)
  show ?thesis
    unfolding parse_object_def
  proof (rule post_bind_any, rule post_if, simp, rule post_bind_any, rule post_bind_any, rule post_if)
    show "post (built i m) (bind_p (parse_members n pv mem [] v m) (\<lambda>(cs, value, m). bind_p (read_p value) (\<lambda>c. if c = 125
        then Ok (Item cJSON_Object (valuestring i) (valueint i) (valuedouble i) (cstring i) cs, tl value, m)
        else Fail (Some value))))" for v
      by (rule post_bind [OF members_built [OF assms(1) built_nil]]) (rule elems)
  qed (simp add: empty)
qed

text \<open>A value without children: its type is not that of strings.\<close>

lemma leaf_built:
  assumes "fresh i" "0 \<le> t" "t \<le> 6" "t \<noteq> cJSON_String"
  shows "built i m (Item t (valuestring i) vi vd (cstring i) (children i), q, m)"
  using assms cJSON_Delete_fresh [of i] cJSON_Delete_fresh [of "Item t None vi vd (cstring i) []"]
  by (simp add: built_def fresh_def)

lemma parse_number_item:
  "post (\<lambda>(c, q). \<exists>vi vd. c = Item cJSON_Number (valuestring i) vi vd (cstring i) (children i)) (parse_number i p)"
  unfolding parse_number_def Let_def
  by (intro post_bind_any post_split) auto

lemma value_built: "built_by (parse_value n mem)"
proof (induction n)
  case (Suc n)
  have num: "post (built i m) (bind_p (parse_number i p) (\<lambda>(i, p). Ok (i, p, m)))" if "fresh i" for i p m
    by (rule post_bind [OF parse_number_item])
      (use leaf_built [OF that, of cJSON_Number] in \<open>auto simp: cj_type_defs\<close>)
  have "post (built i m) (parse_value (Suc n) mem i p m)" if "fresh i" for i p m
    unfolding parse_value.simps
    by (intro post_bind_any post_if num parse_string_built array_built [OF Suc] object_built [OF Suc] that)
      (use leaf_built [OF that] in \<open>simp_all add: set_type_def cj_type_defs\<close>)
  then show ?case by (simp add: built_by_def del: parse_value.simps)
qed (simp add: built_by_def)

text \<open>C34: Whatever the input and whichever allocations fail, an item that \<open>cJSON_Parse\<close> returns is well
  formed: its type is one of the seven of \<open>cJSON.h\<close> without flags, exactly strings have a
  \<open>valuestring\<close>, only arrays and objects have children, and exactly the children of objects have
  names.\<close>

theorem cjson_parse_well_formed:
  "case cJSON_Parse mem input of Ok c \<Rightarrow> wf_item c \<and> cstring c = None | _ \<Rightarrow> True"
proof -
  have "post (\<lambda>(c, q). wf_item c \<and> cstring c = None) (cJSON_ParseWithOpts mem input False)"
    unfolding cJSON_ParseWithOpts_def
  proof (rule post_malloc, rule post_bind_any, rule post_bind [OF built_byD [OF value_built fresh_simps(1)]])
    fix x :: "cJSON \<times> byte list \<times> nat"
    assume "built zero_item (Suc 0) x"
    then show "post (\<lambda>(c, q). wf_item c \<and> cstring c = None) (case x of (c, end, _) \<Rightarrow> if False then
        bind_p (skip end) (\<lambda>end. bind_p (read_p end) (\<lambda>b. if b \<noteq> 0 then Fail (Some end) else Ok (c, end))) else Ok (c, end))"
      by (cases x) (simp add: built_def)
  qed
  then show ?thesis
    by (auto simp: cJSON_Parse_def post_def bind_p_def split: pres.splits)
qed

text \<open>The parser and \<open>cJSON_Delete\<close> balance: deleting the item that \<open>parse_value\<close> has filled frees as
  many blocks as were allocated for it, the item itself included.\<close>

theorem cjson_delete_balances:
  "case parse_value n mem zero_item p m of Ok (c, q, m') \<Rightarrow> m \<le> m' \<and> cJSON_Delete c = 1 + (m' - m) | _ \<Rightarrow> True"
proof -
  have "post (built zero_item m) (parse_value n mem zero_item p m)"
    by (rule built_byD [OF value_built fresh_simps(1)])
  then show ?thesis by (auto simp: post_def built_def split: pres.splits)
qed

subsection \<open>Copying\<close>

fun blocks_of :: "cJSON \<Rightarrow> nat" where
  "blocks_of (Item t vs vi vd nm cs) =
     1 + (if vs \<noteq> None then 1 else 0) + (if nm \<noteq> None then 1 else 0) + sum_list (map blocks_of cs)"

text \<open>Without flags an item and its copy are equal.\<close>

fun flagless :: "cJSON \<Rightarrow> bool" where
  "flagless (Item t vs vi vd nm cs) \<longleftrightarrow> \<not> flag_set t cJSON_IsReference \<and> list_all flagless cs"

lemma dup_exact:
  "flagless c \<Longrightarrow> (\<And>k. mem k) \<Longrightarrow> dup_item mem c m = (Some c, m + blocks_of c)"
  "list_all flagless cs \<Longrightarrow> (\<And>k. mem k) \<Longrightarrow> dup_items mem cs m = (Some cs, m + sum_list (map blocks_of cs))"
proof (induction mem c m and mem cs m rule: dup_item_dup_items.induct)
  case (1 mem t vs vi vd nm cs m)
  then show ?case
    by (cases vs; cases nm) (auto simp: dup_head_def cJSON_New_Item_def Let_def set_children_def)
qed (auto simp: Let_def)

lemma wf_flagless: "wf_item c \<Longrightarrow> flagless c"
proof (induction c rule: flagless.induct)
  case (1 t vs vi vd nm cs)
  then show ?case by (auto simp: no_flags list_all_iff)
qed

text \<open>A recursive \<open>cJSON_Duplicate\<close> of a well-formed item is an equal item, built with one allocation
  for every item and every string in it.\<close>

theorem cjson_duplicate_equal:
  assumes "wf_item c"
  shows "cJSON_Duplicate (\<lambda>_. True) (Some c) True m = (Some c, m + blocks_of c)"
  using dup_exact(1) [OF wf_flagless [OF assms], of "\<lambda>_. True" m] by (simp add: cJSON_Duplicate_def)

theorem cjson_duplicate_equal_witness:
  "cJSON_Duplicate (\<lambda>_. True) (Some (Item cJSON_Array None 0 (Fin 0) None [Item cJSON_True None 1 (Fin 0) None []])) True 0 =
    (Some (Item cJSON_Array None 0 (Fin 0) None [Item cJSON_True None 1 (Fin 0) None []]), 2)"
  using cjson_duplicate_equal [of "Item cJSON_Array None 0 (Fin 0) None [Item cJSON_True None 1 (Fin 0) None []]" 0]
  by (simp add: cj_type_defs)

text \<open>The copy of an item with a constant name gets an allocated name but keeps the flag
  \<open>cJSON_StringIsConst\<close>, so deleting the copy leaves that block behind.\<close>

theorem cjson_duplicate_leaks_const_name:
  "case cJSON_Duplicate (\<lambda>_. True) (Some (Item (cJSON_Number + cJSON_StringIsConst) None i d (Some nm) [])) True m of
     (Some c, m') \<Rightarrow> m' - m = 2 \<and> cJSON_Delete c = 1 | _ \<Rightarrow> False"
  by (simp add: cJSON_Duplicate_def dup_head_def cJSON_New_Item_def cJSON_Number_def cJSON_StringIsConst_def
      cJSON_IsReference_def flag_set_def cJSON_Delete.simps set_children_def)

subsection \<open>Editing\<close>

text \<open>Inserting an item and detaching it at the same place gives back the item and the old array, and
  an item replaced or appended is the one found there.\<close>

theorem cjson_edits:
  assumes "0 \<le> k" "k \<le> int (length (children a))"
  shows "cJSON_DetachItemFromArray (cJSON_InsertItemInArray a k x) k = (Some x, a) \<and>
    cJSON_GetArraySize (cJSON_InsertItemInArray a k x) = cJSON_GetArraySize a + 1 \<and>
    cJSON_GetArrayItem (cJSON_ReplaceItemInArray a k x) k = (if k < cJSON_GetArraySize a then Some x else None) \<and>
    map_option (\<lambda>b. cJSON_GetArrayItem b (cJSON_GetArraySize a)) (cJSON_AddItemToArray (Some a) (Some x)) = Some (Some x)"
proof -
  have k: "nat k \<le> length (children a)" using assms(2) by simp
  then show ?thesis
    using assms
    by (auto simp: cJSON_DetachItemFromArray_def cJSON_InsertItemInArray_def cJSON_GetArraySize_def Let_def
        cJSON_GetArrayItem_def cJSON_ReplaceItemInArray_def cJSON_AddItemToArray_def nth_append min_def)
qed

theorem cjson_edits_witness:
  "cJSON_DetachItemFromArray (cJSON_InsertItemInArray (set_type cJSON_Array zero_item) 0 zero_item) 0 =
    (Some zero_item, set_type cJSON_Array zero_item)"
  using cjson_edits [of 0 "set_type cJSON_Array zero_item" zero_item] by simp

end
