(* ===== verification/CjsonHeap.thy ===== *)
theory CjsonHeap
  imports CjsonWf "HOL-Library.Monad_Syntax"
begin

text \<open>
  The items of \<open>cJSON.c\<close> as they lie in memory: nodes with the pointers \<open>next\<close>, \<open>prev\<close> and \<open>child\<close>, and strings,
  each in a block of its own. The functions make the assignments of the C functions in their order and read a field
  again where the C text does. \<open>None\<close> is an access to a node or string that is not allocated, or a run without an
  end. \<open>cj_consts\<close> are the string constants, which can be read but not freed. They are proved to do what the functions on trees of \<open>CjsonBuild\<close> do, and the two operations for items
  that share the children of others, which trees cannot express, are modelled here.
\<close>

subsection \<open>Nodes\<close>

type_synonym ptr = nat

record cjnode =
  n_next :: ptr
  n_prev :: ptr
  n_child :: ptr
  n_type :: int
  n_valuestring :: ptr
  n_valueint :: int
  n_valuedouble :: double
  n_string :: ptr

record cjheap =
  cj_nodes :: "ptr \<rightharpoonup> cjnode"
  cj_strs :: "ptr \<rightharpoonup> byte list"
  cj_consts :: "ptr \<rightharpoonup> byte list"

abbreviation cj_node :: "cjheap \<Rightarrow> ptr \<Rightarrow> cjnode option" where
  "cj_node h p \<equiv> cj_nodes h p"

definition cj_set :: "ptr \<Rightarrow> (cjnode \<Rightarrow> cjnode) \<Rightarrow> cjheap \<Rightarrow> cjheap option" where
  "cj_set p f h = map_option (\<lambda>n. h\<lparr>cj_nodes := (cj_nodes h)(p \<mapsto> f n)\<rparr>) (cj_nodes h p)"

definition set_next :: "ptr \<Rightarrow> ptr \<Rightarrow> cjheap \<Rightarrow> cjheap option" where "set_next p v = cj_set p (\<lambda>n. n\<lparr>n_next := v\<rparr>)"
definition set_prev :: "ptr \<Rightarrow> ptr \<Rightarrow> cjheap \<Rightarrow> cjheap option" where "set_prev p v = cj_set p (\<lambda>n. n\<lparr>n_prev := v\<rparr>)"
definition set_child :: "ptr \<Rightarrow> ptr \<Rightarrow> cjheap \<Rightarrow> cjheap option" where "set_child p v = cj_set p (\<lambda>n. n\<lparr>n_child := v\<rparr>)"

definition cj_free_node :: "ptr \<Rightarrow> cjheap \<Rightarrow> cjheap option" where
  "cj_free_node p h = (if cj_nodes h p = None then None else Some (h\<lparr>cj_nodes := (cj_nodes h)(p := None)\<rparr>))"

definition cj_free_str :: "ptr \<Rightarrow> cjheap \<Rightarrow> cjheap option" where
  "cj_free_str p h = (if cj_strs h p = None then None else Some (h\<lparr>cj_strs := (cj_strs h)(p := None)\<rparr>))"

subsection \<open>The operations\<close>

definition hp_suffix_object :: "ptr \<Rightarrow> ptr \<Rightarrow> cjheap \<Rightarrow> cjheap option" where
  "hp_suffix_object prev item h = do { h \<leftarrow> set_next prev item h; set_prev item prev h }"

text \<open>\<open>new\<close> is what \<open>cJSON_malloc\<close> returns, 0 for \<open>NULL\<close>.\<close>

definition hp_create_reference :: "ptr \<Rightarrow> ptr \<Rightarrow> cjheap \<Rightarrow> (ptr \<times> cjheap) option" where
  "hp_create_reference new item h = (if new = 0 then Some (0, h)
     else do { n \<leftarrow> cj_node h item;
       Some (new, h\<lparr>cj_nodes := (cj_nodes h)(new \<mapsto> n\<lparr>n_string := 0,
         n_type := (if flag_set (n_type n) cJSON_IsReference then n_type n else n_type n + cJSON_IsReference),
         n_next := 0, n_prev := 0\<rparr>)\<rparr>) })"

partial_function (option) hp_last :: "cjheap \<Rightarrow> ptr \<Rightarrow> ptr option" where
  "hp_last h c = do { n \<leftarrow> cj_node h c; if n_next n = 0 then Some c else hp_last h (n_next n) }"

definition hp_AddItemToArray :: "ptr \<Rightarrow> ptr \<Rightarrow> cjheap \<Rightarrow> cjheap option" where
  "hp_AddItemToArray array item h = do { a \<leftarrow> cj_node h array;
     if item = 0 then Some h
     else if n_child a = 0 then set_child array item h
     else do { c \<leftarrow> hp_last h (n_child a); hp_suffix_object c item h } }"

text \<open>\<open>str\<close> is the block that \<open>cJSON_strdup\<close> returns for the name.\<close>

definition hp_AddItemToObject :: "ptr \<Rightarrow> byte list \<Rightarrow> ptr \<Rightarrow> ptr \<Rightarrow> cjheap \<Rightarrow> cjheap option" where
  "hp_AddItemToObject object string item str h = (if item = 0 then Some h
     else do { n \<leftarrow> cj_node h item;
       h \<leftarrow> (if n_string n \<noteq> 0 then cj_free_str (n_string n) h else Some h);
       let h = (if str = 0 then h else h\<lparr>cj_strs := (cj_strs h)(str \<mapsto> string)\<rparr>);
       h \<leftarrow> cj_set item (\<lambda>n. n\<lparr>n_string := str\<rparr>) h;
       hp_AddItemToArray object item h })"

text \<open>The name is the string at \<open>string\<close>, which is not copied.\<close>

definition hp_AddItemToObjectCS :: "ptr \<Rightarrow> ptr \<Rightarrow> ptr \<Rightarrow> cjheap \<Rightarrow> cjheap option" where
  "hp_AddItemToObjectCS object string item h = (if item = 0 then Some h
     else do { n \<leftarrow> cj_node h item;
       h \<leftarrow> (if \<not> flag_set (n_type n) cJSON_StringIsConst \<and> n_string n \<noteq> 0 then cj_free_str (n_string n) h else Some h);
       h \<leftarrow> cj_set item (\<lambda>n. n\<lparr>n_string := string,
         n_type := (if flag_set (n_type n) cJSON_StringIsConst then n_type n else n_type n + cJSON_StringIsConst)\<rparr>) h;
       hp_AddItemToArray object item h })"

definition hp_AddItemReferenceToArray :: "ptr \<Rightarrow> ptr \<Rightarrow> ptr \<Rightarrow> cjheap \<Rightarrow> cjheap option" where
  "hp_AddItemReferenceToArray array item new h = do { (r, h) \<leftarrow> hp_create_reference new item h; hp_AddItemToArray array r h }"

definition hp_AddItemReferenceToObject :: "ptr \<Rightarrow> byte list \<Rightarrow> ptr \<Rightarrow> ptr \<Rightarrow> ptr \<Rightarrow> cjheap \<Rightarrow> cjheap option" where
  "hp_AddItemReferenceToObject object string item new str h =
     do { (r, h) \<leftarrow> hp_create_reference new item h; hp_AddItemToObject object string r str h }"

text \<open>\<open>while (c && which > 0) c = c->next, which--\<close>.\<close>

fun hp_walk :: "cjheap \<Rightarrow> ptr \<Rightarrow> nat \<Rightarrow> ptr option" where
  "hp_walk h c 0 = Some c"
| "hp_walk h c (Suc k) = (if c = 0 then Some 0 else do { n \<leftarrow> cj_node h c; hp_walk h (n_next n) k })"

definition hp_DetachItemFromArray :: "ptr \<Rightarrow> int \<Rightarrow> cjheap \<Rightarrow> (ptr \<times> cjheap) option" where
  "hp_DetachItemFromArray array which h = do { a \<leftarrow> cj_node h array; c \<leftarrow> hp_walk h (n_child a) (nat which);
     if c = 0 then Some (0, h)
     else do { n \<leftarrow> cj_node h c;
       h \<leftarrow> (if n_prev n \<noteq> 0 then set_next (n_prev n) (n_next n) h else Some h);
       n \<leftarrow> cj_node h c;
       h \<leftarrow> (if n_next n \<noteq> 0 then set_prev (n_next n) (n_prev n) h else Some h);
       a \<leftarrow> cj_node h array;
       n \<leftarrow> cj_node h c;
       h \<leftarrow> (if c = n_child a then set_child array (n_next n) h else Some h);
       h \<leftarrow> set_next c 0 h;
       h \<leftarrow> set_prev c 0 h;
       Some (c, h) } }"

partial_function (option) hp_Delete :: "ptr \<Rightarrow> cjheap \<Rightarrow> cjheap option" where
  "hp_Delete c h = (if c = 0 then Some h
     else do { n \<leftarrow> cj_node h c;
       h \<leftarrow> (if \<not> flag_set (n_type n) cJSON_IsReference \<and> n_child n \<noteq> 0 then hp_Delete (n_child n) h else Some h);
       m \<leftarrow> cj_node h c;
       h \<leftarrow> (if \<not> flag_set (n_type m) cJSON_IsReference \<and> n_valuestring m \<noteq> 0 then cj_free_str (n_valuestring m) h else Some h);
       h \<leftarrow> (if \<not> flag_set (n_type m) cJSON_StringIsConst \<and> n_string m \<noteq> 0 then cj_free_str (n_string m) h else Some h);
       h \<leftarrow> cj_free_node c h;
       hp_Delete (n_next n) h })"

definition hp_DeleteItemFromArray :: "ptr \<Rightarrow> int \<Rightarrow> cjheap \<Rightarrow> cjheap option" where
  "hp_DeleteItemFromArray array which h = do { (c, h) \<leftarrow> hp_DetachItemFromArray array which h; hp_Delete c h }"

definition hp_InsertItemInArray :: "ptr \<Rightarrow> int \<Rightarrow> ptr \<Rightarrow> cjheap \<Rightarrow> cjheap option" where
  "hp_InsertItemInArray array which newitem h = do { a \<leftarrow> cj_node h array; c \<leftarrow> hp_walk h (n_child a) (nat which);
     if c = 0 then hp_AddItemToArray array newitem h
     else do { h \<leftarrow> set_next newitem c h;
       n \<leftarrow> cj_node h c;
       h \<leftarrow> set_prev newitem (n_prev n) h;
       h \<leftarrow> set_prev c newitem h;
       a \<leftarrow> cj_node h array;
       if c = n_child a then set_child array newitem h
       else do { m \<leftarrow> cj_node h newitem; set_next (n_prev m) newitem h } } }"

definition hp_ReplaceItemInArray :: "ptr \<Rightarrow> int \<Rightarrow> ptr \<Rightarrow> cjheap \<Rightarrow> cjheap option" where
  "hp_ReplaceItemInArray array which newitem h = do { a \<leftarrow> cj_node h array; c \<leftarrow> hp_walk h (n_child a) (nat which);
     if c = 0 then Some h
     else do { n \<leftarrow> cj_node h c;
       h \<leftarrow> set_next newitem (n_next n) h;
       n \<leftarrow> cj_node h c;
       h \<leftarrow> set_prev newitem (n_prev n) h;
       m \<leftarrow> cj_node h newitem;
       h \<leftarrow> (if n_next m \<noteq> 0 then set_prev (n_next m) newitem h else Some h);
       a \<leftarrow> cj_node h array;
       h \<leftarrow> (if c = n_child a then set_child array newitem h
         else do { m \<leftarrow> cj_node h newitem; set_next (n_prev m) newitem h });
       h \<leftarrow> set_prev c 0 h;
       h \<leftarrow> set_next c 0 h;
       hp_Delete c h } }"

text \<open>\<open>while (c && cJSON_strcasecmp(c->string,string)) i++,c=c->next\<close>.\<close>

definition cj_name :: "cjheap \<Rightarrow> ptr \<Rightarrow> byte list option option" where
  "cj_name h p = (if p = 0 then Some None
     else map_option Some (case cj_strs h p of None \<Rightarrow> cj_consts h p | Some s \<Rightarrow> Some s))"

partial_function (option) hp_find :: "cjheap \<Rightarrow> byte list \<Rightarrow> ptr \<Rightarrow> int \<Rightarrow> (ptr \<times> int) option" where
  "hp_find h string c i = (if c = 0 then Some (c, i)
     else do { n \<leftarrow> cj_node h c; nm \<leftarrow> cj_name h (n_string n);
       if cJSON_strcasecmp_eq nm (Some string) then Some (c, i) else hp_find h string (n_next n) (i + 1) })"

definition hp_DetachItemFromObject :: "ptr \<Rightarrow> byte list \<Rightarrow> cjheap \<Rightarrow> (ptr \<times> cjheap) option" where
  "hp_DetachItemFromObject object string h = do { a \<leftarrow> cj_node h object; (c, i) \<leftarrow> hp_find h string (n_child a) 0;
     if c \<noteq> 0 then hp_DetachItemFromArray object i h else Some (0, h) }"

definition hp_DeleteItemFromObject :: "ptr \<Rightarrow> byte list \<Rightarrow> cjheap \<Rightarrow> cjheap option" where
  "hp_DeleteItemFromObject object string h = do { (c, h) \<leftarrow> hp_DetachItemFromObject object string h; hp_Delete c h }"

definition hp_ReplaceItemInObject :: "ptr \<Rightarrow> byte list \<Rightarrow> ptr \<Rightarrow> ptr \<Rightarrow> cjheap \<Rightarrow> cjheap option" where
  "hp_ReplaceItemInObject object string newitem str h = do { a \<leftarrow> cj_node h object; (c, i) \<leftarrow> hp_find h string (n_child a) 0;
     if c \<noteq> 0 then do {
       let h = (if str = 0 then h else h\<lparr>cj_strs := (cj_strs h)(str \<mapsto> string)\<rparr>);
       h \<leftarrow> cj_set newitem (\<lambda>n. n\<lparr>n_string := str\<rparr>) h;
       hp_ReplaceItemInArray object i newitem h }
     else Some h }"

subsection \<open>Trees in memory\<close>

text \<open>
  The item at \<open>p\<close> with its nodes \<open>N\<close> and strings \<open>S\<close>, all of them its own, and a chain of items from \<open>p\<close> up to \<open>q\<close> with
  the last item \<open>l\<close>, behind the item \<open>prev\<close>.
\<close>

fun str_at :: "cjheap \<Rightarrow> ptr \<Rightarrow> byte list option \<Rightarrow> ptr set \<Rightarrow> bool" where
  "str_at h p None S \<longleftrightarrow> p = 0 \<and> S = {}"
| "str_at h p (Some s) S \<longleftrightarrow> p \<noteq> 0 \<and> cj_strs h p = Some s \<and> S = {p}"

definition fields_at :: "cjheap \<Rightarrow> cjnode \<Rightarrow> cJSON \<Rightarrow> ptr set \<Rightarrow> bool" where
  "fields_at h n t S \<longleftrightarrow> n_type n = ctype t \<and> n_valueint n = valueint t \<and> n_valuedouble n = valuedouble t \<and>
     \<not> flag_set (ctype t) cJSON_IsReference \<and> \<not> flag_set (ctype t) cJSON_StringIsConst \<and>
     (\<exists>S1 S2. str_at h (n_valuestring n) (valuestring t) S1 \<and> str_at h (n_string n) (cstring t) S2 \<and> S1 \<inter> S2 = {} \<and> S = S1 \<union> S2)"

fun item_at :: "cjheap \<Rightarrow> ptr \<Rightarrow> cJSON \<Rightarrow> ptr set \<Rightarrow> ptr set \<Rightarrow> bool"
  and chain_at :: "cjheap \<Rightarrow> ptr \<Rightarrow> ptr \<Rightarrow> cJSON list \<Rightarrow> ptr \<Rightarrow> ptr \<Rightarrow> ptr set \<Rightarrow> ptr set \<Rightarrow> bool"
where
  "item_at h p (Item t vs vi vd nm cs) N S \<longleftrightarrow> p \<noteq> 0 \<and> (\<exists>n l N' S1 S2. cj_nodes h p = Some n \<and>
     fields_at h n (Item t vs vi vd nm []) S1 \<and> chain_at h (n_child n) 0 cs 0 l N' S2 \<and>
     p \<notin> N' \<and> N = insert p N' \<and> S1 \<inter> S2 = {} \<and> S = S1 \<union> S2)"
| "chain_at h p prev [] q l N S \<longleftrightarrow> p = q \<and> l = prev \<and> N = {} \<and> S = {}"
| "chain_at h p prev (c # cs) q l N S \<longleftrightarrow> (\<exists>n N1 N2 S1 S2. item_at h p c N1 S1 \<and> cj_nodes h p = Some n \<and> n_prev n = prev \<and>
     chain_at h (n_next n) p cs q l N2 S2 \<and> N1 \<inter> N2 = {} \<and> N = N1 \<union> N2 \<and> S1 \<inter> S2 = {} \<and> S = S1 \<union> S2)"

lemma item_at_iff: "item_at h p t N S \<longleftrightarrow> p \<noteq> 0 \<and> (\<exists>n l N' S1 S2. cj_nodes h p = Some n \<and>
     fields_at h n t S1 \<and> chain_at h (n_child n) 0 (children t) 0 l N' S2 \<and>
     p \<notin> N' \<and> N = insert p N' \<and> S1 \<inter> S2 = {} \<and> S = S1 \<union> S2)"
  by (cases t) (simp add: fields_at_def)

declare item_at.simps [simp del]

lemma item_at_root: "item_at h p t N S \<Longrightarrow> p \<noteq> 0 \<and> p \<in> N \<and> (\<exists>n. cj_nodes h p = Some n)"
  by (auto simp: item_at_iff)

lemma no_null:
  "item_at h p t N S \<Longrightarrow> 0 \<notin> N"
  "chain_at h p prev cs q l N S \<Longrightarrow> 0 \<notin> N"
  by (induction h p t N S and h p prev cs q l N S rule: item_at_chain_at.induct) (fastforce simp: item_at.simps)+

subsection \<open>What an item does not depend on\<close>

text \<open>The same strings in \<open>S\<close>, the same nodes in \<open>N\<close>.\<close>

definition same_in :: "ptr set \<Rightarrow> ptr set \<Rightarrow> cjheap \<Rightarrow> cjheap \<Rightarrow> bool" where
  "same_in N S h h' \<longleftrightarrow> (\<forall>x \<in> N. cj_nodes h' x = cj_nodes h x) \<and> (\<forall>x \<in> S. cj_strs h' x = cj_strs h x)"

text \<open>The item at \<open>p\<close> is still where it was in its chain.\<close>

definition same_links :: "ptr \<Rightarrow> cjheap \<Rightarrow> cjheap \<Rightarrow> bool" where
  "same_links p h h' \<longleftrightarrow> map_option (\<lambda>n. (n_next n, n_prev n)) (cj_nodes h' p) = map_option (\<lambda>n. (n_next n, n_prev n)) (cj_nodes h p)"

lemma same_in_mono: "same_in N S h h' \<Longrightarrow> N' \<subseteq> N \<Longrightarrow> S' \<subseteq> S \<Longrightarrow> same_in N' S' h h'"
  by (auto simp: same_in_def)

lemma fields_at_same: "fields_at h n t S \<Longrightarrow> \<forall>x \<in> S. cj_strs h' x = cj_strs h x \<Longrightarrow> fields_at h' n t S"
  by (cases "valuestring t"; cases "cstring t") (auto simp: fields_at_def)

lemma fields_at_links:
  "n_type n' = n_type n \<Longrightarrow> n_valueint n' = n_valueint n \<Longrightarrow> n_valuedouble n' = n_valuedouble n \<Longrightarrow>
   n_valuestring n' = n_valuestring n \<Longrightarrow> n_string n' = n_string n \<Longrightarrow> fields_at h n t S \<Longrightarrow> fields_at h n' t S"
  by (simp add: fields_at_def)

lemma at_same:
  "item_at h p t N S \<Longrightarrow> same_in N S h h' \<Longrightarrow> item_at h' p t N S"
  "chain_at h p prev cs q l N S \<Longrightarrow> same_in N S h h' \<Longrightarrow> chain_at h' p prev cs q l N S"
proof (induction h p t N S and h p prev cs q l N S rule: item_at_chain_at.induct)
  case (1 h p t vs vi vd nm cs N S)
  from 1(2) obtain n l N' S1 S2 where n: "p \<noteq> 0" "cj_nodes h p = Some n" "fields_at h n (Item t vs vi vd nm []) S1"
    "chain_at h (n_child n) 0 cs 0 l N' S2" "p \<notin> N'" "N = insert p N'" "S1 \<inter> S2 = {}" "S = S1 \<union> S2"
    by (auto simp: item_at.simps)
  have "chain_at h' (n_child n) 0 cs 0 l N' S2"
    by (rule 1(1) [OF n(4)]) (use 1(3) n in \<open>auto simp: same_in_def\<close>)
  moreover have "fields_at h' n (Item t vs vi vd nm []) S1" "cj_nodes h' p = Some n"
    using fields_at_same [OF n(3)] 1(3) n by (auto simp: same_in_def)
  ultimately show ?case using n unfolding item_at.simps by blast
next
  case (3 h p prev c cs q l N S)
  from 3(3) obtain n N1 N2 S1 S2 where n: "item_at h p c N1 S1" "cj_nodes h p = Some n" "n_prev n = prev"
    "chain_at h (n_next n) p cs q l N2 S2" "N1 \<inter> N2 = {}" "N = N1 \<union> N2" "S1 \<inter> S2 = {}" "S = S1 \<union> S2" by auto
  have "cj_nodes h' p = Some n" using item_at_root [OF n(1)] 3(4) n by (auto simp: same_in_def)
  moreover have "item_at h' p c N1 S1" by (rule 3(1) [OF n(1)]) (use 3(4) n in \<open>auto simp: same_in_def\<close>)
  moreover have "chain_at h' (n_next n) p cs q l N2 S2" by (rule 3(2) [OF n(4)]) (use 3(4) n in \<open>auto simp: same_in_def\<close>)
  ultimately show ?case using n by auto
qed simp

text \<open>The links of the item itself do not matter.\<close>

lemma item_at_links:
  assumes "item_at h p t N S" "same_in (N - {p}) S h h'" "cj_nodes h p = Some n" "cj_nodes h' p = Some (n\<lparr>n_next := x, n_prev := y\<rparr>)"
  shows "item_at h' p t N S"
proof -
  from assms(1,3) obtain l N' S1 S2 where n: "p \<noteq> 0" "fields_at h n t S1"
    "chain_at h (n_child n) 0 (children t) 0 l N' S2" "p \<notin> N'" "N = insert p N'" "S1 \<inter> S2 = {}" "S = S1 \<union> S2"
    by (auto simp: item_at_iff)
  have "chain_at h' (n_child n) 0 (children t) 0 l N' S2"
    by (rule at_same(2) [OF n(3)]) (use assms(2) n in \<open>auto simp: same_in_def\<close>)
  moreover have "fields_at h' (n\<lparr>n_next := x, n_prev := y\<rparr>) t S1"
    by (rule fields_at_links [of _ n], simp_all) (rule fields_at_same [OF n(2)], use assms(2) n in \<open>auto simp: same_in_def\<close>)
  ultimately show ?thesis using n assms(4) by (auto simp: item_at_iff)
qed

subsection \<open>Chains\<close>

lemma chain_ConsE:
  assumes "chain_at h p prev (c # cs) q l N S"
  obtains n N1 N2 S1 S2 where "item_at h p c N1 S1" "cj_nodes h p = Some n" "n_prev n = prev"
    "chain_at h (n_next n) p cs q l N2 S2" "N1 \<inter> N2 = {}" "N = N1 \<union> N2" "S1 \<inter> S2 = {}" "S = S1 \<union> S2"
  using assms by auto

lemma chain_ConsI:
  "item_at h p c N1 S1 \<Longrightarrow> cj_nodes h p = Some n \<Longrightarrow> n_prev n = prev \<Longrightarrow> chain_at h (n_next n) p cs q l N2 S2 \<Longrightarrow>
   N1 \<inter> N2 = {} \<Longrightarrow> S1 \<inter> S2 = {} \<Longrightarrow> N = N1 \<union> N2 \<Longrightarrow> S = S1 \<union> S2 \<Longrightarrow> chain_at h p prev (c # cs) q l N S"
  by auto

declare chain_at.simps(2) [simp del]

lemma chain_append:
  "chain_at h p prev as r m N1 S1 \<Longrightarrow> chain_at h r m bs q l N2 S2 \<Longrightarrow> N1 \<inter> N2 = {} \<Longrightarrow> S1 \<inter> S2 = {} \<Longrightarrow>
   N = N1 \<union> N2 \<Longrightarrow> S = S1 \<union> S2 \<Longrightarrow> chain_at h p prev (as @ bs) q l N S"
proof (induction as arbitrary: p prev N1 S1 N S)
  case (Cons a as)
  from Cons.prems(1) obtain n N3 N4 S3 S4 where n: "item_at h p a N3 S3" "cj_nodes h p = Some n" "n_prev n = prev"
    "chain_at h (n_next n) p as r m N4 S4" "N3 \<inter> N4 = {}" "N1 = N3 \<union> N4" "S3 \<inter> S4 = {}" "S1 = S3 \<union> S4" by (rule chain_ConsE)
  have "chain_at h (n_next n) p (as @ bs) q l (N4 \<union> N2) (S4 \<union> S2)"
    by (rule Cons.IH [OF n(4) Cons.prems(2) _ _ refl refl]) (use n Cons.prems(3,4) in blast)+
  with n(1-3) show ?case unfolding append_Cons by (rule chain_ConsI) (use n Cons.prems(3-6) in blast)+
qed simp

lemma chain_split:
  assumes "chain_at h p prev (as @ bs) q l N S"
  obtains r m N1 N2 S1 S2 where "chain_at h p prev as r m N1 S1" "chain_at h r m bs q l N2 S2"
     "N1 \<inter> N2 = {}" "N = N1 \<union> N2" "S1 \<inter> S2 = {}" "S = S1 \<union> S2"
  using assms
proof (induction as arbitrary: p prev N S thesis)
  case Nil
  from Nil.prems(1) [of p prev "{}" "{}" N S] Nil.prems(2) show ?case by simp
next
  case (Cons a as)
  from Cons.prems(2) obtain n N1 N2 S1 S2 where n: "item_at h p a N1 S1" "cj_nodes h p = Some n" "n_prev n = prev"
    "chain_at h (n_next n) p (as @ bs) q l N2 S2" "N1 \<inter> N2 = {}" "N = N1 \<union> N2" "S1 \<inter> S2 = {}" "S = S1 \<union> S2"
    unfolding append_Cons by (rule chain_ConsE)
  obtain r m N3 N4 S3 S4 where c: "chain_at h (n_next n) p as r m N3 S3" "chain_at h r m bs q l N4 S4"
    "N3 \<inter> N4 = {}" "N2 = N3 \<union> N4" "S3 \<inter> S4 = {}" "S2 = S3 \<union> S4" by (rule Cons.IH [OF _ n(4)])
  have "chain_at h p prev (a # as) r m (N1 \<union> N3) (S1 \<union> S3)"
    using n(1-3) c(1) by (rule chain_ConsI) (use n c in blast)+
  then show ?case by (rule Cons.prems(1) [OF _ c(2)]) (use n c in blast)+
qed

lemma chain_first: "chain_at h p prev cs q l N S \<Longrightarrow> if cs = [] then p = q \<and> l = prev \<and> N = {} else p \<noteq> 0 \<and> p \<in> N"
  by (cases cs) (auto elim!: chain_ConsE dest: item_at_root)

lemma chain_last: "chain_at h p prev cs q l N S \<Longrightarrow> cs \<noteq> [] \<Longrightarrow> l \<noteq> 0 \<and> l \<in> N \<and> (\<exists>n. cj_nodes h l = Some n \<and> n_next n = q)"
proof (induction cs arbitrary: p prev N S)
  case (Cons c cs)
  from Cons.prems(1) obtain n N1 N2 S1 S2 where n: "item_at h p c N1 S1" "cj_nodes h p = Some n"
    "chain_at h (n_next n) p cs q l N2 S2" "N = N1 \<union> N2" by (rule chain_ConsE)
  show ?case
  proof (cases "cs = []")
    case True
    with n item_at_root [OF n(1)] show ?thesis by auto
  next
    case False
    with Cons.IH [OF n(3)] n(4) show ?thesis by blast
  qed
qed simp

text \<open>The chain after its end is linked to another item, and after its beginning is.\<close>

lemma chain_relink_end:
  assumes "chain_at h p prev (as @ [c]) q l N S" "cj_nodes h l = Some n" "cj_nodes h' l = Some (n\<lparr>n_next := r\<rparr>)" "same_in (N - {l}) S h h'"
  shows "chain_at h' p prev (as @ [c]) r l N S"
proof -
  from assms(1) obtain p' m N1 N2 S1 S2 where s: "chain_at h p prev as p' m N1 S1" "chain_at h p' m [c] q l N2 S2"
     "N1 \<inter> N2 = {}" "N = N1 \<union> N2" "S1 \<inter> S2 = {}" "S = S1 \<union> S2" by (rule chain_split)
  from s(2) have c: "l = p'" "item_at h l c N2 S2" "n_prev n = m" using assms(2) by (auto elim!: chain_ConsE)
  have l: "l \<in> N2" using item_at_root [OF c(2)] by simp
  have "same_in N1 S1 h h'" "same_in (N2 - {l}) S2 h h'"
    by (rule same_in_mono [OF assms(4)]; use l s in blast)+
  from at_same(2) [OF s(1) this(1)] item_at_links [OF c(2) this(2) assms(2), of m r]
  have "chain_at h' p prev as p' m N1 S1" "item_at h' l c N2 S2" using assms(3) c(3) by auto
  moreover from this(2) have "chain_at h' p' m [c] r l N2 S2" unfolding c(1)
    by (rule chain_ConsI [where n = "n\<lparr>n_next := r\<rparr>" and ?N2.0 = "{}" and ?S2.0 = "{}"]) (use assms(3) c in auto)
  ultimately show ?thesis using s by (intro chain_append) auto
qed

lemma chain_relink_begin:
  assumes "chain_at h p prev (c # cs) q l N S" "cj_nodes h p = Some n" "cj_nodes h' p = Some (n\<lparr>n_prev := r\<rparr>)" "same_in (N - {p}) S h h'"
  shows "chain_at h' p r (c # cs) q l N S"
proof -
  from assms(1,2) obtain N1 N2 S1 S2 where c: "item_at h p c N1 S1" "n_prev n = prev"
    "chain_at h (n_next n) p cs q l N2 S2" "N1 \<inter> N2 = {}" "N = N1 \<union> N2" "S1 \<inter> S2 = {}" "S = S1 \<union> S2" by (auto elim!: chain_ConsE)
  have p: "p \<in> N1" using item_at_root [OF c(1)] by simp
  have "same_in (N1 - {p}) S1 h h'" "same_in N2 S2 h h'" by (rule same_in_mono [OF assms(4)]; use p c in blast)+
  from item_at_links [OF c(1) this(1) assms(2), of r "n_next n"] at_same(2) [OF c(3) this(2)]
  have "item_at h' p c N1 S1" "chain_at h' (n_next n) p cs q l N2 S2" using assms(3) by auto
  then show ?thesis by (intro chain_ConsI [where n = "n\<lparr>n_prev := r\<rparr>"]) (use assms(3) c in auto)
qed

subsection \<open>Walking along a chain\<close>

lemma hp_walk_chain: "chain_at h p prev as q l N S \<Longrightarrow> hp_walk h p (length as) = Some q"
proof (induction as arbitrary: p prev N S)
  case (Cons a as)
  from Cons.prems show ?case
    by (rule chain_ConsE) (use Cons.IH in \<open>auto dest: item_at_root\<close>)
qed simp

lemma hp_walk_0 [simp]: "hp_walk h 0 k = Some 0"
  by (cases k) simp_all

lemma hp_walk_end: "chain_at h p prev as 0 l N S \<Longrightarrow> length as \<le> k \<Longrightarrow> hp_walk h p k = Some 0"
proof (induction as arbitrary: p prev N S k)
  case (Cons a as)
  obtain k' where k: "k = Suc k'" "length as \<le> k'" using Cons.prems(2) by (cases k) auto
  from Cons.prems(1) show ?case
    by (rule chain_ConsE) (use Cons.IH k in \<open>auto dest: item_at_root\<close>)
qed simp

lemma hp_last_chain: "chain_at h p prev as 0 l N S \<Longrightarrow> as \<noteq> [] \<Longrightarrow> hp_last h p = Some l"
proof (induction as arbitrary: p prev N S)
  case (Cons a as)
  from Cons.prems(1) obtain n N1 N2 S1 S2 where n: "cj_nodes h p = Some n" "chain_at h (n_next n) p as 0 l N2 S2" by (rule chain_ConsE)
  show ?case
  proof (cases "as = []")
    case True
    with n show ?thesis by (simp add: hp_last.simps)
  next
    case False
    with chain_first [OF n(2)] Cons.IH [OF n(2) False] n(1) show ?thesis by (subst hp_last.simps) simp
  qed
qed simp

subsection \<open>Deleting\<close>

definition cj_drop :: "ptr set \<Rightarrow> ptr set \<Rightarrow> cjheap \<Rightarrow> cjheap" where
  "cj_drop N S h = h\<lparr>cj_nodes := cj_nodes h |` (- N), cj_strs := cj_strs h |` (- S)\<rparr>"

lemma cj_drop_nothing [simp]: "cj_drop {} {} h = h"
  by (cases h) (simp add: cj_drop_def restrict_map_def)

lemma cj_drop_drop: "cj_drop N2 S2 (cj_drop N1 S1 h) = cj_drop (N1 \<union> N2) (S1 \<union> S2) h"
  by (simp add: cj_drop_def restrict_restrict Int_commute Compl_Un)

lemma same_in_drop: "N \<inter> N' = {} \<Longrightarrow> S \<inter> S' = {} \<Longrightarrow> same_in N S h (cj_drop N' S' h)"
  by (auto simp: same_in_def cj_drop_def restrict_map_def)

lemma free_str_at:
  assumes "str_at h p str S" "\<forall>x \<in> S. cj_strs h' x = cj_strs h x"
  shows "(if p \<noteq> 0 then cj_free_str p h' else Some h') = Some (cj_drop {} S h')"
  using assms by (cases str) (auto simp: cj_free_str_def cj_drop_def restrict_map_def fun_eq_iff)

lemma Delete_chain:
  assumes "\<forall>c \<in> set cs. \<forall>h p N S n. item_at h p c N S \<longrightarrow> cj_nodes h p = Some n \<longrightarrow> hp_Delete p h = hp_Delete (n_next n) (cj_drop N S h)"
    and "chain_at h p prev cs q l N S"
  shows "hp_Delete p h = hp_Delete q (cj_drop N S h)"
  using assms
proof (induction cs arbitrary: h p prev N S)
  case (Cons c cs)
  from Cons.prems(2) obtain n N1 N2 S1 S2 where n: "item_at h p c N1 S1" "cj_nodes h p = Some n"
    "chain_at h (n_next n) p cs q l N2 S2" "N1 \<inter> N2 = {}" "N = N1 \<union> N2" "S1 \<inter> S2 = {}" "S = S1 \<union> S2" by (rule chain_ConsE)
  have "same_in N2 S2 h (cj_drop N1 S1 h)" by (rule same_in_drop) (use n in blast)+
  from at_same(2) [OF n(3) this] have "chain_at (cj_drop N1 S1 h) (n_next n) p cs q l N2 S2" .
  from Cons.IH [OF _ this] Cons.prems(1) have "hp_Delete (n_next n) (cj_drop N1 S1 h) = hp_Delete q (cj_drop N S h)"
    by (simp add: cj_drop_drop n)
  with Cons.prems(1) n(1,2) show ?case by simp
qed simp

lemma Delete_root:
  assumes "p \<noteq> 0" "cj_nodes h p = Some n" "fields_at h n t S1"
    and child: "(if n_child n \<noteq> 0 then hp_Delete (n_child n) h else Some h) = Some h1"
    and node: "cj_nodes h1 p = Some n" and keep: "\<And>x. x \<in> S1 \<Longrightarrow> cj_strs h1 x = cj_strs h x"
  shows "hp_Delete p h = hp_Delete (n_next n) (cj_drop {p} S1 h1)"
proof -
  from assms(3) obtain Sv Sn where strs: "str_at h (n_valuestring n) (valuestring t) Sv" "str_at h (n_string n) (cstring t) Sn" "Sv \<inter> Sn = {}" "S1 = Sv \<union> Sn"
    and flags: "\<not> flag_set (n_type n) cJSON_IsReference" "\<not> flag_set (n_type n) cJSON_StringIsConst" by (auto simp: fields_at_def)
  have v: "(if n_valuestring n \<noteq> 0 then cj_free_str (n_valuestring n) h1 else Some h1) = Some (cj_drop {} Sv h1)"
    by (rule free_str_at [OF strs(1)]) (use strs keep in blast)
  have s: "(if n_string n \<noteq> 0 then cj_free_str (n_string n) (cj_drop {} Sv h1) else Some (cj_drop {} Sv h1)) = Some (cj_drop {} Sn (cj_drop {} Sv h1))"
    by (rule free_str_at [OF strs(2)]) (use strs keep in \<open>auto simp: cj_drop_def restrict_map_def\<close>)
  have f: "cj_free_node p (cj_drop {} Sn (cj_drop {} Sv h1)) = Some (cj_drop {p} S1 h1)"
    using node strs(4) by (auto simp: cj_free_node_def cj_drop_def restrict_map_def fun_eq_iff)
  show ?thesis using assms(1,2) child node v s f flags by (subst hp_Delete.simps) simp
qed

lemma Delete_item: "item_at h p t N S \<Longrightarrow> cj_nodes h p = Some n \<Longrightarrow> hp_Delete p h = hp_Delete (n_next n) (cj_drop N S h)"
proof (induction t arbitrary: h p N S n)
  case (Item t vs vi vd nm cs)
  from Item.prems obtain l N' S1 S2 where n: "p \<noteq> 0" "fields_at h n (Item t vs vi vd nm []) S1"
    "chain_at h (n_child n) 0 cs 0 l N' S2" "p \<notin> N'" "N = insert p N'" "S1 \<inter> S2 = {}" "S = S1 \<union> S2"
    by (auto simp: item_at.simps)
  define h1 where "h1 = cj_drop N' S2 h"
  have "hp_Delete (n_child n) h = hp_Delete 0 h1"
    unfolding h1_def by (rule Delete_chain [OF _ n(3)]) (use Item.IH in blast)
  then have child: "(if n_child n \<noteq> 0 then hp_Delete (n_child n) h else Some h) = Some h1"
    using chain_first [OF n(3)] n(3) unfolding h1_def by (cases cs) (auto simp: hp_Delete.simps [of 0])
  have node: "cj_nodes h1 p = Some n" using Item.prems(2) n(4) by (simp add: h1_def cj_drop_def)
  have keep: "cj_strs h1 x = cj_strs h x" if "x \<in> S1" for x using that n(6) by (auto simp: h1_def cj_drop_def restrict_map_def)
  have "cj_drop {p} S1 h1 = cj_drop N S h" using n(5,7) by (simp add: h1_def cj_drop_drop Un_commute)
  with Delete_root [OF n(1) Item.prems(2) n(2) child node keep] show ?case by simp
qed

lemma item_blocks:
  "item_at h p t N S \<Longrightarrow> finite N \<and> finite S \<and> card N + card S = cJSON_Delete t"
  "chain_at h p prev cs q l N S \<Longrightarrow> finite N \<and> finite S \<and> card N + card S = sum_list (map cJSON_Delete cs)"
proof (induction h p t N S and h p prev cs q l N S rule: item_at_chain_at.induct)
  case (1 h p t vs vi vd nm cs N S)
  from 1(2) obtain n l N' S1 S2 where n: "fields_at h n (Item t vs vi vd nm []) S1"
    "chain_at h (n_child n) 0 cs 0 l N' S2" "p \<notin> N'" "N = insert p N'" "S1 \<inter> S2 = {}" "S = S1 \<union> S2"
    by (auto simp: item_at.simps)
  from n(1) obtain Sv Sn where "str_at h (n_valuestring n) vs Sv" "str_at h (n_string n) nm Sn" "Sv \<inter> Sn = {}" "S1 = Sv \<union> Sn"
    "\<not> flag_set t cJSON_IsReference" "\<not> flag_set t cJSON_StringIsConst" by (auto simp: fields_at_def)
  moreover from this have "finite S1" "card S1 = (if vs = None then 0 else 1) + (if nm = None then 0 else 1)"
    by (cases vs; cases nm; auto)+
  ultimately show ?case using 1(1) [OF n(2)] n(3-6) by (simp add: card_Un_disjoint cJSON_Delete.simps)
next
  case (3 h p prev c cs q l N S)
  from 3(3) obtain n N1 N2 S1 S2 where "item_at h p c N1 S1" "cj_nodes h p = Some n" "chain_at h (n_next n) p cs q l N2 S2"
    "N1 \<inter> N2 = {}" "N = N1 \<union> N2" "S1 \<inter> S2 = {}" "S = S1 \<union> S2" by (rule chain_ConsE)
  with 3(1) [of N1 S1] 3(2) [of n N2 S2] show ?case by (simp add: card_Un_disjoint)
qed simp

subsection \<open>Editing\<close>

lemma chain_single:
  "item_at h x X N S \<Longrightarrow> cj_nodes h x = Some n \<Longrightarrow> chain_at h x (n_prev n) [X] (n_next n) x N S"
  by (rule chain_ConsI [where ?N2.0 = "{}" and ?S2.0 = "{}"]) auto

text \<open>An array whose children are exchanged.\<close>

lemma item_rebuild:
  assumes chain: "chain_at h' c 0 cs 0 l N S" and "p \<noteq> 0" "fields_at h n t S1" "cj_nodes h' p = Some (n\<lparr>n_child := c\<rparr>)"
    "\<forall>x \<in> S1. cj_strs h' x = cj_strs h x" "p \<notin> N" "S1 \<inter> S = {}"
  shows "item_at h' p (set_children t cs) (insert p N) (S1 \<union> S)"
proof -
  have "fields_at h' n t S1" by (rule fields_at_same [OF assms(3,5)])
  then have "fields_at h' (n\<lparr>n_child := c\<rparr>) (set_children t cs) S1" by (simp add: fields_at_def set_children_def)
  moreover have "chain_at h' (n_child (n\<lparr>n_child := c\<rparr>)) 0 (children (set_children t cs)) 0 l N S" using chain by simp
  ultimately show ?thesis using assms(2,4,6,7) unfolding item_at_iff [of h'] by blast
qed

lemma set_link_simps:
  "cj_nodes h p = Some n \<Longrightarrow> set_next p v h = Some (h\<lparr>cj_nodes := (cj_nodes h)(p \<mapsto> n\<lparr>n_next := v\<rparr>)\<rparr>)"
  "cj_nodes h p = Some n \<Longrightarrow> set_prev p v h = Some (h\<lparr>cj_nodes := (cj_nodes h)(p \<mapsto> n\<lparr>n_prev := v\<rparr>)\<rparr>)"
  "cj_nodes h p = Some n \<Longrightarrow> set_child p v h = Some (h\<lparr>cj_nodes := (cj_nodes h)(p \<mapsto> n\<lparr>n_child := v\<rparr>)\<rparr>)"
  by (simp_all add: set_next_def set_prev_def set_child_def cj_set_def)

lemma unlink_order: "n\<lparr>n_prev := u, n_next := v\<rparr> = n\<lparr>n_next := v, n_prev := u\<rparr>"
  by (cases n) simp

text \<open>An item outside of any chain, beside an array with other nodes and strings.\<close>

definition loose_at :: "cjheap \<Rightarrow> ptr \<Rightarrow> cJSON \<Rightarrow> ptr set \<Rightarrow> ptr set \<Rightarrow> bool" where
  "loose_at h x t N S \<longleftrightarrow> item_at h x t N S \<and> (\<exists>n. cj_nodes h x = Some n \<and> n_next n = 0 \<and> n_prev n = 0)"

lemma Add_item:
  assumes "item_at h a A N S" "loose_at h x X NX SX" "N \<inter> NX = {}" "S \<inter> SX = {}"
  shows "\<exists>h'. hp_AddItemToArray a x h = Some h' \<and> item_at h' a (set_children A (children A @ [X])) (N \<union> NX) (S \<union> SX) \<and> same_links a h h' \<and>
    same_in (- (N \<union> NX)) UNIV h h'"
proof -
  from assms(1) obtain n l N' S1 S2 where n: "a \<noteq> 0" "cj_nodes h a = Some n" "fields_at h n A S1"
    "chain_at h (n_child n) 0 (children A) 0 l N' S2" "a \<notin> N'" "N = insert a N'" "S1 \<inter> S2 = {}" "S = S1 \<union> S2"
    unfolding item_at_iff by blast
  from assms(2) obtain nx where x: "item_at h x X NX SX" "cj_nodes h x = Some nx" "n_next nx = 0" "n_prev nx = 0"
    by (auto simp: loose_at_def)
  have xN: "x \<noteq> 0" "x \<in> NX" "a \<notin> NX" "x \<noteq> a" using item_at_root [OF x(1)] n assms(3) by auto
  show ?thesis
  proof (cases "children A" rule: rev_cases)
    case Nil
    with n(4) have c: "n_child n = 0" "N' = {}" "S2 = {}" by auto
    define h' where "h' = h\<lparr>cj_nodes := (cj_nodes h)(a \<mapsto> n\<lparr>n_child := x\<rparr>)\<rparr>"
    have "same_in NX SX h h'" using xN by (auto simp: same_in_def h'_def)
    from at_same(1) [OF x(1) this] have "chain_at h' x 0 [X] 0 x NX SX"
      using chain_single [of h' x X NX SX nx] x xN by (simp add: h'_def)
    then have "item_at h' a (set_children A [X]) (insert a NX) (S1 \<union> SX)"
      by (rule item_rebuild [OF _ n(1,3)]) (use xN n assms(4) in \<open>auto simp: h'_def\<close>)
    moreover have "hp_AddItemToArray a x h = Some h'" using n(2) c xN by (simp add: hp_AddItemToArray_def set_link_simps h'_def)
    moreover have "same_in (- (N \<union> NX)) UNIV h h'" using n(6) by (auto simp: same_in_def h'_def)
    moreover have "same_links a h h'" using n(2) by (simp add: same_links_def h'_def)
    ultimately show ?thesis using c n Nil by (intro exI [of _ h']) simp
  next
    case (snoc bs b)
    have l: "l \<noteq> 0" "l \<in> N'" "\<exists>nl. cj_nodes h l = Some nl \<and> n_next nl = 0" using chain_last [OF n(4)] snoc by simp_all
    then obtain nl where nl: "cj_nodes h l = Some nl" "n_next nl = 0" by blast
    have first: "n_child n \<noteq> 0" using chain_first [OF n(4)] snoc by simp
    have lx: "l \<noteq> x" "l \<noteq> a" "x \<notin> N'" "l \<notin> NX" using l xN n assms(3) by auto
    define h' where "h' = h\<lparr>cj_nodes := (cj_nodes h)(l \<mapsto> nl\<lparr>n_next := x\<rparr>, x \<mapsto> nx\<lparr>n_prev := l\<rparr>)\<rparr>"
    have "same_in (NX - {x}) SX h h'" using lx by (auto simp: same_in_def h'_def)
    from item_at_links [OF x(1) this x(2), of l "n_next nx"] have "item_at h' x X NX SX" by (simp add: h'_def)
    from chain_single [OF this, of "nx\<lparr>n_prev := l\<rparr>"] have X: "chain_at h' x l [X] 0 x NX SX" using x by (simp add: h'_def)
    have "same_in (N' - {l}) S2 h h'" using lx by (auto simp: same_in_def h'_def)
    from chain_relink_end [OF n(4) [unfolded snoc] nl(1) _ this] have "chain_at h' (n_child n) 0 (bs @ [b]) x l N' S2"
      using lx by (simp add: h'_def)
    from chain_append [OF this X _ _ refl refl] n assms(3,4)
    have "chain_at h' (n_child n) 0 (children A @ [X]) 0 x (N' \<union> NX) (S2 \<union> SX)" unfolding snoc by blast
    then have "item_at h' a (set_children A (children A @ [X])) (insert a (N' \<union> NX)) (S1 \<union> (S2 \<union> SX))"
      by (rule item_rebuild [OF _ n(1,3)]) (use xN lx n assms(4) in \<open>auto simp: h'_def\<close>)
    moreover have "hp_AddItemToArray a x h = Some h'"
      using n(2) first xN hp_last_chain [OF n(4)] snoc nl x lx
      by (simp add: hp_AddItemToArray_def hp_suffix_object_def set_link_simps h'_def)
    moreover have "same_in (- (N \<union> NX)) UNIV h h'" using n(6) l xN by (auto simp: same_in_def h'_def)
    moreover have "same_links a h h'" using n(2) lx xN by (simp add: same_links_def h'_def)
    ultimately show ?thesis using n by (intro exI [of _ h']) (simp add: Un_assoc)
  qed
qed

text \<open>The part of a chain before an item and the part behind it, linked to something else; 0 stands for no such part.\<close>

definition link_next :: "ptr \<Rightarrow> ptr \<Rightarrow> (ptr \<rightharpoonup> cjnode) \<Rightarrow> ptr \<rightharpoonup> cjnode" where
  "link_next m v M = (if m = 0 then M else M(m := map_option (\<lambda>n. n\<lparr>n_next := v\<rparr>) (M m)))"

definition link_prev :: "ptr \<Rightarrow> ptr \<Rightarrow> (ptr \<rightharpoonup> cjnode) \<Rightarrow> ptr \<rightharpoonup> cjnode" where
  "link_prev m v M = (if m = 0 then M else M(m := map_option (\<lambda>n. n\<lparr>n_prev := v\<rparr>) (M m)))"

lemma link_other [simp]: "m = 0 \<or> z \<noteq> m \<Longrightarrow> link_next m v M z = M z" "m = 0 \<or> z \<noteq> m \<Longrightarrow> link_prev m v M z = M z"
  by (auto simp: link_next_def link_prev_def)

lemma link_null [simp]: "link_next m v M 0 = M 0" "link_prev m v M 0 = M 0"
  by (auto simp: link_next_def link_prev_def)

lemma link_here: "m \<noteq> 0 \<Longrightarrow> link_next m v M m = map_option (\<lambda>n. n\<lparr>n_next := v\<rparr>) (M m)"
  "m \<noteq> 0 \<Longrightarrow> link_prev m v M m = map_option (\<lambda>n. n\<lparr>n_prev := v\<rparr>) (M m)"
  by (simp_all add: link_next_def link_prev_def)

lemma dom_link [simp]: "dom (link_next m v M) = dom M" "dom (link_prev m v M) = dom M"
  by (auto simp: link_next_def link_prev_def dom_def)

lemma set_link_opt:
  "m = 0 \<or> cj_nodes h m \<noteq> None \<Longrightarrow> (if 0 < m then set_next m v h else Some h) = Some (h\<lparr>cj_nodes := link_next m v (cj_nodes h)\<rparr>)"
  "m = 0 \<or> cj_nodes h m \<noteq> None \<Longrightarrow> (if 0 < m then set_prev m v h else Some h) = Some (h\<lparr>cj_nodes := link_prev m v (cj_nodes h)\<rparr>)"
  by (auto simp: link_next_def link_prev_def set_link_simps)

lemma chain_before:
  assumes "chain_at h p 0 as r m N S" "m \<noteq> 0 \<longrightarrow> cj_nodes h' m = map_option (\<lambda>n. n\<lparr>n_next := r'\<rparr>) (cj_nodes h m)" "same_in (N - {m}) S h h'"
  shows "chain_at h' (if m = 0 then r' else p) 0 as r' m N S" "m = 0 \<longleftrightarrow> as = []" "m \<noteq> 0 \<longrightarrow> m \<in> N \<and> p \<in> N \<and> (\<exists>n. cj_nodes h m = Some n)"
proof -
  show m: "m = 0 \<longleftrightarrow> as = []" using chain_first [OF assms(1)] chain_last [OF assms(1)] by (auto split: if_splits)
  show "m \<noteq> 0 \<longrightarrow> m \<in> N \<and> p \<in> N \<and> (\<exists>n. cj_nodes h m = Some n)" using m chain_first [OF assms(1)] chain_last [OF assms(1)] by auto
  show "chain_at h' (if m = 0 then r' else p) 0 as r' m N S"
  proof (cases as rule: rev_cases)
    case Nil
    with assms(1) m show ?thesis by simp
  next
    case (snoc bs b)
    then obtain n where "cj_nodes h m = Some n" using chain_last [OF assms(1)] by auto
    with chain_relink_end [OF assms(1) [unfolded snoc] this _ assms(3)] assms(2) m snoc show ?thesis by simp
  qed
qed

lemma chain_behind:
  assumes "chain_at h y m bs 0 l N S" "y \<noteq> 0 \<longrightarrow> cj_nodes h' y = map_option (\<lambda>n. n\<lparr>n_prev := m'\<rparr>) (cj_nodes h y)" "same_in (N - {y}) S h h'"
  shows "\<exists>l'. chain_at h' y m' bs 0 l' N S" "y \<noteq> 0 \<longrightarrow> y \<in> N \<and> (\<exists>n. cj_nodes h y = Some n)"
proof -
  show y: "y \<noteq> 0 \<longrightarrow> y \<in> N \<and> (\<exists>n. cj_nodes h y = Some n)"
  proof (cases bs)
    case Nil
    with assms(1) show ?thesis by simp
  next
    case (Cons b bs')
    with assms(1) chain_first [OF assms(1)] show ?thesis by (auto elim: chain_ConsE)
  qed
  show "\<exists>l'. chain_at h' y m' bs 0 l' N S"
  proof (cases bs)
    case Nil
    with assms(1) show ?thesis by auto
  next
    case (Cons b bs')
    then have "y \<noteq> 0" using chain_first [OF assms(1)] by simp
    with y obtain n where "cj_nodes h y = Some n" by blast
    with chain_relink_begin [OF assms(1) [unfolded Cons] this _ assms(3)] assms(2) \<open>y \<noteq> 0\<close> Cons show ?thesis by auto
  qed
qed

text \<open>An array taken apart at one of its children.\<close>

definition opened_at :: "cjheap \<Rightarrow> ptr \<Rightarrow> cJSON \<Rightarrow> cJSON list \<Rightarrow> cJSON \<Rightarrow> cJSON list \<Rightarrow> ptr \<Rightarrow> ptr \<Rightarrow> ptr \<Rightarrow> cjnode \<Rightarrow> cjnode \<Rightarrow>
    ptr set \<Rightarrow> ptr set \<Rightarrow> ptr set \<Rightarrow> ptr set \<Rightarrow> ptr set \<Rightarrow> ptr set \<Rightarrow> ptr set \<Rightarrow> bool" where
  "opened_at h a A as X bs x m y n nx NA NX NB SA SX SB S1 \<longleftrightarrow> a \<noteq> 0 \<and> cj_nodes h a = Some n \<and> fields_at h n A S1 \<and>
     chain_at h (n_child n) 0 as x m NA SA \<and> item_at h x X NX SX \<and> cj_nodes h x = Some nx \<and> n_prev nx = m \<and> n_next nx = y \<and>
     (\<exists>l. chain_at h y x bs 0 l NB SB) \<and> hp_walk h (n_child n) (length as) = Some x \<and>
     NA \<inter> NX = {} \<and> (NA \<union> NX) \<inter> NB = {} \<and> a \<notin> NA \<union> NX \<union> NB \<and> SA \<inter> SX = {} \<and> (SA \<union> SX) \<inter> SB = {} \<and> S1 \<inter> (SA \<union> SX \<union> SB) = {}"

lemma open_array:
  assumes "item_at h a A N S" "children A = as @ X # bs"
  obtains x m y n nx NA NX NB SA SX SB S1 where "opened_at h a A as X bs x m y n nx NA NX NB SA SX SB S1"
    "N = insert a (NA \<union> NX \<union> NB)" "S = S1 \<union> (SA \<union> SX \<union> SB)"
proof -
  from assms(1) obtain n l N' S1 S2 where n: "a \<noteq> 0" "cj_nodes h a = Some n" "fields_at h n A S1"
    "chain_at h (n_child n) 0 (as @ X # bs) 0 l N' S2" "a \<notin> N'" "N = insert a N'" "S1 \<inter> S2 = {}" "S = S1 \<union> S2"
    unfolding item_at_iff assms(2) by blast
  from n(4) obtain x m NA NR SA SR where c: "chain_at h (n_child n) 0 as x m NA SA" "chain_at h x m (X # bs) 0 l NR SR"
    "NA \<inter> NR = {}" "N' = NA \<union> NR" "SA \<inter> SR = {}" "S2 = SA \<union> SR" by (rule chain_split)
  from c(2) obtain nx NX NB SX SB where x: "item_at h x X NX SX" "cj_nodes h x = Some nx" "n_prev nx = m"
    "chain_at h (n_next nx) x bs 0 l NB SB" "NX \<inter> NB = {}" "NR = NX \<union> NB" "SX \<inter> SB = {}" "SR = SX \<union> SB" by (rule chain_ConsE)
  have "opened_at h a A as X bs x m (n_next nx) n nx NA NX NB SA SX SB S1"
    unfolding opened_at_def using n c x hp_walk_chain [OF c(1)] by blast
  with n c x that show thesis by blast
qed

lemma opened_facts:
  assumes "opened_at h a A as X bs x m y n nx NA NX NB SA SX SB S1"
  shows "x \<noteq> 0" "x \<in> NX" "a \<noteq> x" "m \<noteq> x" "y \<noteq> x" "m \<noteq> a" "y \<noteq> a" "m \<noteq> 0 \<Longrightarrow> m \<noteq> y" "m = 0 \<longleftrightarrow> as = []" "x = n_child n \<longleftrightarrow> m = 0"
    "m \<noteq> 0 \<Longrightarrow> m \<in> NA \<and> (\<exists>nm. cj_nodes h m = Some nm)" "y \<noteq> 0 \<Longrightarrow> y \<in> NB \<and> (\<exists>ny. cj_nodes h y = Some ny)"
proof -
  from assms have o: "chain_at h (n_child n) 0 as x m NA SA" "item_at h x X NX SX" "NA \<inter> NX = {}" "(NA \<union> NX) \<inter> NB = {}" "a \<notin> NA \<union> NX \<union> NB" "a \<noteq> 0"
    by (simp_all add: opened_at_def)
  from assms obtain l where l: "chain_at h y x bs 0 l NB SB" by (auto simp: opened_at_def)
  show x: "x \<noteq> 0" "x \<in> NX" "a \<noteq> x" using item_at_root [OF o(2)] o(5) by auto
  show m: "m = 0 \<longleftrightarrow> as = []" using chain_first [OF o(1)] chain_last [OF o(1)] by (auto split: if_splits)
  have first: "m \<noteq> 0 \<Longrightarrow> n_child n \<in> NA" using m chain_first [OF o(1)] by simp
  show mN: "m \<in> NA \<and> (\<exists>nm. cj_nodes h m = Some nm)" if "m \<noteq> 0" using that m chain_last [OF o(1)] by auto
  show yN: "y \<in> NB \<and> (\<exists>ny. cj_nodes h y = Some ny)" if "y \<noteq> 0" using that l chain_first [OF l] by (cases bs) (auto elim: chain_ConsE)
  show "m \<noteq> x" "y \<noteq> x" "m \<noteq> a" "y \<noteq> a" "m \<noteq> 0 \<Longrightarrow> m \<noteq> y" using mN yN x o(3-6) by blast+
  show "x = n_child n \<longleftrightarrow> m = 0" using first m chain_first [OF o(1)] x o(3) by (cases "as = []") auto
qed

text \<open>Only the nodes at the five pointers change, those of them that are not null.\<close>

lemma same_but:
  assumes "\<And>z. z \<notin> {a, x, p, m, y} - {0} \<Longrightarrow> cj_nodes h' z = cj_nodes h z" "cj_strs h' = cj_strs h"
    "a \<notin> N" "x \<notin> N" "p \<noteq> 0 \<longrightarrow> p \<notin> N" "m \<noteq> 0 \<longrightarrow> m \<notin> N" "y \<noteq> 0 \<longrightarrow> y \<notin> N"
  shows "same_in N S h h'"
proof -
  have "z \<notin> {a, x, p, m, y} - {0}" if "z \<in> N" for z using that assms(3-7) by auto
  with assms(1,2) show ?thesis by (simp only: same_in_def) blast
qed

lemma Detach_item:
  assumes "item_at h a A N S" "children A = as @ X # bs" "nat which = length as"
  shows "\<exists>x h' NX SX N' S'. hp_DetachItemFromArray a which h = Some (x, h') \<and> loose_at h' x X NX SX \<and>
    item_at h' a (set_children A (as @ bs)) N' S' \<and> N' \<inter> NX = {} \<and> N = N' \<union> NX \<and> S' \<inter> SX = {} \<and> S = S' \<union> SX \<and> same_links a h h' \<and> same_in (- N) UNIV h h'"
proof -
  obtain x m y n nx NA NX NB SA SX SB S1 where o: "opened_at h a A as X bs x m y n nx NA NX NB SA SX SB S1"
    and NS: "N = insert a (NA \<union> NX \<union> NB)" "S = S1 \<union> (SA \<union> SX \<union> SB)" by (rule open_array [OF assms(1,2)])
  note f = opened_facts [OF o]
  from o obtain l where c: "chain_at h (n_child n) 0 as x m NA SA" "chain_at h y x bs 0 l NB SB" "item_at h x X NX SX"
    and n: "cj_nodes h a = Some n" "fields_at h n A S1" "cj_nodes h x = Some nx" "n_prev nx = m" "n_next nx = y" "a \<noteq> 0"
    and walk: "hp_walk h (n_child n) (length as) = Some x"
    and dis: "NA \<inter> NX = {}" "(NA \<union> NX) \<inter> NB = {}" "a \<notin> NA \<union> NX \<union> NB" "SA \<inter> SX = {}" "(SA \<union> SX) \<inter> SB = {}" "S1 \<inter> (SA \<union> SX \<union> SB) = {}"
    by (auto simp: opened_at_def)
  obtain nm where nm: "m \<noteq> 0 \<longrightarrow> cj_nodes h m = Some nm" using f(11) by blast
  obtain ny where ny: "y \<noteq> 0 \<longrightarrow> cj_nodes h y = Some ny" using f(12) by blast
  let ?M = "cj_nodes h"
  define B1 where "B1 = link_next m y ?M"
  define B where "B = link_prev y m B1"
  define C where "C = (if m = 0 then B(a \<mapsto> n\<lparr>n_child := y\<rparr>) else B)"
  define h' where "h' = h\<lparr>cj_nodes := C(x \<mapsto> nx\<lparr>n_next := 0, n_prev := 0\<rparr>)\<rparr>"
  have at: "B1 x = Some nx" "B a = Some n" "B x = Some nx" "C x = Some nx"
    using f(1-7) n(1,3) by (simp_all add: B1_def B_def C_def)
  have at5: "y \<noteq> 0 \<longrightarrow> B1 y = Some ny"
    using f(8) ny by (cases "m = 0") (simp_all add: B1_def)
  have 1: "(if m \<noteq> 0 then set_next m y h else Some h) = Some (h\<lparr>cj_nodes := B1\<rparr>)"
    using nm by (simp add: B1_def link_next_def set_link_simps)
  have 2: "(if y \<noteq> 0 then set_prev y m (h\<lparr>cj_nodes := B1\<rparr>) else Some (h\<lparr>cj_nodes := B1\<rparr>)) = Some (h\<lparr>cj_nodes := B\<rparr>)"
    using at5 by (simp add: B_def link_prev_def set_link_simps)
  have 3: "(if x = n_child n then set_child a y (h\<lparr>cj_nodes := B\<rparr>) else Some (h\<lparr>cj_nodes := B\<rparr>)) = Some (h\<lparr>cj_nodes := C\<rparr>)"
    using at(2) f(10) by (simp add: C_def set_link_simps)
  have 4: "do { h \<leftarrow> set_next x 0 (h\<lparr>cj_nodes := C\<rparr>); h \<leftarrow> set_prev x 0 h; Some (x, h) } = Some (x, h')"
    using at(4) by (simp add: h'_def set_link_simps)
  have gets: "cj_node (h\<lparr>cj_nodes := B1\<rparr>) x = Some nx" "cj_node (h\<lparr>cj_nodes := B\<rparr>) a = Some n" "cj_node (h\<lparr>cj_nodes := B\<rparr>) x = Some nx"
    using at by simp_all
  have run: "hp_DetachItemFromArray a which h = Some (x, h')"
    unfolding hp_DetachItemFromArray_def
    by (simp only: n(1,3,4,5) Option.bind_lunit walk assms(3) f(1) if_False 1 2 3 4 gets)
  have mem: "m \<in> insert 0 NA" "y \<in> insert 0 NB" using f(11,12) by auto
  have other: "cj_nodes h' z = cj_nodes h z" if "z \<notin> {a, x, 0, m, y} - {0}" for z
    using that n(6) f(1) by (auto simp: h'_def C_def B_def B1_def)
  have strs: "cj_strs h' = cj_strs h" by (simp add: h'_def)
  have disX: "x \<notin> NA" "x \<notin> NB" using f(2) dis(1,2) by blast+
  have disA: "a \<notin> NA" "a \<notin> NB" "a \<notin> NX" using dis(3) by simp_all
  have disM: "m \<noteq> 0 \<longrightarrow> m \<notin> NX \<and> m \<notin> NB" "y \<noteq> 0 \<longrightarrow> y \<notin> NX \<and> y \<notin> NA" using mem dis(1,2) by blast+
  have N: "m \<noteq> 0 \<longrightarrow> m \<in> N" "y \<noteq> 0 \<longrightarrow> y \<in> N" "x \<in> N" "a \<in> N" using NS(1) mem f(2) by auto
  have same: "same_in (NA - {m}) SA h h'" "same_in (NB - {y}) SB h h'" "same_in (NX - {x}) SX h h'" "same_in (- N) UNIV h h'"
    by (rule same_but [of a x 0 m y, OF other strs], assumption, use disX disA disM N f(2) in simp_all)+
  have "m \<noteq> 0 \<longrightarrow> cj_nodes h' m = map_option (\<lambda>n. n\<lparr>n_next := y\<rparr>) (cj_nodes h m)"
    "y \<noteq> 0 \<longrightarrow> cj_nodes h' y = map_option (\<lambda>n. n\<lparr>n_prev := m\<rparr>) (cj_nodes h y)"
    using f by (auto simp: h'_def C_def B_def B1_def link_here)
  from chain_before(1) [OF c(1) this(1) same(1)] chain_behind(1) [OF c(2) this(2) same(2)]
  obtain l' where "chain_at h' (if m = 0 then y else n_child n) 0 as y m NA SA" "chain_at h' y m bs 0 l' NB SB" by blast
  from chain_append [OF this] dis have chain: "chain_at h' (if m = 0 then y else n_child n) 0 (as @ bs) 0 l' (NA \<union> NB) (SA \<union> SB)" by blast
  have node: "cj_nodes h' a = Some (n\<lparr>n_child := (if m = 0 then y else n_child n)\<rparr>)" using f n by (auto simp: h'_def C_def B_def B1_def)
  have "item_at h' a (set_children A (as @ bs)) (insert a (NA \<union> NB)) (S1 \<union> (SA \<union> SB))"
    by (rule item_rebuild [OF chain n(6,2) node]) (use dis in \<open>auto simp: h'_def\<close>)
  moreover have "item_at h' x X NX SX" by (rule item_at_links [OF c(3) same(3) n(3)]) (simp add: h'_def)
  moreover have "cj_nodes h' x = Some (nx\<lparr>n_next := 0, n_prev := 0\<rparr>)" by (simp add: h'_def)
  ultimately have "loose_at h' x X NX SX" "item_at h' a (set_children A (as @ bs)) (insert a (NA \<union> NB)) (S1 \<union> (SA \<union> SB))"
    by (simp_all add: loose_at_def)
  moreover have "insert a (NA \<union> NB) \<inter> NX = {}" "N = insert a (NA \<union> NB) \<union> NX" "(S1 \<union> (SA \<union> SB)) \<inter> SX = {}" "S = S1 \<union> (SA \<union> SB) \<union> SX"
    using NS dis by auto
  moreover have "same_links a h h'" using node n(1) by (simp add: same_links_def)
  ultimately show ?thesis using run same(4) by blast
qed

lemma Insert_item:
  assumes "item_at h a A N S" "children A = as @ X # bs" "nat which = length as" "loose_at h p P NP SP" "N \<inter> NP = {}" "S \<inter> SP = {}"
  shows "\<exists>h'. hp_InsertItemInArray a which p h = Some h' \<and> item_at h' a (set_children A (as @ P # X # bs)) (N \<union> NP) (S \<union> SP) \<and> same_links a h h' \<and>
    same_in (- (N \<union> NP)) UNIV h h'"
proof -
  obtain x m y n nx NA NX NB SA SX SB S1 where o: "opened_at h a A as X bs x m y n nx NA NX NB SA SX SB S1"
    and NS: "N = insert a (NA \<union> NX \<union> NB)" "S = S1 \<union> (SA \<union> SX \<union> SB)" by (rule open_array [OF assms(1,2)])
  note f = opened_facts [OF o]
  from o obtain l where c: "chain_at h (n_child n) 0 as x m NA SA" "chain_at h y x bs 0 l NB SB" "item_at h x X NX SX"
    and n: "cj_nodes h a = Some n" "fields_at h n A S1" "cj_nodes h x = Some nx" "n_prev nx = m" "n_next nx = y" "a \<noteq> 0"
    and walk: "hp_walk h (n_child n) (length as) = Some x"
    and dis: "NA \<inter> NX = {}" "(NA \<union> NX) \<inter> NB = {}" "a \<notin> NA \<union> NX \<union> NB" "SA \<inter> SX = {}" "(SA \<union> SX) \<inter> SB = {}" "S1 \<inter> (SA \<union> SX \<union> SB) = {}"
    by (auto simp: opened_at_def)
  from assms(4) obtain np where p: "item_at h p P NP SP" "cj_nodes h p = Some np" "n_next np = 0" "n_prev np = 0" by (auto simp: loose_at_def)
  have pN: "p \<noteq> 0" "p \<in> NP" "p \<noteq> x" "p \<noteq> a" "p \<noteq> m" "p \<noteq> y" "p \<notin> N" "m \<notin> NP" "x \<notin> NP" "a \<notin> NP"
    using item_at_root [OF p(1)] no_null(1) [OF p(1)] assms(5) f NS by auto
  obtain nm where nm: "m \<noteq> 0 \<longrightarrow> cj_nodes h m = Some nm" using f(11) by blast
  let ?M = "cj_nodes h" and ?np = "np\<lparr>n_next := x, n_prev := m\<rparr>"
  define B where "B = ?M(p \<mapsto> ?np, x \<mapsto> nx\<lparr>n_prev := p\<rparr>)"
  define C where "C = (if m = 0 then B(a \<mapsto> n\<lparr>n_child := p\<rparr>) else link_next m p B)"
  define h' where "h' = h\<lparr>cj_nodes := C\<rparr>"
  have at: "B a = Some n" "B p = Some ?np" "m \<noteq> 0 \<longrightarrow> B m = Some nm" "C p = Some ?np" "C x = Some (nx\<lparr>n_prev := p\<rparr>)"
    using f(1-8) n(1,3) p(2) pN(1-6) nm by (auto simp: B_def C_def)
  have 1: "set_next p x h = Some (h\<lparr>cj_nodes := ?M(p \<mapsto> np\<lparr>n_next := x\<rparr>)\<rparr>)"
    "set_prev p m (h\<lparr>cj_nodes := ?M(p \<mapsto> np\<lparr>n_next := x\<rparr>)\<rparr>) = Some (h\<lparr>cj_nodes := ?M(p \<mapsto> ?np)\<rparr>)"
    using p(2) by (simp_all add: set_link_simps)
  have 2: "set_prev x p (h\<lparr>cj_nodes := ?M(p \<mapsto> ?np)\<rparr>) = Some (h\<lparr>cj_nodes := B\<rparr>)"
    using n(3) pN(3) by (simp add: B_def set_link_simps)
  have 3: "(if x = n_child n then set_child a p (h\<lparr>cj_nodes := B\<rparr>)
      else do { m \<leftarrow> cj_node (h\<lparr>cj_nodes := B\<rparr>) p; set_next (n_prev m) p (h\<lparr>cj_nodes := B\<rparr>) }) = Some h'"
    using at(1-3) f(10) by (simp add: C_def h'_def link_next_def set_link_simps)
  have gets: "cj_node (h\<lparr>cj_nodes := ?M(p \<mapsto> np\<lparr>n_next := x\<rparr>)\<rparr>) x = Some nx" "cj_node (h\<lparr>cj_nodes := B\<rparr>) a = Some n"
    using pN(3) n(3) at(1) by simp_all
  have run: "hp_InsertItemInArray a which p h = Some h'"
    unfolding hp_InsertItemInArray_def
    by (simp only: n(1,3,4,5) Option.bind_lunit walk assms(3) f(1) if_False 1 2 3 gets)
  have mem: "m \<in> insert 0 NA" using f(11) by auto
  have disP: "p \<notin> NA" "p \<notin> NX" "p \<notin> NB" "x \<notin> NP" "a \<notin> NP" "a \<notin> NA" "a \<notin> NX" "a \<notin> NB"
    using pN NS(1) dis(3) by simp_all
  have disX: "x \<notin> NA" "x \<notin> NB" using f(2) dis(1,2) by blast+
  have disM: "m \<noteq> 0 \<longrightarrow> m \<notin> NX \<and> m \<notin> NB \<and> m \<notin> NP"
    using mem dis(1,2) assms(5) NS(1) by blast+
  have N: "m \<noteq> 0 \<longrightarrow> m \<in> N" "x \<in> N" "a \<in> N" using NS(1) mem f(2) by auto
  have other: "cj_nodes h' z = cj_nodes h z" if "z \<notin> {a, x, p, m, 0} - {0}" for z
    using that n(6) f(1) pN(1) by (auto simp: h'_def C_def B_def)
  have strs: "cj_strs h' = cj_strs h" by (simp add: h'_def)
  have same: "same_in (NA - {m}) SA h h'" "same_in ((NX \<union> NB) - {x}) (SX \<union> SB) h h'" "same_in (NP - {p}) SP h h'" "same_in (- (N \<union> NP)) UNIV h h'"
    by (rule same_but [of a x p m 0, OF other strs], assumption, use disP disX disM N pN(2) f(2) in simp_all)+
  have links: "m \<noteq> 0 \<longrightarrow> cj_nodes h' m = map_option (\<lambda>n. n\<lparr>n_next := p\<rparr>) (cj_nodes h m)"
    "cj_nodes h' x = Some (nx\<lparr>n_prev := p\<rparr>)"
    using f pN n at by (auto simp: h'_def C_def B_def link_here)
  have "chain_at h x m (X # bs) 0 l (NX \<union> NB) (SX \<union> SB)"
    by (rule chain_ConsI [OF c(3) n(3,4)]) (use c(2) n(5) dis in auto)
  from chain_relink_begin [OF this n(3) links(2) same(2)] have behind: "chain_at h' x p (X # bs) 0 l (NX \<union> NB) (SX \<union> SB)" .
  have "item_at h' p P NP SP" by (rule item_at_links [OF p(1) same(3) p(2), of m x]) (use at(4) in \<open>simp add: h'_def\<close>)
  then have "chain_at h' p m (P # X # bs) 0 l (NP \<union> (NX \<union> NB)) (SP \<union> (SX \<union> SB))"
    by (rule chain_ConsI [where n = "np\<lparr>n_next := x, n_prev := m\<rparr>"]) (use behind at(4) assms(5,6) NS in \<open>auto simp: h'_def\<close>)
  from chain_append [OF chain_before(1) [OF c(1) links(1) same(1)] this _ _ refl refl] dis assms(5,6) NS
  have chain: "chain_at h' (if m = 0 then p else n_child n) 0 (as @ P # X # bs) 0 l (NA \<union> (NP \<union> (NX \<union> NB))) (SA \<union> (SP \<union> (SX \<union> SB)))" by blast
  have node: "cj_nodes h' a = Some (n\<lparr>n_child := (if m = 0 then p else n_child n)\<rparr>)" using f n pN by (auto simp: h'_def C_def B_def)
  have "item_at h' a (set_children A (as @ P # X # bs)) (insert a (NA \<union> (NP \<union> (NX \<union> NB)))) (S1 \<union> (SA \<union> (SP \<union> (SX \<union> SB))))"
    by (rule item_rebuild [OF chain n(6,2) node]) (use dis pN assms(6) NS in \<open>auto simp: h'_def\<close>)
  moreover have "insert a (NA \<union> (NP \<union> (NX \<union> NB))) = N \<union> NP" "S1 \<union> (SA \<union> (SP \<union> (SX \<union> SB))) = S \<union> SP" using NS by auto
  moreover have "same_links a h h'" using node n(1) by (simp add: same_links_def)
  ultimately show ?thesis using run same(4) by auto
qed

lemma Delete_loose: "loose_at h x X NX SX \<Longrightarrow> hp_Delete x h = Some (cj_drop NX SX h)"
  using Delete_item [of h x X NX SX] by (auto simp: loose_at_def hp_Delete.simps [of 0])

lemma Replace_item:
  assumes "item_at h a A N S" "children A = as @ X # bs" "nat which = length as" "loose_at h p P NP SP" "N \<inter> NP = {}" "S \<inter> SP = {}"
  shows "\<exists>h' N' S'. hp_ReplaceItemInArray a which p h = Some h' \<and> item_at h' a (set_children A (as @ P # bs)) N' S' \<and>
    N' \<subseteq> N \<union> NP \<and> S' \<subseteq> S \<union> SP \<and> dom (cj_nodes h') = dom (cj_nodes h) - (N \<union> NP - N') \<and> dom (cj_strs h') = dom (cj_strs h) - (S \<union> SP - S') \<and>
    same_links a h h' \<and> same_in (- (N \<union> NP)) (- (S \<union> SP)) h h'"
proof -
  obtain x m y n nx NA NX NB SA SX SB S1 where o: "opened_at h a A as X bs x m y n nx NA NX NB SA SX SB S1"
    and NS: "N = insert a (NA \<union> NX \<union> NB)" "S = S1 \<union> (SA \<union> SX \<union> SB)" by (rule open_array [OF assms(1,2)])
  note f = opened_facts [OF o]
  from o obtain l where c: "chain_at h (n_child n) 0 as x m NA SA" "chain_at h y x bs 0 l NB SB" "item_at h x X NX SX"
    and n: "cj_nodes h a = Some n" "fields_at h n A S1" "cj_nodes h x = Some nx" "n_prev nx = m" "n_next nx = y" "a \<noteq> 0"
    and walk: "hp_walk h (n_child n) (length as) = Some x"
    and dis: "NA \<inter> NX = {}" "(NA \<union> NX) \<inter> NB = {}" "a \<notin> NA \<union> NX \<union> NB" "SA \<inter> SX = {}" "(SA \<union> SX) \<inter> SB = {}" "S1 \<inter> (SA \<union> SX \<union> SB) = {}"
    by (auto simp: opened_at_def)
  from assms(4) obtain np where p: "item_at h p P NP SP" "cj_nodes h p = Some np" "n_next np = 0" "n_prev np = 0" by (auto simp: loose_at_def)
  have pN: "p \<noteq> 0" "p \<in> NP" "p \<noteq> x" "p \<noteq> a" "p \<noteq> m" "p \<noteq> y" "p \<notin> N" "x \<notin> NP" "a \<notin> NP"
    using item_at_root [OF p(1)] no_null(1) [OF p(1)] assms(5) f NS by auto
  obtain nm where nm: "m \<noteq> 0 \<longrightarrow> cj_nodes h m = Some nm" using f(11) by blast
  obtain ny where ny: "y \<noteq> 0 \<longrightarrow> cj_nodes h y = Some ny" using f(12) by blast
  let ?M = "cj_nodes h" and ?np = "np\<lparr>n_next := y, n_prev := m\<rparr>"
  define B where "B = link_prev y p (?M(p \<mapsto> ?np))"
  define C where "C = (if m = 0 then B(a \<mapsto> n\<lparr>n_child := p\<rparr>) else link_next m p B)"
  define h1 where "h1 = h\<lparr>cj_nodes := C(x \<mapsto> nx\<lparr>n_next := 0, n_prev := 0\<rparr>)\<rparr>"
  have at: "B a = Some n" "B p = Some ?np" "C x = Some nx" "m \<noteq> 0 \<longrightarrow> B m = Some nm" "C p = Some ?np"
    using f(1-8) n(1,3) p(2) pN nm by (auto simp: B_def C_def)
  have 1: "set_next p y h = Some (h\<lparr>cj_nodes := ?M(p \<mapsto> np\<lparr>n_next := y\<rparr>)\<rparr>)"
    "set_prev p m (h\<lparr>cj_nodes := ?M(p \<mapsto> np\<lparr>n_next := y\<rparr>)\<rparr>) = Some (h\<lparr>cj_nodes := ?M(p \<mapsto> ?np)\<rparr>)"
    using p(2) by (simp_all add: set_link_simps)
  have 2: "(if y \<noteq> 0 then set_prev y p (h\<lparr>cj_nodes := ?M(p \<mapsto> ?np)\<rparr>) else Some (h\<lparr>cj_nodes := ?M(p \<mapsto> ?np)\<rparr>)) = Some (h\<lparr>cj_nodes := B\<rparr>)"
    using ny pN(6) by (simp add: B_def link_prev_def set_link_simps)
  have 3: "(if x = n_child n then set_child a p (h\<lparr>cj_nodes := B\<rparr>)
      else do { m \<leftarrow> cj_node (h\<lparr>cj_nodes := B\<rparr>) p; set_next (n_prev m) p (h\<lparr>cj_nodes := B\<rparr>) }) = Some (h\<lparr>cj_nodes := C\<rparr>)"
    using at f(10) by (simp add: C_def link_next_def set_link_simps)
  have 4: "do { h \<leftarrow> set_prev x 0 (h\<lparr>cj_nodes := C\<rparr>); h \<leftarrow> set_next x 0 h; hp_Delete x h } = hp_Delete x h1"
    using at(3) by (simp add: h1_def set_link_simps unlink_order)
  have gets: "cj_node (h\<lparr>cj_nodes := ?M(p \<mapsto> np\<lparr>n_next := y\<rparr>)\<rparr>) x = Some nx" "cj_node (h\<lparr>cj_nodes := ?M(p \<mapsto> ?np)\<rparr>) p = Some ?np"
    "cj_node (h\<lparr>cj_nodes := B\<rparr>) a = Some n" "n_next ?np = y"
    using pN(3) n(3) at(1) by simp_all
  have run: "hp_ReplaceItemInArray a which p h = hp_Delete x h1"
    unfolding hp_ReplaceItemInArray_def
    by (simp only: n(1,3,4,5) Option.bind_lunit walk assms(3) f(1) if_False 1 2 3 4 gets)
  have mem: "m \<in> insert 0 NA" "y \<in> insert 0 NB" using f(11,12) by auto
  have disP: "p \<notin> NA" "p \<notin> NX" "p \<notin> NB" "x \<notin> NP" "a \<notin> NP" "a \<notin> NA" "a \<notin> NX" "a \<notin> NB"
    using pN(7-9) NS(1) dis(3) by simp_all
  have disX: "x \<notin> NA" "x \<notin> NB" using f(2) dis(1,2) by blast+
  have disM: "m \<noteq> 0 \<longrightarrow> m \<notin> NX \<and> m \<notin> NB \<and> m \<notin> NP" "y \<noteq> 0 \<longrightarrow> y \<notin> NX \<and> y \<notin> NA \<and> y \<notin> NP"
    using mem dis(1,2) assms(5) NS(1) by blast+
  have N: "m \<noteq> 0 \<longrightarrow> m \<in> N" "y \<noteq> 0 \<longrightarrow> y \<in> N" "x \<in> N" "a \<in> N" using NS(1) mem f(2) by auto
  have other: "cj_nodes h1 z = cj_nodes h z" if "z \<notin> {a, x, p, m, y} - {0}" for z
    using that n(6) f(1) pN(1) by (auto simp: h1_def C_def B_def)
  have strs: "cj_strs h1 = cj_strs h" by (simp add: h1_def)
  have same: "same_in (NA - {m}) SA h h1" "same_in (NB - {y}) SB h h1" "same_in (NX - {x}) SX h h1" "same_in (NP - {p}) SP h h1"
    "same_in (- (N \<union> NP)) UNIV h h1"
    by (rule same_but [of a x p m y, OF other strs], assumption, use disP disX disM N pN(2) f(2) in simp_all)+
  have links: "m \<noteq> 0 \<longrightarrow> cj_nodes h1 m = map_option (\<lambda>n. n\<lparr>n_next := p\<rparr>) (cj_nodes h m)"
    "y \<noteq> 0 \<longrightarrow> cj_nodes h1 y = map_option (\<lambda>n. n\<lparr>n_prev := p\<rparr>) (cj_nodes h y)"
    using f pN by (auto simp: h1_def C_def B_def link_here)
  have "item_at h1 x X NX SX" by (rule item_at_links [OF c(3) same(3) n(3)]) (simp add: h1_def)
  then have X: "loose_at h1 x X NX SX" by (simp add: loose_at_def h1_def)
  have P: "item_at h1 p P NP SP" by (rule item_at_links [OF p(1) same(4) p(2), of m y]) (use pN(3) at(5) in \<open>simp add: h1_def\<close>)
  obtain l' where "chain_at h1 y p bs 0 l' NB SB" using chain_behind(1) [OF c(2) links(2) same(2)] by blast
  with P have "chain_at h1 p m (P # bs) 0 l' (NP \<union> NB) (SP \<union> SB)"
    by (intro chain_ConsI [where n = "np\<lparr>n_next := y, n_prev := m\<rparr>"]) (use pN(3) at(5) assms(5,6) NS in \<open>auto simp: h1_def\<close>)
  from chain_append [OF chain_before(1) [OF c(1) links(1) same(1)] this _ _ refl refl] dis assms(5,6) NS
  have chain: "chain_at h1 (if m = 0 then p else n_child n) 0 (as @ P # bs) 0 l' (NA \<union> (NP \<union> NB)) (SA \<union> (SP \<union> SB))" by blast
  have node: "cj_nodes h1 a = Some (n\<lparr>n_child := (if m = 0 then p else n_child n)\<rparr>)" using f n pN by (auto simp: h1_def C_def B_def)
  define N' where "N' = insert a (NA \<union> (NP \<union> NB))"
  define S' where "S' = S1 \<union> (SA \<union> (SP \<union> SB))"
  have A: "item_at h1 a (set_children A (as @ P # bs)) N' S'" unfolding N'_def S'_def
    by (rule item_rebuild [OF chain n(6,2) node]) (use dis pN assms(6) NS strs in auto)
  have sets: "N' \<inter> NX = {}" "S' \<inter> SX = {}" "N' \<subseteq> N \<union> NP" "S' \<subseteq> S \<union> SP" "N \<union> NP - N' = NX" "S \<union> SP - S' = SX"
    using assms(5,6) dis disP unfolding N'_def S'_def NS by auto
  have "item_at (cj_drop NX SX h1) a (set_children A (as @ P # bs)) N' S'" by (rule at_same(1) [OF A same_in_drop [OF sets(1,2)]])
  moreover have "dom (cj_nodes h1) = dom (cj_nodes h)"
    using n(1,3) p(2) by (auto simp: h1_def C_def B_def insert_absorb domI)
  then have "dom (cj_nodes (cj_drop NX SX h1)) = dom (cj_nodes h) - NX" "dom (cj_strs (cj_drop NX SX h1)) = dom (cj_strs h) - SX"
    by (auto simp: cj_drop_def strs)
  moreover have "same_in (- (N \<union> NP)) (- (S \<union> SP)) h (cj_drop NX SX h1)"
    using same(5) NS strs by (auto simp: same_in_def cj_drop_def restrict_map_def)
  moreover have "a \<notin> NX" using dis(3) by simp
  then have "same_links a h (cj_drop NX SX h1)" using node n(1) by (simp add: same_links_def cj_drop_def)
  ultimately show ?thesis unfolding run Delete_loose [OF X] using sets by (intro exI [of _ "cj_drop NX SX h1"] exI [of _ N'] exI [of _ S']) simp
qed

end
