(* ===== verification/CjsonMemory.thy ===== *)
theory CjsonMemory
  imports CjsonHeap
begin

text \<open>
  What the operations of \<open>CjsonHeap\<close> do to trees in memory: they implement the functions on trees of \<open>CjsonBuild\<close>,
  free what is no longer in a tree and touch nothing else. Then the items that trees cannot express: references,
  which share the children of another item, and names that are constants.
\<close>

lemma restrict_all [simp]: "M |` UNIV = M"
  by (simp add: restrict_map_def)

subsection \<open>Implementing an operation on trees\<close>

lemma at_dom:
  "item_at h p t N S \<Longrightarrow> N \<subseteq> dom (cj_nodes h) \<and> S \<subseteq> dom (cj_strs h)"
  "chain_at h p prev cs q l N S \<Longrightarrow> N \<subseteq> dom (cj_nodes h) \<and> S \<subseteq> dom (cj_strs h)"
proof (induction h p t N S and h p prev cs q l N S rule: item_at_chain_at.induct)
  case (1 h p t vs vi vd nm cs N S)
  from 1(2) obtain n l N' S1 S2 where n: "cj_nodes h p = Some n" "fields_at h n (Item t vs vi vd nm []) S1"
    "chain_at h (n_child n) 0 cs 0 l N' S2" "N = insert p N'" "S = S1 \<union> S2"
    by (auto simp: item_at.simps)
  have "S1 \<subseteq> dom (cj_strs h)" using n(2) by (cases vs; cases nm) (auto simp: fields_at_def)
  with 1(1) [OF n(3)] n show ?case by auto
next
  case (3 h p prev c cs q l N S)
  from 3(3) show ?case by (rule chain_ConsE) (use 3(1,2) in blast)
qed simp

text \<open>
  The result \<open>r\<close> of an operation that owns the nodes \<open>N\<close> and strings \<open>S\<close> of \<open>h\<close>: the tree \<open>A\<close> is at \<open>a\<close>, of the blocks
  that were owned just those in the tree are still allocated, and all other blocks are as before.
\<close>

definition implements :: "cjheap \<Rightarrow> cjheap option \<Rightarrow> ptr \<Rightarrow> cJSON \<Rightarrow> ptr set \<Rightarrow> ptr set \<Rightarrow> bool" where
  "implements h r a A N S \<longleftrightarrow> (\<exists>h' N' S'. r = Some h' \<and> item_at h' a A N' S' \<and> same_links a h h' \<and> N' \<subseteq> N \<and> S' \<inter> dom (cj_strs h) \<subseteq> S \<and>
     dom (cj_nodes h') = dom (cj_nodes h) - N \<union> N' \<and> dom (cj_strs h') = dom (cj_strs h) - S \<union> S' \<and>
     same_in (- N) (- (S \<union> S')) h h')"

lemma implements_all:
  assumes "item_at h' a A N S" "N \<subseteq> dom (cj_nodes h)" "S \<subseteq> dom (cj_strs h)" "same_links a h h'" "same_in (- N) UNIV h h'"
  shows "implements h (Some h') a A N S"
proof -
  have "dom (cj_strs h') = dom (cj_strs h)" using assms(5) by (auto simp: same_in_def dom_def)
  moreover have "x \<in> dom (cj_nodes h') \<longleftrightarrow> x \<in> dom (cj_nodes h) - N \<union> N" for x
    using assms(2,5) at_dom(1) [OF assms(1)] by (cases "x \<in> N") (auto simp: same_in_def dom_def)
  then have "dom (cj_nodes h') = dom (cj_nodes h) - N \<union> N" by blast
  moreover have "same_in (- N) (- (S \<union> S)) h h'" using assms(5) by (auto simp: same_in_def)
  ultimately show ?thesis unfolding implements_def
    using assms(1,3,4) by (intro exI [of _ h'] exI [of _ N] exI [of _ S]) auto
qed

lemma loose_dom: "loose_at h x X N S \<Longrightarrow> N \<subseteq> dom (cj_nodes h) \<and> S \<subseteq> dom (cj_strs h)"
  unfolding loose_at_def using at_dom(1) by blast

subsection \<open>Editing arrays\<close>

text \<open>The array at \<open>a\<close> and an item at \<open>x\<close> in no chain.\<close>

definition array_and_item :: "cjheap \<Rightarrow> ptr \<Rightarrow> cJSON \<Rightarrow> ptr set \<Rightarrow> ptr set \<Rightarrow> ptr \<Rightarrow> cJSON \<Rightarrow> ptr set \<Rightarrow> ptr set \<Rightarrow> bool" where
  "array_and_item h a A N S x X NX SX \<longleftrightarrow> item_at h a A N S \<and> loose_at h x X NX SX \<and> N \<inter> NX = {} \<and> S \<inter> SX = {}"

lemma array_and_item_dom: "array_and_item h a A N S x X NX SX \<Longrightarrow> N \<union> NX \<subseteq> dom (cj_nodes h) \<and> S \<union> SX \<subseteq> dom (cj_strs h)"
  using loose_dom at_dom(1) unfolding array_and_item_def by blast

lemma Add_implements:
  assumes "array_and_item h a A N S x X NX SX"
  shows "implements h (hp_AddItemToArray a x h) a (set_children A (children A @ [X])) (N \<union> NX) (S \<union> SX)"
proof -
  obtain h' where h': "hp_AddItemToArray a x h = Some h'" "item_at h' a (set_children A (children A @ [X])) (N \<union> NX) (S \<union> SX)"
    "same_links a h h'" "same_in (- (N \<union> NX)) UNIV h h'" using Add_item assms unfolding array_and_item_def by blast
  show ?thesis unfolding h'(1) by (rule implements_all [OF h'(2) _ _ h'(3,4)]) (use array_and_item_dom [OF assms] in blast)+
qed

lemma split_at: "k < length cs \<Longrightarrow> cs = take k cs @ cs ! k # drop (Suc k) cs \<and> length (take k cs) = k"
  by (simp add: id_take_nth_drop)

lemma item_chain:
  assumes "item_at h a A N S"
  obtains n l N' S' where "cj_nodes h a = Some n" "chain_at h (n_child n) 0 (children A) 0 l N' S'" "N' \<subseteq> N" "S' \<subseteq> S"
  using assms unfolding item_at_iff by blast

lemma beyond_the_end:
  assumes "item_at h a A N S" "\<not> nat which < length (children A)"
  obtains n where "cj_nodes h a = Some n" "hp_walk h (n_child n) (nat which) = Some 0"
  by (rule item_chain [OF assms(1)]) (use hp_walk_end assms(2) that in \<open>simp add: not_less\<close>)

lemma Insert_implements:
  assumes "array_and_item h a A N S x X NX SX"
  shows "implements h (hp_InsertItemInArray a which x h) a (cJSON_InsertItemInArray A which X) (N \<union> NX) (S \<union> SX)"
proof (cases "nat which < length (children A)")
  case True
  note k = split_at [OF this]
  obtain h' where h': "hp_InsertItemInArray a which x h = Some h'"
    "item_at h' a (set_children A (take (nat which) (children A) @ X # children A ! nat which # drop (Suc (nat which)) (children A))) (N \<union> NX) (S \<union> SX)"
    "same_links a h h'" "same_in (- (N \<union> NX)) UNIV h h'"
    using Insert_item [OF _ conjunct1 [OF k] conjunct2 [OF k, symmetric]] assms unfolding array_and_item_def by blast
  have "cJSON_InsertItemInArray A which X = set_children A (take (nat which) (children A) @ X # children A ! nat which # drop (Suc (nat which)) (children A))"
    using True by (simp add: cJSON_InsertItemInArray_def Let_def Cons_nth_drop_Suc)
  with implements_all [OF h'(2) _ _ h'(3,4)] array_and_item_dom [OF assms] show ?thesis by (simp add: h'(1))
next
  case False
  obtain n where "cj_nodes h a = Some n" "hp_walk h (n_child n) (nat which) = Some 0"
    by (rule beyond_the_end [OF _ False]) (use assms in \<open>auto simp: array_and_item_def\<close>)
  with Add_implements [OF assms] False show ?thesis
    by (simp add: hp_InsertItemInArray_def cJSON_InsertItemInArray_def)
qed

lemma Replace_implements:
  assumes "array_and_item h a A N S x X NX SX"
  shows "if nat which < length (children A)
    then implements h (hp_ReplaceItemInArray a which x h) a (cJSON_ReplaceItemInArray A which X) (N \<union> NX) (S \<union> SX)
    else hp_ReplaceItemInArray a which x h = Some h \<and> cJSON_ReplaceItemInArray A which X = A"
proof (cases "nat which < length (children A)")
  case True
  note k = split_at [OF this]
  from assms have i: "item_at h a A N S" "loose_at h x X NX SX" "N \<inter> NX = {}" "S \<inter> SX = {}" by (simp_all add: array_and_item_def)
  obtain h' N' S' where h': "hp_ReplaceItemInArray a which x h = Some h'"
    "item_at h' a (set_children A (take (nat which) (children A) @ X # drop (Suc (nat which)) (children A))) N' S'"
    "N' \<subseteq> N \<union> NX" "S' \<subseteq> S \<union> SX" "dom (cj_nodes h') = dom (cj_nodes h) - (N \<union> NX - N')"
    "dom (cj_strs h') = dom (cj_strs h) - (S \<union> SX - S')" "same_links a h h'" "same_in (- (N \<union> NX)) (- (S \<union> SX)) h h'"
    using Replace_item [OF i(1) conjunct1 [OF k] conjunct2 [OF k, symmetric] i(2-4)] by metis
  have tree: "cJSON_ReplaceItemInArray A which X = set_children A (take (nat which) (children A) @ X # drop (Suc (nat which)) (children A))"
    using True by (simp add: cJSON_ReplaceItemInArray_def upd_conv_take_nth_drop)
  have "dom (cj_nodes h') = dom (cj_nodes h) - (N \<union> NX) \<union> N'" "dom (cj_strs h') = dom (cj_strs h) - (S \<union> SX) \<union> S'"
    using h'(3-6) array_and_item_dom [OF assms] by blast+
  moreover have "same_in (- (N \<union> NX)) (- (S \<union> SX \<union> S')) h h'" by (rule same_in_mono [OF h'(8)]) auto
  ultimately show ?thesis using True h'(2-4,7) unfolding h'(1) tree implements_def
    by (simp only: if_True) (intro exI [of _ h'] exI [of _ N'] exI [of _ S'], auto)
next
  case False
  obtain n where "cj_nodes h a = Some n" "hp_walk h (n_child n) (nat which) = Some 0"
    by (rule beyond_the_end [OF _ False]) (use assms in \<open>auto simp: array_and_item_def\<close>)
  with False show ?thesis by (simp add: hp_ReplaceItemInArray_def cJSON_ReplaceItemInArray_def)
qed

text \<open>Detaching gives two trees that own what the one owned.\<close>

definition detached :: "cjheap \<Rightarrow> (ptr \<times> cjheap) option \<Rightarrow> ptr \<Rightarrow> cJSON option \<times> cJSON \<Rightarrow> ptr set \<Rightarrow> ptr set \<Rightarrow> bool" where
  "detached h r a XA N S \<longleftrightarrow> (case XA of (None, A) \<Rightarrow> r = Some (0, h)
     | (Some X, A) \<Rightarrow> \<exists>x h' NX SX N' S'. r = Some (x, h') \<and> array_and_item h' a A N' S' x X NX SX \<and>
         N = N' \<union> NX \<and> S = S' \<union> SX \<and> same_links a h h' \<and> same_in (- N) UNIV h h')"

lemma Detach_implements:
  assumes "item_at h a A N S"
  shows "detached h (hp_DetachItemFromArray a which h) a (cJSON_DetachItemFromArray A which) N S"
proof (cases "nat which < length (children A)")
  case True
  note k = split_at [OF this]
  show ?thesis using Detach_item [OF assms conjunct1 [OF k] conjunct2 [OF k, symmetric]] True
    unfolding detached_def array_and_item_def cJSON_DetachItemFromArray_def Let_def by simp blast
next
  case False
  obtain n where "cj_nodes h a = Some n" "hp_walk h (n_child n) (nat which) = Some 0" by (rule beyond_the_end [OF assms False])
  with False show ?thesis by (simp add: detached_def hp_DetachItemFromArray_def cJSON_DetachItemFromArray_def)
qed

lemma Delete_detached:
  assumes "detached h r a (Some X, A) N S" "N \<subseteq> dom (cj_nodes h)" "S \<subseteq> dom (cj_strs h)"
  shows "implements h (do { (c, h) \<leftarrow> r; hp_Delete c h }) a A N S"
proof -
  obtain x h' NX SX N' S' where d: "r = Some (x, h')" "array_and_item h' a A N' S' x X NX SX" "N = N' \<union> NX" "S = S' \<union> SX"
    "same_links a h h'" "same_in (- N) UNIV h h'" using assms(1) by (auto simp: detached_def)
  from d(2) have i: "item_at h' a A N' S'" "loose_at h' x X NX SX" "N' \<inter> NX = {}" "S' \<inter> SX = {}" by (simp_all add: array_and_item_def)
  let ?h = "cj_drop NX SX h'"
  have A: "item_at ?h a A N' S'" by (rule at_same(1) [OF i(1) same_in_drop [OF i(3,4)]])
  have strs: "cj_strs h' = cj_strs h" using d(6) by (auto simp: same_in_def)
  have nodes: "x \<in> dom (cj_nodes h') \<longleftrightarrow> x \<in> dom (cj_nodes h)" for x
  proof (cases "x \<in> N")
    case True
    then have "x \<in> dom (cj_nodes h')" using array_and_item_dom [OF d(2)] d(3) by auto
    with True assms(2) show ?thesis by auto
  qed (use d(6) in \<open>auto simp: same_in_def dom_def\<close>)
  have "dom (cj_nodes ?h) = dom (cj_nodes h) - NX" using nodes by (auto simp: cj_drop_def)
  moreover have "\<dots> = dom (cj_nodes h) - N \<union> N'" using d(3) i(3) assms(2) by blast
  moreover have "dom (cj_strs ?h) = dom (cj_strs h) - SX" by (simp add: cj_drop_def strs Diff_eq)
  moreover have "\<dots> = dom (cj_strs h) - S \<union> S'" using d(4) i(4) assms(3) by blast
  moreover have "same_in (- N) (- (S \<union> S')) h ?h" using d(3,4,6) by (auto simp: same_in_def cj_drop_def)
  moreover have "a \<notin> NX" using item_at_root [OF i(1)] i(3) by auto
  then have "same_links a h ?h" using d(5) by (simp add: same_links_def cj_drop_def)
  ultimately show ?thesis unfolding implements_def d(1)
    using A d(3,4) by (intro exI [of _ ?h] exI [of _ N'] exI [of _ S']) (auto simp: Delete_loose [OF i(2)])
qed

lemma Delete_nothing: "item_at h a A N S \<Longrightarrow> implements h (Some h) a A N S"
  by (rule implements_all) (use at_dom(1) in \<open>auto simp: same_in_def same_links_def\<close>)

lemma DeleteItem_implements:
  assumes "item_at h a A N S"
  shows "implements h (hp_DeleteItemFromArray a which h) a (fst (cJSON_DeleteItemFromArray A which)) N S"
proof -
  obtain c A' where c: "cJSON_DetachItemFromArray A which = (c, A')" by fastforce
  from Detach_implements [OF assms] have d: "detached h (hp_DetachItemFromArray a which h) a (c, A') N S" by (simp add: c [symmetric])
  show ?thesis
  proof (cases c)
    case None
    with c have "A' = A" by (auto simp: cJSON_DetachItemFromArray_def Let_def split: if_splits)
    with None c d Delete_nothing [OF assms] show ?thesis
      by (simp add: hp_DeleteItemFromArray_def cJSON_DeleteItemFromArray_def detached_def hp_Delete.simps [of 0])
  next
    case (Some X)
    with Delete_detached [of h _ a X A' N S] d at_dom(1) [OF assms] c show ?thesis
      by (simp add: hp_DeleteItemFromArray_def cJSON_DeleteItemFromArray_def)
  qed
qed

subsection \<open>Objects\<close>

lemma item_name: "item_at h p t N S \<Longrightarrow> cj_nodes h p = Some n \<Longrightarrow> cj_name h (n_string n) = Some (cstring t)"
  by (cases "cstring t") (auto simp: item_at_iff fields_at_def cj_name_def)

lemma find_chain:
  "chain_at h p prev cs 0 l N S \<Longrightarrow>
   \<exists>c. hp_find h string p i = Some (c, i + int (length (takeWhile (\<lambda>c. \<not> cJSON_strcasecmp_eq (cstring c) (Some string)) cs))) \<and>
     (c = 0 \<longleftrightarrow> length (takeWhile (\<lambda>c. \<not> cJSON_strcasecmp_eq (cstring c) (Some string)) cs) = length cs)"
proof (induction cs arbitrary: p prev i N S)
  case Nil
  then show ?case by (simp add: hp_find.simps)
next
  case (Cons c cs)
  from Cons.prems obtain n N1 N2 S1 S2 where n: "item_at h p c N1 S1" "cj_nodes h p = Some n" "chain_at h (n_next n) p cs 0 l N2 S2"
    by (rule chain_ConsE)
  have p: "p \<noteq> 0" using item_at_root [OF n(1)] by simp
  show ?case
  proof (cases "cJSON_strcasecmp_eq (cstring c) (Some string)")
    case True
    with p n(2) item_name [OF n(1,2)] show ?thesis by (simp add: hp_find.simps)
  next
    case False
    obtain d where "hp_find h string (n_next n) (i + 1) = Some (d, i + 1 + int (length (takeWhile (\<lambda>c. \<not> cJSON_strcasecmp_eq (cstring c) (Some string)) cs)))"
      "d = 0 \<longleftrightarrow> length (takeWhile (\<lambda>c. \<not> cJSON_strcasecmp_eq (cstring c) (Some string)) cs) = length cs"
      using Cons.IH [OF n(3)] by blast
    with False p n(2) item_name [OF n(1,2)] show ?thesis by (subst hp_find.simps) simp
  qed
qed

lemma find_name_le: "find_name A string \<le> length (children A)"
  by (simp add: find_name_def length_takeWhile_le)

lemma find_item:
  assumes "item_at h a A N S"
  obtains n c where "cj_nodes h a = Some n" "hp_find h string (n_child n) 0 = Some (c, int (find_name A string))"
    "c = 0 \<longleftrightarrow> \<not> find_name A string < length (children A)"
proof -
  obtain n l N' S' where n: "cj_nodes h a = Some n" "chain_at h (n_child n) 0 (children A) 0 l N' S'" by (rule item_chain [OF assms])
  from find_chain [OF n(2), of string 0] obtain c where "hp_find h string (n_child n) 0 = Some (c, int (find_name A string))"
    "c = 0 \<longleftrightarrow> find_name A string = length (children A)" by (auto simp: find_name_def)
  with n(1) that find_name_le [of A string] show thesis by (simp add: le_less)
qed

lemma DetachObject_implements:
  assumes "item_at h a A N S"
  shows "detached h (hp_DetachItemFromObject a string h) a (cJSON_DetachItemFromObject A string) N S"
proof -
  obtain n c where f: "cj_nodes h a = Some n" "hp_find h string (n_child n) 0 = Some (c, int (find_name A string))"
    "c = 0 \<longleftrightarrow> \<not> find_name A string < length (children A)" by (rule find_item [OF assms])
  show ?thesis
  proof (cases "find_name A string < length (children A)")
    case True
    with Detach_implements [OF assms, of "int (find_name A string)"] f show ?thesis
      by (simp add: hp_DetachItemFromObject_def cJSON_DetachItemFromObject_def)
  next
    case False
    with f show ?thesis by (simp add: hp_DetachItemFromObject_def cJSON_DetachItemFromObject_def detached_def)
  qed
qed

lemma DeleteObject_implements:
  assumes "item_at h a A N S"
  shows "implements h (hp_DeleteItemFromObject a string h) a (fst (cJSON_DeleteItemFromObject A string)) N S"
proof -
  obtain c A' where c: "cJSON_DetachItemFromObject A string = (c, A')" by fastforce
  from DetachObject_implements [OF assms] have d: "detached h (hp_DetachItemFromObject a string h) a (c, A') N S" by (simp add: c [symmetric])
  show ?thesis
  proof (cases c)
    case None
    with c have "A' = A" by (auto simp: cJSON_DetachItemFromObject_def cJSON_DetachItemFromArray_def Let_def split: if_splits)
    with None c d Delete_nothing [OF assms] show ?thesis
      by (simp add: hp_DeleteItemFromObject_def cJSON_DeleteItemFromObject_def detached_def hp_Delete.simps [of 0])
  next
    case (Some X)
    with Delete_detached [of h _ a X A' N S] d at_dom(1) [OF assms] c show ?thesis
      by (simp add: hp_DeleteItemFromObject_def cJSON_DeleteItemFromObject_def)
  qed
qed

text \<open>The new name of an item.\<close>

definition name_of :: "ptr \<Rightarrow> byte list \<Rightarrow> byte list option" where
  "name_of str string = (if str = 0 then None else Some string)"

definition put_name :: "ptr \<Rightarrow> byte list \<Rightarrow> cjheap \<Rightarrow> cjheap" where
  "put_name str string h = (if str = 0 then h else h\<lparr>cj_strs := (cj_strs h)(str \<mapsto> string)\<rparr>)"

lemma put_name_simps [simp]:
  "cj_nodes (put_name str string h) = cj_nodes h"
  "cj_strs (put_name str string h) = (if str = 0 then cj_strs h else (cj_strs h)(str \<mapsto> string))"
  by (simp_all add: put_name_def)

text \<open>The item at \<open>x\<close> without the string of its name.\<close>

lemma loose_parts:
  assumes "loose_at h x X NX SX"
  obtains n Sn Sr where "cj_nodes h x = Some n" "str_at h (n_string n) (cstring X) Sn" "SX = Sn \<union> Sr" "Sn \<inter> Sr = {}"
    "\<not> flag_set (n_type n) cJSON_StringIsConst"
    "\<And>(h' :: cjheap) str string. cj_nodes h' = (cj_nodes h)(x \<mapsto> n\<lparr>n_string := str\<rparr>) \<Longrightarrow> (\<forall>y \<in> Sr. cj_strs h' y = cj_strs h y) \<Longrightarrow>
       str = 0 \<or> str \<notin> Sr \<Longrightarrow> str \<noteq> 0 \<longrightarrow> cj_strs h' str = Some string \<Longrightarrow> loose_at h' x (set_name X (name_of str string)) NX ({str} - {0} \<union> Sr)"
proof -
  from assms obtain n where i: "item_at h x X NX SX" "cj_nodes h x = Some n" "n_next n = 0" "n_prev n = 0" by (auto simp: loose_at_def)
  then obtain l N' S1 S2 where p: "x \<noteq> 0" "fields_at h n X S1" "chain_at h (n_child n) 0 (children X) 0 l N' S2" "x \<notin> N'"
    "NX = insert x N'" "S1 \<inter> S2 = {}" "SX = S1 \<union> S2" by (auto simp: item_at_iff)
  from p(2) obtain Sv Sn where q: "str_at h (n_valuestring n) (valuestring X) Sv" "str_at h (n_string n) (cstring X) Sn" "Sv \<inter> Sn = {}" "S1 = Sv \<union> Sn"
    "n_type n = ctype X" "n_valueint n = valueint X" "n_valuedouble n = valuedouble X" "\<not> flag_set (ctype X) cJSON_IsReference"
    "\<not> flag_set (ctype X) cJSON_StringIsConst" by (auto simp: fields_at_def)
  show thesis
  proof (rule that [of n Sn "Sv \<union> S2"])
    fix h' :: cjheap and str string
    assume h': "cj_nodes h' = (cj_nodes h)(x \<mapsto> n\<lparr>n_string := str\<rparr>)" "\<forall>y \<in> Sv \<union> S2. cj_strs h' y = cj_strs h y" "str = 0 \<or> str \<notin> Sv \<union> S2"
      "str \<noteq> 0 \<longrightarrow> cj_strs h' str = Some string"
    have "chain_at h' (n_child n) 0 (children X) 0 l N' S2"
      by (rule at_same(2) [OF p(3)]) (use h' p(4) in \<open>auto simp: same_in_def\<close>)
    moreover have "str_at h' (n_valuestring n) (valuestring X) Sv" using q(1) h'(2) by (cases "valuestring X") auto
    moreover have "str_at h' str (name_of str string) ({str} - {0})" using h'(4) by (simp add: name_of_def)
    moreover have "Sv \<inter> ({str} - {0}) = {}" "(Sv \<union> ({str} - {0})) \<inter> S2 = {}" using h'(3) p(6) q(4) by auto
    ultimately have "fields_at h' (n\<lparr>n_string := str\<rparr>) (set_name X (name_of str string)) (Sv \<union> ({str} - {0}))"
      and "chain_at h' (n_child n) 0 (children X) 0 l N' S2" "(Sv \<union> ({str} - {0})) \<inter> S2 = {}"
      unfolding fields_at_def using q(5-9) by (auto simp: set_name_def)
    then have "item_at h' x (set_name X (name_of str string)) NX (Sv \<union> ({str} - {0}) \<union> S2)"
      unfolding item_at_iff using p(1,4,5) h'(1)
      by (intro conjI exI [of _ "n\<lparr>n_string := str\<rparr>"] exI [of _ l] exI [of _ N'] exI [of _ "Sv \<union> ({str} - {0})"] exI [of _ S2]) (simp_all add: set_name_def)
    moreover have "Sv \<union> ({str} - {0}) \<union> S2 = {str} - {0} \<union> (Sv \<union> S2)" by blast
    ultimately show "loose_at h' x (set_name X (name_of str string)) NX ({str} - {0} \<union> (Sv \<union> S2))"
      using i h'(1) by (simp add: loose_at_def)
  qed (use i q p in auto)
qed

lemma implements_after:
  assumes "implements h2 r a A N S2" "dom (cj_nodes h2) = dom (cj_nodes h)" "dom (cj_strs h2) = dom (cj_strs h) - S \<union> S2"
    "S2 \<inter> dom (cj_strs h) \<subseteq> S" "same_in (- N) (- (S \<union> S2)) h h2" "same_links a h h2"
  shows "implements h r a A N S"
proof -
  from assms(1) obtain h' N' S' where i: "r = Some h'" "item_at h' a A N' S'" "same_links a h2 h'" "N' \<subseteq> N" "S' \<inter> dom (cj_strs h2) \<subseteq> S2"
    "dom (cj_nodes h') = dom (cj_nodes h2) - N \<union> N'" "dom (cj_strs h') = dom (cj_strs h2) - S2 \<union> S'" "same_in (- N) (- (S2 \<union> S')) h2 h'"
    by (auto simp: implements_def)
  have "S' \<inter> dom (cj_strs h) \<subseteq> S" using i(5) assms(3,4) by blast
  moreover have dom: "dom (cj_strs h') = dom (cj_strs h) - S \<union> S'" using i(7) assms(3,4) by blast
  moreover have "cj_strs h' x = cj_strs h x" if "x \<notin> S" "x \<notin> S'" for x
  proof (cases "x \<in> S2")
    case True
    with assms(4) that dom have "x \<notin> dom (cj_strs h)" "x \<notin> dom (cj_strs h')" by blast+
    then show ?thesis by (auto simp: domIff)
  qed (use i(8) assms(5) that in \<open>auto simp: same_in_def\<close>)
  then have "same_in (- N) (- (S \<union> S')) h h'" using i(8) assms(5) by (auto simp: same_in_def)
  moreover have "same_links a h h'" using i(3) assms(6) by (simp add: same_links_def)
  moreover have "dom (cj_nodes h') = dom (cj_nodes h) - N \<union> N'" using i(6) assms(2) by simp
  ultimately show ?thesis unfolding implements_def using i(1,2,4) by blast
qed

lemma set_node: "cj_nodes h p = Some n \<Longrightarrow> cj_set p f h = Some (h\<lparr>cj_nodes := (cj_nodes h)(p \<mapsto> f n)\<rparr>)"
  by (simp add: cj_set_def)

text \<open>The item at \<open>x\<close> gets another name, in the block of the former one or in a new one, and the former one is freed.\<close>

lemma renamed_item:
  assumes "array_and_item h a A N S x X NX SX" "cj_nodes h x = Some n" "str_at h (n_string n) (cstring X) Sn"
    "cj_nodes h2 = (cj_nodes h)(x \<mapsto> n\<lparr>n_string := str\<rparr>)"
    "cj_strs h2 = (if str = 0 then cj_strs h |` (- Sn) else (cj_strs h |` (- Sn))(str \<mapsto> string))"
    "str = 0 \<or> str \<in> Sn \<or> cj_strs h str = None"
    "\<And>SX'. array_and_item h2 a A N S x (set_name X (name_of str string)) NX SX' \<Longrightarrow> implements h2 r a A' (N \<union> NX) (S \<union> SX')"
  shows "implements h r a A' (N \<union> NX) (S \<union> SX)"
proof -
  from assms(1) have i: "item_at h a A N S" "loose_at h x X NX SX" "N \<inter> NX = {}" "S \<inter> SX = {}" by (simp_all add: array_and_item_def)
  obtain n' Sn' Sr where p: "cj_nodes h x = Some n'" "str_at h (n_string n') (cstring X) Sn'" "SX = Sn' \<union> Sr" "Sn' \<inter> Sr = {}" "\<not> flag_set (n_type n') cJSON_StringIsConst"
    and new: "\<And>(h' :: cjheap) str string. cj_nodes h' = (cj_nodes h)(x \<mapsto> n'\<lparr>n_string := str\<rparr>) \<Longrightarrow> (\<forall>y \<in> Sr. cj_strs h' y = cj_strs h y) \<Longrightarrow>
       str = 0 \<or> str \<notin> Sr \<Longrightarrow> str \<noteq> 0 \<longrightarrow> cj_strs h' str = Some string \<Longrightarrow> loose_at h' x (set_name X (name_of str string)) NX ({str} - {0} \<union> Sr)"
    by (rule loose_parts [OF i(2)]) (rule that; assumption)
  have same: "n' = n" "Sn' = Sn" using p(1,2) assms(2,3) by (auto, (cases "cstring X"; auto)+)
  define SX' where "SX' = {str} - {0} \<union> Sr"
  have dom: "S \<subseteq> dom (cj_strs h)" "NX \<subseteq> dom (cj_nodes h)" "SX \<subseteq> dom (cj_strs h)" using at_dom(1) [OF i(1)] loose_dom [OF i(2)] by auto
  have fresh: "str = 0 \<or> str \<notin> S \<and> str \<notin> Sr"
    using assms(6) dom(1,3) i(4) p(3,4) same by (auto simp: domIff)
  have strs: "cj_strs h2 y = cj_strs h y" if "y \<notin> Sn" "y \<noteq> str \<or> str = 0" for y
    using that by (auto simp: assms(5))
  have sep: "Sn \<inter> S = {}" "Sn \<inter> Sr = {}" using i(4) p(3,4) same by auto
  have "loose_at h2 x (set_name X (name_of str string)) NX SX'"
    unfolding SX'_def by (rule new) (use assms(4,5) same fresh strs sep in auto)
  moreover have "x \<in> NX" using item_at_root i(2) by (auto simp: loose_at_def)
  with i(3) have "same_in N S h h2" using assms(4) strs fresh sep by (auto simp: same_in_def)
  from at_same(1) [OF i(1) this] have "item_at h2 a A N S" .
  moreover have "S \<inter> SX' = {}" using fresh i(4) p(3) by (auto simp: SX'_def)
  ultimately have "implements h2 r a A' (N \<union> NX) (S \<union> SX')" using assms(7) i(3) by (simp add: array_and_item_def)
  moreover have "dom (cj_nodes h2) = dom (cj_nodes h)" using assms(2,4) by auto
  moreover have "dom (cj_strs h2) = dom (cj_strs h) - (S \<union> SX) \<union> (S \<union> SX')"
    using dom p(3) same sep i(4) by (auto simp: assms(5) SX'_def)
  moreover have "(S \<union> SX') \<inter> dom (cj_strs h) \<subseteq> S \<union> SX" using assms(6) p(3) same by (auto simp: SX'_def)
  moreover have "same_in (- (N \<union> NX)) (- (S \<union> SX \<union> (S \<union> SX'))) h h2"
    using \<open>x \<in> NX\<close> assms(4) p(3) same strs by (auto simp: same_in_def SX'_def)
  moreover have "a \<noteq> x" using \<open>x \<in> NX\<close> item_at_root [OF i(1)] i(3) by auto
  then have "same_links a h h2" using assms(4) by (simp add: same_links_def)
  ultimately show ?thesis by (rule implements_after)
qed

lemma AddObject_implements:
  assumes "array_and_item h a A N S x X NX SX" "cj_nodes h x = Some n" "str = 0 \<or> str = n_string n \<or> cj_strs h str = None"
  shows "implements h (hp_AddItemToObject a string x str h) a (set_children A (children A @ [set_name X (name_of str string)])) (N \<union> NX) (S \<union> SX)"
proof -
  from assms(1) have x: "loose_at h x X NX SX" by (simp add: array_and_item_def)
  obtain n' Sn Sr where p: "cj_nodes h x = Some n'" "str_at h (n_string n') (cstring X) Sn" by (rule loose_parts [OF x])
  have name: "str_at h (n_string n) (cstring X) Sn" using p assms(2) by simp
  have x0: "x \<noteq> 0" using x item_at_root by (auto simp: loose_at_def)
  define h1 where "h1 = cj_drop {} Sn h"
  have h1: "cj_nodes h1 = cj_nodes h" "cj_strs h1 = cj_strs h |` (- Sn)" by (simp_all add: h1_def cj_drop_def)
  define h2 where "h2 = put_name str string h1\<lparr>cj_nodes := (cj_nodes h)(x \<mapsto> n\<lparr>n_string := str\<rparr>)\<rparr>"
  have free: "(if n_string n \<noteq> 0 then cj_free_str (n_string n) h else Some h) = Some h1"
    unfolding h1_def by (rule free_str_at [OF name]) simp
  have "hp_AddItemToObject a string x str h = hp_AddItemToArray a x h2"
    unfolding hp_AddItemToObject_def Let_def put_name_def [symmetric]
    using x0 assms(2) free h1 by (simp add: set_node h2_def)
  moreover have "str = 0 \<or> str \<in> Sn \<or> cj_strs h str = None" using assms(3) name by (cases "cstring X") auto
  ultimately show ?thesis
    using renamed_item [OF assms(1,2) name, of h2 str string] Add_implements by (simp add: h2_def h1)
qed

text \<open>Replacing a member does not free the name that the new item has, so only an item without a name is looked at.\<close>

lemma ReplaceObject_implements:
  assumes "array_and_item h a A N S x X NX SX" "cstring X = None" "str = 0 \<or> cj_strs h str = None"
  shows "if find_name A string < length (children A)
    then implements h (hp_ReplaceItemInObject a string x str h) a
      (set_children A ((children A) [find_name A string := set_name X (name_of str string)])) (N \<union> NX) (S \<union> SX)
    else hp_ReplaceItemInObject a string x str h = Some h"
proof -
  from assms(1) have x: "item_at h a A N S" "loose_at h x X NX SX" by (simp_all add: array_and_item_def)
  obtain n Sn Sr where p: "cj_nodes h x = Some n" "str_at h (n_string n) (cstring X) Sn" by (rule loose_parts [OF x(2)])
  obtain m c where f: "cj_nodes h a = Some m" "hp_find h string (n_child m) 0 = Some (c, int (find_name A string))"
    "c = 0 \<longleftrightarrow> \<not> find_name A string < length (children A)" by (rule find_item [OF x(1)])
  show ?thesis
  proof (cases "find_name A string < length (children A)")
    case True
    define h2 where "h2 = put_name str string h\<lparr>cj_nodes := (cj_nodes h)(x \<mapsto> n\<lparr>n_string := str\<rparr>)\<rparr>"
    have run: "hp_ReplaceItemInObject a string x str h = hp_ReplaceItemInArray a (int (find_name A string)) x h2"
      unfolding hp_ReplaceItemInObject_def Let_def put_name_def [symmetric] using f True p(1) by (simp add: set_node h2_def)
    have "implements h2 (hp_ReplaceItemInArray a (int (find_name A string)) x h2) a
      (set_children A ((children A) [find_name A string := set_name X (name_of str string)])) (N \<union> NX) (S \<union> SX')"
      if "array_and_item h2 a A N S x (set_name X (name_of str string)) NX SX'" for SX'
      using Replace_implements [OF that, of "int (find_name A string)"] True by (simp add: cJSON_ReplaceItemInArray_def)
    moreover have "Sn = {}" using p(2) assms(2) by simp
    ultimately show ?thesis
      using renamed_item [OF assms(1) p, of h2 str string] assms(3) True unfolding run
      by (simp add: h2_def)
  next
    case False
    with f show ?thesis by (simp add: hp_ReplaceItemInObject_def)
  qed
qed

subsection \<open>References\<close>

lemma Delete_reference:
  "r \<noteq> 0 \<Longrightarrow> cj_nodes h r = Some n \<Longrightarrow> flag_set (n_type n) cJSON_IsReference \<Longrightarrow> n_string n = 0 \<Longrightarrow> n_next n = 0 \<Longrightarrow>
   hp_Delete r h = Some (cj_drop {r} {} h)"
  by (subst hp_Delete.simps)
    (auto simp: hp_Delete.simps [of 0] cj_free_node_def cj_drop_def restrict_map_def fun_eq_iff intro!: cjheap.equality)

lemma reference_flag: "\<not> flag_set t cJSON_IsReference \<Longrightarrow> flag_set (t + cJSON_IsReference) cJSON_IsReference"
  by (simp add: flag_set_def cJSON_IsReference_def)

text \<open>The node that refers to another one.\<close>

definition reference_to :: "cjnode \<Rightarrow> cjnode" where
  "reference_to n = n\<lparr>n_string := 0, n_type := n_type n + cJSON_IsReference, n_next := 0, n_prev := 0\<rparr>"

lemma Add_reference:
  assumes "loose_at h a A N S" "cj_nodes h i = Some ni" "\<not> flag_set (n_type ni) cJSON_IsReference"
    "new \<noteq> 0" "cj_nodes h new = None"
  shows "\<exists>h1 p. hp_AddItemReferenceToArray a i new h = Some h1 \<and> hp_Delete a h1 = Some (cj_drop N S h) \<and>
    cj_nodes h1 new = Some ((reference_to ni)\<lparr>n_prev := p\<rparr>) \<and> same_in (- insert new N) UNIV h h1"
proof -
  from assms(1) obtain n l N' S1 S2 where n: "a \<noteq> 0" "cj_nodes h a = Some n" "fields_at h n A S1"
    "chain_at h (n_child n) 0 (children A) 0 l N' S2" "a \<notin> N'" "N = insert a N'" "S1 \<inter> S2 = {}" "S = S1 \<union> S2" "n_next n = 0"
    by (auto simp: loose_at_def item_at_iff)
  have new: "new \<noteq> a" "new \<notin> N'" using at_dom(2) [OF n(4)] n(2) assms(5) by auto
  define h0 where "h0 = h\<lparr>cj_nodes := (cj_nodes h)(new \<mapsto> reference_to ni)\<rparr>"
  have add: "hp_AddItemReferenceToArray a i new h = hp_AddItemToArray a new h0"
    using assms(2-4) by (simp add: hp_AddItemReferenceToArray_def hp_create_reference_def reference_to_def h0_def)
  note flag = reference_flag [OF assms(3)]
  show ?thesis
  proof (cases "children A" rule: rev_cases)
    case Nil
    with n(4) have c: "n_child n = 0" "N' = {}" "S2 = {}" by auto
    define h1 where "h1 = h0\<lparr>cj_nodes := (cj_nodes h0)(a \<mapsto> n\<lparr>n_child := new\<rparr>)\<rparr>"
    have run: "hp_AddItemToArray a new h0 = Some h1" using n(2) c new assms(4) by (simp add: hp_AddItemToArray_def set_link_simps h1_def h0_def)
    have nodes: "cj_nodes h1 a = Some (n\<lparr>n_child := new\<rparr>)" "cj_nodes h1 new = Some (reference_to ni)" using new by (simp_all add: h1_def h0_def)
    have "hp_Delete new h1 = Some (cj_drop {new} {} h1)"
      by (rule Delete_reference [OF assms(4) nodes(2)]) (use flag in \<open>simp_all add: reference_to_def\<close>)
    moreover have "fields_at h1 (n\<lparr>n_child := new\<rparr>) A S1"
      by (rule fields_at_links [OF _ _ _ _ _ fields_at_same [OF n(3)]]) (simp_all add: h1_def h0_def)
    ultimately have "hp_Delete a h1 = hp_Delete 0 (cj_drop {a} S1 (cj_drop {new} {} h1))"
      using Delete_root [OF n(1) nodes(1), of A S1 "cj_drop {new} {} h1"] n(9) assms(4) new nodes(1)
      by (simp add: cj_drop_def)
    also have "\<dots> = Some (cj_drop N S h)"
      using c n(6,8) assms(5) by (auto simp: hp_Delete.simps [of 0] cj_drop_def h1_def h0_def restrict_map_def fun_eq_iff)
    finally show ?thesis using nodes(2) n(6) unfolding add run
      by (intro exI [of _ h1] exI [of _ 0]) (auto simp: h1_def h0_def same_in_def reference_to_def)
  next
    case (snoc bs b)
    obtain nl where l: "l \<noteq> 0" "l \<in> N'" "cj_nodes h l = Some nl" "n_next nl = 0" using chain_last [OF n(4)] snoc by auto
    have first: "n_child n \<noteq> 0" using chain_first [OF n(4)] snoc by simp
    have lx: "l \<noteq> new" "l \<noteq> a" using l new n(5) by auto
    define h1 where "h1 = h\<lparr>cj_nodes := (cj_nodes h)(l \<mapsto> nl\<lparr>n_next := new\<rparr>, new \<mapsto> (reference_to ni)\<lparr>n_prev := l\<rparr>)\<rparr>"
    have "same_in N' S2 h h0" using new by (auto simp: same_in_def h0_def)
    from hp_last_chain [OF at_same(2) [OF n(4) this]] have "hp_last h0 (n_child n) = Some l" using snoc by simp
    then have run: "hp_AddItemToArray a new h0 = Some h1"
      using n(2) first new lx l assms(4)
      by (simp add: hp_AddItemToArray_def hp_suffix_object_def set_link_simps h1_def h0_def fun_upd_twist)
    have nodes: "cj_nodes h1 a = Some n" "cj_nodes h1 new = Some ((reference_to ni)\<lparr>n_prev := l\<rparr>)" using new lx n(2) by (simp_all add: h1_def)
    have "same_in (N' - {l}) S2 h h1" using new by (auto simp: same_in_def h1_def)
    from chain_relink_end [OF n(4) [unfolded snoc] l(3) _ this] have "chain_at h1 (n_child n) 0 (children A) new l N' S2"
      using lx snoc by (simp add: h1_def)
    from Delete_chain [OF _ this] Delete_item have "hp_Delete (n_child n) h1 = hp_Delete new (cj_drop N' S2 h1)" by blast
    also have "\<dots> = Some (cj_drop {new} {} (cj_drop N' S2 h1))"
      by (rule Delete_reference [OF assms(4), of _ "(reference_to ni)\<lparr>n_prev := l\<rparr>"])
        (use nodes(2) new flag in \<open>simp_all add: reference_to_def cj_drop_def\<close>)
    finally have child: "(if n_child n \<noteq> 0 then hp_Delete (n_child n) h1 else Some h1) = Some (cj_drop {new} {} (cj_drop N' S2 h1))"
      using first by simp
    have node: "cj_nodes (cj_drop {new} {} (cj_drop N' S2 h1)) a = Some n" using nodes(1) n(5) new by (simp add: cj_drop_def)
    have keep: "cj_strs (cj_drop {new} {} (cj_drop N' S2 h1)) y = cj_strs h1 y" if "y \<in> S1" for y
      using that n(7) by (auto simp: cj_drop_def restrict_map_def)
    have "fields_at h1 n A S1" by (rule fields_at_same [OF n(3)]) (simp add: h1_def)
    from Delete_root [OF n(1) nodes(1) this child node keep] n(9)
    have "hp_Delete a h1 = hp_Delete 0 (cj_drop {a} S1 (cj_drop {new} {} (cj_drop N' S2 h1)))" by simp
    also have "\<dots> = Some (cj_drop N S h)"
      using l(2) n(6,8) assms(5) by (auto simp: hp_Delete.simps [of 0] cj_drop_def h1_def restrict_map_def fun_eq_iff)
    finally show ?thesis using nodes(2) n(6) l(2) unfolding add run
      by (intro exI [of _ h1] exI [of _ l]) (auto simp: h1_def same_in_def)
  qed
qed

subsection \<open>Names that are constants\<close>

text \<open>\<open>cJSON_AddItemToObject\<close> frees the former name of an item without a look at \<open>cJSON_StringIsConst\<close>.\<close>

lemma const_flag: "flag_set (if flag_set t cJSON_StringIsConst then t else t + cJSON_StringIsConst) cJSON_StringIsConst"
  by (simp add: flag_set_def cJSON_StringIsConst_def)

theorem constant_name_is_freed:
  assumes "cj_nodes h x = Some n" "x \<noteq> 0" "n_string n = string" "string \<noteq> 0" "cj_strs h string = None"
  shows "hp_AddItemToObject a name x str h = None"
  using assms by (simp add: hp_AddItemToObject_def cj_free_str_def)

subsection \<open>What the operations on memory do\<close>

text \<open>C30: Deleting in memory. \<open>cJSON_Delete\<close> of an item that is in no chain ends without a bad access and frees the
  nodes and strings of the item and nothing else; their number is that of the function on trees.\<close>

theorem cjson_heap_delete:
  assumes "loose_at h x X N S"
  shows "hp_Delete x h = Some (cj_drop N S h) \<and> N \<subseteq> dom (cj_nodes h) \<and> S \<subseteq> dom (cj_strs h) \<and> card N + card S = cJSON_Delete X"
  using Delete_loose [OF assms] loose_dom [OF assms] item_blocks(1) [of h x X N S] assms by (auto simp: loose_at_def)

text \<open>C28: Editing arrays in memory. For an array and an item of its own, with any index, the operations with pointers
  do what the functions on trees do: the tree that results is in memory, what is no longer in a tree and only that
  has been freed, and no other block is changed. A detached item is in no chain and can be used further; an item
  that replaces nothing, because the index is beyond the end, stays as it is.\<close>

theorem cjson_heap_edits:
  assumes "array_and_item h a A N S x X NX SX"
  shows "implements h (hp_AddItemToArray a x h) a (the (cJSON_AddItemToArray (Some A) (Some X))) (N \<union> NX) (S \<union> SX) \<and>
    implements h (hp_InsertItemInArray a which x h) a (cJSON_InsertItemInArray A which X) (N \<union> NX) (S \<union> SX) \<and>
    (if nat which < length (children A)
     then implements h (hp_ReplaceItemInArray a which x h) a (cJSON_ReplaceItemInArray A which X) (N \<union> NX) (S \<union> SX)
     else hp_ReplaceItemInArray a which x h = Some h) \<and>
    detached h (hp_DetachItemFromArray a which h) a (cJSON_DetachItemFromArray A which) N S \<and>
    implements h (hp_DeleteItemFromArray a which h) a (fst (cJSON_DeleteItemFromArray A which)) N S"
proof -
  from assms have "item_at h a A N S" by (simp add: array_and_item_def)
  with Add_implements [OF assms] Insert_implements [OF assms] Replace_implements [OF assms, of which] show ?thesis
    by (simp add: cJSON_AddItemToArray_def Detach_implements DeleteItem_implements split: if_splits)
qed

text \<open>C29: Editing objects in memory. \<open>cJSON_AddItemToObject\<close> frees the former name of the item and puts the new one, or
  none when \<open>cJSON_strdup\<close> fails, and appends the item; detaching, deleting and replacing by name take the first member
  whose name is equal up to the case of its letters and do nothing when there is none.\<close>

theorem cjson_heap_members:
  assumes "array_and_item h a A N S x X NX SX" "cj_nodes h x = Some n" "str = 0 \<or> cj_strs h str = None"
  shows "(\<exists>A' m'. cJSON_AddItemToObject (\<lambda>_. str \<noteq> 0) (Some A) string (Some X) m = Some (Some A', m') \<and>
      implements h (hp_AddItemToObject a string x str h) a A' (N \<union> NX) (S \<union> SX)) \<and>
    detached h (hp_DetachItemFromObject a string h) a (cJSON_DetachItemFromObject A string) N S \<and>
    implements h (hp_DeleteItemFromObject a string h) a (fst (cJSON_DeleteItemFromObject A string)) N S \<and>
    (cstring X = None \<and> find_name A string < length (children A) \<longrightarrow>
      implements h (hp_ReplaceItemInObject a string x str h) a
        (fst (cJSON_ReplaceItemInObject (\<lambda>_. str \<noteq> 0) A string X m)) (N \<union> NX) (S \<union> SX))"
proof -
  from assms(1) have i: "item_at h a A N S" by (simp add: array_and_item_def)
  have "cJSON_AddItemToObject (\<lambda>_. str \<noteq> 0) (Some A) string (Some X) m =
      Some (Some (set_children A (children A @ [set_name X (name_of str string)])), Suc m)"
    by (simp add: cJSON_AddItemToObject_def cJSON_AddItemToArray_def name_of_def)
  moreover have "fst (cJSON_ReplaceItemInObject (\<lambda>_. str \<noteq> 0) A string X m) =
      set_children A ((children A) [find_name A string := set_name X (name_of str string)])" if "find_name A string < length (children A)"
    using that by (simp add: cJSON_ReplaceItemInObject_def cJSON_ReplaceItemInArray_def name_of_def)
  moreover have "implements h (hp_AddItemToObject a string x str h) a (set_children A (children A @ [set_name X (name_of str string)])) (N \<union> NX) (S \<union> SX)"
    using AddObject_implements [OF assms(1,2)] assms(3) by blast
  ultimately show ?thesis
    using ReplaceObject_implements [OF assms(1) _ assms(3), of string] assms(3)
    by (simp add: DetachObject_implements [OF i] DeleteObject_implements [OF i])
qed

text \<open>C31: References. A reference that is added to an array has the children of the item it refers to. Deleting the array
  frees what the array had before and the reference, so the item keeps its children; but when the item is deleted
  first, the reference points to nodes that are freed, and the next use of its children is a bad access.\<close>

theorem cjson_heap_references:
  assumes "loose_at h a A N S" "loose_at h i I NI SI" "N \<inter> NI = {}" "S \<inter> SI = {}" "new \<noteq> 0" "cj_nodes h new = None"
  shows "\<exists>h1 n r. hp_AddItemReferenceToArray a i new h = Some h1 \<and> cj_nodes h1 i = Some n \<and> cj_nodes h1 new = Some r \<and>
    n_child r = n_child n \<and> flag_set (n_type r) cJSON_IsReference \<and>
    hp_Delete a h1 = Some (cj_drop N S h) \<and> loose_at (cj_drop N S h) i I NI SI \<and>
    (\<exists>h2. hp_Delete i h1 = Some h2 \<and> (children I \<noteq> [] \<longrightarrow> (\<forall>x > 0. hp_AddItemToArray new x h2 = None)))"
proof -
  from assms(2) obtain n where n: "item_at h i I NI SI" "cj_nodes h i = Some n" "n_next n = 0" "n_prev n = 0" by (auto simp: loose_at_def)
  then obtain l N' S2 where c: "chain_at h (n_child n) 0 (children I) 0 l N' S2" "N' \<subseteq> NI" "\<not> flag_set (n_type n) cJSON_IsReference"
    by (auto simp: item_at_iff fields_at_def)
  have iN: "i \<in> NI" "i \<notin> N" using item_at_root [OF n(1)] assms(3) by auto
  have new: "new \<notin> NI" using at_dom(1) [OF n(1)] assms(6) by auto
  obtain h1 p where h1: "hp_AddItemReferenceToArray a i new h = Some h1" "hp_Delete a h1 = Some (cj_drop N S h)"
    "cj_nodes h1 new = Some ((reference_to n)\<lparr>n_prev := p\<rparr>)" "same_in (- insert new N) UNIV h h1"
    using Add_reference [OF assms(1) n(2) c(3) assms(5,6)] by blast
  have keep: "loose_at h' i I NI SI" if "same_in NI SI h h'" for h'
    using at_same(1) [OF n(1) that] that n iN by (simp add: loose_at_def same_in_def)
  have "same_in NI SI h h1" by (rule same_in_mono [OF h1(4)]) (use new assms(3) in auto)
  from Delete_loose [OF keep [OF this]] have del: "hp_Delete i h1 = Some (cj_drop NI SI h1)" .
  have "hp_AddItemToArray new x (cj_drop NI SI h1) = None" if "children I \<noteq> []" "x > 0" for x
    using chain_first [OF c(1)] that c(2) h1(3) new
    by (auto simp: hp_AddItemToArray_def cj_drop_def reference_to_def hp_last.simps)
  moreover have "same_in NI SI h (cj_drop N S h)" by (rule same_in_drop) (use assms(3,4) in auto)
  moreover have "i \<in> - insert new N" using iN new by auto
  then have "cj_nodes h1 i = Some n" using h1(4) n(2) by (simp add: same_in_def)
  ultimately show ?thesis
    using h1 del keep reference_flag [OF c(3)] by (intro exI [of _ h1] exI [of _ n] exI [of _ "(reference_to n)\<lparr>n_prev := p\<rparr>"]) (auto simp: reference_to_def)
qed

subsection \<open>An example\<close>

text \<open>The array \<open>[7,"a"]\<close> at 1 with its items at 2 and 3, and an item named \<open>b\<close> at 4 with a child.\<close>

definition memory_array :: cJSON where
  "memory_array = Item cJSON_Array None 0 (Fin 0) None [Item cJSON_Number None 7 (Fin 7) None [], Item cJSON_String (Some [97]) 0 (Fin 0) None []]"

definition memory_item :: cJSON where
  "memory_item = Item cJSON_Array None 0 (Fin 0) (Some [98]) [Item cJSON_True None 1 (Fin 0) None []]"

definition sample_memory :: cjheap where
  "sample_memory = \<lparr>cj_nodes = [1 \<mapsto> cjnode.make 0 0 2 cJSON_Array 0 0 (Fin 0) 0, 2 \<mapsto> cjnode.make 3 0 0 cJSON_Number 0 7 (Fin 7) 0,
     3 \<mapsto> cjnode.make 0 2 0 cJSON_String 11 0 (Fin 0) 0, 4 \<mapsto> cjnode.make 0 0 5 cJSON_Array 0 0 (Fin 0) 12, 5 \<mapsto> cjnode.make 0 0 0 cJSON_True 0 1 (Fin 0) 0],
     cj_strs = [11 \<mapsto> [97], 12 \<mapsto> [98]], cj_consts = Map.empty\<rparr>"

lemma chain_at_2: "chain_at h p prev (c # cs) q l N S \<longleftrightarrow> (\<exists>n N1 N2 S1 S2. item_at h p c N1 S1 \<and> cj_nodes h p = Some n \<and> n_prev n = prev \<and>
     chain_at h (n_next n) p cs q l N2 S2 \<and> N1 \<inter> N2 = {} \<and> N = N1 \<union> N2 \<and> S1 \<inter> S2 = {} \<and> S = S1 \<union> S2)"
  by (rule chain_at.simps(2))

lemma sample_memory:
  "loose_at sample_memory 1 memory_array {1, 2, 3} {11}"
  "loose_at sample_memory 4 memory_item {4, 5} {12}"
  by (simp_all add: loose_at_def sample_memory_def memory_array_def memory_item_def cjnode.make_def item_at.simps chain_at_2 fields_at_def
      flag_set_def cJSON_IsReference_def cJSON_StringIsConst_def cJSON_Array_def cJSON_Number_def cJSON_String_def cJSON_True_def insert_commute)

lemma sample_both: "array_and_item sample_memory 1 memory_array {1, 2, 3} {11} 4 memory_item {4, 5} {12}"
  using sample_memory by (simp add: array_and_item_def loose_at_def)

theorem cjson_heap_delete_witness:
  "hp_Delete 4 sample_memory = Some (cj_drop {4, 5} {12} sample_memory) \<and> cJSON_Delete memory_item = 3"
  using cjson_heap_delete [OF sample_memory(2)] by simp

theorem cjson_heap_edits_witness:
  "implements sample_memory (hp_InsertItemInArray 1 1 4 sample_memory) 1 (cJSON_InsertItemInArray memory_array 1 memory_item)
     ({1, 2, 3} \<union> {4, 5}) ({11} \<union> {12}) \<and>
   implements sample_memory (hp_ReplaceItemInArray 1 1 4 sample_memory) 1 (cJSON_ReplaceItemInArray memory_array 1 memory_item)
     ({1, 2, 3} \<union> {4, 5}) ({11} \<union> {12})"
  using cjson_heap_edits [OF sample_both, of 1] by (simp add: memory_array_def)

theorem cjson_heap_members_witness:
  "\<exists>A' m'. cJSON_AddItemToObject (\<lambda>_. True) (Some memory_array) [99] (Some memory_item) 0 = Some (Some A', m') \<and>
     implements sample_memory (hp_AddItemToObject 1 [99] 4 13 sample_memory) 1 A' ({1, 2, 3} \<union> {4, 5}) ({11} \<union> {12})"
proof -
  obtain n where "cj_nodes sample_memory 4 = Some n" using sample_memory(2) by (auto simp: loose_at_def)
  with cjson_heap_members [OF sample_both, of n 13 "[99]" 0] show ?thesis by (simp add: sample_memory_def)
qed

theorem cjson_heap_references_witness:
  "\<exists>h1 h2. hp_AddItemReferenceToArray 1 4 6 sample_memory = Some h1 \<and> hp_Delete 1 h1 = Some (cj_drop {1, 2, 3} {11} sample_memory) \<and>
     hp_Delete 4 h1 = Some h2 \<and> hp_AddItemToArray 6 1 h2 = None"
proof -
  have "cj_nodes sample_memory 6 = None" by (simp add: sample_memory_def)
  from cjson_heap_references [OF sample_memory _ _ _ this] obtain h1 h2 where
    "hp_AddItemReferenceToArray 1 4 6 sample_memory = Some h1" "hp_Delete 1 h1 = Some (cj_drop {1, 2, 3} {11} sample_memory)"
    "hp_Delete 4 h1 = Some h2" "children memory_item \<noteq> [] \<longrightarrow> (\<forall>x > 0. hp_AddItemToArray 6 x h2 = None)" by auto
  then show ?thesis by (auto simp: memory_item_def)
qed

end
