(* ===== verification/CjsonForest.thy ===== *)
theory CjsonForest
  imports CjsonMemory
begin

text \<open>
  Programs that use \<open>cJSON.c\<close>: they create items, find items inside of others, link and delete them. What such a
  program holds is a forest, the items it has that are in no other item. Whatever calls it makes on what it holds, the
  memory is the forest and nothing else.
\<close>

subsection \<open>Creating and finding items\<close>

definition zero_node :: cjnode where
  "zero_node = \<lparr>n_next = 0, n_prev = 0, n_child = 0, n_type = 0, n_valuestring = 0, n_valueint = 0, n_valuedouble = Fin 0, n_string = 0\<rparr>"

definition hp_New_Item :: "ptr \<Rightarrow> cjheap \<Rightarrow> ptr \<times> cjheap" where
  "hp_New_Item new h = (if new = 0 then (0, h) else (new, h\<lparr>cj_nodes := (cj_nodes h)(new \<mapsto> zero_node)\<rparr>))"

text \<open>\<open>cJSON_CreateNull\<close> and the others that set the type only.\<close>

definition hp_create :: "int \<Rightarrow> ptr \<Rightarrow> cjheap \<Rightarrow> (ptr \<times> cjheap) option" where
  "hp_create t new h = (let (item, h) = hp_New_Item new h in if item = 0 then Some (0, h)
     else do { h \<leftarrow> cj_set item (\<lambda>n. n\<lparr>n_type := t\<rparr>) h; Some (item, h) })"

definition hp_CreateNumber :: "double \<Rightarrow> ptr \<Rightarrow> cjheap \<Rightarrow> (ptr \<times> cjheap) option" where
  "hp_CreateNumber num new h = (let (item, h) = hp_New_Item new h in if item = 0 then Some (0, h)
     else do { h \<leftarrow> cj_set item (\<lambda>n. n\<lparr>n_type := cJSON_Number, n_valuedouble := num, n_valueint := double_to_int num\<rparr>) h; Some (item, h) })"

definition hp_CreateString :: "byte list \<Rightarrow> ptr \<Rightarrow> ptr \<Rightarrow> cjheap \<Rightarrow> (ptr \<times> cjheap) option" where
  "hp_CreateString string new str h = (let (item, h) = hp_New_Item new h in if item = 0 then Some (0, h)
     else do { h \<leftarrow> cj_set item (\<lambda>n. n\<lparr>n_type := cJSON_String, n_valuestring := str\<rparr>) (put_name str string h); Some (item, h) })"

definition hp_GetArrayItem :: "ptr \<Rightarrow> int \<Rightarrow> cjheap \<Rightarrow> ptr option" where
  "hp_GetArrayItem array item h = do { a \<leftarrow> cj_node h array; hp_walk h (n_child a) (nat item) }"

text \<open>An item inside of another: the first index is that of a child, the next one that of a child of it, and so on.\<close>

fun hp_at :: "cjheap \<Rightarrow> ptr \<Rightarrow> nat list \<Rightarrow> ptr option" where
  "hp_at h p [] = Some p"
| "hp_at h p (k # ks) = do { c \<leftarrow> hp_GetArrayItem p (int k) h; hp_at h c ks }"

fun sub_at :: "nat list \<Rightarrow> cJSON \<Rightarrow> cJSON option" where
  "sub_at [] t = Some t"
| "sub_at (k # ks) t = (if k < length (children t) then sub_at ks (children t ! k) else None)"

fun put_at :: "nat list \<Rightarrow> cJSON \<Rightarrow> cJSON \<Rightarrow> cJSON" where
  "put_at [] T t = T"
| "put_at (k # ks) T t = set_children t ((children t) [k := put_at ks T (children t ! k)])"

subsection \<open>Changing an item inside of another\<close>

text \<open>\<open>A\<close> at \<open>a\<close> is a part of \<open>t\<close> at \<open>p\<close>, and whatever becomes of it in its place, \<open>t\<close> has the new part.\<close>

definition part_at :: "cjheap \<Rightarrow> ptr \<Rightarrow> cJSON \<Rightarrow> ptr set \<Rightarrow> ptr set \<Rightarrow> nat list \<Rightarrow> ptr \<Rightarrow> cJSON \<Rightarrow> ptr set \<Rightarrow> ptr set \<Rightarrow> bool" where
  "part_at h p t N S ks a A NA SA \<longleftrightarrow> hp_at h p ks = Some a \<and> item_at h a A NA SA \<and> NA \<subseteq> N \<and> SA \<subseteq> S \<and>
     (\<forall>h' T N' S'. item_at h' a T N' S' \<longrightarrow> same_links a h h' \<longrightarrow> same_in (N - NA) (S - SA) h h' \<longrightarrow>
        N' \<inter> (N - NA) = {} \<longrightarrow> S' \<inter> (S - SA) = {} \<longrightarrow>
        item_at h' p (put_at ks T t) (N - NA \<union> N') (S - SA \<union> S') \<and> same_links p h h')"

lemma part_child:
  assumes "opened_at h p t as X bs x m y n nx NA NX NB SA SX SB S1"
    and "item_at h' x X' NX' SX'" "same_links x h h'" "same_in (insert p (NA \<union> NB)) (S1 \<union> (SA \<union> SB)) h h'"
    "NX' \<inter> insert p (NA \<union> NB) = {}" "SX' \<inter> (S1 \<union> (SA \<union> SB)) = {}"
  shows "item_at h' p (set_children t (as @ X' # bs)) (insert p (NA \<union> (NX' \<union> NB))) (S1 \<union> (SA \<union> (SX' \<union> SB))) \<and> same_links p h h'"
proof -
  note f = opened_facts [OF assms(1)]
  from assms(1) obtain l where c: "chain_at h (n_child n) 0 as x m NA SA" "chain_at h y x bs 0 l NB SB"
    and n: "p \<noteq> 0" "cj_nodes h p = Some n" "fields_at h n t S1" "cj_nodes h x = Some nx" "n_prev nx = m" "n_next nx = y"
    and dis: "NA \<inter> NX = {}" "(NA \<union> NX) \<inter> NB = {}" "p \<notin> NA \<union> NX \<union> NB" "SA \<inter> SX = {}" "(SA \<union> SX) \<inter> SB = {}" "S1 \<inter> (SA \<union> SX \<union> SB) = {}"
    by (auto simp: opened_at_def)
  have "same_in NA SA h h'" "same_in NB SB h h'" by (rule same_in_mono [OF assms(4)]; blast)+
  with c have d: "chain_at h' (n_child n) 0 as x m NA SA" "chain_at h' y x bs 0 l NB SB" using at_same(2) by blast+
  obtain nx' where x: "cj_nodes h' x = Some nx'" "n_prev nx' = m" "n_next nx' = y"
    using assms(3) n(4-6) item_at_root [OF assms(2)] by (auto simp: same_links_def)
  have "chain_at h' x m (X' # bs) 0 (if bs = [] then x else l) (NX' \<union> NB) (SX' \<union> SB)"
    by (rule chain_ConsI [OF assms(2) x(1,2)]) (use d(2) x(3) assms(5,6) in \<open>auto split: if_splits\<close>)
  from chain_append [OF d(1) this _ _ refl refl] dis(2,5) assms(5,6)
  have chain: "chain_at h' (n_child n) 0 (as @ X' # bs) 0 (if bs = [] then x else l) (NA \<union> (NX' \<union> NB)) (SA \<union> (SX' \<union> SB))" by blast
  have p: "cj_nodes h' p = Some n" using assms(4) n(2) by (simp add: same_in_def)
  then have "cj_nodes h' p = Some (n\<lparr>n_child := n_child n\<rparr>)" by simp
  from item_rebuild [OF chain n(1,3) this] assms(4-6) dis(3,6) p n(2) show ?thesis
    by (auto simp: same_in_def same_links_def)
qed

lemma find_part:
  "item_at h p t N S \<Longrightarrow> sub_at ks t = Some A \<Longrightarrow> \<exists>a NA SA. part_at h p t N S ks a A NA SA"
proof (induction ks arbitrary: p t N S)
  case Nil
  then show ?case by (intro exI [of _ p] exI [of _ N] exI [of _ S]) (simp add: part_at_def)
next
  case (Cons k ks)
  from Cons.prems(2) have k: "k < length (children t)" "sub_at ks (children t ! k) = Some A" by (auto split: if_splits)
  define as bs X where "as = take k (children t)" and "bs = drop (Suc k) (children t)" and "X = children t ! k"
  have t: "children t = as @ X # bs" "length as = k" using split_at [OF k(1)] by (simp_all add: as_def bs_def X_def)
  obtain x m y n nx NA NX NB SA SX SB S1 where o: "opened_at h p t as X bs x m y n nx NA NX NB SA SX SB S1"
    and NS: "N = insert p (NA \<union> NX \<union> NB)" "S = S1 \<union> (SA \<union> SX \<union> SB)" by (rule open_array [OF Cons.prems(1) t(1)])
  from o have x: "item_at h x X NX SX" "cj_nodes h p = Some n" "hp_walk h (n_child n) k = Some x" by (simp_all add: opened_at_def t(2))
  from o have dis: "NA \<inter> NX = {}" "(NA \<union> NX) \<inter> NB = {}" "p \<notin> NA \<union> NX \<union> NB" "SA \<inter> SX = {}" "(SA \<union> SX) \<inter> SB = {}" "S1 \<inter> (SA \<union> SX \<union> SB) = {}"
    by (simp_all add: opened_at_def)
  obtain a N2 S2 where part: "part_at h x X NX SX ks a A N2 S2" using Cons.IH [OF x(1)] k(2) by (auto simp: X_def)
  then have a: "hp_at h x ks = Some a" "item_at h a A N2 S2" "N2 \<subseteq> NX" "S2 \<subseteq> SX" by (simp_all add: part_at_def)
  have sets: "N - N2 = insert p (NA \<union> NB) \<union> (NX - N2)" "S - S2 = S1 \<union> (SA \<union> SB) \<union> (SX - S2)"
    using a(3,4) dis by (auto simp: NS)
  have "item_at h' p (put_at (k # ks) T t) (N - N2 \<union> N') (S - S2 \<union> S') \<and> same_links p h h'"
    if i: "item_at h' a T N' S'" "same_links a h h'" "same_in (N - N2) (S - S2) h h'" "N' \<inter> (N - N2) = {}" "S' \<inter> (S - S2) = {}" for h' T N' S'
  proof -
    have inner: "same_in (NX - N2) (SX - S2) h h'" "same_in (insert p (NA \<union> NB)) (S1 \<union> (SA \<union> SB)) h h'"
      by (rule same_in_mono [OF i(3)]; unfold sets; blast)+
    have "N' \<inter> (NX - N2) = {}" "S' \<inter> (SX - S2) = {}" using i(4,5) unfolding sets by blast+
    with part i(1,2) inner(1) have X: "item_at h' x (put_at ks T X) (NX - N2 \<union> N') (SX - S2 \<union> S')" "same_links x h h'"
      unfolding part_at_def by blast+
    have "(NX - N2 \<union> N') \<inter> insert p (NA \<union> NB) = {}" "(SX - S2 \<union> S') \<inter> (S1 \<union> (SA \<union> SB)) = {}"
      using i(4,5) dis unfolding sets by blast+
    from part_child [OF o X inner(2) this]
    have "item_at h' p (set_children t (as @ put_at ks T X # bs)) (insert p (NA \<union> (NX - N2 \<union> N' \<union> NB))) (S1 \<union> (SA \<union> (SX - S2 \<union> S' \<union> SB)))"
      "same_links p h h'" by simp_all
    moreover have "insert p (NA \<union> (NX - N2 \<union> N' \<union> NB)) = N - N2 \<union> N'" "S1 \<union> (SA \<union> (SX - S2 \<union> S' \<union> SB)) = S - S2 \<union> S'"
      unfolding sets by blast+
    moreover have "put_at (k # ks) T t = set_children t (as @ put_at ks T X # bs)"
      by (simp only: put_at.simps X_def [symmetric]) (simp add: t list_update_append)
    ultimately show ?thesis by simp
  qed
  moreover have "hp_at h p (k # ks) = Some a" using x(2,3) a(1) by (simp add: hp_GetArrayItem_def)
  ultimately have "part_at h p t N S (k # ks) a A N2 S2" using a NS unfolding part_at_def by blast
  then show ?case by blast
qed

subsection \<open>Forests\<close>

type_synonym forest = "ptr \<rightharpoonup> cJSON"

text \<open>The items of the forest are in memory, each with nodes and strings of its own, and nothing else is allocated.\<close>

definition owns :: "cjheap \<Rightarrow> forest \<Rightarrow> (ptr \<Rightarrow> ptr set) \<Rightarrow> (ptr \<Rightarrow> ptr set) \<Rightarrow> bool" where
  "owns h F N S \<longleftrightarrow> (\<forall>p t. F p = Some t \<longrightarrow> loose_at h p t (N p) (S p)) \<and>
     (\<forall>p \<in> dom F. \<forall>q \<in> dom F. p \<noteq> q \<longrightarrow> N p \<inter> N q = {} \<and> S p \<inter> S q = {}) \<and>
     dom (cj_nodes h) = \<Union> (N ` dom F) \<and> dom (cj_strs h) = \<Union> (S ` dom F)"

lemma owns_item: "owns h F N S \<Longrightarrow> F p = Some t \<Longrightarrow> loose_at h p t (N p) (S p)"
  by (simp add: owns_def)

definition forest_in :: "cjheap \<Rightarrow> forest \<Rightarrow> bool" where
  "forest_in h F \<longleftrightarrow> (\<exists>N S. owns h F N S)"

lemma forest_empty: "forest_in h Map.empty \<longleftrightarrow> cj_nodes h = Map.empty \<and> cj_strs h = Map.empty"
  by (simp add: forest_in_def owns_def)

text \<open>The items in \<open>C\<close> are replaced by those of \<open>G\<close>.\<close>

lemma loose_root: "loose_at h p t N S \<Longrightarrow> p \<in> N"
  using item_at_root by (auto simp: loose_at_def)

lemma loose_same:
  assumes "loose_at h p t N S" "same_in N S h h'"
  shows "loose_at h' p t N S"
proof -
  have "cj_nodes h' p = cj_nodes h p" using loose_root [OF assms(1)] assms(2) by (simp add: same_in_def)
  with assms(1) at_same(1) [OF _ assms(2), of p t] show ?thesis by (simp add: loose_at_def)
qed

lemma owns_replace:
  assumes F: "owns h F N S" and "C \<subseteq> dom F" and G: "\<And>p t. G p = Some t \<Longrightarrow> loose_at h' p t (N' p) (S' p)"
    and "\<And>p q. p \<in> dom G \<Longrightarrow> q \<in> dom G \<Longrightarrow> p \<noteq> q \<Longrightarrow> N' p \<inter> N' q = {} \<and> S' p \<inter> S' q = {}"
    and N: "\<Union> (N' ` dom G) \<inter> \<Union> (N ` (dom F - C)) = {}" and S: "\<Union> (S' ` dom G) \<inter> \<Union> (S ` (dom F - C)) = {}"
    and dom: "dom (cj_nodes h') = \<Union> (N ` (dom F - C)) \<union> \<Union> (N' ` dom G)" "dom (cj_strs h') = \<Union> (S ` (dom F - C)) \<union> \<Union> (S' ` dom G)"
    and same: "same_in (\<Union> (N ` (dom F - C))) (\<Union> (S ` (dom F - C))) h h'"
  shows "owns h' ((F |` (- C)) ++ G) (\<lambda>p. if p \<in> dom G then N' p else N p) (\<lambda>p. if p \<in> dom G then S' p else S p)"
proof -
  have root: "p \<in> N p" if "p \<in> dom F" for p
  proof -
    from that obtain t where "F p = Some t" by blast
    with F have "loose_at h p t (N p) (S p)" by (simp add: owns_def)
    then show ?thesis by (rule loose_root)
  qed
  have root': "p \<in> N' p" if "p \<in> dom G" for p
  proof -
    from that obtain t where "G p = Some t" by blast
    from loose_root [OF G [OF this]] show ?thesis .
  qed
  have apart: "dom G \<inter> (dom F - C) = {}" using root root' N by blast
  have keep: "loose_at h' p t (N p) (S p)" if "F p = Some t" "p \<notin> C" for p t
  proof -
    from that F have l: "loose_at h p t (N p) (S p)" by (simp add: owns_def)
    have s: "same_in (N p) (S p) h h'" by (rule same_in_mono [OF same]) (use that in blast)+
    show ?thesis by (rule loose_same [OF l s])
  qed
  have cross: "N' p \<inter> N q = {} \<and> S' p \<inter> S q = {}" if "p \<in> dom G" "q \<in> dom F - C" for p q
    using that N S by blast
  have D: "dom ((F |` (- C)) ++ G) = (dom F - C) \<union> dom G" by auto
  have items: "loose_at h' p t (if p \<in> dom G then N' p else N p) (if p \<in> dom G then S' p else S p)" if "((F |` (- C)) ++ G) p = Some t" for p t
    using that G keep by (auto simp: map_add_Some_iff restrict_map_def split: if_splits)
  have distinct: "(if p \<in> dom G then N' p else N p) \<inter> (if q \<in> dom G then N' q else N q) = {} \<and>
      (if p \<in> dom G then S' p else S p) \<inter> (if q \<in> dom G then S' q else S q) = {}"
    if "p \<in> (dom F - C) \<union> dom G" "q \<in> (dom F - C) \<union> dom G" "p \<noteq> q" for p q
  proof (cases "p \<in> dom G"; cases "q \<in> dom G")
    assume "p \<notin> dom G" "q \<notin> dom G"
    with that F show ?thesis by (simp add: owns_def)
  next
    assume "p \<in> dom G" "q \<in> dom G"
    with that assms(4) show ?thesis by simp
  next
    assume "p \<in> dom G" "q \<notin> dom G"
    with that cross [of p q] show ?thesis by simp
  next
    assume "p \<notin> dom G" "q \<in> dom G"
    with that cross [of q p] show ?thesis by (simp add: Int_commute)
  qed
  have union: "\<Union> ((\<lambda>p. if p \<in> dom G then M' p else M p) ` ((dom F - C) \<union> dom G)) = \<Union> (M ` (dom F - C)) \<union> \<Union> (M' ` dom G)"
    for M M' :: "ptr \<Rightarrow> ptr set"
  proof -
    have "(\<lambda>p. if p \<in> dom G then M' p else M p) ` (dom F - C) = M ` (dom F - C)" by (rule image_cong) (use apart in auto)
    moreover have "(\<lambda>p. if p \<in> dom G then M' p else M p) ` dom G = M' ` dom G" by (rule image_cong) auto
    ultimately show ?thesis by (simp only: image_Un Union_Un_distrib)
  qed
  show ?thesis unfolding owns_def D union dom using items distinct by (intro conjI allI impI ballI refl) auto
qed

text \<open>How the blocks of the forest lie around those of one item \<open>p\<close> and of others \<open>X\<close>.\<close>

lemma owns_parts:
  assumes "owns h F N S" "p \<in> dom F" "X \<subseteq> dom F - {p}"
  shows "\<Union> (N ` (dom F - insert p X)) \<inter> N p = {}" "\<Union> (S ` (dom F - insert p X)) \<inter> S p = {}"
    "\<Union> (N ` (dom F - insert p X)) \<inter> \<Union> (N ` X) = {}" "\<Union> (S ` (dom F - insert p X)) \<inter> \<Union> (S ` X) = {}"
    "N p \<inter> \<Union> (N ` X) = {}" "S p \<inter> \<Union> (S ` X) = {}"
    "dom (cj_nodes h) = \<Union> (N ` (dom F - insert p X)) \<union> (N p \<union> \<Union> (N ` X))"
    "dom (cj_strs h) = \<Union> (S ` (dom F - insert p X)) \<union> (S p \<union> \<Union> (S ` X))"
proof -
  have d: "N q \<inter> N r = {} \<and> S q \<inter> S r = {}" if "q \<in> dom F" "r \<in> dom F" "q \<noteq> r" for q r using assms(1) that by (simp add: owns_def)
  show "\<Union> (N ` (dom F - insert p X)) \<inter> N p = {}" "\<Union> (S ` (dom F - insert p X)) \<inter> S p = {}" using d assms(2) by blast+
  show "\<Union> (N ` (dom F - insert p X)) \<inter> \<Union> (N ` X) = {}" "\<Union> (S ` (dom F - insert p X)) \<inter> \<Union> (S ` X) = {}" using d assms(3) by blast+
  show "N p \<inter> \<Union> (N ` X) = {}" "S p \<inter> \<Union> (S ` X) = {}" using d assms(2,3) by blast+
  have "dom F = (dom F - insert p X) \<union> insert p X" using assms(2,3) by blast
  then have "\<Union> (M ` dom F) = \<Union> (M ` (dom F - insert p X)) \<union> (M p \<union> \<Union> (M ` X))" for M :: "ptr \<Rightarrow> ptr set"
    by (metis Union_Un_distrib image_Un image_insert Union_insert)
  then show "dom (cj_nodes h) = \<Union> (N ` (dom F - insert p X)) \<union> (N p \<union> \<Union> (N ` X))"
    "dom (cj_strs h) = \<Union> (S ` (dom F - insert p X)) \<union> (S p \<union> \<Union> (S ` X))" using assms(1) by (simp_all add: owns_def)
qed

lemma same_links_loose: "loose_at h p t N S \<Longrightarrow> item_at h' p t' N' S' \<Longrightarrow> same_links p h h' \<Longrightarrow> loose_at h' p t' N' S'"
  by (auto simp: loose_at_def same_links_def)

lemma forest_edit:
  assumes F: "owns h F N S" "F p = Some t" and part: "part_at h p t (N p) (S p) ks a A NA SA" and X: "X \<subseteq> dom F - {p}"
    and imp: "implements h (Some h') a T (NA \<union> \<Union> (N ` X)) (SA \<union> \<Union> (S ` X))"
  shows "forest_in h' ((F |` (- X))(p \<mapsto> put_at ks T t))"
proof -
  note P = owns_parts [OF F(1) domI [of F, OF F(2)] X]
  have sub: "NA \<subseteq> N p" "SA \<subseteq> S p" using part by (simp_all add: part_at_def)
  define R Q UX US where "R = \<Union> (N ` (dom F - insert p X))" and "Q = \<Union> (S ` (dom F - insert p X))"
    and "UX = \<Union> (N ` X)" and "US = \<Union> (S ` X)"
  note P = P [folded R_def Q_def UX_def US_def]
  from imp obtain N' S' where i: "item_at h' a T N' S'" "same_links a h h'" "N' \<subseteq> NA \<union> UX" "S' \<inter> dom (cj_strs h) \<subseteq> SA \<union> US"
    "dom (cj_nodes h') = dom (cj_nodes h) - (NA \<union> UX) \<union> N'" "dom (cj_strs h') = dom (cj_strs h) - (SA \<union> US) \<union> S'"
    "same_in (- (NA \<union> UX)) (- (SA \<union> US \<union> S')) h h'" by (auto simp: implements_def UX_def US_def)
  have SP: "S' \<inter> (S p - SA) = {}" "S' \<inter> Q = {}"
    using i(4) P(6) P(2,4) sub(2) unfolding P(8) by blast+
  have "same_in (N p - NA) (S p - SA) h h'"
    by (rule same_in_mono [OF i(7)]) (use P(5,6) SP(1) in blast)+
  moreover have same: "same_in R Q h h'"
    by (rule same_in_mono [OF i(7)]) (use P(1-4) sub SP(2) in blast)+
  moreover have "N' \<inter> (N p - NA) = {}" using i(3) P(5) by blast
  ultimately have p: "item_at h' p (put_at ks T t) (N p - NA \<union> N') (S p - SA \<union> S')" "same_links p h h'"
    using part i(1,2) SP(1) unfolding part_at_def by blast+
  have loose: "loose_at h' p (put_at ks T t) (N p - NA \<union> N') (S p - SA \<union> S')"
    by (rule same_links_loose [OF owns_item [OF F] p])
  have N'R: "N' \<inter> R = {}" using i(3) P(1,3) sub(1) by blast
  have "(N p - NA \<union> N') \<inter> R = {}" "(S p - SA \<union> S') \<inter> Q = {}" using N'R P(1,2) SP(2) by blast+
  moreover have "dom (cj_nodes h') = R \<union> (N p - NA \<union> N')" unfolding i(5) P(7) using P(1,3,5) sub(1) by blast
  moreover have "dom (cj_strs h') = Q \<union> (S p - SA \<union> S')" unfolding i(6) P(8) using P(2,4,6) sub(2) by blast
  ultimately have "owns h' ((F |` (- insert p X)) ++ [p \<mapsto> put_at ks T t])
      (\<lambda>q. if q \<in> dom [p \<mapsto> put_at ks T t] then N p - NA \<union> N' else N q) (\<lambda>q. if q \<in> dom [p \<mapsto> put_at ks T t] then S p - SA \<union> S' else S q)"
    by (intro owns_replace [OF F(1)]) (use loose same X F(2) in \<open>auto simp: R_def Q_def split: if_splits\<close>)
  moreover have "(F |` (- insert p X)) ++ [p \<mapsto> put_at ks T t] = (F |` (- X))(p \<mapsto> put_at ks T t)"
    by (auto simp: fun_eq_iff map_add_def restrict_map_def)
  ultimately show ?thesis by (auto simp: forest_in_def)
qed

lemma forest_detach:
  assumes F: "owns h F N S" "F p = Some t" and part: "part_at h p t (N p) (S p) ks a A NA SA"
    and det: "detached h r a (Some X, T) NA SA"
  shows "\<exists>x h'. r = Some (x, h') \<and> forest_in h' (F(p \<mapsto> put_at ks T t, x \<mapsto> X))"
proof -
  note P = owns_parts [OF F(1) domI [of F, OF F(2)] empty_subsetI, simplified]
  have sub: "NA \<subseteq> N p" "SA \<subseteq> S p" using part by (simp_all add: part_at_def)
  define R Q where "R = \<Union> (N ` (dom F - {p}))" and "Q = \<Union> (S ` (dom F - {p}))"
  note P = P [folded R_def Q_def]
  from det obtain x h' NX SX N' S' where d: "r = Some (x, h')" "array_and_item h' a T N' S' x X NX SX" "NA = N' \<union> NX" "SA = S' \<union> SX"
    "same_links a h h'" "same_in (- NA) UNIV h h'" by (auto simp: detached_def)
  from d(2) have i: "item_at h' a T N' S'" "loose_at h' x X NX SX" "N' \<inter> NX = {}" "S' \<inter> SX = {}" by (simp_all add: array_and_item_def)
  have "same_in (N p - NA) (S p - SA) h h'" by (rule same_in_mono [OF d(6)]) blast+
  moreover have same: "same_in R Q h h'" by (rule same_in_mono [OF d(6)]) (use P(1) sub in blast)+
  moreover have "N' \<inter> (N p - NA) = {}" "S' \<inter> (S p - SA) = {}" using d(3,4) by blast+
  ultimately have p: "item_at h' p (put_at ks T t) (N p - NA \<union> N') (S p - SA \<union> S')" "same_links p h h'"
    using part i(1) d(5) unfolding part_at_def by blast+
  have loose: "loose_at h' p (put_at ks T t) (N p - NA \<union> N') (S p - SA \<union> S')"
    by (rule same_links_loose [OF owns_item [OF F] p])
  have px: "p \<noteq> x" "x \<in> NX" using loose_root [OF loose] loose_root [OF i(2)] i(3) d(3) by blast+
  let ?G = "[p \<mapsto> put_at ks T t, x \<mapsto> X]" and ?N = "(\<lambda>q. if q = x then NX else N p - NA \<union> N')" and ?S = "(\<lambda>q. if q = x then SX else S p - SA \<union> S')"
  have U: "\<Union> (?N ` dom ?G) = N p" "\<Union> (?S ` dom ?G) = S p" using px(1) sub d(3,4) by auto
  have strs: "cj_strs h' = cj_strs h" using d(6) by (auto simp: same_in_def)
  have nodes: "dom (cj_nodes h') = dom (cj_nodes h)"
  proof -
    have "z \<in> dom (cj_nodes h')" if "z \<in> NA" for z using that array_and_item_dom [OF d(2)] d(3) by auto
    moreover have "z \<in> dom (cj_nodes h)" if "z \<in> NA" for z using that at_dom(1) part unfolding part_at_def by blast
    moreover have "z \<in> dom (cj_nodes h') \<longleftrightarrow> z \<in> dom (cj_nodes h)" if "z \<notin> NA" for z using that d(6) by (simp add: same_in_def dom_def)
    ultimately show ?thesis by blast
  qed
  have "owns h' ((F |` (- {p})) ++ ?G) (\<lambda>q. if q \<in> dom ?G then ?N q else N q) (\<lambda>q. if q \<in> dom ?G then ?S q else S q)"
  proof (rule owns_replace [OF F(1)])
    show "loose_at h' q u (?N q) (?S q)" if "?G q = Some u" for q u using that loose i(2) px(1) by (auto split: if_splits)
    have "(N p - NA \<union> N') \<inter> NX = {}" "(S p - SA \<union> S') \<inter> SX = {}" using i(3,4) d(3,4) by blast+
    then show "?N q \<inter> ?N v = {} \<and> ?S q \<inter> ?S v = {}" if "q \<in> dom ?G" "v \<in> dom ?G" "q \<noteq> v" for q v using that px(1) by (auto simp: Int_commute)
  qed (use F(2) P U same nodes strs in \<open>simp_all add: R_def [symmetric] Q_def [symmetric] Int_commute domI\<close>)
  moreover have "(F |` (- {p})) ++ ?G = F(p \<mapsto> put_at ks T t, x \<mapsto> X)"
    by (auto simp: fun_eq_iff map_add_def restrict_map_def)
  ultimately show ?thesis using d(1) by (auto simp: forest_in_def)
qed

lemma forest_create:
  assumes F: "owns h F N S" and x: "loose_at h' x X {x} SX" and "x \<notin> dom (cj_nodes h)" "SX \<inter> dom (cj_strs h) = {}"
    "cj_nodes h' = (cj_nodes h)(x \<mapsto> nx)" "dom (cj_strs h') = dom (cj_strs h) \<union> SX" "\<And>z. z \<notin> SX \<Longrightarrow> cj_strs h' z = cj_strs h z"
  shows "forest_in h' (F(x \<mapsto> X))"
proof -
  from F have D: "dom (cj_nodes h) = \<Union> (N ` dom F)" "dom (cj_strs h) = \<Union> (S ` dom F)" by (simp_all add: owns_def)
  have "same_in (\<Union> (N ` dom F)) (\<Union> (S ` dom F)) h h'"
    using assms(3-5,7) unfolding D [symmetric] by (auto simp: same_in_def)
  then have "owns h' ((F |` (- {})) ++ [x \<mapsto> X]) (\<lambda>q. if q \<in> dom [x \<mapsto> X] then {x} else N q) (\<lambda>q. if q \<in> dom [x \<mapsto> X] then SX else S q)"
    by (intro owns_replace [OF F]) (use x assms(3-6) D in \<open>auto split: if_splits\<close>)
  then show ?thesis by (auto simp: forest_in_def)
qed

lemma forest_delete:
  assumes F: "owns h F N S" "F x = Some X"
  shows "\<exists>h'. hp_Delete x h = Some h' \<and> forest_in h' (F(x := None))"
proof -
  note P = owns_parts [OF F(1) domI [of F, OF F(2)] empty_subsetI, simplified]
  define R Q where "R = \<Union> (N ` (dom F - {x}))" and "Q = \<Union> (S ` (dom F - {x}))"
  note P = P [folded R_def Q_def]
  let ?h = "cj_drop (N x) (S x) h"
  have "dom (cj_nodes ?h) = R" "dom (cj_strs ?h) = Q" using P by (auto simp: cj_drop_def)
  moreover have "same_in R Q h ?h" by (rule same_in_drop) (use P in blast)+
  ultimately have "owns ?h ((F |` (- {x})) ++ Map.empty) (\<lambda>q. if q \<in> dom (Map.empty :: forest) then {} else N q) (\<lambda>q. if q \<in> dom (Map.empty :: forest) then {} else S q)"
    by (intro owns_replace [OF F(1)]) (use F(2) in \<open>simp_all add: R_def [symmetric] Q_def [symmetric] domI\<close>)
  moreover have "(F |` (- {x})) = F(x := None)" by (auto simp: fun_eq_iff restrict_map_def)
  ultimately show ?thesis using Delete_loose [OF owns_item [OF F]] by (auto simp: forest_in_def)
qed

subsection \<open>Calls\<close>

text \<open>
  A program names an array or object by an item it holds and indexes. The pointers at the end of a call are what
  \<open>cJSON_malloc\<close> returns in it, 0 for \<open>NULL\<close>.
\<close>

type_synonym place = "ptr \<times> nat list"

datatype call =
    CreateType int ptr
  | CreateNumber double ptr
  | CreateString "byte list" ptr ptr
  | AddTo place ptr
  | AddNamed place "byte list" ptr ptr
  | InsertIn place int ptr
  | ReplaceIn place int ptr
  | DetachFrom place int
  | DeleteFrom place int
  | DetachNamed place "byte list"
  | DeleteNamed place "byte list"
  | DeleteItem ptr

definition with_place :: "place \<Rightarrow> cjheap \<Rightarrow> (ptr \<Rightarrow> (ptr \<times> cjheap) option) \<Rightarrow> (ptr \<times> cjheap) option" where
  "with_place pl h k = do { a \<leftarrow> hp_at h (fst pl) (snd pl); k a }"

definition no_result :: "cjheap option \<Rightarrow> (ptr \<times> cjheap) option" where
  "no_result r = map_option (\<lambda>h. (0, h)) r"

fun exec :: "call \<Rightarrow> cjheap \<Rightarrow> (ptr \<times> cjheap) option" where
  "exec (CreateType t new) h = hp_create t new h"
| "exec (CreateNumber num new) h = hp_CreateNumber num new h"
| "exec (CreateString string new str) h = hp_CreateString string new str h"
| "exec (AddTo pl x) h = with_place pl h (\<lambda>a. no_result (hp_AddItemToArray a x h))"
| "exec (AddNamed pl string x str) h = with_place pl h (\<lambda>a. no_result (hp_AddItemToObject a string x str h))"
| "exec (InsertIn pl which x) h = with_place pl h (\<lambda>a. no_result (hp_InsertItemInArray a which x h))"
| "exec (ReplaceIn pl which x) h = with_place pl h (\<lambda>a. no_result (hp_ReplaceItemInArray a which x h))"
| "exec (DetachFrom pl which) h = with_place pl h (\<lambda>a. hp_DetachItemFromArray a which h)"
| "exec (DeleteFrom pl which) h = with_place pl h (\<lambda>a. no_result (hp_DeleteItemFromArray a which h))"
| "exec (DetachNamed pl string) h = with_place pl h (\<lambda>a. hp_DetachItemFromObject a string h)"
| "exec (DeleteNamed pl string) h = with_place pl h (\<lambda>a. no_result (hp_DeleteItemFromObject a string h))"
| "exec (DeleteItem x) h = no_result (hp_Delete x h)"

text \<open>The same call on the forest, by the functions on trees; \<open>r\<close> is what it returned.\<close>

definition part :: "forest \<Rightarrow> place \<Rightarrow> cJSON option" where
  "part F pl = Option.bind (F (fst pl)) (sub_at (snd pl))"

definition put :: "forest \<Rightarrow> place \<Rightarrow> cJSON \<Rightarrow> forest" where
  "put F pl A = F(fst pl \<mapsto> put_at (snd pl) A (the (F (fst pl))))"

definition created :: "forest \<Rightarrow> ptr \<Rightarrow> cJSON option \<Rightarrow> forest" where
  "created F r i = (case i of None \<Rightarrow> F | Some i \<Rightarrow> F(r \<mapsto> i))"

definition taken :: "forest \<Rightarrow> place \<Rightarrow> ptr \<Rightarrow> cJSON option \<times> cJSON \<Rightarrow> forest" where
  "taken F pl r XA = (case XA of (None, A) \<Rightarrow> F | (Some X, A) \<Rightarrow> (put F pl A)(r \<mapsto> X))"

fun after :: "call \<Rightarrow> ptr \<Rightarrow> forest \<Rightarrow> forest" where
  "after (CreateType t new) r F = created F r (fst (create t (\<lambda>_. new \<noteq> 0) 0))"
| "after (CreateNumber num new) r F = created F r (fst (cJSON_CreateNumber (\<lambda>_. new \<noteq> 0) num 0))"
| "after (CreateString string new str) r F = created F r (fst (cJSON_CreateString (\<lambda>k. if k = 0 then new \<noteq> 0 else str \<noteq> 0) string 0))"
| "after (AddTo pl x) r F = put (F(x := None)) pl (the (cJSON_AddItemToArray (part F pl) (F x)))"
| "after (AddNamed pl string x str) r F = put (F(x := None)) pl (the (fst (the (cJSON_AddItemToObject (\<lambda>_. str \<noteq> 0) (part F pl) string (F x) 0))))"
| "after (InsertIn pl which x) r F = put (F(x := None)) pl (cJSON_InsertItemInArray (the (part F pl)) which (the (F x)))"
| "after (ReplaceIn pl which x) r F = (if nat which < length (children (the (part F pl)))
     then put (F(x := None)) pl (cJSON_ReplaceItemInArray (the (part F pl)) which (the (F x))) else F)"
| "after (DetachFrom pl which) r F = taken F pl r (cJSON_DetachItemFromArray (the (part F pl)) which)"
| "after (DeleteFrom pl which) r F = put F pl (fst (cJSON_DeleteItemFromArray (the (part F pl)) which))"
| "after (DetachNamed pl string) r F = taken F pl r (cJSON_DetachItemFromObject (the (part F pl)) string)"
| "after (DeleteNamed pl string) r F = put F pl (fst (cJSON_DeleteItemFromObject (the (part F pl)) string))"
| "after (DeleteItem x) r F = F(x := None)"

text \<open>What a caller owes: items and places that are there, a moved item not in itself, new blocks that are free.\<close>

definition fresh :: "('a \<rightharpoonup> 'b) \<Rightarrow> 'a :: zero \<Rightarrow> bool" where
  "fresh M p \<longleftrightarrow> p = 0 \<or> M p = None"

definition movable :: "forest \<Rightarrow> place \<Rightarrow> ptr \<Rightarrow> bool" where
  "movable F pl x \<longleftrightarrow> part F pl \<noteq> None \<and> F x \<noteq> None \<and> x \<noteq> fst pl"

fun callable :: "cjheap \<Rightarrow> forest \<Rightarrow> call \<Rightarrow> bool" where
  "callable h F (CreateType t new) \<longleftrightarrow> t \<in> {cJSON_NULL, cJSON_True, cJSON_False, cJSON_Array, cJSON_Object} \<and> fresh (cj_nodes h) new"
| "callable h F (CreateNumber num new) \<longleftrightarrow> fresh (cj_nodes h) new"
| "callable h F (CreateString string new str) \<longleftrightarrow> fresh (cj_nodes h) new \<and> fresh (cj_strs h) str"
| "callable h F (AddTo pl x) \<longleftrightarrow> movable F pl x"
| "callable h F (AddNamed pl string x str) \<longleftrightarrow> movable F pl x \<and> fresh (cj_strs h) str"
| "callable h F (InsertIn pl which x) \<longleftrightarrow> movable F pl x"
| "callable h F (ReplaceIn pl which x) \<longleftrightarrow> movable F pl x"
| "callable h F (DetachFrom pl which) \<longleftrightarrow> part F pl \<noteq> None"
| "callable h F (DeleteFrom pl which) \<longleftrightarrow> part F pl \<noteq> None"
| "callable h F (DetachNamed pl string) \<longleftrightarrow> part F pl \<noteq> None"
| "callable h F (DeleteNamed pl string) \<longleftrightarrow> part F pl \<noteq> None"
| "callable h F (DeleteItem x) \<longleftrightarrow> F x \<noteq> None"

subsection \<open>Every call keeps the forest\<close>

definition call_ok :: "cjheap \<Rightarrow> forest \<Rightarrow> call \<Rightarrow> bool" where
  "call_ok h F c \<longleftrightarrow> (\<exists>r h'. exec c h = Some (r, h') \<and> forest_in h' (after c r F))"

lemma at_place:
  assumes "forest_in h F" "part F pl = Some A"
  obtains p ks t N S a NA SA where "pl = (p, ks)" "F p = Some t" "owns h F N S" "part_at h p t (N p) (S p) ks a A NA SA"
proof -
  obtain p ks where pl: "pl = (p, ks)" by fastforce
  from assms(2) obtain t where t: "F p = Some t" "sub_at ks t = Some A" by (auto simp: part_def pl bind_eq_Some_conv)
  from assms(1) obtain N S where o: "owns h F N S" by (auto simp: forest_in_def)
  have "item_at h p t (N p) (S p)" using owns_item [OF o t(1)] by (simp add: loose_at_def)
  from find_part [OF this t(2)] show thesis using that pl t(1) o by blast
qed

text \<open>A call that changes the array at a place, and one that also uses up an item.\<close>

lemma edit_at_place:
  assumes F: "forest_in h F" and A: "part F pl = Some A"
    and run: "\<And>a NA SA. item_at h a A NA SA \<Longrightarrow> implements h (f a) a T NA SA"
  shows "\<exists>h'. with_place pl h (\<lambda>a. no_result (f a)) = Some (0, h') \<and> forest_in h' (put F pl T)"
proof -
  obtain p ks t N S a NA SA where pl: "pl = (p, ks)" and t: "F p = Some t" and o: "owns h F N S"
    and part: "part_at h p t (N p) (S p) ks a A NA SA" by (rule at_place [OF F A])
  then have "hp_at h p ks = Some a" "item_at h a A NA SA" by (simp_all add: part_at_def)
  moreover from this(2) have imp: "implements h (f a) a T NA SA" by (rule run)
  then obtain h' where h': "f a = Some h'" by (auto simp: implements_def)
  moreover have "forest_in h' ((F |` (- {}))(p \<mapsto> put_at ks T t))"
    by (rule forest_edit [OF o t part]) (use imp h' in simp_all)
  ultimately show ?thesis by (simp add: pl with_place_def no_result_def put_def t)
qed

lemma move_to_place:
  assumes F: "forest_in h F" and A: "part F pl = Some A" and x: "F x = Some X" "x \<noteq> fst pl"
    and run: "\<And>a NA SA NX SX. array_and_item h a A NA SA x X NX SX \<Longrightarrow> implements h (f a) a T (NA \<union> NX) (SA \<union> SX)"
  shows "\<exists>h'. with_place pl h (\<lambda>a. no_result (f a)) = Some (0, h') \<and> forest_in h' (put (F(x := None)) pl T)"
proof -
  obtain p ks t N S a NA SA where pl: "pl = (p, ks)" and t: "F p = Some t" and o: "owns h F N S"
    and part: "part_at h p t (N p) (S p) ks a A NA SA" by (rule at_place [OF F A])
  then have a: "hp_at h p ks = Some a" "item_at h a A NA SA" "NA \<subseteq> N p" "SA \<subseteq> S p" by (simp_all add: part_at_def)
  have X: "{x} \<subseteq> dom F - {p}" using x by (auto simp: pl)
  have "N p \<inter> N x = {}" "S p \<inter> S x = {}" using owns_parts(5,6) [OF o domI [of F, OF t] X] by simp_all
  then have "array_and_item h a A NA SA x X (N x) (S x)" using a owns_item [OF o x(1)] by (auto simp: array_and_item_def)
  from run [OF this] have imp: "implements h (f a) a T (NA \<union> N x) (SA \<union> S x)" .
  then obtain h' where h': "f a = Some h'" by (auto simp: implements_def)
  have "forest_in h' ((F |` (- {x}))(p \<mapsto> put_at ks T t))"
    by (rule forest_edit [OF o t part X]) (use imp h' in simp)
  moreover have "F |` (- {x}) = F(x := None)" by (auto simp: fun_eq_iff restrict_map_def)
  moreover have "(F(x := None)) p = Some t" using t x(2) by (simp add: pl)
  ultimately show ?thesis using a(1) h' by (simp add: pl with_place_def no_result_def put_def del: fun_upd_apply)
qed

lemma take_from_place:
  assumes F: "forest_in h F" and A: "part F pl = Some A"
    and run: "\<And>a NA SA. item_at h a A NA SA \<Longrightarrow> detached h (f a) a XA NA SA"
  shows "\<exists>x h'. with_place pl h f = Some (x, h') \<and> forest_in h' (taken F pl x XA)"
proof -
  obtain p ks t N S a NA SA where pl: "pl = (p, ks)" and t: "F p = Some t" and o: "owns h F N S"
    and part: "part_at h p t (N p) (S p) ks a A NA SA" by (rule at_place [OF F A])
  then have a: "hp_at h p ks = Some a" "item_at h a A NA SA" by (simp_all add: part_at_def)
  obtain X T where XA: "XA = (X, T)" by fastforce
  from run [OF a(2)] have d: "detached h (f a) a (X, T) NA SA" by (simp add: XA)
  show ?thesis
  proof (cases X)
    case None
    with d F a(1) show ?thesis by (simp add: detached_def with_place_def taken_def XA pl)
  next
    case (Some Y)
    with d forest_detach [OF o t part, of "f a" Y T] a(1) t show ?thesis
      by (simp add: with_place_def taken_def XA pl put_def)
  qed
qed

lemma leaf_at:
  "x \<noteq> 0 \<Longrightarrow> cj_nodes h x = Some n \<Longrightarrow> n_next n = 0 \<Longrightarrow> n_prev n = 0 \<Longrightarrow> n_child n = 0 \<Longrightarrow> fields_at h n X S \<Longrightarrow> children X = [] \<Longrightarrow>
   loose_at h x X {x} S"
  unfolding loose_at_def item_at_iff by auto

lemma create_type_ok: "forest_in h F \<Longrightarrow> callable h F (CreateType t new) \<Longrightarrow> call_ok h F (CreateType t new)"
proof (cases "new = 0")
  case False
  assume F: "forest_in h F" and c: "callable h F (CreateType t new)"
  from F obtain N S where o: "owns h F N S" by (auto simp: forest_in_def)
  let ?n = "zero_node\<lparr>n_type := t\<rparr>"
  let ?h = "h\<lparr>cj_nodes := (cj_nodes h)(new \<mapsto> ?n)\<rparr>"
  have "fields_at ?h ?n (set_type t zero_item) {}"
    using c by (auto simp: fields_at_def zero_node_def zero_item_def set_type_def flag_set_def cJSON_IsReference_def cJSON_StringIsConst_def
        cJSON_NULL_def cJSON_True_def cJSON_False_def cJSON_Array_def cJSON_Object_def)
  then have "loose_at ?h new (set_type t zero_item) {new} {}"
    by (intro leaf_at [of _ _ ?n]) (use False in \<open>simp_all add: zero_node_def zero_item_def set_type_def\<close>)
  from forest_create [OF o this] have "forest_in ?h (F(new \<mapsto> set_type t zero_item))" using c False by (simp add: fresh_def domIff)
  then show ?thesis using False
    by (simp add: call_ok_def hp_create_def hp_New_Item_def cj_set_def created_def create_def cJSON_New_Item_def)
qed (simp add: call_ok_def hp_create_def hp_New_Item_def created_def create_def cJSON_New_Item_def)

lemma create_number_ok: "forest_in h F \<Longrightarrow> callable h F (CreateNumber num new) \<Longrightarrow> call_ok h F (CreateNumber num new)"
proof (cases "new = 0")
  case False
  assume F: "forest_in h F" and c: "callable h F (CreateNumber num new)"
  from F obtain N S where o: "owns h F N S" by (auto simp: forest_in_def)
  let ?n = "zero_node\<lparr>n_type := cJSON_Number, n_valueint := double_to_int num, n_valuedouble := num\<rparr>"
  let ?h = "h\<lparr>cj_nodes := (cj_nodes h)(new \<mapsto> ?n)\<rparr>" and ?X = "Item cJSON_Number None (double_to_int num) num None []"
  have "fields_at ?h ?n ?X {}"
    by (auto simp: fields_at_def zero_node_def flag_set_def cJSON_IsReference_def cJSON_StringIsConst_def cJSON_Number_def)
  then have "loose_at ?h new ?X {new} {}"
    by (intro leaf_at [of _ _ ?n]) (use False in \<open>simp_all add: zero_node_def\<close>)
  from forest_create [OF o this] have "forest_in ?h (F(new \<mapsto> ?X))" using c False by (simp add: fresh_def domIff)
  then show ?thesis using False
    by (simp add: call_ok_def hp_CreateNumber_def hp_New_Item_def cj_set_def created_def cJSON_CreateNumber_def cJSON_New_Item_def zero_node_def)
qed (simp add: call_ok_def hp_CreateNumber_def hp_New_Item_def created_def cJSON_CreateNumber_def cJSON_New_Item_def)

lemma create_string_ok: "forest_in h F \<Longrightarrow> callable h F (CreateString string new str) \<Longrightarrow> call_ok h F (CreateString string new str)"
proof (cases "new = 0")
  case False
  assume F: "forest_in h F" and c: "callable h F (CreateString string new str)"
  from F obtain N S where o: "owns h F N S" by (auto simp: forest_in_def)
  let ?n = "zero_node\<lparr>n_type := cJSON_String, n_valuestring := str\<rparr>"
  let ?h = "put_name str string h\<lparr>cj_nodes := (cj_nodes h)(new \<mapsto> ?n)\<rparr>"
  let ?X = "Item cJSON_String (name_of str string) 0 (Fin 0) None []" and ?S = "{str} - {0}"
  have "fields_at ?h ?n ?X ?S"
    unfolding fields_at_def
    by (auto simp: zero_node_def flag_set_def cJSON_IsReference_def cJSON_StringIsConst_def cJSON_String_def name_of_def)
  then have "loose_at ?h new ?X {new} ?S"
    by (intro leaf_at [of _ _ ?n]) (use False in \<open>simp_all add: zero_node_def\<close>)
  then have "forest_in ?h (F(new \<mapsto> ?X))"
    by (rule forest_create [OF o, where nx = ?n]) (use c False in \<open>auto simp: fresh_def domIff dom_def\<close>)
  then show ?thesis using False
    by (cases "str = 0") (simp_all add: call_ok_def hp_CreateString_def hp_New_Item_def cj_set_def created_def cJSON_CreateString_def cJSON_New_Item_def
        zero_item_def name_of_def put_name_def)
qed (simp add: call_ok_def hp_CreateString_def hp_New_Item_def created_def cJSON_CreateString_def cJSON_New_Item_def)

lemma call_okI: "\<exists>h'. exec c h = Some (r, h') \<and> forest_in h' (after c r F) \<Longrightarrow> call_ok h F c"
  by (auto simp: call_ok_def)

theorem call_keeps_forest:
  assumes F: "forest_in h F" and c: "callable h F c"
  shows "call_ok h F c"
proof (cases c)
  case (AddTo pl x)
  with c obtain A X where m: "part F pl = Some A" "F x = Some X" "x \<noteq> fst pl" by (auto simp: movable_def)
  have "\<exists>h'. with_place pl h (\<lambda>a. no_result (hp_AddItemToArray a x h)) = Some (0, h') \<and> forest_in h' (put (F(x := None)) pl (set_children A (children A @ [X])))"
    by (rule move_to_place [OF F m]) (rule Add_implements)
  then show ?thesis
    by (intro call_okI [where r = 0]) (simp add: AddTo m cJSON_AddItemToArray_def)
next
  case (AddNamed pl string x str)
  with c obtain A X where m: "part F pl = Some A" "F x = Some X" "x \<noteq> fst pl" and str: "str = 0 \<or> cj_strs h str = None"
    by (auto simp: movable_def fresh_def)
  have "implements h (hp_AddItemToObject a string x str h) a (set_children A (children A @ [set_name X (name_of str string)])) (NA \<union> NX) (SA \<union> SX)"
    if i: "array_and_item h a A NA SA x X NX SX" for a NA SA NX SX
  proof -
    from i obtain n where "cj_nodes h x = Some n" by (auto simp: array_and_item_def loose_at_def)
    then show ?thesis by (rule AddObject_implements [OF i]) (use str in auto)
  qed
  from move_to_place [OF F m, of "\<lambda>a. hp_AddItemToObject a string x str h", OF this] show ?thesis
    by (intro call_okI [where r = 0], cases "str = 0") (simp_all add: AddNamed m cJSON_AddItemToObject_def cJSON_AddItemToArray_def name_of_def)
next
  case (InsertIn pl which x)
  with c obtain A X where m: "part F pl = Some A" "F x = Some X" "x \<noteq> fst pl" by (auto simp: movable_def)
  have "\<exists>h'. with_place pl h (\<lambda>a. no_result (hp_InsertItemInArray a which x h)) = Some (0, h') \<and> forest_in h' (put (F(x := None)) pl (cJSON_InsertItemInArray A which X))"
    by (rule move_to_place [OF F m]) (rule Insert_implements)
  then show ?thesis
    by (intro call_okI [where r = 0]) (simp add: InsertIn m)
next
  case (ReplaceIn pl which x)
  with c obtain A X where m: "part F pl = Some A" "F x = Some X" "x \<noteq> fst pl" by (auto simp: movable_def)
  show ?thesis
  proof (cases "nat which < length (children A)")
    case True
    with Replace_implements have "implements h (hp_ReplaceItemInArray a which x h) a (cJSON_ReplaceItemInArray A which X) (NA \<union> NX) (SA \<union> SX)"
      if "array_and_item h a A NA SA x X NX SX" for a NA SA NX SX using that by fastforce
    from move_to_place [OF F m, of "\<lambda>a. hp_ReplaceItemInArray a which x h", OF this] True show ?thesis
      by (intro call_okI [where r = 0]) (simp add: ReplaceIn m)
  next
    case False
    obtain p ks t N S a NA SA where pl: "pl = (p, ks)" and "F p = Some t" "owns h F N S" and part: "part_at h p t (N p) (S p) ks a A NA SA"
      by (rule at_place [OF F m(1)])
    then have a: "hp_at h p ks = Some a" "item_at h a A NA SA" by (simp_all add: part_at_def)
    obtain n where "cj_nodes h a = Some n" "hp_walk h (n_child n) (nat which) = Some 0" by (rule beyond_the_end [OF a(2) False])
    with a(1) False F show ?thesis
      by (intro call_okI [where r = 0]) (simp add: ReplaceIn m [unfolded pl] with_place_def no_result_def pl hp_ReplaceItemInArray_def)
  qed
next
  case (DetachFrom pl which)
  with c obtain A where m: "part F pl = Some A" by auto
  have "\<exists>r h'. with_place pl h (\<lambda>a. hp_DetachItemFromArray a which h) = Some (r, h') \<and> forest_in h' (taken F pl r (cJSON_DetachItemFromArray A which))"
    by (rule take_from_place [OF F m]) (rule Detach_implements)
  then show ?thesis
    by (simp add: DetachFrom call_ok_def m)
next
  case (DeleteFrom pl which)
  with c obtain A where m: "part F pl = Some A" by auto
  have "\<exists>h'. with_place pl h (\<lambda>a. no_result (hp_DeleteItemFromArray a which h)) = Some (0, h') \<and> forest_in h' (put F pl (fst (cJSON_DeleteItemFromArray A which)))"
    by (rule edit_at_place [OF F m]) (rule DeleteItem_implements)
  then show ?thesis
    by (intro call_okI [where r = 0]) (simp add: DeleteFrom m)
next
  case (DetachNamed pl string)
  with c obtain A where m: "part F pl = Some A" by auto
  have "\<exists>r h'. with_place pl h (\<lambda>a. hp_DetachItemFromObject a string h) = Some (r, h') \<and> forest_in h' (taken F pl r (cJSON_DetachItemFromObject A string))"
    by (rule take_from_place [OF F m]) (rule DetachObject_implements)
  then show ?thesis
    by (simp add: DetachNamed call_ok_def m)
next
  case (DeleteNamed pl string)
  with c obtain A where m: "part F pl = Some A" by auto
  have "\<exists>h'. with_place pl h (\<lambda>a. no_result (hp_DeleteItemFromObject a string h)) = Some (0, h') \<and> forest_in h' (put F pl (fst (cJSON_DeleteItemFromObject A string)))"
    by (rule edit_at_place [OF F m]) (rule DeleteObject_implements)
  then show ?thesis
    by (intro call_okI [where r = 0]) (simp add: DeleteNamed m)
next
  case (DeleteItem x)
  with c obtain X where x: "F x = Some X" by auto
  from F obtain N S where "owns h F N S" by (auto simp: forest_in_def)
  from forest_delete [OF this x] show ?thesis by (auto simp: DeleteItem call_ok_def no_result_def)
qed (use F c create_type_ok create_number_ok create_string_ok in blast)+

subsection \<open>Programs\<close>

text \<open>
  Programs on a concrete state beside an abstract one. A call that is allowed returns \<open>r\<close> and the next state; the
  abstract state follows by \<open>spec\<close>.
\<close>

inductive runs :: "('c \<Rightarrow> 's \<Rightarrow> ('r \<times> 's) option) \<Rightarrow> ('c \<Rightarrow> 'r \<Rightarrow> 'a \<Rightarrow> 'a) \<Rightarrow> ('s \<Rightarrow> 'a \<Rightarrow> 'c \<Rightarrow> bool) \<Rightarrow> 's \<Rightarrow> 'a \<Rightarrow> 's \<Rightarrow> 'a \<Rightarrow> bool"
  for step spec allowed s0 a0 where
  start: "runs step spec allowed s0 a0 s0 a0"
| call: "runs step spec allowed s0 a0 s a \<Longrightarrow> allowed s a c \<Longrightarrow> step c s = Some (r, s') \<Longrightarrow> runs step spec allowed s0 a0 s' (spec c r a)"

locale simulation =
  fixes rel :: "'s \<Rightarrow> 'a \<Rightarrow> bool" and step :: "'c \<Rightarrow> 's \<Rightarrow> ('r \<times> 's) option" and spec :: "'c \<Rightarrow> 'r \<Rightarrow> 'a \<Rightarrow> 'a"
    and allowed :: "'s \<Rightarrow> 'a \<Rightarrow> 'c \<Rightarrow> bool"
  assumes simulates: "rel s a \<Longrightarrow> allowed s a c \<Longrightarrow> \<exists>r s'. step c s = Some (r, s') \<and> rel s' (spec c r a)"
begin

lemma runs_rel: "runs step spec allowed s0 a0 s a \<Longrightarrow> rel s0 a0 \<Longrightarrow> rel s a"
proof (induction rule: runs.induct)
  case (call s a c r s')
  from simulates [OF call.IH [OF call.prems] call.hyps(2)] call.hyps(3) show ?case by auto
qed

lemma runs_go_on: "runs step spec allowed s0 a0 s a \<Longrightarrow> rel s0 a0 \<Longrightarrow> allowed s a c \<Longrightarrow> step c s \<noteq> None"
  using simulates [OF runs_rel] by fastforce

end

interpretation json: simulation forest_in exec after callable
  by unfold_locales (use call_keeps_forest in \<open>simp add: call_ok_def\<close>)

text \<open>C27: Programs that use cJSON. Starting with a memory that holds nothing, or just a forest, every sequence of calls that
  a program may make - creating items, appending, inserting, replacing, detaching and deleting them in any array or
  object inside of the items it holds, by index or by name, whichever allocations fail - runs without a bad access; the
  memory then is exactly the forest that the functions on trees give, so nothing leaks: when the program has deleted
  what it holds, no node and no string is left.\<close>

theorem cjson_programs:
  assumes "runs exec after callable h0 F0 h F" "forest_in h0 F0"
  shows "forest_in h F \<and> (\<forall>c. callable h F c \<longrightarrow> exec c h \<noteq> None) \<and>
    (F = Map.empty \<longrightarrow> cj_nodes h = Map.empty \<and> cj_strs h = Map.empty)"
  using json.runs_rel [OF assms] json.runs_go_on [OF assms] forest_empty [of h] by auto

text \<open>A program that makes the array \<open>[7]\<close> and deletes it.\<close>

theorem cjson_programs_witness:
  "\<exists>h. runs exec after callable \<lparr>cj_nodes = Map.empty, cj_strs = Map.empty, cj_consts = Map.empty\<rparr> Map.empty h Map.empty \<and>
     cj_nodes h = Map.empty \<and> cj_strs h = Map.empty"
proof -
  let ?h0 = "\<lparr>cj_nodes = Map.empty, cj_strs = Map.empty, cj_consts = Map.empty\<rparr>"
  let ?t = "set_type cJSON_Array zero_item" and ?n = "Item cJSON_Number None (double_to_int (Fin 7)) (Fin 7) None []"
  note start = runs.start [of exec after callable ?h0 Map.empty]
  have 0: "forest_in ?h0 Map.empty" by (simp add: forest_empty)
  have go: "\<exists>r s. exec c h = Some (r, s) \<and> runs exec after callable ?h0 Map.empty s (after c r F)"
    if "runs exec after callable ?h0 Map.empty h F" "callable h F c" for h F c
    using cjson_programs [OF that(1) 0] that(2) runs.call [of exec after callable, OF that] by fastforce
  obtain r1 h1 where 1: "exec (CreateType cJSON_Array 1) ?h0 = Some (r1, h1)"
    "runs exec after callable ?h0 Map.empty h1 (after (CreateType cJSON_Array 1) r1 Map.empty)"
    using go [OF start, of "CreateType cJSON_Array 1"] by (auto simp: fresh_def)
  then have h1: "r1 = 1" "cj_nodes h1 2 = None"
    by (auto simp: hp_create_def hp_New_Item_def cj_set_def)
  have 2: "runs exec after callable ?h0 Map.empty h1 [1 \<mapsto> ?t]"
    using 1(2) h1 by (simp add: created_def create_def cJSON_New_Item_def)
  obtain r2 h2 where 3: "exec (CreateNumber (Fin 7) 2) h1 = Some (r2, h2)"
    "runs exec after callable ?h0 Map.empty h2 (after (CreateNumber (Fin 7) 2) r2 [1 \<mapsto> ?t])"
    using go [OF 2, of "CreateNumber (Fin 7) 2"] h1 by (auto simp: fresh_def)
  then have "r2 = 2" by (auto simp: hp_CreateNumber_def hp_New_Item_def cj_set_def)
  with 3 have 4: "runs exec after callable ?h0 Map.empty h2 [1 \<mapsto> ?t, 2 \<mapsto> ?n]"
    by (simp add: created_def cJSON_CreateNumber_def cJSON_New_Item_def)
  obtain r3 h3 where 5: "runs exec after callable ?h0 Map.empty h3 (after (AddTo (1, []) 2) r3 [1 \<mapsto> ?t, 2 \<mapsto> ?n])"
    using go [OF 4, of "AddTo (1, []) 2"] by (auto simp: movable_def part_def)
  obtain r4 h4 where 6: "runs exec after callable ?h0 Map.empty h4 (after (DeleteItem 1) r4 (after (AddTo (1, []) 2) r3 [1 \<mapsto> ?t, 2 \<mapsto> ?n]))"
    using go [OF 5, of "DeleteItem 1"] by (auto simp: put_def)
  have "after (DeleteItem 1) r4 (after (AddTo (1, []) 2) r3 [1 \<mapsto> ?t, 2 \<mapsto> ?n]) = Map.empty"
    by (auto simp: put_def fun_eq_iff)
  with 6 have "runs exec after callable ?h0 Map.empty h4 Map.empty" by (simp only:)
  with cjson_programs [OF this 0] show ?thesis by blast
qed

end
