(* ===== verification/Outcome.thy ===== *)
theory Outcome
  imports Prelude
begin

text \<open>
  Runs of code that may crash and may not end: \<open>None\<close> is a run without an end, \<open>Crash\<close> an access that
  C does not define, a failed assertion or a trap.
\<close>

datatype 'a outcome = Crash | Done 'a

definition bind_o :: "'a outcome option \<Rightarrow> ('a \<Rightarrow> 'b outcome option) \<Rightarrow> 'b outcome option" where
  "bind_o r f = (case r of None \<Rightarrow> None | Some Crash \<Rightarrow> Some Crash | Some (Done x) \<Rightarrow> f x)"

lemma bind_o_simps [simp]:
  "bind_o None f = None" "bind_o (Some Crash) f = Some Crash" "bind_o (Some (Done x)) f = f x"
  by (simp_all add: bind_o_def)

abbreviation return_o :: "'a \<Rightarrow> 'a outcome option" where
  "return_o x \<equiv> Some (Done x)"

lemma bind_o_Done: "bind_o r f = Some (Done y) \<longleftrightarrow> (\<exists>x. r = Some (Done x) \<and> f x = Some (Done y))"
  by (auto simp: bind_o_def split: option.splits outcome.splits)

definition ends :: "'a outcome option \<Rightarrow> bool" where
  "ends r \<longleftrightarrow> r \<noteq> None"

lemma ends_Some [intro!, simp]: "ends (Some r)"
  by (simp add: ends_def)

lemma ends_bind: "ends r \<Longrightarrow> (\<And>x. ends (f x)) \<Longrightarrow> ends (bind_o r f)"
  by (auto simp: ends_def bind_o_def split: option.splits outcome.splits)

lemma ends_pair: "(\<And>a b. ends (f a b)) \<Longrightarrow> ends (case p of (a, b) \<Rightarrow> f a b)"
  by (cases p) simp

lemma ends_option: "ends f \<Longrightarrow> (\<And>a. ends (g a)) \<Longrightarrow> ends (case r of None \<Rightarrow> f | Some a \<Rightarrow> g a)"
  by (cases r) simp_all

lemma ends_if: "ends f \<Longrightarrow> ends g \<Longrightarrow> ends (if b then f else g)"
  by simp

end
