(* ===== verification/CjsonSafe.thy ===== *)
theory CjsonSafe
  imports Cjson
begin

text \<open>
  Termination and memory safety of the parser: what it does on arbitrary input, which inputs it
  reads safely, and which make it leave its buffers.
\<close>

subsection \<open>The parser consumes its input\<close>

text \<open>Not out of fuel, and the rest is at most \<open>k\<close> long.\<close>

definition shrinks :: "('a \<Rightarrow> byte list) \<Rightarrow> nat \<Rightarrow> 'a pres \<Rightarrow> bool" where
  "shrinks rest k r \<longleftrightarrow> r \<noteq> OutOfFuel \<and> (\<forall>x. r = Ok x \<longrightarrow> length (rest x) \<le> k)"

lemma shrinks_simps [simp]:
  "shrinks rest k Fault" "shrinks rest k (Fail ep)" "shrinks rest k (Ok x) \<longleftrightarrow> length (rest x) \<le> k"
  by (auto simp: shrinks_def)

lemma shrinks_bind:
  assumes "shrinks rest' k' r" "\<And>x. r = Ok x \<Longrightarrow> length (rest' x) \<le> k' \<Longrightarrow> shrinks rest k (f x)"
  shows "shrinks rest k (bind_p r f)"
  using assms by (cases r) (auto simp: shrinks_def)

text \<open>For results without a rest.\<close>

lemma shrinks_bind_value:
  assumes "r \<noteq> OutOfFuel" "\<And>x. r = Ok x \<Longrightarrow> shrinks rest k (f x)"
  shows "shrinks rest k (bind_p r f)"
  using assms by (cases r) auto

lemma read_p_total [simp]: "read_p p \<noteq> OutOfFuel"
  by (cases p) auto

lemma shrinks_read: "(\<And>c cs. p = c # cs \<Longrightarrow> shrinks rest k (f c)) \<Longrightarrow> shrinks rest k (bind_p (read_p p) f)"
  by (cases p) auto

lemma shrinks_mono: "shrinks rest k r \<Longrightarrow> k \<le> k' \<Longrightarrow> shrinks rest k' r"
  by (auto simp: shrinks_def)

lemma shrinks_Suc: "shrinks rest k r \<Longrightarrow> shrinks rest (Suc k) r"
  by (erule shrinks_mono) simp

lemma bind_p_total: "r \<noteq> OutOfFuel \<Longrightarrow> (\<And>x. r = Ok x \<Longrightarrow> f x \<noteq> OutOfFuel) \<Longrightarrow> bind_p r f \<noteq> OutOfFuel"
  by (cases r) auto

lemma shrinks_skip: "shrinks id (length p) (skip p)"
  by (induction p) (auto simp: skip.simps intro: shrinks_Suc)

lemma shrinks_num_digits: "shrinks snd (length p) (num_digits n p)"
  by (induction n p rule: num_digits.induct) (auto intro: shrinks_Suc)

lemma shrinks_frac_digits: "shrinks (snd \<circ> snd) (length p) (frac_digits n k p)"
  by (induction n k p rule: frac_digits.induct) (auto intro: shrinks_Suc)

lemma shrinks_exp_digits: "shrinks snd (length p) (exp_digits n p)"
  by (induction n p rule: exp_digits.induct) (auto intro: shrinks_Suc)

lemma strncmp_total [simp]: "strncmp_eq p l \<noteq> OutOfFuel"
  by (induction p l rule: strncmp_eq.induct) auto

lemma strncmp_length: "strncmp_eq p l = Ok True \<Longrightarrow> length l \<le> length p"
  by (induction p l rule: strncmp_eq.induct) (auto split: if_splits)

lemma scan_len_total [simp]: "scan_len p \<noteq> OutOfFuel"
proof (induction p rule: scan_len.induct)
  case (2 c cs)
  then show ?case by (simp add: bind_p_total)
qed simp

lemma hex_steps_total [simp]: "hex_steps k h p \<noteq> OutOfFuel"
proof (induction k h p rule: hex_steps.induct)
  case (2 k h str)
  then show ?case
    unfolding hex_steps.simps
    by (intro bind_p_total read_p_total) (simp del: hex_digit.simps split: option.splits)
qed simp

lemma write_at_total [simp]: "write_at i ws out \<noteq> OutOfFuel"
  by (simp add: write_at_def)

lemma parse_escape_total [simp]: "parse_escape p \<noteq> OutOfFuel"
  unfolding parse_escape_def parse_hex4_def
  by (intro bind_p_total read_p_total) (simp add: Let_def bind_p_total)

lemma shrinks_copy_string: "shrinks fst (length p) (copy_string p out i)"
proof (induction p out i rule: copy_string.induct)
  case (1 out i)
  then show ?case by simp
next
  case (2 c cs out i)
  consider (stop) "c = 34 \<or> c = 0" | (plain) "c \<noteq> 34" "c \<noteq> 0" "c \<noteq> 92" | (esc) "c = 92" by blast
  then show ?case
  proof cases
    case stop
    then show ?thesis by auto
  next
    case plain
    then have IH: "shrinks fst (Suc (length cs)) (copy_string cs out' (Suc i))" if "write_at i [c] out = Ok out'" for out'
      using shrinks_mono [OF 2(1)] that by simp
    from plain show ?thesis by (auto intro!: shrinks_bind_value IH)
  next
    case esc
    have "shrinks fst (Suc (length cs)) (copy_string (tl q) out' (i + length ws))"
      if "parse_escape cs = Ok (ws, q)" "write_at i ws out = Ok out'" for ws q out'
      using shrinks_mono [OF 2(2) [OF _ _ that(1) refl that(2)], of "Suc (length cs)"] esc
        parse_escape_shorter [OF that(1)]
      by simp
    with esc show ?thesis by (auto intro!: shrinks_bind_value)
  qed
qed

lemma shrinks_malloc: "shrinks rest k (f (Suc m)) \<Longrightarrow> shrinks rest k (cj_malloc mem m f)"
  by (simp add: cj_malloc_def)

abbreviation rest3 :: "'a \<times> byte list \<times> 'b \<Rightarrow> byte list" where
  "rest3 \<equiv> (\<lambda>x. fst (snd x))"

lemma shrinks_parse_string:
  assumes "p \<noteq> []"
  shows "shrinks rest3 (length p - 1) (parse_string mem item p m)"
proof -
  obtain c cs where p: "p = c # cs" using assms by (cases p) auto
  have copy: "shrinks rest3 (length cs) (bind_p (copy_string cs out 0) (\<lambda>(p, out, i).
       bind_p (write_at i [0] out) (\<lambda>out. bind_p (read_p p) (\<lambda>c.
       Ok (Item cJSON_String (Some (c_string out)) (valueint item) (valuedouble item) (cstring item)
                (children item), if c = 34 then tl p else p, m)))))" for out m
    by (rule shrinks_bind [OF shrinks_copy_string]) (auto intro!: shrinks_bind_value)
  show ?thesis
    unfolding parse_string_def p read_p_simps bind_p_simps
    by (simp del: replicate.simps add: Let_def) (intro impI shrinks_bind_value shrinks_malloc scan_len_total copy)
qed


lemma shrinks_split:
  assumes "\<And>a b. x = (a, b) \<Longrightarrow> shrinks rest k (f a b)"
  shows "shrinks rest k (case x of (a, b) \<Rightarrow> f a b)"
  using assms by (cases x) simp

lemma shrinks_if: "(c \<Longrightarrow> shrinks rest k a) \<Longrightarrow> (\<not> c \<Longrightarrow> shrinks rest k b) \<Longrightarrow> shrinks rest k (if c then a else b)"
  by simp

lemma shrinks_int_part:
  assumes "p = c # cs" "is_dig c"
  shows "shrinks snd (length cs) (int_part p)"
proof (cases "c = 48")
  case True
  have "shrinks snd (length cs) (bind_p (read_p cs)
      (\<lambda>c. if 49 \<le> c \<and> c \<le> 57 then num_digits (Fin 0) cs else Ok (Fin 0, cs)))"
    by (intro shrinks_bind_value shrinks_if shrinks_num_digits) auto
  with True assms show ?thesis by (simp add: int_part_def)
next
  case False
  with assms have "49 \<le> c \<and> c \<le> 57" by (auto simp: is_dig_def word_le_nat_alt word_unat_eq_iff)
  then show ?thesis using assms False shrinks_num_digits [of cs "push_digit (Fin 0) c"]
    by (simp add: int_part_def)
qed

lemma shrinks_int_part_any: "shrinks snd (length p) (int_part p)"
  unfolding int_part_def Let_def
  by (intro shrinks_bind_value shrinks_if shrinks_mono [OF shrinks_num_digits]) auto

lemma shrinks_frac_part: "shrinks (snd \<circ> snd) (length p) (frac_part n p)"
proof -
  have "bind_p (read_p (tl p)) (\<lambda>d. Ok (is_dig d)) \<noteq> OutOfFuel" by (rule bind_p_total) auto
  then show ?thesis
    unfolding frac_part_def
    by (intro shrinks_bind_value shrinks_if shrinks_mono [OF shrinks_frac_digits]) auto
qed

lemma shrinks_exp_part: "shrinks snd (length p) (exp_part p)"
proof -
  have e: "shrinks snd (length p) (bind_p (exp_digits 0 q) (\<lambda>(subscale, num). Ok (s * sint subscale, num)))"
    if "length q \<le> length p" for s :: int and q
    by (rule shrinks_bind [OF shrinks_exp_digits]) (use that in auto)
  show ?thesis
    unfolding exp_part_def Let_def if_distrib [of "case_prod _"] prod.case
    by (intro shrinks_bind_value shrinks_if e) auto
qed

lemma shrinks_parse_number:
  assumes "p = c # cs" "c = 45 \<or> is_dig c"
  shows "shrinks snd (length cs) (parse_number item p)"
proof -
  have rest: "shrinks snd (length cs)
     (bind_p (int_part q) (\<lambda>(n, num). bind_p (frac_part n num) (\<lambda>(n, scale, num).
       bind_p (exp_part num) (\<lambda>(sub, num). Ok (f n scale sub :: cJSON, num)))))"
    if "shrinks snd (length cs) (int_part q)" for q f
    by (intro shrinks_bind [OF that] shrinks_split shrinks_bind [OF shrinks_frac_part]
          shrinks_bind [OF shrinks_exp_part]) auto
  show ?thesis
  proof (cases "c = 45")
    case True
    with assms rest [OF shrinks_int_part_any] show ?thesis by (simp add: parse_number_def Let_def)
  next
    case False
    with assms rest [OF shrinks_int_part] show ?thesis by (simp add: parse_number_def Let_def)
  qed
qed

text \<open>A parser of values that stays within its fuel on inputs shorter than \<open>N\<close>.\<close>

definition consumes :: "nat \<Rightarrow> value_parser \<Rightarrow> bool" where
  "consumes N pv \<longleftrightarrow> (\<forall>p item m. p \<noteq> [] \<longrightarrow> length p < N \<longrightarrow> shrinks rest3 (length p - 1) (pv item p m))"

lemma consumes_shrinks:
  assumes "consumes N pv" "0 < length p" "length p < N" "length p - 1 \<le> k"
  shows "shrinks rest3 k (pv item p m)"
  using assms by (auto simp: consumes_def intro: shrinks_mono)

lemma skip_nonempty: "skip p = Ok q \<Longrightarrow> q \<noteq> [] \<and> length q \<le> length p"
  by (induction p) (auto simp: skip.simps split: if_splits)

text \<open>Skipping leaves at least one byte, so the value behind it is parsed within the bounds.\<close>

lemma shrinks_skip_bind:
  assumes "\<And>q. q \<noteq> [] \<Longrightarrow> length q \<le> length p \<Longrightarrow> shrinks rest k (f q)"
  shows "shrinks rest k (bind_p (skip p) f)"
  using assms skip_nonempty [of p] shrinks_skip [of p]
  by (intro shrinks_bind [OF shrinks_skip]) auto

lemma shrinks_continue:
  assumes "length p \<le> k" "\<And>q. length q < k \<Longrightarrow> shrinks rest3 k (more q)"
  shows "shrinks rest3 k (bind_p (skip p) (\<lambda>value. bind_p (read_p value) (\<lambda>b.
    if b = 44 then more (tl value) else Ok (cs, value, m))))"
  using assms by (intro shrinks_skip_bind shrinks_read shrinks_if) auto

lemma shrinks_elems:
  "consumes N pv \<Longrightarrow> length p < n \<Longrightarrow> length p < N \<Longrightarrow>
   shrinks rest3 (length p - 1) (parse_elems n pv mem cs p m)"
proof (induction n arbitrary: cs p m)
  case (Suc n)
  have more: "shrinks rest3 (length p - 1) (parse_elems n pv mem ds q k)" if "length q < length p - 1" for q ds k
    using that Suc.prems by (intro shrinks_mono [OF Suc.IH]) auto
  have val: "shrinks rest3 (length p - 1) (pv zero_item q k)" if "q \<noteq> []" "length q \<le> length p" for q k
    using that Suc.prems by (intro consumes_shrinks [of N]) auto
  show ?case
    unfolding parse_elems.simps
    by (intro shrinks_malloc shrinks_skip_bind shrinks_bind [OF val] shrinks_split shrinks_continue more) auto
qed simp

lemma shrinks_members:
  "consumes N pv \<Longrightarrow> length p < n \<Longrightarrow> length p < N \<Longrightarrow>
   shrinks rest3 (length p - 1) (parse_members n pv mem cs p m)"
proof (induction n arbitrary: cs p m)
  case (Suc n)
  have more: "shrinks rest3 (length p - 1) (parse_members n pv mem ds q k)" if "length q < length p - 1" for q ds k
    using that Suc.prems by (intro shrinks_mono [OF Suc.IH]) auto
  have val: "shrinks rest3 (length p - 1) (pv i q k)" if "q \<noteq> []" "length q \<le> length p" for i q k
    using that Suc.prems by (intro consumes_shrinks [of N]) auto
  have name: "shrinks rest3 (length p - 1) (parse_string mem zero_item q k)"
    if "q \<noteq> []" "length q \<le> length p" for q k
    using that by (intro shrinks_mono [OF shrinks_parse_string]) auto
  show ?case
    unfolding parse_members.simps
    by (intro shrinks_malloc shrinks_skip_bind shrinks_bind [OF name] shrinks_bind [OF val] shrinks_read shrinks_split
          shrinks_if shrinks_continue more) auto
qed simp

lemma shrinks_array:
  assumes "consumes n pv" "p = c # cs" "length p \<le> n"
  shows "shrinks rest3 (length cs) (parse_array n pv mem item p m)"
proof -
  have "shrinks rest3 (length cs) (parse_elems n pv mem [] q m)" if "length q \<le> length cs" for q
    using assms that by (intro shrinks_mono [OF shrinks_elems [of n]]) auto
  then show ?thesis
    unfolding parse_array_def
    by (intro shrinks_read shrinks_if shrinks_skip_bind shrinks_bind [where rest' = rest3 and k' = "length cs"]
          shrinks_split) (use assms(2) in auto)
qed

lemma shrinks_object:
  assumes "consumes n pv" "p = c # cs" "length p \<le> n"
  shows "shrinks rest3 (length cs) (parse_object n pv mem item p m)"
proof -
  have "shrinks rest3 (length cs) (parse_members n pv mem [] q m)" if "length q \<le> length cs" for q
    using assms that by (intro shrinks_mono [OF shrinks_members [of n]]) auto
  then show ?thesis
    unfolding parse_object_def
    by (intro shrinks_read shrinks_if shrinks_skip_bind shrinks_bind [where rest' = rest3 and k' = "length cs"]
          shrinks_split) (use assms(2) in auto)
qed

lemma shrinks_literal:
  assumes "shrinks rest3 (length cs) f" "k = length l" "l \<noteq> []"
  shows "shrinks rest3 (length cs) (bind_p (strncmp_eq (c # cs) l) (\<lambda>b. if b then Ok (i, drop k (c # cs), m) else f))"
  using assms by (intro shrinks_bind_value shrinks_if) (cases l; auto)+

lemma consumes_parse_value: "consumes n (parse_value n mem)"
proof (induction n)
  case 0
  then show ?case by (simp add: consumes_def)
next
  case (Suc n)
  have "shrinks rest3 (length cs) (parse_value (Suc n) mem item (c # cs) m)" if "length cs < n" for c cs item m
  proof -
    have num: "shrinks rest3 (length cs) (bind_p (parse_number item (c # cs)) (\<lambda>(i, p). Ok (i, p, m)))"
      if "c = 45 \<or> is_dig c"
      by (rule shrinks_bind [OF shrinks_parse_number [OF refl that]]) auto
    have str: "shrinks rest3 (length cs) (parse_string mem item (c # cs) m)"
      using shrinks_parse_string [of "c # cs"] by simp
    show ?thesis
      unfolding parse_value.simps
      by (intro shrinks_literal shrinks_read shrinks_if num str shrinks_array [OF Suc refl]
            shrinks_object [OF Suc refl]) (use that in \<open>auto simp: LIT_defs\<close>)
  qed
  then have "shrinks rest3 (length p - 1) (parse_value (Suc n) mem item p m)"
    if "p \<noteq> []" "length p < Suc n" for p item m
    using that by (cases p) (simp_all del: parse_value.simps)
  then show ?case by (simp add: consumes_def del: parse_value.simps)
qed

subsection \<open>Texts that are read inside their bounds\<close>

text \<open>
  A terminated text in which a backslash is followed by a character, and \<open>\u\<close> by four characters that
  are neither quotes nor backslashes.
\<close>

fun escapes_ok :: "byte list \<Rightarrow> bool" where
  "escapes_ok [] = False"
| "escapes_ok (c # cs) = (c = 0 \<or>
     (if c = 92 then cs \<noteq> [] \<and> hd cs \<noteq> 0 \<and>
        (hd cs = 117 \<longrightarrow> 4 \<le> length (tl cs) \<and> (\<forall>d \<in> set (take 4 (tl cs)). d \<notin> {0, 34, 92})) \<and> escapes_ok (tl cs)
      else escapes_ok cs))"

definition safe :: "('a \<Rightarrow> byte list) \<Rightarrow> 'a pres \<Rightarrow> bool" where
  "safe rest r \<longleftrightarrow> r \<noteq> Fault \<and> (\<forall>x. r = Ok x \<longrightarrow> escapes_ok (rest x))"

lemma safe_simps [simp]:
  "safe rest OutOfFuel" "safe rest (Fail ep)" "safe rest (Ok x) \<longleftrightarrow> escapes_ok (rest x)"
  by (auto simp: safe_def)

lemma safe_bind:
  assumes "safe rest' r" "\<And>x. escapes_ok (rest' x) \<Longrightarrow> safe rest (f x)"
  shows "safe rest (bind_p r f)"
  using assms by (cases r) (auto simp: safe_def)

lemma safe_bind_value:
  assumes "r \<noteq> Fault" "\<And>x. r = Ok x \<Longrightarrow> safe rest (f x)"
  shows "safe rest (bind_p r f)"
  using assms by (cases r) auto

lemma safe_read:
  assumes "escapes_ok p" "\<And>c cs. p = c # cs \<Longrightarrow> safe rest (f c)"
  shows "safe rest (bind_p (read_p p) f)"
  using assms by (cases p) auto

lemma safe_split: "(\<And>a b. x = (a, b) \<Longrightarrow> safe rest (f a b)) \<Longrightarrow> safe rest (case x of (a, b) \<Rightarrow> f a b)"
  by (cases x) simp

lemma safe_if: "(c \<Longrightarrow> safe rest a) \<Longrightarrow> (\<not> c \<Longrightarrow> safe rest b) \<Longrightarrow> safe rest (if c then a else b)"
  by simp

lemma safe_malloc: "safe rest (f (Suc m)) \<Longrightarrow> safe rest (cj_malloc mem m f)"
  by (simp add: cj_malloc_def)

lemma escapes_ok_plain [simp]: "c \<noteq> 0 \<Longrightarrow> c \<noteq> 92 \<Longrightarrow> escapes_ok (c # cs) \<longleftrightarrow> escapes_ok cs"
  by simp

lemma escapes_ok_end [simp]: "escapes_ok (0 # cs)"
  by simp

lemma escapes_ok_backslash:
  "escapes_ok (92 # cs) \<longleftrightarrow> cs \<noteq> [] \<and> hd cs \<noteq> 0 \<and>
     (hd cs = 117 \<longrightarrow> 4 \<le> length (tl cs) \<and> (\<forall>d \<in> set (take 4 (tl cs)). d \<notin> {0, 34, 92})) \<and> escapes_ok (tl cs)"
  by simp

declare escapes_ok.simps(2) [simp del]

lemma escapes_ok_drop:
  "escapes_ok p \<Longrightarrow> k \<le> length p \<Longrightarrow> (\<And>d. d \<in> set (take k p) \<Longrightarrow> d \<notin> {0, 92}) \<Longrightarrow> escapes_ok (drop k p)"
proof (induction k arbitrary: p)
  case (Suc k)
  then obtain c cs where p: "p = c # cs" by (cases p) auto
  have "c \<notin> {0, 92}" using Suc.prems(3) [of c] by (simp add: p)
  then have "escapes_ok cs" using Suc.prems(1) by (simp add: p)
  moreover have "d \<notin> {0, 92}" if "d \<in> set (take k cs)" for d
    using Suc.prems(3) [of d] that by (simp add: p)
  ultimately show ?case using Suc.IH [of cs] Suc.prems(2) by (simp add: p)
qed simp

lemma escapes_ok_dig [simp]: "is_dig c \<Longrightarrow> escapes_ok (c # cs) \<longleftrightarrow> escapes_ok cs"
  by (subst escapes_ok_plain) (auto simp: is_dig_def)

lemma escapes_ok_skip: "escapes_ok p \<Longrightarrow> safe id (skip p)"
proof (induction p)
  case (Cons c cs)
  have "c \<le> 32 \<Longrightarrow> c \<noteq> 92" by auto
  with Cons show ?case by (cases "c \<noteq> 0 \<and> c \<le> 32") (auto simp: skip.simps)
qed simp

lemma safe_skip: "escapes_ok p \<Longrightarrow> (\<And>q. escapes_ok q \<Longrightarrow> safe rest (f q)) \<Longrightarrow> safe rest (bind_p (skip p) f)"
  by (rule safe_bind [OF escapes_ok_skip]) auto

lemma safe_num_digits: "escapes_ok p \<Longrightarrow> safe snd (num_digits n p)"
  by (induction n p rule: num_digits.induct) auto

lemma safe_frac_digits: "escapes_ok p \<Longrightarrow> safe (snd \<circ> snd) (frac_digits n k p)"
  by (induction n k p rule: frac_digits.induct) auto

lemma safe_exp_digits: "escapes_ok p \<Longrightarrow> safe snd (exp_digits n p)"
  by (induction n p rule: exp_digits.induct) auto

lemma safe_int_part: "escapes_ok p \<Longrightarrow> safe snd (int_part p)"
  unfolding int_part_def Let_def
  by (intro safe_read safe_if safe_num_digits) (auto split: if_splits)

lemma safe_frac_part: "escapes_ok p \<Longrightarrow> safe (snd \<circ> snd) (frac_part n p)"
  by (cases p; cases "tl p") (auto simp: frac_part_def intro!: safe_frac_digits)

lemma safe_exp_part: "escapes_ok p \<Longrightarrow> safe snd (exp_part p)"
  unfolding exp_part_def Let_def if_distrib [of "case_prod _"] prod.case
  by (intro safe_read safe_if safe_bind [OF safe_exp_digits] safe_split) auto

lemma safe_parse_number: "escapes_ok p \<Longrightarrow> safe snd (parse_number item p)"
  unfolding parse_number_def Let_def if_distrib [of "case_prod _"] prod.case
  by (intro safe_read safe_if safe_bind [OF safe_int_part] safe_bind [OF safe_frac_part]
        safe_bind [OF safe_exp_part] safe_split) auto

lemma hex_steps_no_fault: "k \<le> length p \<Longrightarrow> hex_steps k h p \<noteq> Fault"
proof (induction k h p rule: hex_steps.induct)
  case (2 k h p)
  then show ?case by (cases p) (simp_all del: hex_digit.simps split: option.splits)
qed simp

lemma scan_len_ok: "escapes_ok p \<Longrightarrow> \<exists>n. scan_len p = Ok n"
proof (induction p rule: scan_len.induct)
  case (2 c cs)
  then show ?case by (cases "c = 0 \<or> c = 34") (auto simp: escapes_ok_backslash split: if_splits)
qed simp

lemma scan_len_drop:
  "k \<le> length p \<Longrightarrow> (\<And>d. d \<in> set (take k p) \<Longrightarrow> d \<notin> {0, 34, 92}) \<Longrightarrow> scan_len (drop k p) = Ok n \<Longrightarrow>
   scan_len p = Ok (k + n)"
proof (induction k arbitrary: p)
  case (Suc k)
  then obtain c cs where p: "p = c # cs" by (cases p) auto
  have "d \<notin> {0, 34, 92}" if "d \<in> set (take k cs)" for d
    using Suc.prems(2) [of d] that by (simp add: p)
  with Suc.IH [of cs] Suc.prems(1,3) have "scan_len cs = Ok (k + n)" by (simp add: p)
  moreover have "c \<notin> {0, 34, 92}" using Suc.prems(2) [of c] by (simp add: p)
  ultimately show ?case by (simp add: p)
qed simp

lemma length_utf8: "length (utf8 u) \<le> 4"
  by (simp add: utf8_def Let_def)

text \<open>What a complete escape leaves, and that it writes at most what the first pass has counted for it.\<close>

definition escape_fits :: "byte list \<Rightarrow> (byte list \<times> byte list) pres \<Rightarrow> bool" where
  "escape_fits p r \<longleftrightarrow> (\<exists>ws q n k. r = Ok (ws, q) \<and> escapes_ok (tl q) \<and> scan_len (tl p) = Ok n \<and>
     scan_len (tl q) = Ok k \<and> length ws + k \<le> n + 1)"

lemma escape_fits_here: "escapes_ok (tl p) \<Longrightarrow> length ws \<le> 1 \<Longrightarrow> escape_fits p (Ok (ws, p))"
  using scan_len_ok [of "tl p"] by (auto simp: escape_fits_def)

lemma escape_fits_hex:
  assumes "escapes_ok (92 # 117 # es)" "length ws \<le> 4"
  shows "escape_fits (117 # es) (Ok (ws, drop 4 (117 # es)))"
proof -
  have es: "4 \<le> length es" "\<And>d. d \<in> set (take 4 es) \<Longrightarrow> d \<notin> {0, 34, 92}" "escapes_ok es"
    using assms(1) by (auto simp: escapes_ok_backslash)
  then have "escapes_ok (drop 4 es)" by (intro escapes_ok_drop) auto
  then obtain k where "scan_len (drop 4 es) = Ok k" using scan_len_ok by blast
  moreover from this es have "scan_len es = Ok (4 + k)" by (intro scan_len_drop) auto
  moreover have "tl (drop 4 (117 # es)) = drop 4 es" by (simp only: tl_drop list.sel)
  ultimately show ?thesis using \<open>escapes_ok (drop 4 es)\<close> assms(2) by (simp add: escape_fits_def)
qed

lemma escape_fits_pair:
  assumes "escapes_ok (92 # 117 # es)" "drop 4 es = 92 # 117 # fs" "length ws \<le> 4"
  shows "escape_fits (117 # es) (Ok (ws, drop 6 (drop 4 (117 # es))))"
proof -
  have es: "4 \<le> length es" "\<And>d. d \<in> set (take 4 es) \<Longrightarrow> d \<notin> {0, 34, 92}" "escapes_ok es"
    using assms(1) by (auto simp: escapes_ok_backslash)
  then have ok: "escapes_ok (drop 4 es)" by (intro escapes_ok_drop) auto
  then obtain n q k where "scan_len fs = Ok n" "length ws + k \<le> n + 1" "escapes_ok (tl q)" "scan_len (tl q) = Ok k"
    "q = drop 4 (117 # fs)"
    using escape_fits_hex [of fs ws] assms(2,3) by (auto simp: escape_fits_def)
  moreover from this have "scan_len es = Ok (4 + Suc n)"
    using es assms(2) by (intro scan_len_drop) auto
  moreover have "tl (drop 6 (drop 4 (117 # es))) = tl q"
  proof -
    have "drop 6 (drop 4 (117 # es)) = drop 5 (drop 4 es)" by (simp add: drop_drop)
    with assms(2) \<open>q = drop 4 (117 # fs)\<close> show ?thesis by simp
  qed
  ultimately show ?thesis by (simp add: escape_fits_def)
qed

lemma escape_fits_bind:
  "r \<noteq> Fault \<Longrightarrow> r \<noteq> OutOfFuel \<Longrightarrow> (\<And>ep. r \<noteq> Fail ep) \<Longrightarrow> (\<And>x. r = Ok x \<Longrightarrow> escape_fits p (f x)) \<Longrightarrow>
   escape_fits p (bind_p r f)"
  by (cases r) auto

lemma hex_steps_not_fail: "hex_steps k h p \<noteq> Fail ep"
proof (induction k h p rule: hex_steps.induct)
  case (2 k h p)
  then show ?case by (cases p) (simp_all del: hex_digit.simps split: option.splits)
qed simp

lemma read_p_ok: "escapes_ok p \<Longrightarrow> read_p p = Ok (hd p)"
  by (cases p) auto

lemma parse_escape_fits:
  assumes "escapes_ok (92 # p)"
  shows "escape_fits p (parse_escape p)"
proof -
  obtain c es where p: "p = c # es" "c \<noteq> 0" "escapes_ok es" using assms by (cases p) (auto simp: escapes_ok_backslash)
  show ?thesis
  proof (cases "c = 117")
    case False
    with p show ?thesis by (simp add: parse_escape_def escape_fits_here)
  next
    case True
    note ok = assms [unfolded p True]
    from ok have es: "4 \<le> length es" "\<And>d. d \<in> set (take 4 es) \<Longrightarrow> d \<notin> {0, 34, 92}"
      by (auto simp: escapes_ok_backslash)
    then have ok4: "escapes_ok (drop 4 es)" using p by (intro escapes_ok_drop) auto
    have hex: "escape_fits (117 # es) (bind_p (parse_hex4 q) f)"
      if "4 \<le> length q" "\<And>u. escape_fits (117 # es) (f u)" for q f
      using that hex_steps_no_fault [of 4 q 0] unfolding parse_hex4_def
      by (intro escape_fits_bind) (auto simp: hex_steps_not_fail)
    have low: "escape_fits (117 # es) (Ok ([], drop 4 (117 # es)))" by (rule escape_fits_hex [OF ok]) simp
    have tl4: "tl (drop 4 (117 # es)) = drop 4 es" by (simp only: tl_drop list.sel)
    have pair: "escape_fits (117 # es) (bind_p (read_p (tl (drop 4 (117 # es)))) (\<lambda>c1.
         if c1 \<noteq> 92 then Ok ([], drop 4 (117 # es))
         else bind_p (read_p (drop 2 (drop 4 (117 # es)))) (\<lambda>c2.
         if c2 \<noteq> 117 then Ok ([], drop 4 (117 # es))
         else bind_p (parse_hex4 (drop 3 (drop 4 (117 # es)))) (\<lambda>uc2.
         if uc2 < 0xDC00 \<or> uc2 > 0xDFFF then Ok ([], drop 6 (drop 4 (117 # es)))
         else Ok (utf8 (f uc2), drop 6 (drop 4 (117 # es)))))))" for f
    proof (cases "hd (drop 4 es) = 92")
      case False
      with low show ?thesis unfolding tl4 read_p_ok [OF ok4] bind_p_simps by simp
    next
      case True
      then obtain e fs where d4: "drop 4 es = 92 # e # fs"
        using ok4 by (cases "drop 4 es"; cases "tl (drop 4 es)") (auto simp: escapes_ok_backslash)
      have d2: "drop 2 (drop 4 (117 # es)) = e # fs" "drop 3 (drop 4 (117 # es)) = fs"
        using d4 tl4 by (simp_all add: drop_Suc tl_drop numeral_eq_Suc)
      show ?thesis
      proof (cases "e = 117")
        case False
        with low show ?thesis unfolding tl4 d4 d2 read_p_simps bind_p_simps by simp
      next
        case True
        have "4 \<le> length fs" using ok4 d4 True by (auto simp: escapes_ok_backslash)
        moreover have "escape_fits (117 # es) (Ok (ws, drop 6 (drop 4 (117 # es))))" if "length ws \<le> 4" for ws
          using escape_fits_pair [OF ok] d4 True that by simp
        ultimately show ?thesis
          unfolding tl4 d2 d4 True by (simp add: hex length_utf8 del: drop_Suc_Cons drop_Cons_numeral)
      qed
    qed
    show ?thesis
      unfolding p True parse_escape_def Let_def
      using low pair escape_fits_hex [OF ok length_utf8] hex [OF es(1)] by simp
  qed
qed

lemma copy_string_fits:
  "escapes_ok p \<Longrightarrow> scan_len p = Ok n \<Longrightarrow> i + n < length out \<Longrightarrow>
   \<exists>q out' j. copy_string p out i = Ok (q, out', j) \<and> escapes_ok q \<and> j < length out'"
proof (induction p out i arbitrary: n rule: copy_string.induct)
  case (2 c cs out i)
  consider (stop) "c = 34 \<or> c = 0" | (plain) "c \<noteq> 34" "c \<noteq> 0" "c \<noteq> 92" | (esc) "c = 92" by blast
  then show ?case
  proof cases
    case stop
    with 2 show ?thesis by auto
  next
    case plain
    with "2.prems" obtain n' where n: "n = Suc n'" "scan_len cs = Ok n'" "escapes_ok cs"
      by (cases "scan_len cs") auto
    let ?out = "take i out @ [c] @ drop (i + length [c]) out"
    have w: "write_at i [c] out = Ok ?out" "i + 1 \<le> length out"
      using "2.prems" n by (auto simp: write_at_def)
    have "\<exists>q out' j. copy_string cs ?out (Suc i) = Ok (q, out', j) \<and> escapes_ok q \<and> j < length out'"
      using "2.prems" plain n w by (intro "2.IH"(1)) auto
    with plain w show ?thesis by simp
  next
    case esc
    with "2.prems" obtain ws q n' k where e: "parse_escape cs = Ok (ws, q)" "escapes_ok (tl q)"
      "scan_len (tl cs) = Ok n'" "scan_len (tl q) = Ok k" "length ws + k \<le> n' + 1"
      using parse_escape_fits [of cs] by (auto simp: escape_fits_def)
    with "2.prems" esc have n: "n = Suc n'" by simp
    let ?out = "take i out @ ws @ drop (i + length ws) out"
    have w: "write_at i ws out = Ok ?out" "i + length ws \<le> length out"
      using "2.prems" e n by (auto simp: write_at_def)
    have "\<exists>q' out' j. copy_string (tl q) ?out (i + length ws) = Ok (q', out', j) \<and> escapes_ok q' \<and> j < length out'"
      using "2.prems" esc e n w by (intro "2.IH"(2)) auto
    with esc e w show ?thesis by simp
  qed
qed simp

lemma copy_string_stops: "copy_string p out i = Ok (q, out', j) \<Longrightarrow> hd q = 34 \<or> hd q = 0"
proof (induction p out i rule: copy_string.induct)
  case (2 c cs out i)
  then show ?case by (auto simp: bind_p_def split: if_splits pres.splits prod.splits)
qed simp

lemma escapes_ok_step: "escapes_ok p \<Longrightarrow> hd p \<noteq> 0 \<Longrightarrow> hd p \<noteq> 92 \<Longrightarrow> escapes_ok (tl p)"
  by (cases p) auto

lemma safe_parse_string:
  assumes "escapes_ok p"
  shows "safe rest3 (parse_string mem item p m)"
proof (cases "hd p = 34")
  case False
  with assms show ?thesis by (cases p) (auto simp: parse_string_def)
next
  case True
  with assms have tl: "escapes_ok (tl p)" by (cases p) auto
  obtain n where n: "scan_len (tl p) = Ok n" using scan_len_ok [OF tl] by blast
  obtain q out j where c: "copy_string (tl p) (replicate (n + 1) 0) 0 = Ok (q, out, j)" "escapes_ok q" "j < length out"
    using copy_string_fits [OF tl n, of 0 "replicate (n + 1) 0"] by auto
  from c have w: "write_at j [0] out = Ok (take j out @ [0] @ drop (j + 1) out)" by (simp add: write_at_def)
  from c True n w assms show ?thesis
    by (cases p; cases q) (auto simp: parse_string_def cj_malloc_def)
qed

definition reads_safely :: "value_parser \<Rightarrow> bool" where
  "reads_safely pv \<longleftrightarrow> (\<forall>p item m. escapes_ok p \<longrightarrow> safe rest3 (pv item p m))"

lemma reads_safely_value: "reads_safely pv \<Longrightarrow> escapes_ok p \<Longrightarrow> safe rest3 (pv item p m)"
  by (simp add: reads_safely_def)

lemma safe_continue:
  assumes "escapes_ok p" "\<And>q. escapes_ok q \<Longrightarrow> safe rest3 (more q)"
  shows "safe rest3 (bind_p (skip p) (\<lambda>value. bind_p (read_p value) (\<lambda>b.
    if b = 44 then more (tl value) else Ok (cs, value, m))))"
  using assms by (intro safe_skip safe_read safe_if) (auto intro: escapes_ok_step)

lemma safe_elems: "reads_safely pv \<Longrightarrow> escapes_ok p \<Longrightarrow> safe rest3 (parse_elems n pv mem cs p m)"
proof (induction n arbitrary: cs p m)
  case (Suc n)
  show ?case
    unfolding parse_elems.simps
    by (intro safe_malloc safe_skip safe_bind [OF reads_safely_value] safe_split safe_continue Suc.IH)
      (use Suc.prems in auto)
qed simp

lemma safe_members: "reads_safely pv \<Longrightarrow> escapes_ok p \<Longrightarrow> safe rest3 (parse_members n pv mem cs p m)"
proof (induction n arbitrary: cs p m)
  case (Suc n)
  show ?case
    unfolding parse_members.simps
    by (intro safe_malloc safe_skip safe_bind [OF reads_safely_value] safe_bind [OF safe_parse_string] safe_read
          safe_split safe_if safe_continue Suc.IH) (use Suc.prems in auto)
qed simp

lemma safe_array: "reads_safely pv \<Longrightarrow> escapes_ok p \<Longrightarrow> safe rest3 (parse_array n pv mem item p m)"
  unfolding parse_array_def
  by (intro safe_read safe_if safe_skip safe_bind [OF safe_elems] safe_split) auto

lemma safe_object: "reads_safely pv \<Longrightarrow> escapes_ok p \<Longrightarrow> safe rest3 (parse_object n pv mem item p m)"
  unfolding parse_object_def
  by (intro safe_read safe_if safe_skip safe_bind [OF safe_members] safe_split) auto

lemma strncmp_no_fault: "escapes_ok p \<Longrightarrow> 0 \<notin> set l \<Longrightarrow> 92 \<notin> set l \<Longrightarrow> strncmp_eq p l \<noteq> Fault"
  by (induction p l rule: strncmp_eq.induct) auto

lemma strncmp_rest:
  "escapes_ok p \<Longrightarrow> 0 \<notin> set l \<Longrightarrow> 92 \<notin> set l \<Longrightarrow> strncmp_eq p l = Ok True \<Longrightarrow> escapes_ok (drop (length l) p)"
  by (induction p l rule: strncmp_eq.induct) (auto split: if_splits)

lemma safe_literal:
  assumes "escapes_ok p" "safe rest3 f" "k = length l" "0 \<notin> set l" "92 \<notin> set l"
  shows "safe rest3 (bind_p (strncmp_eq p l) (\<lambda>b. if b then Ok (i, drop k p, m) else f))"
  using assms by (intro safe_bind_value safe_if) (auto simp: strncmp_no_fault strncmp_rest)

lemma reads_safely_parse_value: "reads_safely (parse_value n mem)"
proof (induction n)
  case (Suc n)
  have num: "safe rest3 (bind_p (parse_number item p) (\<lambda>(i, p). Ok (i, p, m)))" if "escapes_ok p" for item p and m :: nat
    by (rule safe_bind [OF safe_parse_number [OF that]]) auto
  have "safe rest3 (parse_value (Suc n) mem item p m)" if "escapes_ok p" for item p m
    unfolding parse_value.simps
    by (intro safe_literal safe_read safe_if num safe_parse_string safe_array [OF Suc] safe_object [OF Suc])
      (use that in \<open>auto simp: LIT_defs\<close>)
  then show ?case by (simp add: reads_safely_def del: parse_value.simps)
qed (simp add: reads_safely_def)

subsection \<open>The properties of the parser\<close>

lemma ParseWithOpts_shrinks: "shrinks snd (length input - 1) (cJSON_ParseWithOpts mem input strict)"
proof -
  have val: "shrinks rest3 (length input - 1) (parse_value (length input + 1) mem zero_item q m)"
    if "q \<noteq> []" "length q \<le> length input" for q m
    using that by (intro consumes_shrinks [OF consumes_parse_value]) auto
  show ?thesis
    unfolding cJSON_ParseWithOpts_def
    by (intro shrinks_malloc shrinks_skip_bind shrinks_bind [OF val] shrinks_split shrinks_if shrinks_read) auto
qed

lemma Parse_ends: "cJSON_Parse mem input \<noteq> OutOfFuel"
  using ParseWithOpts_shrinks [of input mem False]
  by (auto simp: shrinks_def cJSON_Parse_def bind_p_def split: pres.splits)

text \<open>C32: Parsing always ends: the recursion over the input never exceeds the length of the input (the
  fuel that \<open>cJSON_ParseWithOpts\<close> passes is never used up), whatever the input and whichever
  allocations fail; and what is left behind the value is a proper suffix length of the input.\<close>

theorem cjson_parse_terminates:
  "(case cJSON_ParseWithOpts mem input strict of OutOfFuel \<Rightarrow> False | Ok (c, rest) \<Rightarrow> length rest < length input
    | _ \<Rightarrow> True) \<and> cJSON_Parse mem input \<noteq> OutOfFuel"
proof -
  have "cJSON_ParseWithOpts mem [] strict' \<noteq> Ok x" for strict' x
    by (auto simp: cJSON_ParseWithOpts_def cj_malloc_def skip.simps)
  then show ?thesis
    using ParseWithOpts_shrinks [of input mem strict] Parse_ends [of mem input]
    by (cases input) (auto simp: shrinks_def less_Suc_eq_le split: pres.splits)
qed


lemma hex_digit_quote: "hex_digit 34 = None"
  by simp

lemma copy_plain:
  "\<forall>c \<in> set xs. c \<notin> {0, 34, 92} \<Longrightarrow> length out < i + length xs \<Longrightarrow> i \<le> length out \<Longrightarrow>
   copy_string (xs @ rest) out i = Fault"
proof (induction xs arbitrary: i out)
  case (Cons x xs)
  show ?case
  proof (cases "i < length out")
    case True
    with Cons show ?thesis by (simp add: write_at_def)
  next
    case False
    with Cons show ?thesis by (simp add: write_at_def)
  qed
qed simp

text \<open>The space for a string is reckoned by a pass that ends at the first unescaped quote, but \<open>\u\<close>
  is then skipped with the four bytes behind it whether they are digits or not. A string whose
  \<open>\u\<close> is followed by fewer than four characters therefore makes the parser run past the closing
  quote and write what it finds there behind the end of the block.\<close>

theorem cjson_short_escape_overflows:
  assumes "mem 0" "mem 1" "{a, b} \<inter> {0, 34, 92} = {}" "set xs \<inter> {0, 34, 92} = {}" "6 \<le> length xs"
  shows "cJSON_Parse mem ([34, 92, 117, a, b, 34] @ xs @ rest) = Fault"
proof -
  have scan: "scan_len (92 # 117 # a # b # 34 # xs @ rest) = Ok 3"
    using assms(3) by simp
  obtain x ys where xs: "xs = x # ys" "5 \<le> length ys" using assms(5) by (cases xs) auto
  have "hex_steps 4 0 (a # b # 34 # xs @ rest) = Ok 0"
    by (simp add: eval_nat_numeral hex_digit_quote del: hex_digit.simps split: option.splits)
  then have "parse_escape (117 # a # b # 34 # xs @ rest) = Ok ([], xs @ rest)"
    by (simp add: parse_escape_def parse_hex4_def Let_def)
  moreover have "copy_string (ys @ rest) (replicate 4 0) 0 = Fault"
    using assms(4) xs by (intro copy_plain) auto
  ultimately have "copy_string (92 # 117 # a # b # 34 # xs @ rest) (replicate (3 + 1) 0) 0 = Fault"
    by (simp add: xs write_at_def)
  with assms(1,2) scan show ?thesis
    by (simp add: cJSON_Parse_def cJSON_ParseWithOpts_def cj_malloc_def skip.simps LIT_defs parse_string_def
        del: copy_string.simps replicate.simps)
qed

theorem cjson_short_escape_overflows_witness:
  "cJSON_Parse (\<lambda>_. True) ([34, 92, 117, 49, 50, 34] @ replicate 6 65 @ [34, 0]) = Fault"
  by (rule cjson_short_escape_overflows) simp_all


end
