(* ===== verification/NpCommon.thy ===== *)
theory NpCommon
  imports Outcome CjsonBuild CjsonSafe CjsonTrip UdpWorld Libevent
begin

text \<open>
  What the NAT probing client and server of \<open>NatProbe\<close> share: \<open>nat_probe.h\<close>, \<open>nat_probe.c\<close>, the
  loops around \<open>sendto\<close> and \<open>recvfrom\<close>, and the JSON texts of the messages. The operating system is
  a record of functions on a world of type \<open>'w\<close>. A loop that may run forever is a partial function;
  a run is \<open>None\<close> when it does not end, otherwise a crash or a result.
\<close>

subsection \<open>The operating system\<close>

datatype send_result = Sent int | SendError errno

record 'w os =
  os_socket :: "'w \<Rightarrow> int \<times> 'w"
  os_setsockopt :: "int \<Rightarrow> 'w \<Rightarrow> int \<times> 'w"
  os_bind :: "int \<Rightarrow> sockaddr_in \<Rightarrow> 'w \<Rightarrow> int \<times> 'w"
  os_close :: "int \<Rightarrow> 'w \<Rightarrow> 'w"
  os_sendto :: "int \<Rightarrow> byte list \<Rightarrow> sockaddr_in \<Rightarrow> 'w \<Rightarrow> send_result \<times> 'w"
  os_recvfrom :: "int \<Rightarrow> 'w \<Rightarrow> recv_result \<times> 'w"
  os_malloc :: "nat \<Rightarrow> 'w \<Rightarrow> byte list option \<times> 'w"
  os_mem :: "'w \<Rightarrow> nat \<Rightarrow> bool"
  os_getaddrinfo :: "'w \<Rightarrow> u32 list option \<times> 'w"
  os_sleep :: "nat \<Rightarrow> 'w \<Rightarrow> 'w"

text \<open>
  \<open>os_malloc\<close> gives a block with its (arbitrary) contents. \<open>os_mem\<close> says which allocations inside
  the next cJSON calls succeed.
\<close>

text \<open>An operating system whose calls succeed, with one datagram waiting.\<close>

definition one_datagram_os :: "byte list \<Rightarrow> nat os" where
  "one_datagram_os data = \<lparr>os_socket = (\<lambda>w. (int w + 3, Suc w)), os_setsockopt = (\<lambda>_ w. (0, w)), os_bind = (\<lambda>_ _ w. (0, w)),
     os_close = (\<lambda>_ w. w), os_sendto = (\<lambda>_ msg _ w. (Sent (int (length msg)), w)),
     os_recvfrom = (\<lambda>_ w. (Received data \<lparr>sin_addr = 1, sin_port = 2\<rparr>, w)),
     os_malloc = (\<lambda>n w. (Some (replicate n 255), w)), os_mem = (\<lambda>_ _. True), os_getaddrinfo = (\<lambda>w. (Some [10, 20], w)),
     os_sleep = (\<lambda>_ w. w)\<rparr>"

subsection \<open>Constants and \<open>np_get_server_ip\<close>\<close>

definition NP_SERVER_PORT :: u16 where "NP_SERVER_PORT = 61620"
definition NP_PUBLIC_IP_NUM :: nat where "NP_PUBLIC_IP_NUM = 2"
definition NP_MAX_PUBLIC_IP_NUM :: nat where "NP_MAX_PUBLIC_IP_NUM = 10"

lemmas np_const_defs = NP_SERVER_PORT_def NP_PUBLIC_IP_NUM_def NP_MAX_PUBLIC_IP_NUM_def

record np_request_msg_t =
  rq_msgid :: i32
  rq_network_type :: i32

record np_response_msg_t =
  rs_msgid :: i32
  rs_ip_addr :: u32
  rs_port :: u16

text \<open>The loop that copies the resolved addresses, with \<open>count\<close> of them copied.\<close>

fun copy_addrs :: "nat \<Rightarrow> nat \<Rightarrow> u32 list \<Rightarrow> u32 list" where
  "copy_addrs ip_num count [] = []"
| "copy_addrs ip_num count (a # as) = a # (if Suc count = ip_num then [] else copy_addrs ip_num (Suc count) as)"

lemma copy_addrs_take: "count < ip_num \<Longrightarrow> copy_addrs ip_num count as = take (ip_num - count) as"
proof (induction as arbitrary: count)
  case (Cons a as)
  then obtain n where "ip_num = count + Suc n" using less_imp_Suc_add by fastforce
  with Cons show ?case by (cases n) auto
qed simp

text \<open>
  The result, the addresses written to the front of \<open>pip_addr\<close> and the number stored in
  \<open>*pret_ip_num\<close>, if any.
\<close>

definition np_get_server_ip :: "u32 list option \<Rightarrow> nat \<Rightarrow> int \<times> u32 list \<times> nat option" where
  "np_get_server_ip answer ip_num = (case answer of None \<Rightarrow> (- 1, [], None)
     | Some as \<Rightarrow> (let got = copy_addrs ip_num 0 as in
         if length got < NP_PUBLIC_IP_NUM then (- 1, got, None) else (0, got, Some (length got))))"

subsection \<open>Sending and receiving\<close>

text \<open>The loops around \<open>sendto\<close>: 0 if the whole text was sent.\<close>

partial_function (option) send_loop ::
  "'w os \<Rightarrow> int \<Rightarrow> byte list \<Rightarrow> sockaddr_in \<Rightarrow> 'w \<Rightarrow> (int \<times> 'w) outcome option" where
  "send_loop os sock msg dst w = (let (r, w) = os_sendto os sock msg dst w in
     case r of SendError e \<Rightarrow> if e = EINTR then send_loop os sock msg dst w else return_o (- 1, w)
     | Sent n \<Rightarrow> return_o (if n \<noteq> int (length msg) then - 1 else 0, w))"

text \<open>The loops around \<open>recvfrom\<close> with a buffer of 128 bytes: what was stored and the sender.\<close>

partial_function (option) recv_loop ::
  "'w os \<Rightarrow> int \<Rightarrow> 'w \<Rightarrow> ((byte list \<times> sockaddr_in) option \<times> 'w) outcome option" where
  "recv_loop os sock w = (let (r, w) = os_recvfrom os sock w in
     case r of RecvError e \<Rightarrow> if e = EINTR then recv_loop os sock w else return_o (None, w)
     | Received data from \<Rightarrow> return_o (Some (take 128 data, from), w))"

text \<open>\<open>malloc(128)\<close>, the loop, and the block with the received bytes at its front; \<open>None\<close> goes to \<open>ERR\<close>.\<close>

definition recv_block :: "'w os \<Rightarrow> int \<Rightarrow> 'w \<Rightarrow> ((byte list \<times> sockaddr_in) option \<times> 'w) outcome option" where
  "recv_block os sock w = (let (b, w) = os_malloc os 128 w in
     case b of None \<Rightarrow> return_o (None, w)
     | Some block \<Rightarrow> bind_o (recv_loop os sock w) (\<lambda>(r, w). return_o
         (case r of None \<Rightarrow> None | Some (data, from) \<Rightarrow> Some (data @ drop (length data) block, from), w)))"

text \<open>Parsing the block; when that or the lookup of a member fails, the block is logged with \<open>%s\<close>.\<close>

definition log_block :: "byte list \<Rightarrow> 'w \<Rightarrow> (int \<times> 'w) outcome option" where
  "log_block block w = (if 0 \<in> set block then return_o (- 1, w) else Some Crash)"

definition parse_block :: "(nat \<Rightarrow> bool) \<Rightarrow> byte list \<Rightarrow> cJSON option outcome option" where
  "parse_block mem block = (case cJSON_Parse mem block of
       Fault \<Rightarrow> Some Crash | OutOfFuel \<Rightarrow> None | Fail _ \<Rightarrow> return_o None | Ok ob \<Rightarrow> return_o (Some ob))"

subsection \<open>The messages as JSON\<close>

definition KEY_msgid :: "byte list" where "KEY_msgid = [109, 115, 103, 105, 100]"
definition KEY_network_type :: "byte list" where
  "KEY_network_type = [110, 101, 116, 119, 111, 114, 107, 95, 116, 121, 112, 101]"
definition KEY_ip :: "byte list" where "KEY_ip = [105, 112]"
definition KEY_port :: "byte list" where "KEY_port = [112, 111, 114, 116]"

lemmas KEY_defs = KEY_msgid_def KEY_network_type_def KEY_ip_def KEY_port_def

definition int_double :: "int \<Rightarrow> double" where
  "int_double i = Fin (of_int i)"

text \<open>\<open>cJSON_Print\<close> of the ob; \<open>NULL\<close> is passed on to \<open>strlen\<close>, so it is a crash like a fault.\<close>

definition print_root :: "(nat \<Rightarrow> bool) \<Rightarrow> cJSON option \<times> nat \<Rightarrow> byte list option" where
  "print_root mem = (\<lambda>(ob, m). case ob of None \<Rightarrow> None
     | Some t \<Rightarrow> (case print_value mem True 0 t m of Some (Some txt, _) \<Rightarrow> Some txt | _ \<Rightarrow> None))"

text \<open>What the client builds; the ob is not tested for \<open>NULL\<close>.\<close>

definition request_json :: "(nat \<Rightarrow> bool) \<Rightarrow> np_request_msg_t \<Rightarrow> byte list option" where
  "request_json mem rq = do {
     (ob, m) \<leftarrow> Some (cJSON_CreateObject mem 0);
     (ob, m) \<leftarrow> cJSON_AddNumberToObject mem ob KEY_msgid (int_double (sint (rq_msgid rq))) m;
     (ob, m) \<leftarrow> cJSON_AddNumberToObject mem ob KEY_network_type (int_double (sint (rq_network_type rq))) m;
     print_root mem (ob, m) }"

text \<open>What the server builds; the address is written with \<open>%u\<close> and fits its 32 bytes.\<close>

definition response_json :: "(nat \<Rightarrow> bool) \<Rightarrow> np_response_msg_t \<Rightarrow> byte list option" where
  "response_json mem rs = do {
     (ob, m) \<leftarrow> Some (cJSON_CreateObject mem 0);
     (ob, m) \<leftarrow> cJSON_AddNumberToObject mem ob KEY_msgid (int_double (sint (rs_msgid rs))) m;
     (ob, m) \<leftarrow> cJSON_AddStringToObject mem ob KEY_ip (take 31 (dec_nat (unat (rs_ip_addr rs)))) m;
     (ob, m) \<leftarrow> cJSON_AddNumberToObject mem ob KEY_port (int_double (uint (rs_port rs))) m;
     print_root mem (ob, m) }"

text \<open>\<open>strtoul(s, NULL, 10)\<close> on a terminated string: blanks, a sign, digits; it saturates.\<close>

fun strtoul_digits :: "nat \<Rightarrow> byte list \<Rightarrow> nat" where
  "strtoul_digits acc (c # cs) = (if is_dig c then strtoul_digits (acc * 10 + (unat c - 48)) cs else acc)"
| "strtoul_digits acc [] = acc"

definition strtoul :: "byte list \<Rightarrow> u64" where
  "strtoul s = (let s = dropWhile (\<lambda>c. c = 32 \<or> 9 \<le> c \<and> c \<le> 13) s;
       (neg, s) = (case s of c # cs \<Rightarrow> if c = 45 then (True, cs) else if c = 43 then (False, cs) else (False, s)
                   | [] \<Rightarrow> (False, s));
       v = strtoul_digits 0 s
     in if v \<ge> 2 ^ 64 then - 1 else if neg then - of_nat v else of_nat v)"

subsection \<open>The texts are read back\<close>

definition number_item :: "byte list \<Rightarrow> int \<Rightarrow> cJSON" where
  "number_item nm i = Item cJSON_Number None i (Fin (of_int i)) (Some nm) []"

definition request_item :: "np_request_msg_t \<Rightarrow> cJSON list" where
  "request_item rq = [number_item KEY_msgid (sint (rq_msgid rq)), number_item KEY_network_type (sint (rq_network_type rq))]"

definition response_item :: "np_response_msg_t \<Rightarrow> cJSON list" where
  "response_item rs = [number_item KEY_msgid (sint (rs_msgid rs)),
     Item cJSON_String (Some (dec_nat (unat (rs_ip_addr rs)))) 0 (Fin 0) (Some KEY_ip) [],
     number_item KEY_port (uint (rs_port rs))]"

abbreviation object_of :: "cJSON list \<Rightarrow> cJSON" where
  "object_of cs \<equiv> Item cJSON_Object None 0 (Fin 0) None cs"

lemma sint_range: "INT_MIN \<le> sint (w :: i32)" "sint (w :: i32) \<le> INT_MAX"
  using sint_greater_eq [of w] sint_less [of w] by (simp_all add: INT_MIN_def INT_MAX_def)

lemma uint_range: "INT_MIN \<le> uint (w :: u16)" "uint (w :: u16) \<le> INT_MAX"
proof -
  have "INT_MIN \<le> 0" by (simp add: INT_MIN_def)
  then show "INT_MIN \<le> uint w" using uint_ge_0 [of w] by (rule order_trans)
  show "uint w \<le> INT_MAX" using uint_lt2p [of w] by (simp add: INT_MAX_def)
qed

lemma CreateNumber_int [simp]:
  "INT_MIN \<le> i \<Longrightarrow> i \<le> INT_MAX \<Longrightarrow>
   cJSON_CreateNumber all_mem (int_double i) m = (Some (Item cJSON_Number None i (Fin (of_int i)) None []), Suc m)"
  by (simp add: cJSON_CreateNumber_def cJSON_New_Item_def int_double_def double_to_int_of_int)

lemma AddNumber_int [simp]:
  assumes "INT_MIN \<le> i" "i \<le> INT_MAX"
  shows "cJSON_AddNumberToObject all_mem (Some (object_of cs)) nm (int_double i) m =
    Some (Some (object_of (cs @ [number_item nm i])), Suc (Suc m))"
  using assms
  by (simp add: cJSON_AddNumberToObject_def cJSON_AddItemToObject_def cJSON_AddItemToArray_def number_item_def
      set_children_def set_name_def)

lemma AddString [simp]:
  "cJSON_AddStringToObject all_mem (Some (object_of cs)) nm s m =
    Some (Some (object_of (cs @ [Item cJSON_String (Some s) 0 (Fin 0) (Some nm) []])), m + 3)"
  by (simp add: cJSON_AddStringToObject_def cJSON_CreateString_def cJSON_New_Item_def zero_item_def
      cJSON_AddItemToObject_def cJSON_AddItemToArray_def set_children_def set_name_def)

lemma CreateObject [simp]: "cJSON_CreateObject all_mem m = (Some (object_of []), Suc m)"
  by (simp add: cJSON_CreateObject_def create_def cJSON_New_Item_def zero_item_def set_type_def)

lemma is_dig_no_zero: "is_dig c \<Longrightarrow> c \<noteq> 0"
  by (auto simp: is_dig_def)

lemma dec_nat_no_zero: "0 \<notin> set (dec_nat n)"
  using dec_nat_digits is_dig_no_zero by blast

text \<open>The members are printable and named.\<close>

definition good_members :: "cJSON list \<Rightarrow> bool" where
  "good_members cs \<longleftrightarrow> (\<forall>c \<in> set cs. canon c \<and> (\<exists>s. cstring c = Some s \<and> 0 \<notin> set s))"

lemma good_members_Cons [simp]:
  "good_members (number_item nm i # cs) \<longleftrightarrow> canon (number_item nm i) \<and> 0 \<notin> set nm \<and> good_members cs"
  "good_members (Item cJSON_String (Some s) 0 (Fin 0) (Some nm) [] # cs) \<longleftrightarrow>
     canon (Item cJSON_String (Some s) 0 (Fin 0) (Some nm) []) \<and> 0 \<notin> set nm \<and> good_members cs"
  "good_members []"
  by (auto simp: good_members_def number_item_def)

lemma canon_number_item: "INT_MIN \<le> i \<Longrightarrow> i \<le> INT_MAX \<Longrightarrow> canon (number_item nm i)"
  unfolding number_item_def by (rule canon_number)

lemma KEY_no_zero: "0 \<notin> set KEY_msgid" "0 \<notin> set KEY_network_type" "0 \<notin> set KEY_ip" "0 \<notin> set KEY_port"
  by (auto simp: KEY_defs)

lemma good_request: "good_members (request_item rq)"
  unfolding request_item_def good_members_Cons by (intro conjI canon_number_item sint_range KEY_no_zero good_members_Cons(3))

lemma good_response: "good_members (response_item rs)"
  unfolding response_item_def good_members_Cons
  by (intro conjI canon_number_item sint_range uint_range KEY_no_zero canon_string dec_nat_no_zero good_members_Cons(3))

lemma print_root_eq:
  assumes "good_members cs"
  shows "print_root all_mem (Some (object_of cs), m) = Some (render True 0 (object_of cs))"
proof -
  have "canon (object_of cs)" using assms by (intro canon_object) (auto simp: good_members_def)
  from print_yields [OF this, of all_mem True 0 m] show ?thesis
    by (auto simp: print_root_def yields_def simp del: render.simps print_value.simps)
qed

lemma request_json_eq: "request_json all_mem rq = Some (render True 0 (object_of (request_item rq)))"
  using print_root_eq [OF good_request, of rq]
  by (simp add: request_json_def request_item_def sint_range del: render.simps)

lemma length_ip: "length (dec_nat (unat (w :: u32))) \<le> 10"
  using length_dec_nat [of "unat w" 9] unat_less_power [OF refl, of w] by simp

lemma response_json_eq: "response_json all_mem rs = Some (render True 0 (object_of (response_item rs)))"
proof -
  have "take 31 (dec_nat (unat (rs_ip_addr rs))) = dec_nat (unat (rs_ip_addr rs))"
    using length_ip [of "rs_ip_addr rs"] by simp
  then show ?thesis
    using print_root_eq [OF good_response, of rs]
    by (simp add: response_json_def response_item_def sint_range uint_range del: render.simps)
qed

lemma parse_request: "cJSON_Parse all_mem (render True 0 (object_of (request_item rq)) @ junk) = Ok (object_of (request_item rq))"
  by (rule parse_printed_object) (use good_request [of rq] in \<open>auto simp: good_members_def request_item_def\<close>)

lemma parse_response:
  "cJSON_Parse all_mem (render True 0 (object_of (response_item rs)) @ junk) = Ok (object_of (response_item rs))"
  by (rule parse_printed_object) (use good_response [of rs] in \<open>auto simp: good_members_def response_item_def\<close>)

lemma length_request: "length (render True 0 (object_of (request_item rq))) \<le> 128"
  using length_dec_int [OF sint_range, of "rq_msgid rq"] length_dec_int [OF sint_range, of "rq_network_type rq"]
  by (simp add: cj_type_defs request_item_def number_item_def KEY_defs quote_def escape_def tabs_def)

lemma is_dig_no_escape: "is_dig c \<Longrightarrow> \<not> needs_escape c"
  by (auto simp: needs_escape_def is_dig_def word_le_nat_alt word_less_nat_alt)

lemma length_response: "length (render True 0 (object_of (response_item rs))) \<le> 128"
proof -
  have "\<not> list_ex needs_escape (dec_nat n)" for n
    using dec_nat_digits is_dig_no_escape by (auto simp: list_ex_iff)
  then have "length (quote (dec_nat (unat (rs_ip_addr rs)))) \<le> 12"
    using escapes_plain [OF _ dec_nat_no_zero] length_ip [of "rs_ip_addr rs"] by (simp add: quote_def)
  moreover have "length (quote KEY_msgid) = 7" "length (quote KEY_ip) = 4" "length (quote KEY_port) = 6"
    by (simp_all add: quote_def KEY_defs escape_def)
  ultimately show ?thesis
    using length_dec_int [OF sint_range, of "rs_msgid rs"] length_dec_int [OF uint_range, of "rs_port rs"]
    by (simp add: cj_type_defs response_item_def number_item_def tabs_def)
qed

lemma strtoul_digits_value:
  "(\<And>c. c \<in> set ds \<Longrightarrow> is_dig c) \<Longrightarrow> int (strtoul_digits a ds) = value_of (int a) ds"
proof (induction ds arbitrary: a)
  case (Cons c ds)
  then have c: "is_dig c" by simp
  then have "int (unat c - 48) = dig c" by (simp add: is_dig_def dig_def word_le_nat_alt of_nat_diff del: of_nat_unat)
  moreover have "int (strtoul_digits (a * 10 + (unat c - 48)) ds) = value_of (int (a * 10 + (unat c - 48))) ds"
    using Cons.prems by (intro Cons.IH) auto
  ultimately show ?case using c by simp
qed simp

lemma strtoul_dec_nat: "strtoul (dec_nat (unat (w :: u32))) = of_nat (unat w)"
proof -
  have "int (strtoul_digits 0 (dec_nat (unat w))) = int (unat w)"
    using strtoul_digits_value [of "dec_nat (unat w)" 0] dec_nat_digits value_of_dec_nat [of "unat w"] by fastforce
  then have d: "strtoul_digits 0 (dec_nat (unat w)) = unat w" by (simp only: of_nat_eq_iff)
  obtain c cs where c: "dec_nat (unat w) = c # cs" "is_dig c"
    using dec_nat_digits [of _ "unat w"] by (cases "dec_nat (unat w)") (auto simp: dec_nat.simps split: if_splits)
  then have "\<not> (c = 32 \<or> 9 \<le> c \<and> c \<le> 13)" "c \<noteq> 45" "c \<noteq> 43"
    by (auto simp: is_dig_def word_le_nat_alt)
  moreover have "unat w < 2 ^ 64" using unat_less_power [OF refl, of w] by simp
  ultimately show ?thesis using d by (auto simp: strtoul_def c(1) Let_def simp del: strtoul_digits.simps of_nat_unat)
qed

lemma strtoul_ip: "ucast (strtoul (dec_nat (unat (w :: u32)))) = w"
proof -
  have "unat w < 2 ^ 32" using unat_less_power [OF refl, of w] by simp
  then have "unat (ucast (ucast w :: u64) :: u32) = unat w"
    by (simp add: unsigned_ucast_eq take_bit_word_eq_self)
  then show ?thesis by (simp add: strtoul_dec_nat word_unat_eq_iff)
qed

lemma lookup_request [simp]:
  "cJSON_GetObjectItem (object_of (request_item rq)) KEY_msgid = Some (number_item KEY_msgid (sint (rq_msgid rq)))"
  "cJSON_GetObjectItem (object_of (request_item rq)) KEY_network_type =
     Some (number_item KEY_network_type (sint (rq_network_type rq)))"
  by (simp_all add: cJSON_GetObjectItem_def request_item_def number_item_def cJSON_strcasecmp_eq_def KEY_defs tolower_def)

lemma lookup_response [simp]:
  "cJSON_GetObjectItem (object_of (response_item rs)) KEY_msgid = Some (number_item KEY_msgid (sint (rs_msgid rs)))"
  "cJSON_GetObjectItem (object_of (response_item rs)) KEY_ip =
     Some (Item cJSON_String (Some (dec_nat (unat (rs_ip_addr rs)))) 0 (Fin 0) (Some KEY_ip) [])"
  "cJSON_GetObjectItem (object_of (response_item rs)) KEY_port = Some (number_item KEY_port (uint (rs_port rs)))"
  by (simp_all add: cJSON_GetObjectItem_def response_item_def number_item_def cJSON_strcasecmp_eq_def KEY_defs tolower_def)

lemma valueint_number_item [simp]: "valueint (number_item nm i) = i"
  by (simp add: number_item_def)

subsection \<open>Runs that end\<close>

lemma ends_log_block: "ends (log_block block w)"
  by (simp add: log_block_def ends_if)

lemma ends_parse_block: "ends (parse_block mem block)"
  using Parse_ends by (auto simp: parse_block_def ends_def split: pres.splits)

lemmas ends_intros = ends_Some ends_bind ends_pair ends_option ends_if ends_log_block ends_parse_block

text \<open>
  What the loops rely on to end: only finitely many interruptions in a row. \<open>left\<close> bounds how many
  are left in a state of the world.
\<close>

locale finite_interrupts =
  fixes os :: "'w os" and left :: "'w \<Rightarrow> nat"
  assumes sendto_left: "os_sendto os sock msg dst w = (SendError EINTR, w') \<Longrightarrow> left w' < left w"
    and recvfrom_left: "os_recvfrom os sock w = (RecvError EINTR, w') \<Longrightarrow> left w' < left w"
begin

lemma ends_send_loop: "ends (send_loop os sock msg dst w)"
proof (induction w rule: measure_induct_rule [where f = left])
  case (less w)
  then show ?case
    using sendto_left by (subst send_loop.simps) (auto simp: Let_def split: prod.splits send_result.splits)
qed

lemma ends_recv_loop: "ends (recv_loop os sock w)"
proof (induction w rule: measure_induct_rule [where f = left])
  case (less w)
  then show ?case
    using recvfrom_left by (subst recv_loop.simps) (auto simp: Let_def split: prod.splits recv_result.splits)
qed

lemma ends_recv_block: "ends (recv_block os sock w)"
  unfolding recv_block_def Let_def by (intro ends_intros ends_recv_loop)

end

end
