(* ===== verification/NpServer.thy ===== *)
theory NpServer
  imports NpCommon
begin

text \<open>
  \<open>nat_probe_server.c\<close>: the table of addresses with their sockets, the handler of the read events and
  \<open>main\<close>. An access outside the table or a local array is a crash. Blocks that are freed on every
  path are not tracked.
\<close>

subsection \<open>State\<close>

record np_addr_t =
  na_ip :: u32
  na_port :: u16
  na_sock :: int

record np_server_t =
  sv_addr :: "np_addr_t list"
  sv_send_msg :: np_response_msg_t
  sv_recv_msg :: np_request_msg_t

definition NP_SERVER_SOCKET_NUM :: nat where
  "NP_SERVER_SOCKET_NUM = NP_MAX_PUBLIC_IP_NUM * 2"

text \<open>After \<open>memset\<close> in \<open>main\<close>: the descriptors are 0.\<close>

definition zero_addr :: np_addr_t where
  "zero_addr = \<lparr>na_ip = 0, na_port = 0, na_sock = 0\<rparr>"

definition zero_server :: np_server_t where
  "zero_server = \<lparr>sv_addr = replicate NP_SERVER_SOCKET_NUM zero_addr,
     sv_send_msg = \<lparr>rs_msgid = 0, rs_ip_addr = 0, rs_port = 0\<rparr>, sv_recv_msg = \<lparr>rq_msgid = 0, rq_network_type = 0\<rparr>\<rparr>"

subsection \<open>The sockets\<close>

definition destroy_socket :: "'w os \<Rightarrow> np_server_t \<Rightarrow> 'w \<Rightarrow> 'w" where
  "destroy_socket os s w = fold (\<lambda>a w. if na_sock a \<ge> 0 then os_close os (na_sock a) w else w) (sv_addr s) w"

text \<open>
  The loop that fills the table, iterations \<open>i\<close> to \<open>n - 1\<close>: iteration \<open>i\<close> reads \<open>tmp_ip_addr[i]\<close> and
  writes the entries \<open>2 * i\<close> and \<open>2 * i + 1\<close>. \<open>None\<close> is an access out of bounds.
\<close>

definition fill_pair :: "u32 \<Rightarrow> nat \<Rightarrow> np_addr_t list \<Rightarrow> np_addr_t list" where
  "fill_pair ip j addr = addr
     [j := \<lparr>na_ip = ip, na_port = NP_SERVER_PORT, na_sock = - 1\<rparr>,
      j + 1 := \<lparr>na_ip = ip, na_port = NP_SERVER_PORT + 1, na_sock = - 1\<rparr>]"

fun fill_addrs :: "u32 list \<Rightarrow> nat list \<Rightarrow> np_addr_t list \<Rightarrow> np_addr_t list option" where
  "fill_addrs tmp [] addr = Some addr"
| "fill_addrs tmp (i # is) addr =
     (if i < length tmp \<and> 2 * i + 1 < length addr then fill_addrs tmp is (fill_pair (tmp ! i) (2 * i) addr) else None)"

text \<open>
  The loop that creates the sockets of the first entries: a failing \<open>socket\<close> ends it, a failing
  \<open>bind\<close> or \<open>setsockopt\<close> leaves the entry without a socket.
\<close>

fun open_sockets :: "'w os \<Rightarrow> nat list \<Rightarrow> np_addr_t list \<Rightarrow> 'w \<Rightarrow> (int \<times> np_addr_t list \<times> 'w) option" where
  "open_sockets os [] addr w = Some (0, addr, w)"
| "open_sockets os (i # is) addr w =
     (let (sock, w) = os_socket os w in
      if sock < 0 then Some (- 1, addr, w)
      else if i \<ge> length addr then None
      else let (r, w) = os_bind os sock \<lparr>sin_addr = na_ip (addr ! i), sin_port = htons (na_port (addr ! i))\<rparr> w in
        if r < 0 then open_sockets os is addr (os_close os sock w)
        else let (r, w) = os_setsockopt os sock w in
          if r < 0 then open_sockets os is addr (os_close os sock w)
          else open_sockets os is (addr [i := (addr ! i)\<lparr>na_sock := sock\<rparr>]) w)"

definition sv_create_socket :: "'w os \<Rightarrow> np_server_t \<Rightarrow> 'w \<Rightarrow> (int \<times> np_server_t \<times> 'w) option" where
  "sv_create_socket os s w =
     (let (answer, w) = os_getaddrinfo os w;
          (r, got, ret_ip_num) = np_get_server_ip answer NP_MAX_PUBLIC_IP_NUM;
          tmp_ip_addr = got @ replicate (NP_MAX_PUBLIC_IP_NUM - length got) 0
      in case ret_ip_num of None \<Rightarrow> Some (- 1, s, destroy_socket os s w)
         | Some n \<Rightarrow> (let create_sock_num = n * 2 in
             do { addr \<leftarrow> fill_addrs tmp_ip_addr [0..<create_sock_num] (sv_addr s);
                  (r, addr, w) \<leftarrow> open_sockets os [0..<create_sock_num] addr w;
                  let s = s\<lparr>sv_addr := addr\<rparr>;
                  Some (if r = - 1 then (- 1, s, destroy_socket os s w) else (0, s, w)) }))"

subsection \<open>Receiving and sending\<close>

definition sv_recv_msg_from ::
  "'w os \<Rightarrow> int \<Rightarrow> np_server_t \<Rightarrow> 'w \<Rightarrow> (int \<times> np_server_t \<times> sockaddr_in \<times> 'w) outcome option" where
  "sv_recv_msg_from os sock s w = bind_o (recv_block os sock w) (\<lambda>(r, w).
     case r of None \<Rightarrow> return_o (- 1, s, \<lparr>sin_addr = 0, sin_port = 0\<rparr>, w)
     | Some (block, client) \<Rightarrow>
       bind_o (parse_block (os_mem os w) block) (\<lambda>t.
       let failed = bind_o (log_block block w) (\<lambda>(r, w). return_o (r, s, client, w)) in
       case t of None \<Rightarrow> failed
       | Some t \<Rightarrow> (case cJSON_GetObjectItem t KEY_msgid of None \<Rightarrow> failed
         | Some pmsgid \<Rightarrow> (case cJSON_GetObjectItem t KEY_network_type of None \<Rightarrow> failed
           | Some pnetwork_type \<Rightarrow>
             return_o (0, s\<lparr>sv_send_msg := \<lparr>rs_msgid = of_int (valueint pmsgid), rs_ip_addr = sin_addr client,
                                rs_port = sin_port client\<rparr>,
                            sv_recv_msg := \<lparr>rq_msgid = of_int (valueint pmsgid),
                                rq_network_type = of_int (valueint pnetwork_type)\<rparr>\<rparr>, client, w)))))"

definition sv_send_msg_to ::
  "'w os \<Rightarrow> int \<Rightarrow> np_server_t \<Rightarrow> sockaddr_in \<Rightarrow> 'w \<Rightarrow> (int \<times> 'w) outcome option" where
  "sv_send_msg_to os sock s client w = (case response_json (os_mem os w) (sv_send_msg s) of
       None \<Rightarrow> Some Crash | Some txt \<Rightarrow> send_loop os sock txt client w)"

subsection \<open>Choosing the socket that answers\<close>

text \<open>The first entry with the main port and the socket.\<close>

fun find_sock :: "int \<Rightarrow> np_addr_t list \<Rightarrow> nat option" where
  "find_sock sock [] = None"
| "find_sock sock (a # as) = (if na_port a = NP_SERVER_PORT \<and> na_sock a = sock then Some 0
     else map_option Suc (find_sock sock as))"

definition process_full_cone_nat :: "int \<Rightarrow> np_server_t \<Rightarrow> int option" where
  "process_full_cone_nat sock s = (case find_sock sock (sv_addr s) of None \<Rightarrow> Some (- 1)
     | Some i \<Rightarrow> (let k = (i + 1 + NP_PUBLIC_IP_NUM) mod length (sv_addr s) in
         if k < length (sv_addr s) then Some (na_sock (sv_addr s ! k)) else None))"

definition process_restricted_cone_nat :: "int \<Rightarrow> np_server_t \<Rightarrow> int option" where
  "process_restricted_cone_nat sock s = (case find_sock sock (sv_addr s) of None \<Rightarrow> Some (- 1)
     | Some i \<Rightarrow> if i + 1 < length (sv_addr s) then Some (na_sock (sv_addr s ! (i + 1))) else None)"

definition np_process :: "int \<Rightarrow> np_server_t \<Rightarrow> int option" where
  "np_process sock s = (let t = rq_network_type (sv_recv_msg s) in
     if t = NP_PUBLIC_NETWORK \<or> t = NP_SYMMETRIC_NAT \<or> t = NP_PORT_RESTRICTED_CONE_NAT then Some sock
     else if t = NP_FULL_CONE_NAT then process_full_cone_nat sock s
     else if t = NP_RESTRICTED_CONE_NAT then process_restricted_cone_nat sock s
     else Some (- 1))"

definition read_callback :: "'w os \<Rightarrow> int \<Rightarrow> np_server_t \<Rightarrow> 'w \<Rightarrow> (np_server_t \<times> 'w) outcome option" where
  "read_callback os sock s w = bind_o (sv_recv_msg_from os sock s w) (\<lambda>(r, s, client, w).
     if r = - 1 then return_o (s, w)
     else case np_process sock s of None \<Rightarrow> Some Crash
       | Some sock \<Rightarrow> if sock = - 1 then return_o (s, w)
         else bind_o (sv_send_msg_to os sock s client w) (\<lambda>(r, w). return_o (s, w)))"

text \<open>The descriptors that \<open>main\<close> registers read events for.\<close>

definition watched :: "np_server_t \<Rightarrow> int list" where
  "watched s = map na_sock (filter (\<lambda>a. \<not> (na_port a \<noteq> NP_SERVER_PORT \<or> na_sock a = - 1)) (sv_addr s))"

subsection \<open>\<open>main\<close>\<close>

text \<open>The loop over the table that adds the read events; \<open>add_ok\<close> says for each entry whether \<open>event_add\<close> succeeds.\<close>

fun add_events :: "(nat \<Rightarrow> bool) \<Rightarrow> nat \<Rightarrow> np_addr_t list \<Rightarrow> bool \<times> int list" where
  "add_events add_ok i [] = (True, [])"
| "add_events add_ok i (a # as) =
     (if na_port a \<noteq> NP_SERVER_PORT \<or> na_sock a = - 1 then add_events add_ok (Suc i) as
      else if \<not> add_ok i then (False, [])
      else let (r, ss) = add_events add_ok (Suc i) as in (r, na_sock a # ss))"

text \<open>
  The result, the sockets with a read event and the world. \<open>stack\<close> is what the memory of
  \<open>np_server\<close> holds before \<open>memset\<close>; \<open>dispatch\<close> stands for the event loop. \<open>configure_log\<close> never
  returns -1.
\<close>

definition np_server_main ::
  "'w os \<Rightarrow> np_server_t \<Rightarrow> bool \<Rightarrow> bool \<Rightarrow> bool \<Rightarrow> (nat \<Rightarrow> bool) \<Rightarrow> (int list \<Rightarrow> np_server_t \<Rightarrow> 'w \<Rightarrow> int \<times> np_server_t \<times> 'w) \<Rightarrow>
   'w \<Rightarrow> (int \<times> int list \<times> 'w) option" where
  "np_server_main os stack is_daemon daemon_ok init_ok add_ok dispatch w =
     (if is_daemon \<and> \<not> daemon_ok then Some (- 1, [], destroy_socket os stack w)
      else do { (r, s, w) \<leftarrow> sv_create_socket os zero_server w;
        Some (if r = - 1 \<or> \<not> init_ok then (- 1, [], destroy_socket os s w)
          else let (ok, socks) = add_events add_ok 0 (sv_addr s) in
            if \<not> ok then (- 1, socks, destroy_socket os s w)
            else let (r, s, w) = dispatch socks s w in
              (if r = - 1 then - 1 else 0, socks, destroy_socket os s w)) })"

lemma add_events_watched: "add_events (\<lambda>_. True) i as =
  (True, map na_sock (filter (\<lambda>a. \<not> (na_port a \<noteq> NP_SERVER_PORT \<or> na_sock a = - 1)) as))"
  by (induction as arbitrary: i) auto

subsection \<open>The table\<close>

lemma fill_addrs_some:
  "\<forall>i \<in> set is. i < length tmp \<and> 2 * i + 1 < length addr \<Longrightarrow> fill_addrs tmp is addr \<noteq> None"
  by (induction "is" arbitrary: addr) (auto simp: fill_pair_def)

lemma fill_addrs_none:
  "\<exists>i \<in> set is. \<not> (i < length tmp \<and> 2 * i + 1 < length addr) \<Longrightarrow> fill_addrs tmp is addr = None"
  by (induction "is" arbitrary: addr) (auto simp: fill_pair_def)

lemma fill_addrs_length: "fill_addrs tmp is addr = Some addr' \<Longrightarrow> length addr' = length addr"
  by (induction "is" arbitrary: addr) (auto simp: fill_pair_def split: if_splits)

lemma open_sockets_some:
  "\<forall>i \<in> set is. i < length addr \<Longrightarrow> open_sockets os is addr w \<noteq> None"
  by (induction "is" arbitrary: addr w) (auto simp: Let_def split: prod.splits)

text \<open>C40: The table and the array of resolved addresses have room for five addresses only: whatever the
  sockets do, starting the server accesses memory out of bounds exactly when the domain resolves
  to more than five addresses, although up to ten are asked for.\<close>

theorem np_server_five_addresses:
  "sv_create_socket os zero_server w = None \<longleftrightarrow>
     (case fst (os_getaddrinfo os w) of None \<Rightarrow> False | Some as \<Rightarrow> 5 < length as)"
proof (cases "fst (os_getaddrinfo os w)")
  case None
  then show ?thesis by (simp add: sv_create_socket_def np_get_server_ip_def split_def Let_def)
next
  case (Some as)
  have got: "copy_addrs NP_MAX_PUBLIC_IP_NUM 0 as = take 10 as"
    by (simp add: copy_addrs_take NP_MAX_PUBLIC_IP_NUM_def)
  have len: "length (take 10 as @ replicate (10 - length (take 10 as)) (0 :: u32)) = 10" by simp
  have addr: "length (sv_addr zero_server) = 20"
    by (simp add: zero_server_def NP_SERVER_SOCKET_NUM_def NP_MAX_PUBLIC_IP_NUM_def)
  show ?thesis
  proof (cases "5 < length as")
    case True
    then have "\<exists>i \<in> set [0..<length (take 10 as) * 2]. \<not> (i < 10 \<and> 2 * i + 1 < 20)"
      by (intro bexI [of _ 10]) auto
    then have "fill_addrs (take 10 as @ replicate (10 - length (take 10 as)) 0) [0..<length (take 10 as) * 2]
        (sv_addr zero_server) = None"
      by (intro fill_addrs_none) (simp only: len addr)
    with True Some got show ?thesis
      by (simp add: sv_create_socket_def np_get_server_ip_def split_def Let_def np_const_defs)
  next
    case False
    then obtain addr' where f: "fill_addrs (take 10 as @ replicate (10 - length (take 10 as)) 0)
        [0..<length (take 10 as) * 2] (sv_addr zero_server) = Some addr'"
      using fill_addrs_some [of "[0..<length (take 10 as) * 2]" "take 10 as @ replicate (10 - length (take 10 as)) 0"
          "sv_addr zero_server"] unfolding len addr by auto
    then have "length addr' = 20" using fill_addrs_length addr by fastforce
    then have "open_sockets os [0..<length (take 10 as) * 2] addr' (snd (os_getaddrinfo os w)) \<noteq> None"
      using False by (intro open_sockets_some) auto
    then obtain r addr'' w' where "open_sockets os [0..<length (take 10 as) * 2] addr' (snd (os_getaddrinfo os w)) =
        Some (r, addr'', w')" by auto
    with f False Some got show ?thesis
      by (auto simp: sv_create_socket_def np_get_server_ip_def split_def Let_def np_const_defs)
  qed
qed

text \<open>The table when \<open>n\<close> addresses were resolved and all calls succeeded, with consecutive descriptors from \<open>b\<close>.\<close>

definition table_entry :: "u32 list \<Rightarrow> int \<Rightarrow> nat \<Rightarrow> np_addr_t" where
  "table_entry ips b i = (let n = length ips in
     \<lparr>na_ip = (if i < 2 * n then ips ! (i div 2) else 0),
      na_port = (if i < 4 * n then (if even i then NP_SERVER_PORT else NP_SERVER_PORT + 1) else 0),
      na_sock = (if i < 2 * n then b + int i else if i < 4 * n then - 1 else 0)\<rparr>)"

definition address_table :: "u32 list \<Rightarrow> int \<Rightarrow> np_addr_t list" where
  "address_table ips b = map (table_entry ips b) [0..<NP_SERVER_SOCKET_NUM]"

lemma length_address_table [simp]: "length (address_table ips b) = 20"
  by (simp add: address_table_def NP_SERVER_SOCKET_NUM_def NP_MAX_PUBLIC_IP_NUM_def)

lemma nth_address_table [simp]: "i < 20 \<Longrightarrow> address_table ips b ! i = table_entry ips b i"
  by (simp add: address_table_def NP_SERVER_SOCKET_NUM_def NP_MAX_PUBLIC_IP_NUM_def)

lemma nth_fill_pair:
  "i < length addr \<Longrightarrow> fill_pair ip j addr ! i = (if i = j + 1 then \<lparr>na_ip = ip, na_port = NP_SERVER_PORT + 1, na_sock = - 1\<rparr>
     else if i = j then \<lparr>na_ip = ip, na_port = NP_SERVER_PORT, na_sock = - 1\<rparr> else addr ! i)"
  by (auto simp: fill_pair_def nth_list_update)

lemma fill_range:
  "k \<le> m \<Longrightarrow> m \<le> length tmp \<Longrightarrow> 2 * m \<le> length addr \<Longrightarrow> fill_addrs tmp [k..<m] addr =
   Some (map (\<lambda>j. if 2 * k \<le> j \<and> j < 2 * m then \<lparr>na_ip = tmp ! (j div 2),
       na_port = (if even j then NP_SERVER_PORT else NP_SERVER_PORT + 1), na_sock = - 1\<rparr> else addr ! j) [0..<length addr])"
proof (induction "m - k" arbitrary: k addr)
  case 0
  then have "k = m" by simp
  moreover have "\<not> (2 * m \<le> j \<and> j < 2 * m)" for j by simp
  ultimately show ?case by (simp only: upt_rec [of m m] if_False less_irrefl fill_addrs.simps map_nth)
next
  case (Suc n)
  then have k: "k < m" by simp
  let ?addr = "fill_pair (tmp ! k) (2 * k) addr"
  let ?f = "\<lambda>k addr j. if 2 * k \<le> j \<and> j < 2 * m then \<lparr>na_ip = tmp ! (j div 2),
       na_port = (if even j then NP_SERVER_PORT else NP_SERVER_PORT + 1), na_sock = - 1\<rparr> else addr ! j"
  have s: "fill_addrs tmp [k..<m] addr = fill_addrs tmp [Suc k..<m] ?addr"
    using Suc.prems k by (simp add: upt_conv_Cons)
  have l: "length ?addr = length addr" by (simp add: fill_pair_def)
  have "?f (Suc k) ?addr j = ?f k addr j" if j: "j < length addr" for j
  proof -
    consider "j < 2 * k" | "j = 2 * k" | "j = 2 * k + 1" | "2 * Suc k \<le> j" by atomize_elim arith
    then show ?thesis using j k by cases (simp_all add: nth_fill_pair)
  qed
  then have "map (?f (Suc k) ?addr) [0..<length addr] = map (?f k addr) [0..<length addr]"
    by (intro map_cong) auto
  moreover have "fill_addrs tmp [Suc k..<m] ?addr = Some (map (?f (Suc k) ?addr) [0..<length ?addr])"
    by (rule Suc.hyps(1)) (use Suc.hyps(2) Suc.prems k l in simp_all)
  ultimately show ?case by (simp only: s l)
qed

text \<open>Sockets with consecutive descriptors: \<open>nxt\<close> is the one that \<open>socket\<close> gives next, and no call fails.\<close>

definition sequential_sockets :: "'w os \<Rightarrow> ('w \<Rightarrow> int) \<Rightarrow> bool" where
  "sequential_sockets os nxt \<longleftrightarrow>
     (\<forall>w. 0 \<le> nxt w \<and> fst (os_socket os w) = nxt w \<and> nxt (snd (os_socket os w)) = nxt w + 1 \<and>
       nxt (snd (os_getaddrinfo os w)) = nxt w) \<and>
     (\<forall>w sock a. fst (os_bind os sock a w) = 0 \<and> nxt (snd (os_bind os sock a w)) = nxt w) \<and>
     (\<forall>w sock. fst (os_setsockopt os sock w) = 0 \<and> nxt (snd (os_setsockopt os sock w)) = nxt w)"

lemma open_range:
  assumes "sequential_sockets os nxt"
  shows "k \<le> m \<Longrightarrow> m \<le> length addr \<Longrightarrow> \<exists>w'. open_sockets os [k..<m] addr w =
    Some (0, map (\<lambda>j. if k \<le> j \<and> j < m then (addr ! j)\<lparr>na_sock := nxt w + int (j - k)\<rparr> else addr ! j) [0..<length addr], w')"
proof (induction "m - k" arbitrary: k addr w)
  case 0
  then have "k = m" by simp
  moreover have "\<not> (m \<le> j \<and> j < m)" for j by simp
  ultimately show ?case by (simp only: upt_rec [of m m] if_False less_irrefl open_sockets.simps map_nth) blast
next
  case (Suc n)
  then have k: "k < m" by simp
  have n0: "\<not> nxt w < 0" for w using assms by (auto simp: sequential_sockets_def not_less)
  let ?addr = "addr [k := (addr ! k)\<lparr>na_sock := nxt w\<rparr>]"
  let ?f = "\<lambda>k addr x j. if k \<le> j \<and> j < m then (addr ! j)\<lparr>na_sock := x + int (j - k)\<rparr> else addr ! j"
  obtain w1 where w1: "open_sockets os [k..<m] addr w = open_sockets os [Suc k..<m] ?addr w1" "nxt w1 = nxt w + 1"
    using assms n0 [of w] Suc.prems k
    by (auto simp: upt_conv_Cons sequential_sockets_def Let_def split_def simp del: upt_Suc)
  have "?f (Suc k) ?addr (nxt w1) j = ?f k addr (nxt w) j" if j: "j < length addr" for j
  proof -
    consider "j < k" | "j = k" | "Suc k \<le> j" by atomize_elim arith
    then show ?thesis using j k by cases (simp_all add: w1(2) of_nat_diff)
  qed
  then have "map (?f (Suc k) ?addr (nxt w1)) [0..<length addr] = map (?f k addr (nxt w)) [0..<length addr]"
    by (intro map_cong) auto
  moreover have "n = m - Suc k" "Suc k \<le> m" "m \<le> length ?addr" using Suc.hyps(2) Suc.prems k by simp_all
  from Suc.hyps(1) [OF this] obtain w' where "open_sockets os [Suc k..<m] ?addr w1 =
      Some (0, map (?f (Suc k) ?addr (nxt w1)) [0..<length ?addr], w')" by blast
  ultimately show ?case by (simp only: w1(1) length_list_update) blast
qed

lemma watched_table:
  assumes "2 \<le> length ips" "length ips \<le> 5" "0 \<le> b" "sv_addr s = address_table ips b"
  shows "watched s = map (\<lambda>k. b + 2 * int k) [0..<length ips]"
proof -
  consider "length ips = 2" | "length ips = 3" | "length ips = 4" | "length ips = 5"
    using assms(1,2) by atomize_elim arith
  moreover have "[0..<20] = [0, 1, 2, 3, 4, 5, 6, 7, 8, 9, 10, 11, 12, 13, 14, 15, 16, 17, 18, 19 :: nat]"
    "[0..<5] = [0, 1, 2, 3, 4 :: nat]" "[0..<4] = [0, 1, 2, 3 :: nat]" "[0..<3] = [0, 1, 2 :: nat]" "[0..<2] = [0, 1 :: nat]"
    by code_simp+
  ultimately show ?thesis
    using assms(3,4) by cases (simp_all add: watched_def address_table_def table_entry_def np_const_defs
        NP_SERVER_SOCKET_NUM_def Let_def del: upt_rec_numeral)
qed

context finite_interrupts
begin

lemma ends_sv_recv: "ends (sv_recv_msg_from os sock s w)"
  unfolding sv_recv_msg_from_def Let_def by (intro ends_intros ends_recv_block)

lemma ends_sv_send: "ends (sv_send_msg_to os sock s client w)"
  unfolding sv_send_msg_to_def by (intro ends_intros ends_send_loop)

lemma ends_read_callback: "ends (read_callback os sock s w)"
  unfolding read_callback_def by (intro ends_intros ends_sv_recv ends_sv_send)

end

text \<open>Starting the server: if no call fails and descriptors are consecutive, two to five resolved
  addresses give the table with the main and the second port of every address open, and the
  read events are those of the main ports.\<close>

theorem np_server_starts:
  assumes "sequential_sockets os nxt" "fst (os_getaddrinfo os w) = Some ips" "2 \<le> length ips" "length ips \<le> 5"
  shows "\<exists>s w'. sv_create_socket os zero_server w = Some (0, s, w') \<and> sv_addr s = address_table ips (nxt w) \<and>
    watched s = map (\<lambda>k. nxt w + 2 * int k) [0..<length ips]"
proof -
  have g: "np_get_server_ip (Some ips) NP_MAX_PUBLIC_IP_NUM = (0, ips, Some (length ips))"
    using assms(3,4) by (simp add: np_get_server_ip_def copy_addrs_take np_const_defs Let_def)
  let ?tmp = "ips @ replicate (NP_MAX_PUBLIC_IP_NUM - length ips) 0" and ?m = "length ips * 2"
  define addr where "addr = map (\<lambda>j. if j < 2 * ?m then \<lparr>na_ip = ?tmp ! (j div 2),
       na_port = (if even j then NP_SERVER_PORT else NP_SERVER_PORT + 1), na_sock = - 1\<rparr> else zero_addr) [0..<20]"
  have z: "sv_addr zero_server = replicate 20 zero_addr"
    by (simp add: zero_server_def NP_SERVER_SOCKET_NUM_def NP_MAX_PUBLIC_IP_NUM_def)
  have f: "fill_addrs ?tmp [0..<?m] (sv_addr zero_server) = Some addr"
    using fill_range [of 0 ?m ?tmp "sv_addr zero_server"] assms(4)
    by (auto simp: z addr_def np_const_defs simp del: upt_Suc upt_rec_numeral)
  have n: "nxt (snd (os_getaddrinfo os w)) = nxt w" using assms(1) by (simp add: sequential_sockets_def)
  obtain w' where o: "open_sockets os [0..<?m] addr (snd (os_getaddrinfo os w)) =
      Some (0, map (\<lambda>j. if j < ?m then (addr ! j)\<lparr>na_sock := nxt w + int j\<rparr> else addr ! j) [0..<20], w')"
    using open_range [OF assms(1), of 0 ?m addr "snd (os_getaddrinfo os w)"] assms(4) n by (auto simp: addr_def)
  have t: "map (\<lambda>j. if j < ?m then (addr ! j)\<lparr>na_sock := nxt w + int j\<rparr> else addr ! j) [0..<20] = address_table ips (nxt w)"
    using assms(4) by (auto simp: list_eq_iff_nth_eq addr_def table_entry_def zero_addr_def nth_append np_const_defs simp del: upt_rec_numeral)
  define s where "s = zero_server\<lparr>sv_addr := address_table ips (nxt w)\<rparr>"
  have "sv_create_socket os zero_server w = Some (0, s, w')"
    using assms(2) f o t by (simp add: sv_create_socket_def split_def g Let_def s_def)
  moreover have "watched s = map (\<lambda>k. nxt w + 2 * int k) [0..<length ips]"
    by (rule watched_table) (use assms in \<open>simp_all add: s_def sequential_sockets_def\<close>)
  ultimately show ?thesis by (auto simp: s_def)
qed

lemma find_sock_nth:
  "i < length as \<Longrightarrow> na_port (as ! i) = NP_SERVER_PORT \<Longrightarrow> na_sock (as ! i) = sock \<Longrightarrow>
   (\<And>j. j < i \<Longrightarrow> na_sock (as ! j) \<noteq> sock) \<Longrightarrow> find_sock sock as = Some i"
proof (induction as arbitrary: i)
  case (Cons a as)
  show ?case
  proof (cases i)
    case 0
    with Cons.prems show ?thesis by simp
  next
    case (Suc j)
    have "na_sock a \<noteq> sock" using Cons.prems(4) [of 0] Suc by simp
    moreover have "na_sock (as ! l) \<noteq> sock" if "l < j" for l
      using Cons.prems(4) [of "Suc l"] that Suc by simp
    then have "find_sock sock as = Some j"
      using Cons.prems(1-3) Suc by (intro Cons.IH) auto
    ultimately show ?thesis by (simp add: Suc)
  qed
qed simp

lemma find_table:
  assumes "k < length ips" "length ips \<le> 5" "0 \<le> b"
  shows "find_sock (b + 2 * int k) (address_table ips b) = Some (2 * k)"
  by (rule find_sock_nth) (use assms in \<open>auto simp: table_entry_def Let_def\<close>)

text \<open>The entry whose socket answers a probe of type \<open>t\<close> to the main port of address \<open>k\<close> of \<open>n\<close>.\<close>

definition answer_index :: "nat \<Rightarrow> nat \<Rightarrow> i32 \<Rightarrow> nat option" where
  "answer_index n k t =
     (if t \<in> {NP_PUBLIC_NETWORK, NP_SYMMETRIC_NAT, NP_PORT_RESTRICTED_CONE_NAT} then Some (2 * k)
      else if t = NP_RESTRICTED_CONE_NAT then Some (2 * k + 1)
      else if t = NP_FULL_CONE_NAT \<and> k + 1 < n then Some (2 * (k + 1) + 1) else None)"

lemma process_table:
  assumes "k < length ips" "length ips \<le> 5" "0 \<le> b" "sv_addr s = address_table ips b"
  shows "np_process (b + 2 * int k) s =
    Some (case answer_index (length ips) k (rq_network_type (sv_recv_msg s)) of None \<Rightarrow> - 1 | Some i \<Rightarrow> b + int i)"
  using assms find_table [OF assms(1-3)]
  by (auto simp: np_process_def process_full_cone_nat_def process_restricted_cone_nat_def Let_def table_entry_def
      NP_PUBLIC_IP_NUM_def np_type_defs answer_index_def)

text \<open>Which socket answers, on a table of up to five addresses: for the plain probes the one that received
  the request, for the restricted-cone probe the other port of the same address, and for the
  full-cone probe the other port of the next address; the last address leaves that probe
  unanswered.\<close>

theorem np_answering_sockets:
  assumes "k < length ips" "length ips \<le> 5" "0 \<le> b" "sv_addr s = address_table ips b"
  shows "np_process (b + 2 * int k) s = Some (let t = rq_network_type (sv_recv_msg s) in
     if t \<in> {NP_PUBLIC_NETWORK, NP_SYMMETRIC_NAT, NP_PORT_RESTRICTED_CONE_NAT} then b + 2 * int k
     else if t = NP_RESTRICTED_CONE_NAT then b + 2 * int k + 1
     else if t = NP_FULL_CONE_NAT \<and> k + 1 < length ips then b + 2 * int (k + 1) + 1 else - 1)"
  by (simp add: process_table [OF assms] answer_index_def Let_def)

theorem np_answering_sockets_witness:
  "np_process 3 (zero_server\<lparr>sv_addr := address_table [10, 20] 3, sv_recv_msg := \<lparr>rq_msgid = 1, rq_network_type = 2\<rparr>\<rparr>) = Some 6"
  using np_answering_sockets [of 0 "[10, 20]" 3
    "zero_server\<lparr>sv_addr := address_table [10, 20] 3, sv_recv_msg := \<lparr>rq_msgid = 1, rq_network_type = 2\<rparr>\<rparr>"]
  by (simp add: np_type_defs)

text \<open>A datagram of 128 blanks crashes the server: nothing terminates the block that is handed to the parser.\<close>

theorem np_server_overreads_block:
  assumes "os_malloc os 128 w = (Some block, w1)" "length block = 128"
    and "os_recvfrom os sock w1 = (Received data client, w2)" "128 \<le> length data" "\<forall>c \<in> set data. 0 < c \<and> c \<le> 32"
    and "os_mem os w2 0"
  shows "read_callback os sock s w = Some Crash"
proof -
  have "skip p = Fault" if "\<forall>c \<in> set p. 0 < c \<and> c \<le> 32" for p
    using that by (induction p) (auto simp: skip.simps)
  then have "skip (take 128 data) = Fault"
    using assms(5) by (auto dest: in_set_takeD)
  then have "cJSON_Parse (os_mem os w2) (take 128 data) = Fault"
    using assms(6) by (simp add: cJSON_Parse_def cJSON_ParseWithOpts_def cj_malloc_def)
  moreover have "recv_loop os sock w1 = return_o (Some (take 128 data, client), w2)"
    using assms(3) by (subst recv_loop.simps) simp
  ultimately show ?thesis
    using assms(1,2,4)
    by (simp add: read_callback_def sv_recv_msg_from_def recv_block_def parse_block_def)
qed

theorem np_server_starts_witness:
  "\<exists>s w'. sv_create_socket (one_datagram_os []) zero_server 0 = Some (0, s, w') \<and>
     sv_addr s = address_table [10, 20] 3 \<and> watched s = [3, 5]"
  using np_server_starts [of "one_datagram_os []" "\<lambda>w. int w + 3" 0 "[10, 20]"]
  by (simp add: one_datagram_os_def sequential_sockets_def)

theorem np_server_overreads_block_witness:
  "read_callback (one_datagram_os (replicate 128 32)) 3 zero_server 0 = Some Crash"
  by (rule np_server_overreads_block [of _ 0 "replicate 128 255" 0 3 "replicate 128 32" "\<lparr>sin_addr = 1, sin_port = 2\<rparr>" 0])
    (simp_all add: one_datagram_os_def word_gt_0 del: replicate.simps)

end
