(* ===== verification/NpClient.thy ===== *)
theory NpClient
  imports NpCommon
begin

text \<open>
  \<open>nat_probe_client.c\<close>: the request loop, the five tests and the probe that combines them. The client's
  variables, the static ones included, are one record. The log lines below \<open>EN_PRINT_NOTICE\<close> are not
  printed and have no effect here.
\<close>

subsection \<open>State\<close>

definition NP_RETRY_SEND_NUM :: nat where "NP_RETRY_SEND_NUM = 2"
definition NP_SEND_AND_RECV_NUM :: nat where "NP_SEND_AND_RECV_NUM = NP_PUBLIC_IP_NUM"

record np_client_t =
  cl_sock :: int
  cl_ip_addr :: "u32 list"
  cl_send_msg :: "np_request_msg_t list"
  cl_recv_msg :: "np_response_msg_t list"
  cl_msgid :: i32
  cl_pid :: i32
  s_network_type :: i32

text \<open>\<open>cl_ip_addr\<close> are the first \<open>ip_addr_num\<close> entries of the array; \<open>cl_msgid\<close> is the static of \<open>generate_msgid\<close>.\<close>

definition zero_request :: np_request_msg_t where "zero_request = \<lparr>rq_msgid = 0, rq_network_type = 0\<rparr>"
definition zero_response :: np_response_msg_t where "zero_response = \<lparr>rs_msgid = 0, rs_ip_addr = 0, rs_port = 0\<rparr>"

definition generate_msgid :: "np_client_t \<Rightarrow> i32 \<times> np_client_t" where
  "generate_msgid c = (let msgid = (if cl_msgid c = 0 then cl_pid c else cl_msgid c) + 1
     in (msgid, c\<lparr>cl_msgid := msgid\<rparr>))"

subsection \<open>The local addresses\<close>

text \<open>
  One interface: its flags and its address, \<open>None\<close> if the \<open>ioctl\<close> fails. \<open>SIOCGIFCONF\<close> fills a buffer
  of 128 bytes with entries of 40 bytes.
\<close>

type_synonym interface = "u16 option \<times> u32 option"

definition IFF_LOOPBACK :: u16 where "IFF_LOOPBACK = 8"

definition SIZEOF_ifreq :: nat where "SIZEOF_ifreq = 40"

fun match_ip :: "u32 \<Rightarrow> interface list \<Rightarrow> int" where
  "match_ip ip [] = 0"
| "match_ip ip ((flags, addr) # ifs) = (case flags of None \<Rightarrow> match_ip ip ifs
     | Some f \<Rightarrow> if and f IFF_LOOPBACK \<noteq> 0 then match_ip ip ifs
       else case addr of None \<Rightarrow> match_ip ip ifs | Some a \<Rightarrow> if a = ip then 1 else match_ip ip ifs)"

text \<open>\<open>ifs\<close> is \<open>None\<close> if the socket or \<open>SIOCGIFCONF\<close> fails.\<close>

definition is_local_ip :: "interface list option \<Rightarrow> u32 \<Rightarrow> int" where
  "is_local_ip ifs ip = (case ifs of None \<Rightarrow> 0 | Some l \<Rightarrow> match_ip ip (take (128 div SIZEOF_ifreq) l))"

subsection \<open>Messages\<close>

definition cl_create_socket :: "'w os \<Rightarrow> 'w \<Rightarrow> int \<times> 'w" where
  "cl_create_socket os w = (let (sock, w) = os_socket os w in
     if sock < 0 then (- 1, w)
     else let (r, w) = os_setsockopt os sock w in
       if r < 0 then (- 1, os_close os sock w) else (sock, w))"

definition cl_send :: "'w os \<Rightarrow> np_client_t \<Rightarrow> nat \<Rightarrow> sockaddr_in \<Rightarrow> 'w \<Rightarrow> (int \<times> 'w) outcome option" where
  "cl_send os c idx dst w = (case request_json (os_mem os w) (cl_send_msg c ! idx) of None \<Rightarrow> Some Crash
     | Some txt \<Rightarrow> send_loop os (cl_sock c) txt dst w)"

text \<open>The address is converted without a test that the member is a string.\<close>

definition cl_recv :: "'w os \<Rightarrow> np_client_t \<Rightarrow> nat \<Rightarrow> 'w \<Rightarrow> (int \<times> np_client_t \<times> 'w) outcome option" where
  "cl_recv os c idx w = bind_o (recv_block os (cl_sock c) w) (\<lambda>(r, w).
     case r of None \<Rightarrow> return_o (- 1, c, w)
     | Some (block, _) \<Rightarrow>
       bind_o (parse_block (os_mem os w) block) (\<lambda>t.
       let failed = bind_o (log_block block w) (\<lambda>(r, w). return_o (r, c, w)) in
       case t of None \<Rightarrow> failed
       | Some t \<Rightarrow> (case cJSON_GetObjectItem t KEY_msgid of None \<Rightarrow> failed
         | Some pmsgid \<Rightarrow> (case cJSON_GetObjectItem t KEY_ip of None \<Rightarrow> failed
           | Some pip \<Rightarrow> (case cJSON_GetObjectItem t KEY_port of None \<Rightarrow> failed
             | Some pport \<Rightarrow> (case valuestring pip of None \<Rightarrow> Some Crash
               | Some s \<Rightarrow> return_o (0, c\<lparr>cl_recv_msg := (cl_recv_msg c) [idx :=
                   \<lparr>rs_msgid = of_int (valueint pmsgid), rs_ip_addr = ucast (strtoul s),
                    rs_port = of_int (valueint pport)\<rparr>]\<rparr>, w)))))))"

text \<open>The inner loop of \<open>np_send_and_recv_msg\<close>: whether a matching answer came.\<close>

fun retry_loop :: "'w os \<Rightarrow> nat \<Rightarrow> nat \<Rightarrow> sockaddr_in \<Rightarrow> np_client_t \<Rightarrow> 'w \<Rightarrow> (bool \<times> np_client_t \<times> 'w) outcome option" where
  "retry_loop os 0 j dst c w = return_o (False, c, w)"
| "retry_loop os (Suc retry_num) j dst c w = bind_o (cl_send os c j dst w) (\<lambda>(r, w).
     if r = - 1 then return_o (False, c, w)
     else bind_o (cl_recv os c j w) (\<lambda>(r, c, w).
       if r = 0 \<and> rs_msgid (cl_recv_msg c ! j) = rq_msgid (cl_send_msg c ! j) then return_o (True, c, w)
       else retry_loop os retry_num j dst c (os_sleep os 1 w)))"

text \<open>The outer loop over the remaining addresses, with \<open>j\<close> answers so far.\<close>

fun addr_loop ::
  "'w os \<Rightarrow> u32 list \<Rightarrow> i32 \<Rightarrow> nat \<Rightarrow> nat \<Rightarrow> np_client_t \<Rightarrow> 'w \<Rightarrow> (nat \<times> np_client_t \<times> 'w) outcome option" where
  "addr_loop os [] nt num j c w = return_o (j, c, w)"
| "addr_loop os (ip # ips) nt num j c w =
     (if \<not> j < num then return_o (j, c, w)
      else let (msgid, c) = generate_msgid c;
               c = c\<lparr>cl_send_msg := (cl_send_msg c) [j := \<lparr>rq_msgid = msgid, rq_network_type = nt\<rparr>]\<rparr> in
        bind_o (retry_loop os NP_RETRY_SEND_NUM j \<lparr>sin_addr = ip, sin_port = htons NP_SERVER_PORT\<rparr> c w)
          (\<lambda>(ok, c, w). addr_loop os ips nt num (if ok then j + 1 else j) c w))"

definition np_send_and_recv_msg ::
  "'w os \<Rightarrow> np_client_t \<Rightarrow> i32 \<Rightarrow> nat \<Rightarrow> 'w \<Rightarrow> (int \<times> np_client_t \<times> 'w) outcome option" where
  "np_send_and_recv_msg os c nt num w = bind_o (addr_loop os (cl_ip_addr c) nt num 0 c w)
     (\<lambda>(j, c, w). return_o (if j < num then - 1 else 0, c, w))"

subsection \<open>The tests\<close>

text \<open>Each returns 0 and the network type, or -1.\<close>

type_synonym 'w np_test = "'w os \<Rightarrow> np_client_t \<Rightarrow> 'w \<Rightarrow> (i32 option \<times> np_client_t \<times> 'w) outcome option"

definition np_is_public_network :: "interface list option \<Rightarrow> 'w np_test" where
  "np_is_public_network ifs os c w = bind_o (np_send_and_recv_msg os c NP_PUBLIC_NETWORK 1 w) (\<lambda>(r, c, w).
     return_o (if r = - 1 then None
       else if is_local_ip ifs (rs_ip_addr (cl_recv_msg c ! 0)) = 0 then None else Some NP_PUBLIC_NETWORK, c, w))"

definition np_is_symmetric_nat :: "'w np_test" where
  "np_is_symmetric_nat os c w = bind_o (np_send_and_recv_msg os c NP_SYMMETRIC_NAT 2 w) (\<lambda>(r, c, w).
     return_o (if r = - 1 then None
       else if rs_ip_addr (cl_recv_msg c ! 0) \<noteq> rs_ip_addr (cl_recv_msg c ! 1) \<or>
         rs_port (cl_recv_msg c ! 0) \<noteq> rs_port (cl_recv_msg c ! 1) then Some NP_SYMMETRIC_NAT else None, c, w))"

definition np_is_full_cone_nat :: "'w np_test" where
  "np_is_full_cone_nat os c w = bind_o (np_send_and_recv_msg os c NP_FULL_CONE_NAT 1 w) (\<lambda>(r, c, w).
     return_o (if r = - 1 then None else Some NP_FULL_CONE_NAT, c, w))"

definition np_is_restricted_cone_nat :: "'w np_test" where
  "np_is_restricted_cone_nat os c w = bind_o (np_send_and_recv_msg os c NP_RESTRICTED_CONE_NAT 1 w) (\<lambda>(r, c, w).
     return_o (if r = - 1 then None else Some NP_RESTRICTED_CONE_NAT, c, w))"

definition np_is_port_restricted_cone_nat :: "'w np_test" where
  "np_is_port_restricted_cone_nat os c w = bind_o (np_send_and_recv_msg os c NP_PORT_RESTRICTED_CONE_NAT 1 w)
     (\<lambda>(r, c, w). return_o (if r = - 1 then None else Some NP_PORT_RESTRICTED_CONE_NAT, c, w))"

text \<open>One test after the other until one succeeds.\<close>

fun run_tests :: "'w np_test list \<Rightarrow> 'w np_test" where
  "run_tests [] os c w = return_o (None, c, w)"
| "run_tests (t # ts) os c w = bind_o (t os c w) (\<lambda>(r, c, w).
     case r of None \<Rightarrow> run_tests ts os c w | Some nt \<Rightarrow> return_o (Some nt, c, w))"

definition probe_tests :: "interface list option \<Rightarrow> 'w np_test list" where
  "probe_tests ifs = [np_is_public_network ifs, np_is_symmetric_nat, np_is_full_cone_nat,
     np_is_restricted_cone_nat, np_is_port_restricted_cone_nat]"

text \<open>
  The probe; \<open>c\<close> holds the static variables and the process id, everything else is set to zero first.
\<close>

definition np_network_type_probe ::
  "interface list option \<Rightarrow> 'w os \<Rightarrow> np_client_t \<Rightarrow> 'w \<Rightarrow> (np_client_t \<times> 'w) outcome option" where
  "np_network_type_probe ifs os c w =
     (let (sock, w) = cl_create_socket os w;
          c = c\<lparr>cl_sock := sock, cl_ip_addr := [], cl_send_msg := replicate NP_SEND_AND_RECV_NUM zero_request,
                cl_recv_msg := replicate NP_SEND_AND_RECV_NUM zero_response\<rparr>;
          leave = (\<lambda>(r, c, w). return_o
            (case r of None \<Rightarrow> c | Some nt \<Rightarrow> if nt \<noteq> NP_UNKNOWN \<and> s_network_type c \<noteq> nt then c\<lparr>s_network_type := nt\<rparr> else c,
             if cl_sock c \<ge> 0 then os_close os (cl_sock c) w else w)) in
      if sock = - 1 then leave (None, c, w)
      else let (answer, w) = os_getaddrinfo os w;
               (r, got, num) = np_get_server_ip answer NP_MAX_PUBLIC_IP_NUM in
        case num of None \<Rightarrow> leave (None, c, w)
        | Some n \<Rightarrow> bind_o (run_tests (probe_tests ifs) os (c\<lparr>cl_ip_addr := take n got\<rparr>) w) leave)"

definition initial_client :: "i32 \<Rightarrow> np_client_t" where
  "initial_client pid = \<lparr>cl_sock = - 1, cl_ip_addr = [], cl_send_msg = [], cl_recv_msg = [], cl_msgid = 0, cl_pid = pid,
     s_network_type = NP_UNKNOWN\<rparr>"

text \<open>\<open>main\<close>: the network type that is logged in the end, as text.\<close>

definition np_client_main :: "interface list option \<Rightarrow> 'w os \<Rightarrow> i32 \<Rightarrow> 'w \<Rightarrow> (string \<times> 'w) outcome option" where
  "np_client_main ifs os pid w = bind_o (np_network_type_probe ifs os (initial_client pid) w)
     (\<lambda>(c, w). return_o (get_string_network_type (s_network_type c), w))"

subsection \<open>Answers that are accepted\<close>

definition results :: "('a \<Rightarrow> bool) \<Rightarrow> 'a outcome option \<Rightarrow> bool" where
  "results P r \<longleftrightarrow> (\<forall>x. r = return_o x \<longrightarrow> P x)"

lemma results_Done: "P x \<Longrightarrow> results P (return_o x)"
  by (simp add: results_def)

lemma results_Crash: "results P (Some Crash)"
  by (simp add: results_def)

lemma results_bind: "(\<And>x. results P (f x)) \<Longrightarrow> results P (bind_o r f)"
  by (simp add: results_def bind_o_Done) blast

lemma results_pair: "(\<And>a b. results P (f a b)) \<Longrightarrow> results P (case p of (a, b) \<Rightarrow> f a b)"
  by (cases p) simp

lemma results_option: "results P f \<Longrightarrow> (\<And>a. results P (g a)) \<Longrightarrow> results P (case r of None \<Rightarrow> f | Some a \<Rightarrow> g a)"
  by (cases r) simp_all

lemma cl_recv_changes:
  assumes "cl_recv os c j w = return_o (r, c', w')"
  shows "\<exists>rs. c' = c\<lparr>cl_recv_msg := (cl_recv_msg c) [j := rs]\<rparr>"
proof -
  have "c = c\<lparr>cl_recv_msg := (cl_recv_msg c) [j := cl_recv_msg c ! j]\<rparr>" by simp
  then have "\<exists>rs. c = c\<lparr>cl_recv_msg := (cl_recv_msg c) [j := rs]\<rparr>" ..
  then have "results (\<lambda>(_, c', _). \<exists>rs. c' = c\<lparr>cl_recv_msg := (cl_recv_msg c) [j := rs]\<rparr>) (cl_recv os c j w)"
    unfolding cl_recv_def Let_def
    by (intro results_bind results_pair results_option results_Crash results_Done) auto
  with assms show ?thesis by (simp add: results_def)
qed

text \<open>The retries for message \<open>j\<close> change nothing but the answer to it, and succeed only with a matching one.\<close>

lemma retry_loop_match:
  "retry_loop os n j dst c w = return_o (ok, c', w') \<Longrightarrow> j < length (cl_recv_msg c) \<Longrightarrow>
   cl_send_msg c' = cl_send_msg c \<and> length (cl_recv_msg c') = length (cl_recv_msg c) \<and>
   (\<forall>i. i \<noteq> j \<longrightarrow> cl_recv_msg c' ! i = cl_recv_msg c ! i) \<and>
   (ok \<longrightarrow> rs_msgid (cl_recv_msg c' ! j) = rq_msgid (cl_send_msg c ! j))"
proof (induction n arbitrary: c w)
  case (Suc n)
  show ?case
  proof (cases "\<exists>r c1 w1 w2. cl_recv os c j w1 = return_o (r, c1, w2) \<and>
      retry_loop os n j dst c1 (os_sleep os 1 w2) = return_o (ok, c', w')")
    case True
    then obtain r c1 w1 w2 where 1: "cl_recv os c j w1 = return_o (r, c1, w2)"
      "retry_loop os n j dst c1 (os_sleep os 1 w2) = return_o (ok, c', w')" by blast
    from cl_recv_changes [OF 1(1)] obtain rs where "c1 = c\<lparr>cl_recv_msg := (cl_recv_msg c) [j := rs]\<rparr>" by blast
    with Suc.IH [OF 1(2)] Suc.prems(2) show ?thesis by auto
  next
    case False
    with Suc.prems show ?thesis
      by (auto simp: bind_o_Done split: if_splits prod.splits dest!: cl_recv_changes)
  qed
qed simp

definition matched :: "i32 \<Rightarrow> nat \<Rightarrow> np_client_t \<Rightarrow> bool" where
  "matched nt n c \<longleftrightarrow> length (cl_send_msg c) = 2 \<and> length (cl_recv_msg c) = 2 \<and>
     (\<forall>j < n. rs_msgid (cl_recv_msg c ! j) = rq_msgid (cl_send_msg c ! j) \<and> rq_network_type (cl_send_msg c ! j) = nt)"

lemma addr_loop_match:
  "addr_loop os ips nt num j c w = return_o (n, c', w') \<Longrightarrow> num \<le> 2 \<Longrightarrow> matched nt j c \<Longrightarrow> matched nt n c'"
proof (induction ips arbitrary: j c w)
  case (Cons ip ips)
  show ?case
  proof (cases "j < num")
    case False
    with Cons.prems show ?thesis by simp
  next
    case True
    obtain m c0 where g: "generate_msgid c = (m, c0)" by fastforce
    then have "cl_send_msg c0 = cl_send_msg c" "cl_recv_msg c0 = cl_recv_msg c"
      by (auto simp: generate_msgid_def Let_def)
    define c1 where "c1 = c0\<lparr>cl_send_msg := (cl_send_msg c0) [j := \<lparr>rq_msgid = m, rq_network_type = nt\<rparr>]\<rparr>"
    have c1: "matched nt j c1" "rq_network_type (cl_send_msg c1 ! j) = nt" "j < length (cl_recv_msg c1)"
      using Cons.prems(2,3) True \<open>cl_send_msg c0 = _\<close> \<open>cl_recv_msg c0 = _\<close> by (auto simp: c1_def matched_def)
    from Cons.prems(1) True obtain ok c2 w2 where
      r: "retry_loop os NP_RETRY_SEND_NUM j \<lparr>sin_addr = ip, sin_port = htons NP_SERVER_PORT\<rparr> c1 w = return_o (ok, c2, w2)"
        "addr_loop os ips nt num (if ok then j + 1 else j) c2 w2 = return_o (n, c', w')"
      by (auto simp: g c1_def bind_o_Done Let_def split: prod.splits)
    from retry_loop_match [OF r(1) c1(3)] c1 have "matched nt (if ok then j + 1 else j) c2"
      by (auto simp: matched_def less_Suc_eq)
    with Cons.IH [OF r(2)] Cons.prems(2) show ?thesis by simp
  qed
qed simp

text \<open>C38: When a probe succeeds, every answer it asked for carries the number of its own request, and
  the requests were of the type probed: late answers and answers to earlier probes are not taken.\<close>

theorem np_answers_match:
  assumes "np_send_and_recv_msg os c nt num w = return_o (0, c', w')" "num \<le> NP_SEND_AND_RECV_NUM"
    and "length (cl_send_msg c) = NP_SEND_AND_RECV_NUM" "length (cl_recv_msg c) = NP_SEND_AND_RECV_NUM"
    and "j < num"
  shows "rs_msgid (cl_recv_msg c' ! j) = rq_msgid (cl_send_msg c' ! j) \<and> rq_network_type (cl_send_msg c' ! j) = nt"
proof -
  note two = NP_SEND_AND_RECV_NUM_def NP_PUBLIC_IP_NUM_def
  have "matched nt 0 c" using assms(3,4) by (simp add: matched_def two)
  moreover obtain n where "addr_loop os (cl_ip_addr c) nt num 0 c w = return_o (n, c', w')" "num \<le> n"
    using assms(1) by (auto simp: np_send_and_recv_msg_def bind_o_Done split: prod.splits if_splits)
  moreover have "num \<le> 2" using assms(2) by (simp add: two)
  ultimately have "matched nt n c' \<and> j < n" using addr_loop_match assms(5) by (meson less_le_trans)
  then show ?thesis by (simp add: matched_def)
qed

theorem np_answers_match_witness:
  "\<exists>c' w'. np_send_and_recv_msg (one_datagram_os (render True 0 (object_of (response_item
      \<lparr>rs_msgid = 2, rs_ip_addr = 30, rs_port = 7\<rparr>)))) ((initial_client 1)\<lparr>cl_ip_addr := [10], cl_send_msg := [zero_request, zero_request],
      cl_recv_msg := [zero_response, zero_response]\<rparr>) NP_PUBLIC_NETWORK 1 0 = return_o (0, c', w') \<and>
    rs_msgid (cl_recv_msg c' ! 0) = rq_msgid (cl_send_msg c' ! 0) \<and> rq_network_type (cl_send_msg c' ! 0) = NP_PUBLIC_NETWORK"
  (is "\<exists>c' w'. np_send_and_recv_msg (one_datagram_os ?txt) ?c _ _ _ = _ \<and> _")
proof -
  have t: "take 128 ?txt = ?txt" using length_response by simp
  have sent: "cl_send (one_datagram_os ?txt) c j dst 0 = return_o (0, 0)" for c j dst
    by (simp add: cl_send_def send_loop.simps request_json_eq one_datagram_os_def del: render.simps)
  have recv: "cl_recv (one_datagram_os ?txt) c j 0 = return_o (0, c\<lparr>cl_recv_msg := (cl_recv_msg c)
      [j := \<lparr>rs_msgid = 2, rs_ip_addr = 30, rs_port = 7\<rparr>]\<rparr>, 0)" for c j
  proof -
    have "recv_block (one_datagram_os ?txt) (cl_sock c) 0 =
        return_o (Some (?txt @ drop (length ?txt) (replicate 128 255), \<lparr>sin_addr = 1, sin_port = 2\<rparr>), 0)"
      by (simp add: recv_block_def recv_loop.simps t one_datagram_os_def min_absorb1 [OF length_response]
          del: render.simps replicate.simps)
    moreover have "os_mem (one_datagram_os ?txt) 0 = all_mem" by (simp add: one_datagram_os_def)
    moreover have "ucast (strtoul (dec_nat 30)) = (30 :: u32)" using strtoul_ip [of 30] by simp
    ultimately show ?thesis
      by (simp add: cl_recv_def parse_block_def parse_response del: render.simps replicate.simps)
  qed
  have "\<exists>c' w'. np_send_and_recv_msg (one_datagram_os ?txt) ?c NP_PUBLIC_NETWORK 1 0 = return_o (0, c', w')"
    by (simp add: np_send_and_recv_msg_def generate_msgid_def initial_client_def NP_RETRY_SEND_NUM_def numeral_2_eq_2
        sent recv del: render.simps)
  then show ?thesis
    using np_answers_match [of "one_datagram_os ?txt" ?c NP_PUBLIC_NETWORK 1 0 _ _ 0]
    by (auto simp: NP_SEND_AND_RECV_NUM_def NP_PUBLIC_IP_NUM_def simp del: render.simps)
qed

subsection \<open>The probe ends\<close>

context finite_interrupts
begin

lemma ends_cl_send: "ends (cl_send os c j dst w)"
  unfolding cl_send_def by (intro ends_intros ends_send_loop)

lemma ends_cl_recv: "ends (cl_recv os c j w)"
  unfolding cl_recv_def Let_def by (intro ends_intros ends_recv_block)

lemma ends_retry_loop: "ends (retry_loop os n j dst c w)"
proof (induction n arbitrary: c w)
  case (Suc n)
  show ?case unfolding retry_loop.simps by (intro ends_intros ends_cl_send ends_cl_recv Suc)
qed simp

lemma ends_addr_loop: "ends (addr_loop os ips nt num j c w)"
proof (induction ips arbitrary: j c w)
  case (Cons ip ips)
  show ?case unfolding addr_loop.simps Let_def by (intro ends_intros ends_retry_loop Cons)
qed simp

lemma ends_send_and_recv: "ends (np_send_and_recv_msg os c nt num w)"
  unfolding np_send_and_recv_msg_def by (intro ends_intros ends_addr_loop)

lemma ends_tests: "t \<in> set (probe_tests ifs) \<Longrightarrow> ends (t os c w)"
  by (auto simp: probe_tests_def np_is_public_network_def np_is_symmetric_nat_def np_is_full_cone_nat_def
      np_is_restricted_cone_nat_def np_is_port_restricted_cone_nat_def intro!: ends_intros ends_send_and_recv)

lemma ends_run_tests: "(\<And>t c w. t \<in> set ts \<Longrightarrow> ends (t os c w)) \<Longrightarrow> ends (run_tests ts os c w)"
  by (induction ts arbitrary: c w) (auto intro!: ends_intros)

lemma ends_probe: "ends (np_network_type_probe ifs os c w)"
  unfolding np_network_type_probe_def Let_def by (intro ends_intros ends_run_tests ends_tests)

lemma ends_main: "ends (np_client_main ifs os pid w)"
  unfolding np_client_main_def by (intro ends_intros ends_probe)

end

text \<open>C39: The client always comes to an end, by a result or a crash, whatever the server and the network
  send and whichever calls fail, provided that \<open>sendto\<close> and \<open>recvfrom\<close> are not interrupted
  forever.\<close>

theorem np_client_ends:
  assumes "\<And>sock msg dst w w'. os_sendto os sock msg dst w = (SendError EINTR, w') \<Longrightarrow> left w' < (left w :: nat)"
    and "\<And>sock w w'. os_recvfrom os sock w = (RecvError EINTR, w') \<Longrightarrow> left w' < left w"
  shows "\<exists>r. np_client_main ifs os pid w = Some r"
  using finite_interrupts.ends_main [OF finite_interrupts.intro, OF assms] by (simp add: ends_def)

theorem np_client_ends_witness:
  "\<exists>r. np_client_main None (one_datagram_os []) 1 0 = Some r"
  by (rule np_client_ends [where left = "\<lambda>_. 0"]) (simp_all add: one_datagram_os_def)

subsection \<open>Hostile answers and local addresses\<close>

text \<open>An answer whose member \<open>ip\<close> is a number instead of a string crashes the client:
  \<open>valuestring\<close> is used without a test.\<close>

theorem np_client_ip_not_string:
  assumes "os_malloc os 128 w = (Some block, w1)" "os_mem os w2 = all_mem"
    and "os_recvfrom os (cl_sock c) w1 = (Received (render True 0 (object_of
      [number_item KEY_msgid a, number_item KEY_ip b, number_item KEY_port p])) from, w2)"
    and "\<forall>i \<in> {a, b, p}. INT_MIN \<le> i \<and> i \<le> INT_MAX"
  shows "cl_recv os c j w = Some Crash"
proof -
  let ?cs = "[number_item KEY_msgid a, number_item KEY_ip b, number_item KEY_port p]"
  have good: "good_members ?cs"
    unfolding good_members_Cons using assms(4) by (intro conjI canon_number_item KEY_no_zero good_members_Cons(3)) auto
  have "cJSON_Parse all_mem (render True 0 (object_of ?cs) @ junk) = Ok (object_of ?cs)" for junk
    by (rule parse_printed_object) (use good in \<open>auto simp: good_members_def\<close>)
  moreover have "length (render True 0 (object_of ?cs)) \<le> 128"
    using length_dec_int [of a] length_dec_int [of b] length_dec_int [of p] assms(4)
    by (simp add: cj_type_defs number_item_def KEY_defs quote_def escape_def tabs_def)
  moreover have "cJSON_GetObjectItem (object_of ?cs) KEY_msgid = Some (number_item KEY_msgid a)"
    "cJSON_GetObjectItem (object_of ?cs) KEY_ip = Some (number_item KEY_ip b)"
    "cJSON_GetObjectItem (object_of ?cs) KEY_port = Some (number_item KEY_port p)"
    by (simp_all add: cJSON_GetObjectItem_def number_item_def cJSON_strcasecmp_eq_def KEY_defs tolower_def)
  moreover have "valuestring (number_item KEY_ip b) = None" by (simp add: number_item_def)
  ultimately show ?thesis
    using assms(1-3) by (simp add: cl_recv_def recv_block_def recv_loop.simps parse_block_def del: render.simps)
qed

theorem np_client_ip_not_string_witness:
  "cl_recv (one_datagram_os (render True 0 (object_of
    [number_item KEY_msgid 1, number_item KEY_ip 2, number_item KEY_port 3]))) (initial_client 1) 0 0 = Some Crash"
  by (rule np_client_ip_not_string [of _ 0 "replicate 128 255" 0 0])
    (auto simp: one_datagram_os_def INT_MIN_def INT_MAX_def simp del: render.simps)

lemma match_ip_iff: "match_ip ip ifs = (if \<exists>f. (Some f, Some ip) \<in> set ifs \<and> and f IFF_LOOPBACK = 0 then 1 else 0)"
proof (induction ifs)
  case (Cons a ifs)
  obtain fl addr where "a = (fl, addr)" by (cases a)
  with Cons show ?case by (cases fl; cases addr) auto
qed simp

lemma in_first_three: "x \<in> set (take 3 l) \<longleftrightarrow> (\<exists>i. i < length l \<and> i < 3 \<and> l ! i = x)"
  by (auto simp: in_set_conv_nth)

text \<open>Only the first three interfaces are looked at: a client whose public address is on a later one is
  not found to have it.\<close>

theorem np_local_ip_first_three:
  "is_local_ip ifs ip = (case ifs of None \<Rightarrow> 0 | Some l \<Rightarrow>
     if \<exists>i f. i < length l \<and> i < 3 \<and> l ! i = (Some f, Some ip) \<and> and f IFF_LOOPBACK = 0 then 1 else 0)"
  by (simp add: is_local_ip_def SIZEOF_ifreq_def match_ip_iff in_first_three split: option.splits) blast

end
