(* ===== verification/NpSystem.thy ===== *)
theory NpSystem
  imports NpServer NpClient
begin

text \<open>
  Client, address translator and server together. The translator is the environment: which address
  it shows to the server and which datagrams it lets in are the textbook rules for its kind. The
  server's side of every datagram is its own \<open>read_callback\<close>.
\<close>

subsection \<open>The server's side\<close>

text \<open>The world of one read event: the datagram that is waiting, the contents of fresh blocks, what was sent.\<close>

record sv_world =
  sv_in :: "byte list \<times> sockaddr_in"
  sv_block :: "byte list"
  sv_out :: "(int \<times> byte list \<times> sockaddr_in) list"

definition server_os :: "sv_world os" where
  "server_os = \<lparr>os_socket = (\<lambda>w. (- 1, w)), os_setsockopt = (\<lambda>_ w. (0, w)), os_bind = (\<lambda>_ _ w. (0, w)),
     os_close = (\<lambda>_ w. w),
     os_sendto = (\<lambda>sock msg dst w. (Sent (int (length msg)), w\<lparr>sv_out := sv_out w @ [(sock, msg, dst)]\<rparr>)),
     os_recvfrom = (\<lambda>_ w. (Received (fst (sv_in w)) (snd (sv_in w)), w)),
     os_malloc = (\<lambda>n w. (Some (sv_block w), w)), os_mem = (\<lambda>_. all_mem), os_getaddrinfo = (\<lambda>w. (None, w)),
     os_sleep = (\<lambda>_ w. w)\<rparr>"

definition serve :: "byte list \<Rightarrow> int \<Rightarrow> byte list \<Rightarrow> sockaddr_in \<Rightarrow> np_server_t \<Rightarrow> np_server_t \<times> (int \<times> byte list \<times> sockaddr_in) list" where
  "serve block sock data from s = (case read_callback server_os sock s \<lparr>sv_in = (data, from), sv_block = block, sv_out = []\<rparr> of
       Some (Done (s, w)) \<Rightarrow> (s, sv_out w) | _ \<Rightarrow> (s, []))"

subsection \<open>The translator and the client's side\<close>

datatype nat_kind = Open | FullCone | RestrictedCone | PortRestrictedCone | Symmetric

record np_world =
  nw_kind :: nat_kind
  nw_ips :: "u32 list"
  nw_base :: int
  nw_server :: np_server_t
  nw_block :: "byte list"
  nw_ext :: sockaddr_in
  nw_sym_port :: "sockaddr_in \<Rightarrow> u16"
  nw_peers :: "sockaddr_in set"
  nw_inbox :: "byte list list"

text \<open>
  The address shown to \<open>dst\<close>: a symmetric translator has one port for each destination. A datagram
  from \<open>src\<close> that answers one to \<open>dst\<close> comes in if the client has sent to \<open>src\<close> (to its address,
  for a restricted cone; through the same port, for a symmetric translator).
\<close>

definition shown :: "np_world \<Rightarrow> sockaddr_in \<Rightarrow> sockaddr_in" where
  "shown w dst = (if nw_kind w = Symmetric then (nw_ext w)\<lparr>sin_port := nw_sym_port w dst\<rparr> else nw_ext w)"

definition lets_in :: "nat_kind \<Rightarrow> sockaddr_in set \<Rightarrow> sockaddr_in \<Rightarrow> sockaddr_in \<Rightarrow> bool" where
  "lets_in kind peers dst src = (case kind of Open \<Rightarrow> True | FullCone \<Rightarrow> True
     | RestrictedCone \<Rightarrow> sin_addr src \<in> sin_addr ` peers | PortRestrictedCone \<Rightarrow> src \<in> peers | Symmetric \<Rightarrow> src = dst)"

definition main_addr :: "u32 \<Rightarrow> sockaddr_in" where
  "main_addr ip = \<lparr>sin_addr = ip, sin_port = htons NP_SERVER_PORT\<rparr>"

text \<open>The address of the server's socket with the descriptor \<open>sock\<close>.\<close>

definition server_addr :: "np_server_t \<Rightarrow> int \<Rightarrow> int \<Rightarrow> sockaddr_in" where
  "server_addr s base sock = (let a = sv_addr s ! nat (sock - base) in \<lparr>sin_addr = na_ip a, sin_port = htons (na_port a)\<rparr>)"

fun find_ip :: "sockaddr_in \<Rightarrow> u32 list \<Rightarrow> nat option" where
  "find_ip dst [] = None"
| "find_ip dst (ip # ips) = (if dst = main_addr ip then Some 0 else map_option Suc (find_ip dst ips))"

definition send_out :: "byte list \<Rightarrow> sockaddr_in \<Rightarrow> np_world \<Rightarrow> np_world" where
  "send_out msg dst w = (let peers = insert dst (nw_peers w) in
     case find_ip dst (nw_ips w) of None \<Rightarrow> w\<lparr>nw_peers := peers\<rparr>
     | Some k \<Rightarrow> (let (s, out) = serve (nw_block w) (nw_base w + 2 * int k) msg (shown w dst) (nw_server w) in
         w\<lparr>nw_peers := peers, nw_server := s, nw_inbox := nw_inbox w @ map (\<lambda>(_, m, _). m)
           (filter (\<lambda>(sock, _, to). to = shown w dst \<and> lets_in (nw_kind w) peers dst (server_addr s (nw_base w) sock)) out)\<rparr>))"

definition nat_os :: "np_world os" where
  "nat_os = \<lparr>os_socket = (\<lambda>w. (3, w)), os_setsockopt = (\<lambda>_ w. (0, w)), os_bind = (\<lambda>_ _ w. (0, w)), os_close = (\<lambda>_ w. w),
     os_sendto = (\<lambda>_ msg dst w. (Sent (int (length msg)), send_out msg dst w)),
     os_recvfrom = (\<lambda>_ w. case nw_inbox w of [] \<Rightarrow> (RecvError EOTHER, w)
       | m # ms \<Rightarrow> (Received m \<lparr>sin_addr = 0, sin_port = 0\<rparr>, w\<lparr>nw_inbox := ms\<rparr>)),
     os_malloc = (\<lambda>n w. (Some (nw_block w), w)), os_mem = (\<lambda>_. all_mem),
     os_getaddrinfo = (\<lambda>w. (Some (nw_ips w), w)), os_sleep = (\<lambda>_ w. w)\<rparr>"

lemma server_os_simps [simp]:
  "os_sendto server_os sock msg dst w = (Sent (int (length msg)), w\<lparr>sv_out := sv_out w @ [(sock, msg, dst)]\<rparr>)"
  "os_recvfrom server_os sock w = (Received (fst (sv_in w)) (snd (sv_in w)), w)"
  "os_malloc server_os n w = (Some (sv_block w), w)" "os_mem server_os w = all_mem"
  by (simp_all add: server_os_def)

lemma nat_os_simps [simp]:
  "os_socket nat_os w = (3, w)" "os_setsockopt nat_os sock w = (0, w)" "os_close nat_os sock w = w"
  "os_sendto nat_os sock msg dst w = (Sent (int (length msg)), send_out msg dst w)"
  "nw_inbox w = [] \<Longrightarrow> os_recvfrom nat_os sock w = (RecvError EOTHER, w)"
  "nw_inbox w = m # ms \<Longrightarrow> os_recvfrom nat_os sock w = (Received m \<lparr>sin_addr = 0, sin_port = 0\<rparr>, w\<lparr>nw_inbox := ms\<rparr>)"
  "os_malloc nat_os n w = (Some (nw_block w), w)" "os_mem nat_os w = all_mem"
  "os_getaddrinfo nat_os w = (Some (nw_ips w), w)" "os_sleep nat_os n w = w"
  by (simp_all add: nat_os_def)

subsection \<open>One request and its answer\<close>

abbreviation request_text :: "np_request_msg_t \<Rightarrow> byte list" where
  "request_text rq \<equiv> render True 0 (object_of (request_item rq))"

abbreviation response_text :: "np_response_msg_t \<Rightarrow> byte list" where
  "response_text rs \<equiv> render True 0 (object_of (response_item rs))"

text \<open>What the server does with a request: it notes it and answers through the chosen socket.\<close>

definition noted :: "np_request_msg_t \<Rightarrow> sockaddr_in \<Rightarrow> np_server_t \<Rightarrow> np_server_t" where
  "noted rq from s = s\<lparr>sv_send_msg := \<lparr>rs_msgid = rq_msgid rq, rs_ip_addr = sin_addr from, rs_port = sin_port from\<rparr>,
     sv_recv_msg := rq\<rparr>"

lemma serve_request:
  "serve block sock (request_text rq) from s = (case np_process sock (noted rq from s) of None \<Rightarrow> (s, [])
     | Some sock' \<Rightarrow> (noted rq from s, if sock' = - 1 then []
         else [(sock', response_text \<lparr>rs_msgid = rq_msgid rq, rs_ip_addr = sin_addr from, rs_port = sin_port from\<rparr>, from)]))"
proof -
  define w where "w = \<lparr>sv_in = (request_text rq, from), sv_block = block, sv_out = []\<rparr>"
  have t: "take 128 (request_text rq) = request_text rq" using length_request by simp
  have "recv_block server_os sock w = return_o (Some (request_text rq @ drop (length (request_text rq)) block, from), w)"
    by (simp add: recv_block_def recv_loop.simps t w_def min_absorb1 [OF length_request] del: render.simps)
  then have "sv_recv_msg_from server_os sock s w = return_o (0, noted rq from s, from, w)"
    by (simp add: sv_recv_msg_from_def parse_block_def parse_request noted_def del: render.simps)
  then have "read_callback server_os sock s w = (case np_process sock (noted rq from s) of None \<Rightarrow> Some Crash
     | Some sock' \<Rightarrow> return_o (noted rq from s, if sock' = - 1 then w else w\<lparr>sv_out :=
         [(sock', response_text \<lparr>rs_msgid = rq_msgid rq, rs_ip_addr = sin_addr from, rs_port = sin_port from\<rparr>, from)]\<rparr>))"
    by (auto simp: read_callback_def sv_send_msg_to_def response_json_eq send_loop.simps w_def
        noted_def simp del: render.simps split: option.splits)
  then show ?thesis
    unfolding serve_def w_def by (auto split: option.splits simp del: render.simps)
qed

text \<open>
  The server is running on the addresses the domain resolves to, and nothing is under way; the state
  \<open>w\<close> differs from it by the peers \<open>P\<close> and what the server noted.
\<close>

definition settled :: "np_world \<Rightarrow> bool" where
  "settled w \<longleftrightarrow> sv_addr (nw_server w) = address_table (nw_ips w) (nw_base w) \<and> nw_inbox w = [] \<and> 0 \<le> nw_base w \<and>
     distinct (nw_ips w) \<and> 2 \<le> length (nw_ips w) \<and> length (nw_ips w) \<le> 5"

definition after_sending :: "np_world \<Rightarrow> sockaddr_in set \<Rightarrow> np_world \<Rightarrow> bool" where
  "after_sending w0 P w \<longleftrightarrow>
     (\<exists>s. w = w0\<lparr>nw_peers := P, nw_server := s, nw_inbox := []\<rparr> \<and> sv_addr s = sv_addr (nw_server w0))"

text \<open>Whether an answer to a probe of type \<open>t\<close> to the main port of address number \<open>k\<close> comes in.\<close>

definition comes_back :: "np_world \<Rightarrow> sockaddr_in set \<Rightarrow> nat \<Rightarrow> i32 \<Rightarrow> bool" where
  "comes_back w P k t = (let ips = nw_ips w in case answer_index (length ips) k t of None \<Rightarrow> False
     | Some i \<Rightarrow> lets_in (nw_kind w) P (main_addr (ips ! k)) \<lparr>sin_addr = ips ! (i div 2),
         sin_port = htons (if even i then NP_SERVER_PORT else NP_SERVER_PORT + 1)\<rparr>)"

definition answer_to :: "np_world \<Rightarrow> nat \<Rightarrow> i32 \<Rightarrow> np_response_msg_t" where
  "answer_to w k mid = (let a = shown w (main_addr (nw_ips w ! k)) in
     \<lparr>rs_msgid = mid, rs_ip_addr = sin_addr a, rs_port = sin_port a\<rparr>)"

lemma find_ip_nth: "distinct ips \<Longrightarrow> k < length ips \<Longrightarrow> find_ip (main_addr (ips ! k)) ips = Some k"
proof (induction ips arbitrary: k)
  case (Cons ip ips)
  then show ?case by (cases k) (auto simp: main_addr_def)
qed simp

lemma shown_after [simp]: "shown (w\<lparr>nw_peers := P, nw_server := s, nw_inbox := x\<rparr>) = shown w"
  by (simp add: shown_def fun_eq_iff)

lemma send_out_request:
  assumes w: "settled w0" "after_sending w0 P w" and k: "k < length (nw_ips w0)"
  shows "\<exists>s. send_out (request_text rq) (main_addr (nw_ips w0 ! k)) w = w0\<lparr>nw_peers := insert (main_addr (nw_ips w0 ! k)) P,
      nw_server := s, nw_inbox := if comes_back w0 (insert (main_addr (nw_ips w0 ! k)) P) k (rq_network_type rq)
        then [response_text (answer_to w0 k (rq_msgid rq))] else []\<rparr> \<and> sv_addr s = sv_addr (nw_server w0)"
proof -
  let ?a = "main_addr (nw_ips w0 ! k)" and ?b = "nw_base w0" and ?n = "length (nw_ips w0)"
  obtain s where s: "w = w0\<lparr>nw_peers := P, nw_server := s, nw_inbox := []\<rparr>" "sv_addr s = address_table (nw_ips w0) ?b"
    using w by (auto simp: after_sending_def settled_def)
  let ?s = "noted rq (shown w0 ?a) s"
  have sv: "sv_addr ?s = address_table (nw_ips w0) ?b" by (simp add: noted_def s)
  have "rq_network_type (sv_recv_msg ?s) = rq_network_type rq" by (simp add: noted_def)
  then have p: "np_process (?b + 2 * int k) ?s = Some (case answer_index ?n k (rq_network_type rq) of None \<Rightarrow> - 1 | Some i \<Rightarrow> ?b + int i)"
    using process_table [OF k _ _ sv] w(1) by (simp add: settled_def)
  have f: "find_ip ?a (nw_ips w) = Some k" using w(1) k by (simp add: s settled_def find_ip_nth)
  show ?thesis
  proof (cases "answer_index ?n k (rq_network_type rq)")
    case None
    then show ?thesis using f p w(1)
      by (intro exI [of _ ?s]) (simp add: send_out_def serve_request s comes_back_def settled_def noted_def del: render.simps)
  next
    case (Some i)
    then have i: "i < 2 * ?n" using k by (auto simp: answer_index_def split: if_splits)
    have "server_addr ?s ?b (?b + int i) = \<lparr>sin_addr = nw_ips w0 ! (i div 2),
         sin_port = htons (if even i then NP_SERVER_PORT else NP_SERVER_PORT + 1)\<rparr>"
      using i w(1) by (simp add: server_addr_def sv table_entry_def Let_def settled_def)
    moreover have "?b + int i \<noteq> - 1" using w(1) by (simp add: settled_def)
    ultimately show ?thesis using f p w(1) Some
      by (intro exI [of _ ?s])
        (simp add: send_out_def serve_request s comes_back_def settled_def sv answer_to_def Let_def del: render.simps)
  qed
qed

lemma cl_send_nat:
  "cl_send nat_os c j dst w = return_o (0, send_out (request_text (cl_send_msg c ! j)) dst w)"
  by (simp add: cl_send_def request_json_eq send_loop.simps del: render.simps)

lemma cl_recv_nat_empty: "nw_inbox w = [] \<Longrightarrow> cl_recv nat_os c j w = return_o (- 1, c, w)"
  by (simp add: cl_recv_def recv_block_def recv_loop.simps)

lemma cl_recv_nat:
  assumes "nw_inbox w = [response_text rs]"
  shows "cl_recv nat_os c j w = return_o (0, c\<lparr>cl_recv_msg := (cl_recv_msg c) [j := rs]\<rparr>, w\<lparr>nw_inbox := []\<rparr>)"
proof -
  have "take 128 (response_text rs) = response_text rs" using length_response by simp
  with assms have "recv_block nat_os (cl_sock c) w = return_o (Some (response_text rs @ drop (length (response_text rs)) (nw_block w),
      \<lparr>sin_addr = 0, sin_port = 0\<rparr>), w\<lparr>nw_inbox := []\<rparr>)"
    by (simp add: recv_block_def recv_loop.simps min_absorb1 [OF length_response] del: render.simps)
  then show ?thesis
    by (cases rs) (simp add: cl_recv_def parse_block_def parse_response strtoul_ip del: render.simps)
qed

lemma exchange:
  assumes w: "settled w0" "after_sending w0 P w" and k: "k < length (nw_ips w0)"
    and m: "cl_send_msg c ! j = \<lparr>rq_msgid = m, rq_network_type = t\<rparr>"
  obtains w' where "after_sending w0 (insert (main_addr (nw_ips w0 ! k)) P) w'"
    and "cl_recv nat_os c j (send_out (request_text (cl_send_msg c ! j)) (main_addr (nw_ips w0 ! k)) w) = return_o
      (if comes_back w0 (insert (main_addr (nw_ips w0 ! k)) P) k t
       then (0, c\<lparr>cl_recv_msg := (cl_recv_msg c) [j := answer_to w0 k m]\<rparr>, w') else (- 1, c, w'))"
proof -
  let ?P = "insert (main_addr (nw_ips w0 ! k)) P"
  obtain s where s: "send_out (request_text (cl_send_msg c ! j)) (main_addr (nw_ips w0 ! k)) w = w0\<lparr>nw_peers := ?P, nw_server := s,
      nw_inbox := if comes_back w0 ?P k t then [response_text (answer_to w0 k m)] else []\<rparr>"
      "sv_addr s = sv_addr (nw_server w0)"
    using send_out_request [OF w k, of "cl_send_msg c ! j"] by (auto simp only: m np_request_msg_t.simps)
  let ?w = "w0\<lparr>nw_peers := ?P, nw_server := s, nw_inbox := []\<rparr>"
  have "after_sending w0 ?P ?w" using s(2) unfolding after_sending_def by blast
  then show thesis
    by (rule that) (simp only: s(1), cases "comes_back w0 ?P k t"; simp add: cl_recv_nat cl_recv_nat_empty del: render.simps)
qed

lemma answer_msgid [simp]: "rs_msgid (answer_to w k m) = m"
  by (simp add: answer_to_def Let_def)

lemma retry_nat:
  assumes w0: "settled w0" and k: "k < length (nw_ips w0)"
  shows "after_sending w0 P w \<Longrightarrow> cl_send_msg c ! j = \<lparr>rq_msgid = m, rq_network_type = t\<rparr> \<Longrightarrow> j < length (cl_recv_msg c) \<Longrightarrow>
    \<exists>w'. retry_loop nat_os (Suc n) j (main_addr (nw_ips w0 ! k)) c w =
      return_o (if comes_back w0 (insert (main_addr (nw_ips w0 ! k)) P) k t
        then (True, c\<lparr>cl_recv_msg := (cl_recv_msg c) [j := answer_to w0 k m]\<rparr>, w') else (False, c, w')) \<and>
      after_sending w0 (insert (main_addr (nw_ips w0 ! k)) P) w'"
proof (induction n arbitrary: P w)
  case (0 P w)
  from exchange [OF w0 0(1) k 0(2)] obtain w' where "after_sending w0 (insert (main_addr (nw_ips w0 ! k)) P) w'"
    "cl_recv nat_os c j (send_out (request_text (cl_send_msg c ! j)) (main_addr (nw_ips w0 ! k)) w) = return_o
      (if comes_back w0 (insert (main_addr (nw_ips w0 ! k)) P) k t
       then (0, c\<lparr>cl_recv_msg := (cl_recv_msg c) [j := answer_to w0 k m]\<rparr>, w') else (- 1, c, w'))" .
  then show ?case
    using 0(2,3) by (intro exI [of _ w']) (simp add: cl_send_nat del: render.simps)
next
  case (Suc n P w)
  let ?a = "main_addr (nw_ips w0 ! k)"
  from exchange [OF w0 Suc(2) k Suc(3)] obtain w1 where w1: "after_sending w0 (insert ?a P) w1"
    "cl_recv nat_os c j (send_out (request_text (cl_send_msg c ! j)) ?a w) = return_o
      (if comes_back w0 (insert ?a P) k t
       then (0, c\<lparr>cl_recv_msg := (cl_recv_msg c) [j := answer_to w0 k m]\<rparr>, w1) else (- 1, c, w1))" .
  show ?case
  proof (cases "comes_back w0 (insert ?a P) k t")
    case True
    with w1 Suc.prems show ?thesis
      by (intro exI [of _ w1]) (subst retry_loop.simps, simp add: cl_send_nat del: render.simps retry_loop.simps)
  next
    case False
    with w1 have "retry_loop nat_os (Suc (Suc n)) j ?a c w = retry_loop nat_os (Suc n) j ?a c w1"
      by (subst retry_loop.simps) (simp add: cl_send_nat del: retry_loop.simps render.simps)
    with Suc.IH [OF w1(1) Suc.prems(2,3)] False show ?thesis by simp
  qed
qed

subsection \<open>One round of requests\<close>

text \<open>The client during the probe; between two of its states only messages and the message number change.\<close>

definition probing :: "np_world \<Rightarrow> np_client_t \<Rightarrow> bool" where
  "probing w c \<longleftrightarrow> cl_ip_addr c = nw_ips w \<and> length (cl_send_msg c) = 2 \<and> length (cl_recv_msg c) = 2 \<and>
     s_network_type c = NP_UNKNOWN"

lemma addr_step:
  assumes w: "settled w0" "after_sending w0 P w" and c: "probing w0 c" and k: "k < length (nw_ips w0)" and j: "j < num" "j < 2"
  obtains c' w' m where "addr_loop nat_os (drop k (nw_ips w0)) t num j c w = addr_loop nat_os (drop (Suc k) (nw_ips w0)) t num
      (if comes_back w0 (insert (main_addr (nw_ips w0 ! k)) P) k t then j + 1 else j) c' w'"
    and "probing w0 c'" "after_sending w0 (insert (main_addr (nw_ips w0 ! k)) P) w'"
    and "cl_recv_msg c' = (if comes_back w0 (insert (main_addr (nw_ips w0 ! k)) P) k t
      then (cl_recv_msg c) [j := answer_to w0 k m] else cl_recv_msg c)"
proof -
  obtain m c0 where g: "generate_msgid c = (m, c0)" "probing w0 c0" "cl_recv_msg c0 = cl_recv_msg c"
    using c by (auto simp: generate_msgid_def Let_def probing_def)
  define c1 where "c1 = c0\<lparr>cl_send_msg := (cl_send_msg c0) [j := \<lparr>rq_msgid = m, rq_network_type = t\<rparr>]\<rparr>"
  have c1: "probing w0 c1" "cl_recv_msg c1 = cl_recv_msg c" "cl_send_msg c1 ! j = \<lparr>rq_msgid = m, rq_network_type = t\<rparr>"
    using g j(2) by (auto simp: c1_def probing_def)
  let ?a = "main_addr (nw_ips w0 ! k)"
  obtain w' where r: "retry_loop nat_os (Suc (Suc 0)) j ?a c1 w = return_o (if comes_back w0 (insert ?a P) k t
      then (True, c1\<lparr>cl_recv_msg := (cl_recv_msg c1) [j := answer_to w0 k m]\<rparr>, w') else (False, c1, w'))"
      "after_sending w0 (insert ?a P) w'"
    using retry_nat [OF w(1) k w(2) c1(3)] c1(1) j(2) by (auto simp: probing_def)
  have d: "drop k (nw_ips w0) = (nw_ips w0 ! k) # drop (Suc k) (nw_ips w0)" using k by (simp add: Cons_nth_drop_Suc)
  have e: "NP_RETRY_SEND_NUM = Suc (Suc 0)" by (simp add: NP_RETRY_SEND_NUM_def)
  let ?c = "if comes_back w0 (insert ?a P) k t then c1\<lparr>cl_recv_msg := (cl_recv_msg c1) [j := answer_to w0 k m]\<rparr> else c1"
  show thesis
  proof (rule that)
    show "addr_loop nat_os (drop k (nw_ips w0)) t num j c w = addr_loop nat_os (drop (Suc k) (nw_ips w0)) t num
      (if comes_back w0 (insert ?a P) k t then j + 1 else j) ?c w'"
      unfolding d e addr_loop.simps g(1) Let_def prod.case main_addr_def [symmetric] c1_def [symmetric] r(1)
      using j(1) by (auto simp del: retry_loop.simps)
  qed (use c1 r(2) in \<open>auto simp: probing_def\<close>)
qed

lemma plain_comes_back:
  "t \<in> {NP_PUBLIC_NETWORK, NP_SYMMETRIC_NAT, NP_PORT_RESTRICTED_CONE_NAT} \<Longrightarrow>
   comes_back w (insert (main_addr (nw_ips w ! k)) P) k t"
  by (simp add: comes_back_def answer_index_def lets_in_def main_addr_def split: nat_kind.split)

lemma addr_loop_done: "addr_loop os ips t num num c w = return_o (num, c, w)"
  by (cases ips) auto

text \<open>A probe that the first address answers.\<close>

lemma one_answered:
  assumes w: "settled w0" "after_sending w0 P w" and c: "probing w0 c"
    and yes: "comes_back w0 (insert (main_addr (nw_ips w0 ! 0)) P) 0 t"
  obtains c' w' m where "np_send_and_recv_msg nat_os c t 1 w = return_o (0, c', w')" "probing w0 c'"
    and "after_sending w0 (insert (main_addr (nw_ips w0 ! 0)) P) w'" "cl_recv_msg c' ! 0 = answer_to w0 0 m"
proof -
  have k: "0 < length (nw_ips w0)" using w(1) by (auto simp: settled_def)
  obtain c' w' m where s: "addr_loop nat_os (drop 0 (nw_ips w0)) t 1 0 c w = addr_loop nat_os (drop (Suc 0) (nw_ips w0)) t 1 1 c' w'"
    "probing w0 c'" "after_sending w0 (insert (main_addr (nw_ips w0 ! 0)) P) w'"
    "cl_recv_msg c' = (cl_recv_msg c) [0 := answer_to w0 0 m]"
    using addr_step [OF w c k, of 0 1 t] yes by auto
  have "cl_recv_msg c' ! 0 = answer_to w0 0 m" using s(4) c by (simp add: probing_def)
  moreover have "np_send_and_recv_msg nat_os c t 1 w = return_o (0, c', w')"
    using s(1) c by (simp add: np_send_and_recv_msg_def probing_def addr_loop_done)
  ultimately show thesis using s(2,3) by (intro that)
qed

text \<open>The symmetric probe is answered by the first two addresses.\<close>

lemma two_answered:
  assumes w: "settled w0" "after_sending w0 P w" and c: "probing w0 c"
  obtains c' w' m1 m2 where "np_send_and_recv_msg nat_os c NP_SYMMETRIC_NAT 2 w = return_o (0, c', w')" "probing w0 c'"
    and "after_sending w0 (insert (main_addr (nw_ips w0 ! 1)) (insert (main_addr (nw_ips w0 ! 0)) P)) w'"
    and "cl_recv_msg c' ! 0 = answer_to w0 0 m1" "cl_recv_msg c' ! 1 = answer_to w0 1 m2"
proof -
  have k: "0 < length (nw_ips w0)" "1 < length (nw_ips w0)" using w(1) by (auto simp: settled_def)
  note yes = plain_comes_back [of NP_SYMMETRIC_NAT]
  obtain c1 w1 m1 where s1: "addr_loop nat_os (drop 0 (nw_ips w0)) NP_SYMMETRIC_NAT 2 0 c w =
      addr_loop nat_os (drop 1 (nw_ips w0)) NP_SYMMETRIC_NAT 2 1 c1 w1"
    "probing w0 c1" "after_sending w0 (insert (main_addr (nw_ips w0 ! 0)) P) w1"
    "cl_recv_msg c1 = (cl_recv_msg c) [0 := answer_to w0 0 m1]"
    using addr_step [OF w c k(1), of 0 2 NP_SYMMETRIC_NAT] yes by (auto simp: One_nat_def)
  obtain c2 w2 m2 where s2: "addr_loop nat_os (drop 1 (nw_ips w0)) NP_SYMMETRIC_NAT 2 1 c1 w1 =
      addr_loop nat_os (drop 2 (nw_ips w0)) NP_SYMMETRIC_NAT 2 2 c2 w2"
    "probing w0 c2" "after_sending w0 (insert (main_addr (nw_ips w0 ! 1)) (insert (main_addr (nw_ips w0 ! 0)) P)) w2"
    "cl_recv_msg c2 = (cl_recv_msg c1) [1 := answer_to w0 1 m2]"
    using addr_step [OF w(1) s1(3,2) k(2), of 1 2 NP_SYMMETRIC_NAT] yes by (auto simp: numeral_2_eq_2)
  have l: "length (cl_recv_msg c) = 2" using c by (simp add: probing_def)
  show thesis
  proof (rule that)
    show "np_send_and_recv_msg nat_os c NP_SYMMETRIC_NAT 2 w = return_o (0, c2, w2)"
      using s1(1) s2(1) c by (simp add: np_send_and_recv_msg_def probing_def addr_loop_done)
  qed (use s1 s2 l in \<open>simp_all\<close>)
qed

text \<open>A probe that nobody answers.\<close>

lemma none_answered:
  assumes w0: "settled w0"
    and no: "\<And>k Q. k < length (nw_ips w0) \<Longrightarrow> Q \<subseteq> main_addr ` set (nw_ips w0) \<Longrightarrow> \<not> comes_back w0 Q k t"
    and w: "after_sending w0 P w" "P \<subseteq> main_addr ` set (nw_ips w0)" and c: "probing w0 c"
  obtains c' w' P' where "np_send_and_recv_msg nat_os c t 1 w = return_o (- 1, c', w')" "probing w0 c'"
    and "after_sending w0 P' w'" "P' \<subseteq> main_addr ` set (nw_ips w0)"
proof -
  have "\<exists>c' w' P'. addr_loop nat_os (drop k (nw_ips w0)) t 1 0 c w = return_o (0, c', w') \<and> probing w0 c' \<and>
      after_sending w0 P' w' \<and> P' \<subseteq> main_addr ` set (nw_ips w0)" if "k \<le> length (nw_ips w0)" for k
    using that w c
  proof (induction "length (nw_ips w0) - k" arbitrary: k c w P)
    case 0
    then show ?case by auto
  next
    case (Suc n)
    then have k: "k < length (nw_ips w0)" by simp
    let ?Q = "insert (main_addr (nw_ips w0 ! k)) P"
    have Q: "?Q \<subseteq> main_addr ` set (nw_ips w0)" using Suc.prems(3) k by auto
    obtain c' w' where "addr_loop nat_os (drop k (nw_ips w0)) t 1 0 c w = addr_loop nat_os (drop (Suc k) (nw_ips w0)) t 1 0 c' w'"
      "probing w0 c'" "after_sending w0 ?Q w'"
      using no [OF k Q] by (auto intro: addr_step [OF w0 Suc.prems(2,4) k, of 0 1 t])
    with Suc.hyps k Q show ?case by auto
  qed
  from this [of 0] obtain c' w' P' where "addr_loop nat_os (nw_ips w0) t 1 0 c w = return_o (0, c', w')" "probing w0 c'"
    "after_sending w0 P' w'" "P' \<subseteq> main_addr ` set (nw_ips w0)" by auto
  with c that show thesis by (simp add: np_send_and_recv_msg_def probing_def)
qed

subsection \<open>The result of the probe\<close>

definition closed_ports :: "nat_kind \<Rightarrow> bool" where
  "closed_ports kind \<longleftrightarrow> kind = PortRestrictedCone \<or> kind = Symmetric"

lemma other_port: "htons (NP_SERVER_PORT + 1) \<noteq> htons NP_SERVER_PORT"
  by (simp add: htons_def NP_SERVER_PORT_def)

lemma closed_no_answer:
  assumes "closed_ports (nw_kind w)" "t = NP_FULL_CONE_NAT \<or> t = NP_RESTRICTED_CONE_NAT" "Q \<subseteq> main_addr ` set (nw_ips w)"
  shows "\<not> comes_back w Q k t"
proof -
  have n: "\<lparr>sin_addr = ip, sin_port = htons (NP_SERVER_PORT + 1)\<rparr> \<notin> Q"
    "\<lparr>sin_addr = ip, sin_port = htons (NP_SERVER_PORT + 1)\<rparr> \<noteq> main_addr ip'" for ip ip'
    using assms(3) other_port by (auto simp: main_addr_def)
  from assms(1,2) n show ?thesis
    by (auto simp: comes_back_def answer_index_def closed_ports_def lets_in_def np_type_defs)
qed

lemma open_answer:
  assumes "\<not> closed_ports (nw_kind w)" "settled w" "main_addr (nw_ips w ! 1) \<in> Q"
  shows "comes_back w Q 0 NP_FULL_CONE_NAT"
proof -
  have "nw_ips w ! 1 \<in> sin_addr ` Q" using assms(3) by (force simp: main_addr_def)
  with assms(1,2) show ?thesis
    by (auto simp: comes_back_def answer_index_def closed_ports_def lets_in_def np_type_defs settled_def split: nat_kind.split)
qed

text \<open>What the five tests find together.\<close>

definition detected :: "interface list option \<Rightarrow> np_world \<Rightarrow> i32" where
  "detected ifs w = (if is_local_ip ifs (sin_addr (nw_ext w)) \<noteq> 0 then NP_PUBLIC_NETWORK
     else if shown w (main_addr (nw_ips w ! 0)) \<noteq> shown w (main_addr (nw_ips w ! 1)) then NP_SYMMETRIC_NAT
     else if closed_ports (nw_kind w) then NP_PORT_RESTRICTED_CONE_NAT else NP_FULL_CONE_NAT)"

lemma sin_addr_shown [simp]: "sin_addr (shown w a) = sin_addr (nw_ext w)"
  by (simp add: shown_def)

lemma public_test:
  assumes "settled w0" "after_sending w0 P w" "probing w0 c"
  obtains c' w' where "np_is_public_network ifs nat_os c w =
      return_o (if is_local_ip ifs (sin_addr (nw_ext w0)) = 0 then None else Some NP_PUBLIC_NETWORK, c', w')"
    and "probing w0 c'" "after_sending w0 (insert (main_addr (nw_ips w0 ! 0)) P) w'"
proof -
  obtain c' w' m where "np_send_and_recv_msg nat_os c NP_PUBLIC_NETWORK 1 w = return_o (0, c', w')" "probing w0 c'"
    "after_sending w0 (insert (main_addr (nw_ips w0 ! 0)) P) w'" "cl_recv_msg c' ! 0 = answer_to w0 0 m"
    by (rule one_answered [OF assms plain_comes_back, of NP_PUBLIC_NETWORK]) auto
  then show thesis by (intro that) (auto simp: np_is_public_network_def answer_to_def Let_def)
qed

lemma symmetric_test:
  assumes "settled w0" "after_sending w0 P w" "probing w0 c"
  obtains c' w' where "np_is_symmetric_nat nat_os c w = return_o
      (if shown w0 (main_addr (nw_ips w0 ! 0)) \<noteq> shown w0 (main_addr (nw_ips w0 ! 1)) then Some NP_SYMMETRIC_NAT else None, c', w')"
    and "probing w0 c'" "after_sending w0 (insert (main_addr (nw_ips w0 ! 1)) (insert (main_addr (nw_ips w0 ! 0)) P)) w'"
proof -
  obtain c' w' m1 m2 where "np_send_and_recv_msg nat_os c NP_SYMMETRIC_NAT 2 w = return_o (0, c', w')" "probing w0 c'"
    "after_sending w0 (insert (main_addr (nw_ips w0 ! 1)) (insert (main_addr (nw_ips w0 ! 0)) P)) w'"
    "cl_recv_msg c' ! 0 = answer_to w0 0 m1" "cl_recv_msg c' ! 1 = answer_to w0 1 m2"
    by (rule two_answered [OF assms])
  moreover have "shown w0 a \<noteq> shown w0 b \<longleftrightarrow> sin_port (shown w0 a) \<noteq> sin_port (shown w0 b)" for a b
    by (cases "nw_ext w0") (auto simp: shown_def)
  ultimately show thesis by (intro that) (auto simp: np_is_symmetric_nat_def answer_to_def Let_def)
qed

lemma cone_tests:
  assumes w: "settled w0" "after_sending w0 P w" and c: "probing w0 c"
    and P: "P \<subseteq> main_addr ` set (nw_ips w0)" "main_addr (nw_ips w0 ! 1) \<in> P"
  shows "\<exists>c' w'. run_tests [np_is_full_cone_nat, np_is_restricted_cone_nat, np_is_port_restricted_cone_nat] nat_os c w =
    return_o (Some (if closed_ports (nw_kind w0) then NP_PORT_RESTRICTED_CONE_NAT else NP_FULL_CONE_NAT), c', w') \<and> probing w0 c'"
proof (cases "closed_ports (nw_kind w0)")
  case False
  obtain c' w' where "np_send_and_recv_msg nat_os c NP_FULL_CONE_NAT 1 w = return_o (0, c', w')" "probing w0 c'"
    by (rule one_answered [OF w c open_answer, OF False w(1)]) (use P in auto)
  with False show ?thesis by (simp add: np_is_full_cone_nat_def)
next
  case True
  obtain c1 w1 P1 where 1: "np_send_and_recv_msg nat_os c NP_FULL_CONE_NAT 1 w = return_o (- 1, c1, w1)" "probing w0 c1"
    "after_sending w0 P1 w1" "P1 \<subseteq> main_addr ` set (nw_ips w0)"
    by (rule none_answered [where t = NP_FULL_CONE_NAT, OF w(1) closed_no_answer w(2) P(1) c, OF True]) auto
  obtain c2 w2 P2 where 2: "np_send_and_recv_msg nat_os c1 NP_RESTRICTED_CONE_NAT 1 w1 = return_o (- 1, c2, w2)" "probing w0 c2"
    "after_sending w0 P2 w2"
    by (rule none_answered [where t = NP_RESTRICTED_CONE_NAT, OF w(1) closed_no_answer 1(3,4,2), OF True]) auto
  obtain c3 w3 where 3: "np_send_and_recv_msg nat_os c2 NP_PORT_RESTRICTED_CONE_NAT 1 w2 = return_o (0, c3, w3)" "probing w0 c3"
    by (rule one_answered [OF w(1) 2(3,2) plain_comes_back, of NP_PORT_RESTRICTED_CONE_NAT]) auto
  from True 1(1) 2(1) 3 show ?thesis
    by (simp add: np_is_full_cone_nat_def np_is_restricted_cone_nat_def np_is_port_restricted_cone_nat_def)
qed

lemma probe_detects:
  assumes w: "settled w0" "nw_peers w0 = {}" and c: "probing w0 c"
  shows "\<exists>c' w'. run_tests (probe_tests ifs) nat_os c w0 = return_o (Some (detected ifs w0), c', w') \<and> probing w0 c'"
proof -
  let ?a = "\<lambda>k. main_addr (nw_ips w0 ! k)"
  have "after_sending w0 {} w0"
    unfolding after_sending_def by (rule exI [of _ "nw_server w0"]) (use w in \<open>cases w0; simp add: settled_def\<close>)
  from public_test [OF w(1) this c] obtain c1 w1 where 1: "np_is_public_network ifs nat_os c w0 =
      return_o (if is_local_ip ifs (sin_addr (nw_ext w0)) = 0 then None else Some NP_PUBLIC_NETWORK, c1, w1)"
      "probing w0 c1" "after_sending w0 {?a 0} w1" by auto
  from symmetric_test [OF w(1) 1(3,2)] obtain c2 w2 where 2: "np_is_symmetric_nat nat_os c1 w1 = return_o
      (if shown w0 (?a 0) \<noteq> shown w0 (?a 1) then Some NP_SYMMETRIC_NAT else None, c2, w2)"
      "probing w0 c2" "after_sending w0 {?a 1, ?a 0} w2" by auto
  have "0 < length (nw_ips w0)" "1 < length (nw_ips w0)" using w(1) by (auto simp: settled_def)
  then have "{?a 1, ?a 0} \<subseteq> main_addr ` set (nw_ips w0)" by simp
  from cone_tests [OF w(1) 2(3,2) this] obtain c3 w3 where
    "run_tests [np_is_full_cone_nat, np_is_restricted_cone_nat, np_is_port_restricted_cone_nat] nat_os c2 w2 =
      return_o (Some (if closed_ports (nw_kind w0) then NP_PORT_RESTRICTED_CONE_NAT else NP_FULL_CONE_NAT), c3, w3)"
    "probing w0 c3" by auto
  with 1 2 show ?thesis unfolding probe_tests_def detected_def by auto
qed

text \<open>Neither side is ever interrupted here, so every handler and the probe end.\<close>

interpretation server_side: finite_interrupts server_os "\<lambda>_. 0"
  by unfold_locales simp_all

interpretation client_side: finite_interrupts nat_os "\<lambda>_. 0"
  by unfold_locales (auto simp: nat_os_def split: list.splits)

lemma serve_answers: "read_callback server_os sock s w \<noteq> None"
  using server_side.ends_read_callback by (simp add: ends_def)

text \<open>C37: The probe against the server over a network that loses nothing, for up to five server addresses and
  every kind of translator: it ends, and finds a public network, a symmetric translator (when the first
  two addresses see different ports) and a port-restricted cone correctly; but a restricted cone is
  reported as a full cone, since the answer that is to test for it comes from an address that the
  test before has already opened.\<close>

theorem nat_probe_detects:
  assumes "sv_addr (nw_server w) = address_table (nw_ips w) (nw_base w)" "0 \<le> nw_base w" "distinct (nw_ips w)"
    and "2 \<le> length (nw_ips w)" "length (nw_ips w) \<le> 5" "nw_inbox w = []" "nw_peers w = {}"
  shows "\<exists>w'. np_client_main ifs nat_os pid w = return_o (
     if is_local_ip ifs (sin_addr (nw_ext w)) \<noteq> 0 then ''PUBLIC_NETWORK''
     else if shown w (main_addr (nw_ips w ! 0)) \<noteq> shown w (main_addr (nw_ips w ! 1)) then ''SYMMETRIC_NAT''
     else if nw_kind w = PortRestrictedCone \<or> nw_kind w = Symmetric then ''PORT_RESTRICTED_CONE_NAT''
     else ''FULL_CONE_NAT'', w')"
proof -
  have w: "settled w" using assms by (simp add: settled_def)
  let ?c = "(initial_client pid)\<lparr>cl_sock := 3, cl_ip_addr := nw_ips w, cl_send_msg := replicate 2 zero_request,
    cl_recv_msg := replicate 2 zero_response\<rparr>"
  have "probing w ?c" by (simp add: probing_def initial_client_def)
  from probe_detects [OF w assms(7) this, of ifs] obtain c' w' where
    r: "run_tests (probe_tests ifs) nat_os ?c w = return_o (Some (detected ifs w), c', w')" "probing w c'" by blast
  have g: "np_get_server_ip (Some (nw_ips w)) NP_MAX_PUBLIC_IP_NUM = (0, nw_ips w, Some (length (nw_ips w)))"
    using assms(4,5) by (simp add: np_get_server_ip_def copy_addrs_take np_const_defs Let_def)
  have n: "detected ifs w \<noteq> NP_UNKNOWN" by (simp add: detected_def np_type_defs)
  have "np_network_type_probe ifs nat_os (initial_client pid) w = return_o (c'\<lparr>s_network_type := detected ifs w\<rparr>, w')"
    using r n unfolding np_network_type_probe_def by (simp add: cl_create_socket_def g Let_def NP_SEND_AND_RECV_NUM_def NP_PUBLIC_IP_NUM_def initial_client_def
        probing_def)
  then show ?thesis
    unfolding np_client_main_def by (simp add: detected_def closed_ports_def get_string_network_type_def np_type_defs)
qed

text \<open>A small network: two server addresses, and a translator that shows the client as 30.\<close>

definition small_world :: "nat_kind \<Rightarrow> np_world" where
  "small_world kind = \<lparr>nw_kind = kind, nw_ips = [10, 20], nw_base = 4, nw_server = zero_server\<lparr>sv_addr := address_table [10, 20] 4\<rparr>,
     nw_block = replicate 128 255, nw_ext = \<lparr>sin_addr = 30, sin_port = 7\<rparr>, nw_sym_port = (\<lambda>a. ucast (sin_addr a)),
     nw_peers = {}, nw_inbox = []\<rparr>"

theorem nat_probe_detects_witness:
  "(\<exists>w'. np_client_main None nat_os 1 (small_world RestrictedCone) = return_o (''FULL_CONE_NAT'', w')) \<and>
   (\<exists>w'. np_client_main None nat_os 1 (small_world Symmetric) = return_o (''SYMMETRIC_NAT'', w'))"
  using nat_probe_detects [of "small_world RestrictedCone" None 1] nat_probe_detects [of "small_world Symmetric" None 1]
  by (simp add: small_world_def is_local_ip_def shown_def main_addr_def)

end
