(* ===== verification/Sha1.thy ===== *)
theory Sha1
  imports Prelude
begin

unbundle bit_operations_syntax

text \<open>
  \<open>common/sha1.cpp\<close>: SHA-1 with its loops unravelled and its 32-bit quantities held in \<open>unsigned long\<close>,
  which has 64 bits here, and what the algorithm is meant to compute: the rounds on 32-bit words, the
  padding, the digest of a message.
\<close>

subsection \<open>The macros\<close>

type_synonym SHA_BYTE = byte
type_synonym SHA_LONG = u64

definition SHA_BLOCKSIZE :: nat where "SHA_BLOCKSIZE = 64"

definition f1 :: "SHA_LONG \<Rightarrow> SHA_LONG \<Rightarrow> SHA_LONG \<Rightarrow> SHA_LONG" where
  "f1 x y z = (x AND y) OR (NOT x AND z)"
definition f2 :: "SHA_LONG \<Rightarrow> SHA_LONG \<Rightarrow> SHA_LONG \<Rightarrow> SHA_LONG" where
  "f2 x y z = x XOR y XOR z"
definition f3 :: "SHA_LONG \<Rightarrow> SHA_LONG \<Rightarrow> SHA_LONG \<Rightarrow> SHA_LONG" where
  "f3 x y z = (x AND y) OR (x AND z) OR (y AND z)"
definition f4 :: "SHA_LONG \<Rightarrow> SHA_LONG \<Rightarrow> SHA_LONG \<Rightarrow> SHA_LONG" where
  "f4 x y z = x XOR y XOR z"

definition CONST1 :: SHA_LONG where "CONST1 = 0x5a827999"
definition CONST2 :: SHA_LONG where "CONST2 = 0x6ed9eba1"
definition CONST3 :: SHA_LONG where "CONST3 = 0x8f1bbcdc"
definition CONST4 :: SHA_LONG where "CONST4 = 0xca62c1d6"

text \<open>\<open>f##n\<close> and \<open>CONST##n\<close>.\<close>

definition sha_f :: "nat \<Rightarrow> SHA_LONG \<Rightarrow> SHA_LONG \<Rightarrow> SHA_LONG \<Rightarrow> SHA_LONG" where
  "sha_f n = (if n = 1 then f1 else if n = 2 then f2 else if n = 3 then f3 else f4)"
definition sha_const :: "nat \<Rightarrow> SHA_LONG" where
  "sha_const n = (if n = 1 then CONST1 else if n = 2 then CONST2 else if n = 3 then CONST3 else CONST4)"

definition T32 :: "SHA_LONG \<Rightarrow> SHA_LONG" where
  "T32 x = x AND 0xffffffff"
definition R32 :: "SHA_LONG \<Rightarrow> nat \<Rightarrow> SHA_LONG" where
  "R32 x n = T32 (push_bit n x OR drop_bit (32 - n) x)"

text \<open>The registers \<open>T, A, B, C, D, E\<close> and the six macros; \<open>w\<close> is \<open>*WP++\<close>.\<close>

type_synonym sha_regs = "SHA_LONG \<times> SHA_LONG \<times> SHA_LONG \<times> SHA_LONG \<times> SHA_LONG \<times> SHA_LONG"
type_synonym sha_step = "SHA_LONG \<Rightarrow> sha_regs \<Rightarrow> sha_regs"

definition FA :: "nat \<Rightarrow> sha_step" where
  "FA n w = (\<lambda>(T, A, B, C, D, E). (T32 (R32 A 5 + sha_f n B C D + E + w + sha_const n), A, R32 B 30, C, D, E))"
definition FB :: "nat \<Rightarrow> sha_step" where
  "FB n w = (\<lambda>(T, A, B, C, D, E). (T, R32 A 30, B, C, D, T32 (R32 T 5 + sha_f n A B C + D + w + sha_const n)))"
definition FC :: "nat \<Rightarrow> sha_step" where
  "FC n w = (\<lambda>(T, A, B, C, D, E). (R32 T 30, A, B, C, T32 (R32 E 5 + sha_f n T A B + C + w + sha_const n), E))"
definition FD :: "nat \<Rightarrow> sha_step" where
  "FD n w = (\<lambda>(T, A, B, C, D, E). (T, A, B, T32 (R32 D 5 + sha_f n E T A + B + w + sha_const n), D, R32 E 30))"
definition FE :: "nat \<Rightarrow> sha_step" where
  "FE n w = (\<lambda>(T, A, B, C, D, E). (T, A, T32 (R32 C 5 + sha_f n D E T + A + w + sha_const n), C, R32 D 30, E))"
definition FT :: "nat \<Rightarrow> sha_step" where
  "FT n w = (\<lambda>(T, A, B, C, D, E). (T, T32 (R32 B 5 + sha_f n C D E + T + w + sha_const n), B, R32 C 30, D, E))"

text \<open>The unravelled rounds, as they are written.\<close>

definition unravel :: "sha_step list" where
  "unravel = [
    FA 1, FB 1, FC 1, FD 1, FE 1, FT 1, FA 1, FB 1, FC 1, FD 1,
    FE 1, FT 1, FA 1, FB 1, FC 1, FD 1, FE 1, FT 1, FA 1, FB 1,
    FC 2, FD 2, FE 2, FT 2, FA 2, FB 2, FC 2, FD 2, FE 2, FT 2,
    FA 2, FB 2, FC 2, FD 2, FE 2, FT 2, FA 2, FB 2, FC 2, FD 2,
    FE 3, FT 3, FA 3, FB 3, FC 3, FD 3, FE 3, FT 3, FA 3, FB 3,
    FC 3, FD 3, FE 3, FT 3, FA 3, FB 3, FC 3, FD 3, FE 3, FT 3,
    FA 4, FB 4, FC 4, FD 4, FE 4, FT 4, FA 4, FB 4, FC 4, FD 4,
    FE 4, FT 4, FA 4, FB 4, FC 4, FD 4, FE 4, FT 4, FA 4, FB 4]"

subsection \<open>\<open>sha_transform\<close>\<close>

type_synonym sha_digest = "SHA_LONG \<times> SHA_LONG \<times> SHA_LONG \<times> SHA_LONG \<times> SHA_LONG"

record SHA_INFO =
  digest :: sha_digest
  count_lo :: SHA_LONG
  count_hi :: SHA_LONG
  sha_buf :: "SHA_BYTE list"
  sha_local :: i32

text \<open>
  \<open>*((SHA_LONG *) dp)\<close> reads eight bytes; for the last word they reach into \<open>local\<close>, which follows the 64
  bytes of the buffer in memory.
\<close>

fun le_word :: "byte list \<Rightarrow> SHA_LONG" where
  "le_word [] = 0"
| "le_word (b # bs) = ucast b OR push_bit 8 (le_word bs)"

definition sha_memory :: "SHA_INFO \<Rightarrow> byte list" where
  "sha_memory info = sha_buf info @ le_bytes 4 (unat (sha_local info))"

definition sha_load :: "SHA_INFO \<Rightarrow> nat \<Rightarrow> SHA_LONG" where
  "sha_load info i = le_word (take 8 (drop (4 * i) (sha_memory info)))"

definition swap_bytes :: "SHA_LONG \<Rightarrow> SHA_LONG" where
  "swap_bytes T = (push_bit 24 T AND 0xff000000) OR (push_bit 8 T AND 0x00ff0000) OR
     (drop_bit 8 T AND 0x0000ff00) OR (drop_bit 24 T AND 0x000000ff)"

definition expand_step :: "nat \<Rightarrow> SHA_LONG list \<Rightarrow> SHA_LONG list" where
  "expand_step i W = W @ [R32 (W ! (i - 3) XOR W ! (i - 8) XOR W ! (i - 14) XOR W ! (i - 16)) 1]"

definition sha_W :: "SHA_INFO \<Rightarrow> SHA_LONG list" where
  "sha_W info = fold expand_step [16..<80] (map (\<lambda>i. swap_bytes (sha_load info i)) [0..<16])"

definition sha_transform :: "SHA_INFO \<Rightarrow> SHA_INFO" where
  "sha_transform info = (let W = sha_W info; (d0, d1, d2, d3, d4) = digest info;
       (T, A, B, C, D, E) = fold (\<lambda>(step, w). step w) (zip unravel W) (sha_load info 15, d0, d1, d2, d3, d4)
     in info\<lparr>digest := (T32 (d0 + E), T32 (d1 + T), T32 (d2 + A), T32 (d3 + B), T32 (d4 + C))\<rparr>)"

subsection \<open>The reference: rounds on 32-bit words\<close>

definition ref_f :: "nat \<Rightarrow> u32 \<Rightarrow> u32 \<Rightarrow> u32 \<Rightarrow> u32" where
  "ref_f t x y z = (if t < 20 then (x AND y) OR (NOT x AND z) else if t < 40 then x XOR y XOR z
     else if t < 60 then (x AND y) OR (x AND z) OR (y AND z) else x XOR y XOR z)"

definition ref_K :: "nat \<Rightarrow> u32" where
  "ref_K t = (if t < 20 then 0x5a827999 else if t < 40 then 0x6ed9eba1 else if t < 60 then 0x8f1bbcdc else 0xca62c1d6)"

type_synonym ref_state = "u32 \<times> u32 \<times> u32 \<times> u32 \<times> u32"

definition ref_round :: "nat \<Rightarrow> u32 \<Rightarrow> ref_state \<Rightarrow> ref_state" where
  "ref_round t w = (\<lambda>(a, b, c, d, e). (word_rotl 5 a + ref_f t b c d + e + ref_K t + w, a, word_rotl 30 b, c, d))"

fun ref_expand :: "nat \<Rightarrow> u32 list \<Rightarrow> u32 list" where
  "ref_expand 0 W = W"
| "ref_expand (Suc n) W = (let t = length W in
     ref_expand n (W @ [word_rotl 1 (W ! (t - 3) XOR W ! (t - 8) XOR W ! (t - 14) XOR W ! (t - 16))]))"

definition be_word :: "byte \<Rightarrow> byte \<Rightarrow> byte \<Rightarrow> byte \<Rightarrow> u32" where
  "be_word a b c d = push_bit 24 (ucast a) OR push_bit 16 (ucast b) OR push_bit 8 (ucast c) OR ucast d"

definition ref_words :: "byte list \<Rightarrow> u32 list" where
  "ref_words bs = map (\<lambda>i. be_word (bs ! (4 * i)) (bs ! (4 * i + 1)) (bs ! (4 * i + 2)) (bs ! (4 * i + 3))) [0..<16]"

definition add_state :: "ref_state \<Rightarrow> ref_state \<Rightarrow> ref_state" where
  "add_state = (\<lambda>(a, b, c, d, e) (a', b', c', d', e'). (a + a', b + b', c + c', d + d', e + e'))"

definition ref_block :: "byte list \<Rightarrow> ref_state \<Rightarrow> ref_state" where
  "ref_block bs h = (let W = ref_expand 64 (ref_words bs) in
     add_state h (fold (\<lambda>t. ref_round t (W ! t)) [0..<80] h))"

subsection \<open>The 64-bit registers hold 32-bit values\<close>

abbreviation up32 :: "u32 \<Rightarrow> SHA_LONG" where "up32 \<equiv> ucast"
abbreviation low32 :: "SHA_LONG \<Rightarrow> u32" where "low32 \<equiv> ucast"

lemma T32_take: "T32 x = take_bit 32 x"
proof -
  have "(0xffffffff :: u64) = mask 32" by (simp add: mask_eq_exp_minus_1)
  then show ?thesis by (simp only: T32_def take_bit_eq_mask)
qed

lemma T32_up: "T32 x = up32 (low32 x)"
  by (rule bit_word_eqI) (auto simp: T32_take bit_take_bit_iff bit_ucast_iff)

lemma low_up [simp]: "low32 (up32 x) = x"
  by (rule bit_word_eqI) (auto simp: bit_ucast_iff)

lemma low_add [simp]: "low32 (x + y) = low32 x + low32 y"
proof -
  have "uint (low32 (x + y)) = take_bit 32 (take_bit 64 (uint x + uint y))"
    by (simp only: unsigned_ucast_eq uint_word_ariths(1) take_bit_eq_mod) simp
  also have "\<dots> = take_bit 32 (uint x + uint y)" by simp
  also have "\<dots> = take_bit 32 (uint (low32 x) + uint (low32 y))"
    by (simp add: unsigned_ucast_eq take_bit_add)
  also have "\<dots> = uint (low32 x + low32 y)"
    by (simp add: uint_word_ariths(1) take_bit_eq_mod)
  finally show ?thesis by (simp only: word_uint_eq_iff)
qed

lemma R32_up:
  assumes "n < 32"
  shows "R32 (up32 x) n = up32 (word_rotl n x)"
proof (rule bit_word_eqI)
  fix i :: nat
  assume i: "i < LENGTH(64)"
  have high: "\<not> bit x j" if "32 \<le> j" for j using that bit_imp_le_length [of x j] by auto
  have l: "bit (R32 (up32 x) n) i \<longleftrightarrow> i < 32 \<and> (n \<le> i \<and> bit x (i - n) \<or> bit x (32 - n + i))"
    using i assms high by (auto simp: R32_def T32_take bit_take_bit_iff bit_or_iff bit_push_bit_iff bit_drop_bit_eq bit_ucast_iff)
  have r: "bit (up32 (word_rotl n x)) i \<longleftrightarrow> i < 32 \<and> bit x ((i + (32 - n)) mod 32)"
    using i assms by (simp add: bit_ucast_iff bit_word_rotl_iff)
  show "bit (R32 (up32 x) n) i = bit (up32 (word_rotl n x)) i"
  proof (cases "n \<le> i")
    case True
    then have "i < 32 \<Longrightarrow> (i + (32 - n)) mod 32 = i - n" using assms by (simp add: le_mod_geq del: diff_add_assoc2 Nat.add_diff_assoc)
    moreover have "\<not> bit x (32 - n + i)" using True assms by (intro high) simp
    ultimately show ?thesis using l r True by (auto simp del: Nat.add_diff_assoc)
  next
    case False
    then have "(i + (32 - n)) mod 32 = 32 - n + i" using assms by simp
    with l r False show ?thesis by simp
  qed
qed

lemma low_f [simp]: "low32 (sha_f n x y z) = (if n = 1 then (low32 x AND low32 y) OR (NOT (low32 x) AND low32 z)
    else if n = 2 then low32 x XOR low32 y XOR low32 z
    else if n = 3 then (low32 x AND low32 y) OR (low32 x AND low32 z) OR (low32 y AND low32 z) else low32 x XOR low32 y XOR low32 z)"
  by (auto simp: sha_f_def f1_def f2_def f3_def f4_def intro!: bit_word_eqI
      simp: bit_and_iff bit_or_iff bit_xor_iff bit_not_iff bit_ucast_iff)

subsection \<open>The unravelled rounds are the rounds\<close>

definition up5 :: "ref_state \<Rightarrow> sha_digest" where
  "up5 = (\<lambda>(a, b, c, d, e). (up32 a, up32 b, up32 c, up32 d, up32 e))"

text \<open>Where the five variables are after \<open>k\<close> of six steps.\<close>

definition view :: "nat \<Rightarrow> sha_regs \<Rightarrow> sha_digest" where
  "view k = (\<lambda>(T, A, B, C, D, E). if k = 0 then (A, B, C, D, E) else if k = 1 then (T, A, B, C, D)
     else if k = 2 then (E, T, A, B, C) else if k = 3 then (D, E, T, A, B) else if k = 4 then (C, D, E, T, A)
     else (B, C, D, E, T))"

definition step_at :: "nat \<Rightarrow> nat \<Rightarrow> sha_step" where
  "step_at k = (if k = 0 then FA else if k = 1 then FB else if k = 2 then FC else if k = 3 then FD
     else if k = 4 then FE else FT)"

lemma group_of:
  assumes "t < 80"
  shows "low32 (sha_f (t div 20 + 1) (up32 x) (up32 y) (up32 z)) = ref_f t x y z" "low32 (sha_const (t div 20 + 1)) = ref_K t"
proof -
  consider "t < 20" "t div 20 = 0" | "20 \<le> t" "t < 40" "t div 20 = 1" | "40 \<le> t" "t < 60" "t div 20 = 2"
    | "60 \<le> t" "t div 20 = 3" using assms by atomize_elim arith
  then show "low32 (sha_f (t div 20 + 1) (up32 x) (up32 y) (up32 z)) = ref_f t x y z" "low32 (sha_const (t div 20 + 1)) = ref_K t"
    by (cases; simp add: ref_f_def ref_K_def sha_const_def CONST1_def CONST2_def CONST3_def CONST4_def del: div_less)+
qed

lemmas step_defs = FA_def FB_def FC_def FD_def FE_def FT_def

lemma step_view:
  assumes "t < 80" "k < 6" "view k r = up5 st"
  shows "view ((k + 1) mod 6) (step_at k (t div 20 + 1) (up32 w) r) = up5 (ref_round t w st)"
proof -
  define n where "n = t div 20 + 1"
  note group = group_of [OF assms(1), folded n_def]
  obtain a b c d e where st: "st = (a, b, c, d, e)" by (cases st)
  obtain T A B C D E where r: "r = (T, A, B, C, D, E)" by (cases r)
  consider "k = 0" | "k = 1" | "k = 2" | "k = 3" | "k = 4" | "k = 5" using assms(2) by atomize_elim arith
  then show ?thesis
    using assms(3) unfolding st r n_def [symmetric]
    by cases (simp_all add: view_def up5_def step_at_def step_defs ref_round_def T32_up R32_up group ac_simps
        del: low_f One_nat_def add_Suc_right)
qed

lemma unravel_steps: "unravel = map (\<lambda>t. step_at (t mod 6) (t div 20 + 1)) [0..<80]"
  by (simp add: unravel_def step_at_def upt_rec) (simp add: eval_nat_numeral)

definition ref_rounds :: "u32 list \<Rightarrow> nat \<Rightarrow> ref_state \<Rightarrow> ref_state" where
  "ref_rounds W k h = fold (\<lambda>t. ref_round t (W ! t)) [0..<k] h"

lemma rounds_view:
  assumes "length W = 80" "view 0 r = up5 h"
  shows "k \<le> 80 \<Longrightarrow> view (k mod 6) (fold (\<lambda>(step, w). step w) (take k (zip unravel (map up32 W))) r) = up5 (ref_rounds W k h)"
proof (induction k)
  case 0
  then show ?case using assms by (simp add: ref_rounds_def)
next
  case (Suc k)
  then have k: "k < 80" by simp
  have "take (Suc k) (zip unravel (map up32 W)) = take k (zip unravel (map up32 W)) @ [(unravel ! k, up32 (W ! k))]"
    using k assms(1) by (subst take_Suc_conv_app_nth) (simp_all add: unravel_steps)
  moreover have "unravel ! k = step_at (k mod 6) (k div 20 + 1)" using k by (simp add: unravel_steps)
  moreover have "Suc k mod 6 = (k mod 6 + 1) mod 6" by (simp add: mod_Suc_eq)
  ultimately show ?case
    using step_view [OF k, of "k mod 6" _ "ref_rounds W k h" "W ! k"] Suc k by (simp add: ref_rounds_def)
qed

subsection \<open>The words of a block\<close>

lemma byte_high: "8 \<le> j \<Longrightarrow> \<not> bit (b :: byte) j"
  using bit_imp_le_length [of b j] by auto

lemma byte_masks:
  "(0xff000000 :: u64) = push_bit 24 (mask 8)" "(0x00ff0000 :: u64) = push_bit 16 (mask 8)"
  "(0x0000ff00 :: u64) = push_bit 8 (mask 8)" "(0x000000ff :: u64) = mask 8"
  by (simp_all add: mask_eq_exp_minus_1 push_bit_eq_mult)

lemma swap_le_word: "swap_bytes (le_word (b0 # b1 # b2 # b3 # bs)) = up32 (be_word b0 b1 b2 b3)"
proof (rule bit_word_eqI)
  fix n :: nat
  assume "n < LENGTH(64)"
  consider "n < 8" | "8 \<le> n" "n < 16" | "16 \<le> n" "n < 24" | "24 \<le> n" "n < 32" | "32 \<le> n" by linarith
  then show "bit (swap_bytes (le_word (b0 # b1 # b2 # b3 # bs))) n = bit (up32 (be_word b0 b1 b2 b3)) n"
    unfolding swap_bytes_def byte_masks be_word_def le_word.simps
    by cases (auto simp: bit_or_iff bit_and_iff bit_push_bit_iff bit_drop_bit_eq bit_mask_iff bit_ucast_iff byte_high)
qed

lemma take_4: "k + 4 \<le> length xs \<Longrightarrow> take 4 (drop k xs) = [xs ! k, xs ! (k + 1), xs ! (k + 2), xs ! (k + 3)]"
proof (rule nth_equalityI)
  fix i
  assume k: "k + 4 \<le> length xs" and "i < length (take 4 (drop k xs))"
  then consider "i = 0" | "i = 1" | "i = 2" | "i = 3" by atomize_elim auto
  then show "take 4 (drop k xs) ! i = [xs ! k, xs ! (k + 1), xs ! (k + 2), xs ! (k + 3)] ! i" using k by cases simp_all
qed simp

lemma swap_load:
  assumes "length (sha_buf info) = 64" "i < 16"
  shows "swap_bytes (sha_load info i) = up32 (ref_words (sha_buf info) ! i)"
proof -
  let ?bs = "sha_buf info"
  have "take 8 (drop (4 * i) (sha_memory info)) = take 4 (drop (4 * i) (sha_memory info)) @ take 4 (drop (4 * i + 4) (sha_memory info))"
    using take_add [of 4 4 "drop (4 * i) (sha_memory info)"] by (simp add: add.commute)
  moreover have "take 4 (drop (4 * i) (sha_memory info)) = [?bs ! (4 * i), ?bs ! (4 * i + 1), ?bs ! (4 * i + 2), ?bs ! (4 * i + 3)]"
    using assms by (subst take_4) (simp_all add: sha_memory_def nth_append)
  ultimately show ?thesis
    using assms by (simp add: sha_load_def swap_le_word ref_words_def del: le_word.simps)
qed

lemma length_ref_words [simp]: "length (ref_words bs) = 16"
  by (simp add: ref_words_def)

lemma length_ref_expand [simp]: "length (ref_expand n W) = length W + n"
  by (induction n arbitrary: W) (simp_all add: Let_def)

lemma up_xor: "up32 x XOR up32 y = up32 (x XOR y)"
  by (rule bit_word_eqI) (auto simp: bit_xor_iff bit_ucast_iff)

lemma expand_ref:
  "16 \<le> length V \<Longrightarrow> fold expand_step [length V..<length V + n] (map up32 V) = map up32 (ref_expand n V)"
proof (induction n arbitrary: V)
  case (Suc n)
  let ?t = "length V"
  let ?V = "V @ [word_rotl 1 (V ! (?t - 3) XOR V ! (?t - 8) XOR V ! (?t - 14) XOR V ! (?t - 16))]"
  have "expand_step ?t (map up32 V) = map up32 ?V" using Suc.prems by (simp add: expand_step_def up_xor R32_up)
  then have "fold expand_step [?t..<?t + Suc n] (map up32 V) = fold expand_step [length ?V..<length ?V + n] (map up32 ?V)"
    by (simp add: upt_conv_Cons del: upt_Suc)
  also have "\<dots> = map up32 (ref_expand n ?V)" using Suc.prems by (intro Suc.IH) simp
  finally show ?case by (simp add: Let_def)
qed simp

lemma sha_W_ref:
  assumes "length (sha_buf info) = 64"
  shows "sha_W info = map up32 (ref_expand 64 (ref_words (sha_buf info)))"
proof -
  have "map (\<lambda>i. swap_bytes (sha_load info i)) [0..<16] = map up32 (ref_words (sha_buf info))"
    using swap_load [OF assms] by (auto simp: list_eq_iff_nth_eq)
  then show ?thesis using expand_ref [of "ref_words (sha_buf info)" 64] by (simp add: sha_W_def)
qed

lemma transform_ref:
  assumes "length (sha_buf info) = 64" "digest info = up5 h"
  shows "sha_transform info = info\<lparr>digest := up5 (ref_block (sha_buf info) h)\<rparr>"
proof -
  obtain a b c d e where h: "h = (a, b, c, d, e)" by (cases h)
  let ?W = "ref_expand 64 (ref_words (sha_buf info))"
  obtain T A B C D E where r: "fold (\<lambda>(step, w). step w) (zip unravel (map up32 ?W)) (sha_load info 15, up32 a, up32 b, up32 c, up32 d, up32 e)
      = (T, A, B, C, D, E)" by (metis prod.exhaust)
  have "view (80 mod 6) (T, A, B, C, D, E) = up5 (ref_rounds ?W 80 h)"
    using rounds_view [of ?W "(sha_load info 15, up32 a, up32 b, up32 c, up32 d, up32 e)" h 80] r
    by (simp add: view_def up5_def h unravel_steps)
  then show ?thesis
    using assms(2) sha_W_ref [OF assms(1)] r
    by (auto simp: sha_transform_def Let_def h up5_def view_def T32_up ref_block_def add_state_def ref_rounds_def split: prod.splits)
qed

text \<open>C20: The unravelled transformation on 64-bit registers is the SHA-1 compression function on 32-bit words, for
  every content of the buffer and every chaining value; what the eight-byte loads read beyond a word, and
  beyond the buffer, has no influence.\<close>

theorem sha_transform_correct:
  assumes "length (sha_buf info) = 64" "digest info = up5 h"
  shows "sha_transform info = info\<lparr>digest := up5 (ref_block (sha_buf info) h)\<rparr>"
  by (rule transform_ref [OF assms])

text \<open>A context on a cleared stack.\<close>

definition zero_info :: SHA_INFO where
  "zero_info = \<lparr>digest = up5 (0, 0, 0, 0, 0), count_lo = 0, count_hi = 0, sha_buf = replicate 64 0, sha_local = 0\<rparr>"

theorem sha_transform_correct_witness:
  "sha_transform zero_info = zero_info\<lparr>digest := up5 (ref_block (replicate 64 0) (0, 0, 0, 0, 0))\<rparr>"
  using sha_transform_correct [of zero_info "(0, 0, 0, 0, 0)"] by (simp add: zero_info_def del: replicate.simps)

subsection \<open>\<open>sha_init\<close>, \<open>sha_update\<close>, \<open>sha_final\<close>\<close>

definition sha_init :: "SHA_INFO \<Rightarrow> SHA_INFO" where
  "sha_init info = info\<lparr>digest := (0x67452301, 0xefcdab89, 0x98badcfe, 0x10325476, 0xc3d2e1f0),
     count_lo := 0, count_hi := 0, sha_local := 0\<rparr>"

text \<open>\<open>memcpy\<close> and \<open>memset\<close> into the buffer; \<open>None\<close> is a write behind it.\<close>

definition sha_put :: "nat \<Rightarrow> byte list \<Rightarrow> SHA_INFO \<Rightarrow> SHA_INFO option" where
  "sha_put off bs info = (if off + length bs \<le> SHA_BLOCKSIZE
     then Some (info\<lparr>sha_buf := take off (sha_buf info) @ bs @ drop (off + length bs) (sha_buf info)\<rparr>) else None)"

text \<open>The loop over whole blocks and the copy of the rest.\<close>

function sha_rest :: "SHA_INFO \<Rightarrow> byte list \<Rightarrow> SHA_INFO option" where
  "sha_rest info bs = (if length bs \<ge> SHA_BLOCKSIZE
     then do { info \<leftarrow> sha_put 0 (take SHA_BLOCKSIZE bs) info; sha_rest (sha_transform info) (drop SHA_BLOCKSIZE bs) }
     else do { info \<leftarrow> sha_put 0 bs info; Some (info\<lparr>sha_local := of_nat (length bs)\<rparr>) })"
  by pat_completeness auto
termination by (relation "measure (\<lambda>(_, bs). length bs)") (auto simp: SHA_BLOCKSIZE_def)

declare sha_rest.simps [simp del]

definition sha_count :: "int \<Rightarrow> SHA_INFO \<Rightarrow> SHA_INFO" where
  "sha_count count info = (let clo = T32 (count_lo info + push_bit 3 (of_int count)) in
     info\<lparr>count_lo := clo,
       count_hi := (if clo < count_lo info then count_hi info + 1 else count_hi info) + drop_bit 29 (of_int count)\<rparr>)"

text \<open>
  A negative \<open>count\<close> becomes a huge length in one of the calls of \<open>memcpy\<close>; \<open>None\<close> for that and for reading
  behind the given bytes.
\<close>

definition sha_update :: "SHA_INFO \<Rightarrow> byte list \<Rightarrow> int \<Rightarrow> SHA_INFO option" where
  "sha_update info buffer count =
     (if count < 0 \<or> nat count > length buffer then None
      else let info = sha_count count info; bs = take (nat count) buffer; l = nat (sint (sha_local info)) in
        if sha_local info \<noteq> 0
        then let i = min (SHA_BLOCKSIZE - l) (nat count) in
          do { info \<leftarrow> sha_put l (take i bs) info;
               let info = info\<lparr>sha_local := of_nat (l + i)\<rparr>;
               if l + i = SHA_BLOCKSIZE then sha_rest (sha_transform info) (drop i bs) else Some info }
        else sha_rest info bs)"

text \<open>The eight bytes of the bit count, and the bytes of one word of the digest.\<close>

definition sha_word_bytes :: "SHA_LONG \<Rightarrow> byte list" where
  "sha_word_bytes w = [ucast (drop_bit 24 w AND 0xff), ucast (drop_bit 16 w AND 0xff), ucast (drop_bit 8 w AND 0xff), ucast (w AND 0xff)]"

definition sha_final :: "SHA_INFO \<Rightarrow> (byte list \<times> SHA_INFO) option" where
  "sha_final info = (let lo = count_lo info; hi = count_hi info; count = unat (drop_bit 3 lo AND 0x3f) in
     do { info \<leftarrow> sha_put count [0x80] info;
          let count = count + 1;
          info \<leftarrow> (if count > SHA_BLOCKSIZE - 8
            then do { info \<leftarrow> sha_put count (replicate (SHA_BLOCKSIZE - count) 0) info;
                      sha_put 0 (replicate (SHA_BLOCKSIZE - 8) 0) (sha_transform info) }
            else sha_put count (replicate (SHA_BLOCKSIZE - 8 - count) 0) info);
          info \<leftarrow> sha_put 56 (sha_word_bytes hi @ sha_word_bytes lo) info;
          let info = sha_transform info;
          Some (case digest info of (d0, d1, d2, d3, d4) \<Rightarrow>
            sha_word_bytes d0 @ sha_word_bytes d1 @ sha_word_bytes d2 @ sha_word_bytes d3 @ sha_word_bytes d4, info) })"

text \<open>A length that does not fit an \<open>int\<close> is truncated by the call of \<open>sha_update\<close>. \<open>info\<close> is what the stack holds.\<close>

definition as_int :: "u64 \<Rightarrow> int" where
  "as_int sz = sint (ucast sz :: i32)"

definition sha_data :: "SHA_INFO \<Rightarrow> byte list \<Rightarrow> u64 \<Rightarrow> byte list option" where
  "sha_data info data sz = do { info \<leftarrow> sha_update (sha_init info) data (as_int sz);
     (d, info) \<leftarrow> sha_final info; Some d }"

definition calculate_sha :: "SHA_INFO \<Rightarrow> byte list \<Rightarrow> u64 \<Rightarrow> int \<Rightarrow> (byte list option \<times> SHA_INFO) option" where
  "calculate_sha info data sz step =
     (if step = 1 then do { info \<leftarrow> sha_update (sha_init info) data (as_int sz); Some (None, info) }
      else if step = 2 then do { info \<leftarrow> sha_update info data (as_int sz); Some (None, info) }
      else if step = 3 then do { info \<leftarrow> sha_update info data (as_int sz); (d, info) \<leftarrow> sha_final info; Some (Some d, info) }
      else if step = 4 then do { info \<leftarrow> sha_update (sha_init info) data (as_int sz); (d, info) \<leftarrow> sha_final info; Some (Some d, info) }
      else Some (None, info))"

text \<open>The loop of \<open>sha_stream\<close> over the pieces that \<open>fread\<close> gives.\<close>

fun sha_updates :: "SHA_INFO \<Rightarrow> byte list list \<Rightarrow> SHA_INFO option" where
  "sha_updates info [] = Some info"
| "sha_updates info (p # ps) = do { info \<leftarrow> sha_update info p (int (length p)); sha_updates info ps }"

definition sha_stream :: "SHA_INFO \<Rightarrow> byte list list \<Rightarrow> byte list option" where
  "sha_stream info pieces = do { info \<leftarrow> sha_updates (sha_init info) pieces; (d, info) \<leftarrow> sha_final info; Some d }"

subsection \<open>The reference: padding and digest\<close>

definition be_bytes :: "nat \<Rightarrow> nat \<Rightarrow> byte list" where
  "be_bytes n v = map (\<lambda>i. of_nat (v div 256 ^ (n - 1 - i))) [0..<n]"

definition sha1_pad :: "byte list \<Rightarrow> byte list" where
  "sha1_pad msg = msg @ [0x80] @ replicate ((119 - length msg mod 64) mod 64) 0 @ be_bytes 8 (8 * length msg)"

function ref_hash :: "ref_state \<Rightarrow> byte list \<Rightarrow> ref_state" where
  "ref_hash h bs = (if length bs < 64 then h else ref_hash (ref_block (take 64 bs) h) (drop 64 bs))"
  by pat_completeness auto
termination by (relation "measure (\<lambda>(_, bs). length bs)") auto

declare ref_hash.simps [simp del]

definition ref_init :: ref_state where
  "ref_init = (0x67452301, 0xefcdab89, 0x98badcfe, 0x10325476, 0xc3d2e1f0)"

definition ref_digest :: "ref_state \<Rightarrow> byte list" where
  "ref_digest = (\<lambda>(a, b, c, d, e). concat (map (\<lambda>w. be_bytes 4 (unat w)) [a, b, c, d, e]))"

definition sha1 :: "byte list \<Rightarrow> byte list" where
  "sha1 msg = ref_digest (ref_hash ref_init (sha1_pad msg))"

end
