(* ===== verification/Sha1Hash.thy ===== *)
theory Sha1Hash
  imports Sha1
begin

unbundle bit_operations_syntax

text \<open>
  What \<open>sha_update\<close> and \<open>sha_final\<close> compute: the state after any sequence of updates is determined by the
  message they spell together, and the digest is that of the padded message.
\<close>

subsection \<open>Whole blocks\<close>

definition rest_of :: "byte list \<Rightarrow> byte list" where
  "rest_of bs = drop (64 * (length bs div 64)) bs"

lemma length_rest_of: "length (rest_of bs) = length bs mod 64"
  by (simp add: rest_of_def minus_mult_div_eq_mod)

lemma rest_of_short: "length bs < 64 \<Longrightarrow> rest_of bs = bs"
  by (simp add: rest_of_def)

lemma rest_of_long: "64 \<le> length bs \<Longrightarrow> rest_of (drop 64 bs) = rest_of bs"
proof -
  assume "64 \<le> length bs"
  then have "length bs div 64 = Suc ((length bs - 64) div 64)" by (simp add: le_div_geq)
  then show ?thesis by (simp add: rest_of_def add.commute)
qed

lemma ref_hash_short: "length bs < 64 \<Longrightarrow> ref_hash h bs = h"
  by (simp add: ref_hash.simps)

lemma ref_hash_long: "64 \<le> length bs \<Longrightarrow> ref_hash h bs = ref_hash (ref_block (take 64 bs) h) (drop 64 bs)"
  by (subst ref_hash.simps) simp

lemma ref_hash_append: "ref_hash h (a @ b) = ref_hash (ref_hash h a) (rest_of a @ b)"
proof (induction h a rule: ref_hash.induct)
  case (1 h a)
  show ?case
  proof (cases "length a < 64")
    case True
    then show ?thesis by (simp add: ref_hash_short rest_of_short)
  next
    case False
    then show ?thesis using 1 by (simp add: ref_hash_long rest_of_long)
  qed
qed

lemma rest_of_append: "rest_of (a @ b) = rest_of (rest_of a @ b)"
proof (induction "length a" arbitrary: a rule: less_induct)
  case less
  show ?case
  proof (cases "length a < 64")
    case True
    then show ?thesis by (simp add: rest_of_short)
  next
    case False
    then have "rest_of (a @ b) = rest_of (drop 64 a @ b)" using rest_of_long [of "a @ b"] by simp
    also have "\<dots> = rest_of (rest_of (drop 64 a) @ b)" using less [of "drop 64 a"] False by simp
    finally show ?thesis using False by (simp add: rest_of_long)
  qed
qed

subsection \<open>The state between updates\<close>

text \<open>The chaining value is \<open>h\<close> and the buffer holds \<open>t\<close>.\<close>

definition buffered :: "ref_state \<Rightarrow> byte list \<Rightarrow> SHA_INFO \<Rightarrow> bool" where
  "buffered h t info \<longleftrightarrow> length (sha_buf info) = 64 \<and> digest info = up5 h \<and> length t < 64 \<and>
     take (length t) (sha_buf info) = t \<and> sha_local info = of_nat (length t)"

lemma sha_put_some:
  assumes "off + length bs \<le> 64" "length (sha_buf info) = 64"
  shows "\<exists>buf. sha_put off bs info = Some (info\<lparr>sha_buf := buf\<rparr>) \<and> length buf = 64 \<and>
    take (off + length bs) buf = take off (sha_buf info) @ bs \<and> drop (off + length bs) buf = drop (off + length bs) (sha_buf info)"
  using assms by (intro exI [of _ "take off (sha_buf info) @ bs @ drop (off + length bs) (sha_buf info)"])
    (simp add: sha_put_def SHA_BLOCKSIZE_def)

lemma transform_full:
  "length (sha_buf info) = 64 \<Longrightarrow> digest info = up5 h \<Longrightarrow>
   sha_transform info = info\<lparr>digest := up5 (ref_block (sha_buf info) h)\<rparr>"
  by (rule transform_ref)

lemma sha_rest_buffered:
  "length (sha_buf info) = 64 \<Longrightarrow> digest info = up5 h \<Longrightarrow>
   \<exists>info'. sha_rest info bs = Some info' \<and> buffered (ref_hash h bs) (rest_of bs) info' \<and>
     count_lo info' = count_lo info \<and> count_hi info' = count_hi info"
proof (induction info bs arbitrary: h rule: sha_rest.induct)
  case (1 info bs)
  show ?case
  proof (cases "64 \<le> length bs")
    case False
    then obtain buf where "sha_put 0 bs info = Some (info\<lparr>sha_buf := buf\<rparr>)" "length buf = 64" "take (length bs) buf = bs"
      using sha_put_some [of 0 bs info] 1(2) by auto
    with False 1(3) show ?thesis
      by (subst sha_rest.simps) (simp add: SHA_BLOCKSIZE_def buffered_def ref_hash_short rest_of_short)
  next
    case True
    then obtain buf where p: "sha_put 0 (take 64 bs) info = Some (info\<lparr>sha_buf := buf\<rparr>)" "length buf = 64" "buf = take 64 bs"
      using sha_put_some [of 0 "take 64 bs" info] 1(2) by auto
    have t: "sha_transform (info\<lparr>sha_buf := buf\<rparr>) = info\<lparr>sha_buf := buf, digest := up5 (ref_block buf h)\<rparr>"
      using transform_full [of "info\<lparr>sha_buf := buf\<rparr>" h] p(2) 1(3) by simp
    from 1(1) [of "info\<lparr>sha_buf := buf\<rparr>" "ref_block buf h"] True p t
    obtain info' where "sha_rest (sha_transform (info\<lparr>sha_buf := buf\<rparr>)) (drop 64 bs) = Some info'"
      "buffered (ref_hash (ref_block buf h) (drop 64 bs)) (rest_of (drop 64 bs)) info'"
      "count_lo info' = count_lo info" "count_hi info' = count_hi info"
      by (auto simp: SHA_BLOCKSIZE_def)
    with True p show ?thesis
      by (subst sha_rest.simps) (simp add: SHA_BLOCKSIZE_def ref_hash_long rest_of_long)
  qed
qed

lemma update_buffered:
  assumes "buffered h t info" "0 \<le> count" "nat count = length bs"
  shows "\<exists>info'. sha_update info bs count = Some info' \<and> buffered (ref_hash h (t @ bs)) (rest_of (t @ bs)) info' \<and>
    count_lo info' = count_lo (sha_count count info) \<and> count_hi info' = count_hi (sha_count count info)"
proof -
  define info1 where "info1 = sha_count count info"
  have b: "length (sha_buf info1) = 64" "digest info1 = up5 h" "length t < 64" "take (length t) (sha_buf info1) = t"
    "sha_local info1 = of_nat (length t)"
    using assms(1) by (auto simp: buffered_def info1_def sha_count_def Let_def)
  have l: "nat (sint (sha_local info1)) = length t" using b(3,5)
    by (simp add: signed_of_nat signed_take_bit_int_eq_self)
  have z: "sha_local info1 \<noteq> 0 \<longleftrightarrow> t \<noteq> []"
    using l b(5) by (cases "t = []") auto
  have u: "sha_update info bs count = (if t \<noteq> [] then let i = min (64 - length t) (length bs) in
          do { info \<leftarrow> sha_put (length t) (take i bs) info1;
               let info = info\<lparr>sha_local := of_nat (length t + i)\<rparr>;
               if length t + i = 64 then sha_rest (sha_transform info) (drop i bs) else Some info }
        else sha_rest info1 bs)"
    using assms(2,3) l by (simp add: sha_update_def info1_def [symmetric] Let_def z SHA_BLOCKSIZE_def)
  show ?thesis
  proof (cases "t = []")
    case True
    then show ?thesis using u sha_rest_buffered [OF b(1,2), of bs] by (simp add: info1_def)
  next
    case False
    let ?i = "min (64 - length t) (length bs)"
    have i64: "length t + min (64 - length t) (length bs) \<le> 64" using b(3) by simp
    obtain buf where p: "sha_put (length t) (take ?i bs) info1 = Some (info1\<lparr>sha_buf := buf\<rparr>)" "length buf = 64"
        "take (length t + ?i) buf = t @ take ?i bs"
      using sha_put_some [of "length t" "take ?i bs" info1] b i64 by auto
    show ?thesis
    proof (cases "length t + length bs < 64")
      case True
      then have "?i = length bs" by simp
      then show ?thesis
        using u False True p b by (simp add: Let_def buffered_def ref_hash_short rest_of_short info1_def)
    next
      case full: False
      then have i: "?i = 64 - length t" by simp
      then have buf: "buf = t @ take ?i bs" using p(2,3) b(3) by simp
      let ?info = "info1\<lparr>sha_buf := buf, sha_local := of_nat (length t + ?i)\<rparr>"
      have t: "sha_transform ?info = ?info\<lparr>digest := up5 (ref_block buf h)\<rparr>"
        using transform_full [of ?info h] p(2) b(2) by simp
      from sha_rest_buffered [of "sha_transform ?info" "ref_block buf h" "drop ?i bs"] t p(2)
      obtain info' where r: "sha_rest (sha_transform ?info) (drop ?i bs) = Some info'"
        "buffered (ref_hash (ref_block buf h) (drop ?i bs)) (rest_of (drop ?i bs)) info'"
        "count_lo info' = count_lo info1" "count_hi info' = count_hi info1" by auto
      have "take 64 (t @ bs) = buf" "drop 64 (t @ bs) = drop ?i bs" using b(3) full i buf by simp_all
      then have "ref_hash h (t @ bs) = ref_hash (ref_block buf h) (drop ?i bs)" "rest_of (t @ bs) = rest_of (drop ?i bs)"
        using ref_hash_long [of "t @ bs" h] rest_of_long [of "t @ bs"] full by auto
      then show ?thesis using u False p r i b(3) by (simp add: Let_def info1_def)
    qed
  qed
qed

subsection \<open>The bit count\<close>

text \<open>The two counters after \<open>n\<close> bytes.\<close>

definition counted :: "nat \<Rightarrow> SHA_INFO \<Rightarrow> bool" where
  "counted n info \<longleftrightarrow> count_lo info = of_nat (8 * n mod 2 ^ 32) \<and> count_hi info = of_nat (8 * n div 2 ^ 32)"

lemma T32_of_nat: "T32 (of_nat n) = of_nat (n mod 2 ^ 32)"
proof -
  have "unat (T32 (of_nat n)) = take_bit 32 (take_bit 64 n)"
    by (simp add: T32_take unsigned_take_bit_eq unsigned_of_nat)
  also have "\<dots> = take_bit 64 (n mod 2 ^ 32)" by (simp only: take_bit_take_bit take_bit_eq_mod [symmetric])
  also have "\<dots> = unat (of_nat (n mod 2 ^ 32) :: u64)" by (simp only: unsigned_of_nat) simp
  finally show ?thesis by (simp only: word_unat_eq_iff)
qed

lemma div_carry:
  fixes a b K :: nat
  assumes "a < K"
  shows "(a + b) div K = b div K + (if (a + b) mod K < a then 1 else 0)"
proof -
  define q r where "q = b div K" and "r = b mod K"
  have r: "r < K" "a + b = K * q + (a + r)" using assms by (simp_all add: q_def r_def)
  show ?thesis
  proof (cases "a + r < K")
    case True
    then have "(a + b) div K = q" "(a + b) mod K = a + r" unfolding r(2) by simp_all
    then show ?thesis by (simp add: q_def)
  next
    case False
    then have "a + b = K * Suc q + (a + r - K)" "a + r - K < K" using r assms by simp_all
    then have "(a + b) div K = Suc q" "(a + b) mod K = a + r - K" by (metis div_mult_self4 div_less add_0 add_0_right assms less_nat_zero_code, metis mod_mult_self4 mod_less)
    then show ?thesis using r(1) False by (simp add: q_def)
  qed
qed

lemma counted_sha_count:
  assumes "counted n info" "m < 2 ^ 31"
  shows "counted (n + m) (sha_count (int m) info)"
proof -
  define a where "a = 8 * n mod 2 ^ 32"
  have a: "a < 2 ^ 32" "count_lo info = of_nat a" using assms(1) by (simp_all add: a_def counted_def)
  have clo: "T32 (count_lo info + push_bit 3 (of_int (int m))) = of_nat ((a + 8 * m) mod 2 ^ 32)"
    using a(2) T32_of_nat [of "a + 8 * m"] by (simp add: push_bit_eq_mult mult.commute)
  have hi: "drop_bit 29 (of_int (int m) :: u64) = of_nat (8 * m div 2 ^ 32)"
  proof -
    have "unat (drop_bit 29 (of_nat m :: u64)) = m div 2 ^ 29"
      using assms(2) by (simp only: unat_drop_bit_eq unsigned_of_nat) (simp add: drop_bit_eq_div take_bit_nat_eq_self)
    also have "\<dots> = unat (of_nat (8 * m div 2 ^ 32) :: u64)"
      using assms(2) by (simp only: unsigned_of_nat) (simp add: take_bit_nat_eq_self)
    finally show ?thesis by (simp only: word_unat_eq_iff of_int_of_nat_eq)
  qed
  have less: "(of_nat ((a + 8 * m) mod 2 ^ 32) :: u64) < of_nat a \<longleftrightarrow> (a + 8 * m) mod 2 ^ 32 < a"
    using a(1) by (simp add: word_less_nat_alt unsigned_of_nat take_bit_nat_eq_self)
  have carry: "(a + 8 * m) div 2 ^ 32 = 8 * m div 2 ^ 32 + (if (a + 8 * m) mod 2 ^ 32 < a then 1 else 0)"
    using a(1) by (rule div_carry)
  have "8 * (n + m) = 2 ^ 32 * (8 * n div 2 ^ 32) + (a + 8 * m)"
    using mult_div_mod_eq [of "2 ^ 32" "8 * n"] by (simp only: a_def distrib_left)
  then have "8 * (n + m) mod 2 ^ 32 = (a + 8 * m) mod 2 ^ 32"
    and "8 * (n + m) div 2 ^ 32 = 8 * n div 2 ^ 32 + (a + 8 * m) div 2 ^ 32"
    by (simp_all only: mod_mult_self4) (rule div_mult_self4, simp)
  then show ?thesis
    using assms(1) clo hi less carry a(2) by (simp add: counted_def sha_count_def Let_def)
qed

subsection \<open>Bytes of numbers\<close>

lemma length_be_bytes [simp]: "length (be_bytes n v) = n"
  by (simp add: be_bytes_def)

lemma of_nat_byte_mod: "(of_nat (x mod 256) :: byte) = of_nat x"
  by (simp add: word_unat_eq_iff unsigned_of_nat take_bit_eq_mod)

lemma byte_digit_mod:
  assumes "j < k"
  shows "(of_nat (x mod 256 ^ k div 256 ^ j) :: byte) = of_nat (x div 256 ^ j)"
proof -
  obtain d where k: "k = j + Suc d" using assms less_imp_Suc_add by auto
  have "x mod 256 ^ k div 256 ^ j = x div 256 ^ j mod 256 ^ Suc d"
    unfolding k power_add by (simp only: mod_mult2_eq) (simp add: div_mult2_eq)
  then have "(x mod 256 ^ k div 256 ^ j) mod 256 = (x div 256 ^ j) mod 256"
    by (simp add: mod_mod_cancel)
  then show ?thesis by (metis of_nat_byte_mod)
qed

lemma be_bytes_mod: "n \<le> k \<Longrightarrow> be_bytes n (x mod 256 ^ k) = be_bytes n x"
  by (auto simp: be_bytes_def intro!: byte_digit_mod)

lemma be_bytes_8: "be_bytes 8 v = be_bytes 4 (v div 2 ^ 32) @ be_bytes 4 v"
proof -
  have "[0..<8] = [0, 1, 2, 3, 4, 5, 6, 7 :: nat]" "[0..<4] = [0, 1, 2, 3 :: nat]" by code_simp+
  then show ?thesis by (simp add: be_bytes_def div_mult2_eq [symmetric])
qed

lemma unat_drop_bit: "unat (drop_bit k w) = unat (w :: SHA_LONG) div 2 ^ k"
  by (rule trans [OF unat_drop_bit_eq drop_bit_eq_div])

lemma byte_of: "(ucast (drop_bit k w AND 0xff) :: byte) = of_nat (unat (w :: SHA_LONG) div 2 ^ k)"
proof -
  have m: "(0xff :: SHA_LONG) = mask 8" by (simp add: mask_eq_exp_minus_1)
  have "(ucast (drop_bit k w AND 0xff) :: byte) = ucast (drop_bit k w)"
    unfolding m by (rule bit_word_eqI) (auto simp: bit_ucast_iff bit_and_iff bit_mask_iff)
  also have "\<dots> = of_nat (unat (drop_bit k w))" by simp
  finally show ?thesis by (simp only: unat_drop_bit)
qed

lemma sha_word_bytes_be: "sha_word_bytes w = be_bytes 4 (unat w)"
proof -
  have "[0..<4] = [0, 1, 2, 3 :: nat]" by code_simp
  then show ?thesis
    using byte_of [of 24 w] byte_of [of 16 w] byte_of [of 8 w] byte_of [of 0 w]
    by (simp add: sha_word_bytes_def be_bytes_def)
qed

lemma count_bytes:
  assumes "counted n info"
  shows "sha_word_bytes (count_hi info) @ sha_word_bytes (count_lo info) = be_bytes 8 (8 * n)"
proof -
  have "unat (count_hi info) = (8 * n div 2 ^ 32) mod 256 ^ 8" "unat (count_lo info) = (8 * n) mod 256 ^ 4"
    using assms by (simp_all add: counted_def unsigned_of_nat take_bit_eq_mod)
  then have "sha_word_bytes (count_hi info) = be_bytes 4 (8 * n div 2 ^ 32)" "sha_word_bytes (count_lo info) = be_bytes 4 (8 * n)"
    using be_bytes_mod [of 4 8 "8 * n div 2 ^ 32"] be_bytes_mod [of 4 4 "8 * n"] by (simp_all only: sha_word_bytes_be)
  then show ?thesis by (simp only: be_bytes_8)
qed

lemma count_local:
  assumes "counted n info"
  shows "unat (drop_bit 3 (count_lo info) AND 0x3f) = n mod 64"
proof -
  have m: "(0x3f :: SHA_LONG) = mask 6" by (simp add: mask_eq_exp_minus_1)
  have "unat (drop_bit 3 (count_lo info) AND 0x3f) = (8 * n mod 2 ^ 32) div 8 mod 64"
    using assms unfolding m take_bit_eq_mask [symmetric] counted_def unsigned_take_bit_eq unat_drop_bit
    by (simp add: unsigned_of_nat take_bit_eq_mod)
  also have "8 * n mod 2 ^ 32 = 8 * (n mod 2 ^ 29)"
    using mult_mod_right [of 8 n "2 ^ 29"] by simp
  also have "8 * (n mod 2 ^ 29) div 8 mod 64 = n mod 64" by (simp add: mod_mod_cancel)
  finally show ?thesis .
qed

subsection \<open>The digest\<close>

lemma ref_hash_one: "length bs = 64 \<Longrightarrow> ref_hash h bs = ref_block bs h"
  by (simp add: ref_hash_long ref_hash_short)

lemma ref_hash_two: "length a = 64 \<Longrightarrow> length b = 64 \<Longrightarrow> ref_hash h (a @ b) = ref_block b (ref_block a h)"
  by (simp add: ref_hash_long ref_hash_short)

lemma final_digest: "unat (up32 x) = unat x"
  using unat_less_power [OF refl, of x] by (simp add: unsigned_ucast_eq take_bit_nat_eq_self)

lemma final_buffered:
  assumes "buffered h t info" "counted n info" "length t = n mod 64"
  shows "\<exists>info'. sha_final info = Some (ref_digest (ref_hash h (t @ [0x80] @
    replicate ((119 - n mod 64) mod 64) 0 @ be_bytes 8 (8 * n))), info')"
proof -
  let ?r = "length t" and ?len = "be_bytes 8 (8 * n)"
  have b: "length (sha_buf info) = 64" "digest info = up5 h" "?r < 64" "take ?r (sha_buf info) = t"
    using assms(1) by (auto simp: buffered_def)
  have cnt: "unat (drop_bit 3 (count_lo info) AND 0x3f) = ?r" using count_local [OF assms(2)] assms(3) by simp
  obtain b1 where p1: "sha_put ?r [0x80] info = Some (info\<lparr>sha_buf := b1\<rparr>)" "length b1 = 64" "take (?r + 1) b1 = t @ [0x80]"
    using sha_put_some [of ?r "[0x80]" info] b by auto
  text \<open>The last block, when 56 bytes of it are filled.\<close>
  have last: "\<exists>info'. (do { info \<leftarrow> sha_put 56 (sha_word_bytes (count_hi info) @ sha_word_bytes (count_lo info)) i;
          let info = sha_transform info;
          Some (case digest info of (d0, d1, d2, d3, d4) \<Rightarrow>
            sha_word_bytes d0 @ sha_word_bytes d1 @ sha_word_bytes d2 @ sha_word_bytes d3 @ sha_word_bytes d4, info) }) =
      Some (ref_digest (ref_block (front @ ?len) h'), info')"
    if "length (sha_buf i) = 64" "digest i = up5 h'" "take 56 (sha_buf i) = front" for i h' front
  proof -
    define b3 where "b3 = front @ ?len"
    have p3: "sha_put 56 ?len i = Some (i\<lparr>sha_buf := b3\<rparr>)" "length b3 = 64"
      using that by (auto simp: sha_put_def SHA_BLOCKSIZE_def b3_def)
    obtain a1 a2 a3 a4 a5 where d: "ref_block b3 h' = (a1, a2, a3, a4, a5)" by (cases "ref_block b3 h'")
    have "sha_transform (i\<lparr>sha_buf := b3\<rparr>) = i\<lparr>sha_buf := b3, digest := up5 (ref_block b3 h')\<rparr>"
      using transform_full [of "i\<lparr>sha_buf := b3\<rparr>" h'] p3(2) that(2) by simp
    then show ?thesis
      unfolding count_bytes [OF assms(2)]
      using p3 d by (simp add: b3_def [symmetric] up5_def ref_digest_def sha_word_bytes_be final_digest)
  qed
  show ?thesis
  proof (cases "?r + 1 > 56")
    case False
    define z where "z = replicate (55 - ?r) (0 :: byte)"
    obtain b2 where p2: "sha_put (?r + 1) z (info\<lparr>sha_buf := b1\<rparr>) = Some (info\<lparr>sha_buf := b2\<rparr>)" "length b2 = 64"
        "take 56 b2 = t @ [0x80] @ z"
      using sha_put_some [of "?r + 1" z "info\<lparr>sha_buf := b1\<rparr>"] p1 False by (auto simp: z_def)
    have z: "replicate ((119 - n mod 64) mod 64) 0 = z" "length (t @ [0x80] @ z @ ?len) = 64"
      using False assms(3) by (simp_all add: z_def le_mod_geq)
    have "56 - Suc ?r = 55 - ?r" by simp
    then show ?thesis
      using last [of "info\<lparr>sha_buf := b2\<rparr>" h "t @ [0x80] @ z"] p1 p2 b False cnt ref_hash_one [OF z(2)]
      by (simp add: sha_final_def SHA_BLOCKSIZE_def Let_def z(1) z_def [symmetric])
  next
    case True
    define z where "z = replicate (63 - ?r) (0 :: byte)"
    obtain b2 where p2: "sha_put (?r + 1) z (info\<lparr>sha_buf := b1\<rparr>) = Some (info\<lparr>sha_buf := b2\<rparr>)" "length b2 = 64"
        "b2 = t @ [0x80] @ z"
      using sha_put_some [of "?r + 1" z "info\<lparr>sha_buf := b1\<rparr>"] p1 b(3) by (auto simp: z_def)
    let ?i = "info\<lparr>sha_buf := b2, digest := up5 (ref_block b2 h)\<rparr>"
    have t: "sha_transform (info\<lparr>sha_buf := b2\<rparr>) = ?i"
      using transform_full [of "info\<lparr>sha_buf := b2\<rparr>" h] p2(2) b(2) by simp
    obtain b4 where p4: "sha_put 0 (replicate 56 0) ?i = Some (?i\<lparr>sha_buf := b4\<rparr>)" "length b4 = 64" "take 56 b4 = replicate 56 0"
      using sha_put_some [of 0 "replicate 56 0" ?i] p2(2) by auto
    have "replicate ((119 - n mod 64) mod 64) (0 :: byte) = z @ replicate 56 0"
      using True assms(3) by (simp add: z_def flip: replicate_add)
    then have pad: "t @ [0x80] @ replicate ((119 - n mod 64) mod 64) 0 @ ?len = b2 @ (replicate 56 0 @ ?len)"
      using p2(3) by simp
    have "64 - Suc ?r = 63 - ?r" by simp
    then show ?thesis
      using last [of "?i\<lparr>sha_buf := b4\<rparr>" "ref_block b2 h" "replicate 56 0"] p1 p2 p4 t True cnt
        ref_hash_two [OF p2(2), of "replicate 56 0 @ ?len" h]
      unfolding pad by (simp add: sha_final_def SHA_BLOCKSIZE_def Let_def z_def [symmetric])
  qed
qed

subsection \<open>Messages\<close>

text \<open>The state after the message \<open>msg\<close>.\<close>

definition fed :: "byte list \<Rightarrow> SHA_INFO \<Rightarrow> bool" where
  "fed msg info \<longleftrightarrow> buffered (ref_hash ref_init msg) (rest_of msg) info \<and> counted (length msg) info"

lemma fed_init: "length (sha_buf info) = 64 \<Longrightarrow> fed [] (sha_init info)"
  by (simp add: fed_def buffered_def counted_def sha_init_def rest_of_def ref_hash_short ref_init_def up5_def)

lemma fed_update:
  assumes "fed msg info" "0 \<le> count" "count < 2 ^ 31" "nat count = length bs"
  shows "\<exists>info'. sha_update info bs count = Some info' \<and> fed (msg @ bs) info'"
proof -
  obtain info' where u: "sha_update info bs count = Some info'"
    "buffered (ref_hash (ref_hash ref_init msg) (rest_of msg @ bs)) (rest_of (rest_of msg @ bs)) info'"
    "count_lo info' = count_lo (sha_count count info)" "count_hi info' = count_hi (sha_count count info)"
    using update_buffered [of "ref_hash ref_init msg" "rest_of msg" info count bs] assms by (auto simp: fed_def)
  have "counted (length msg + nat count) (sha_count (int (nat count)) info)"
    by (rule counted_sha_count) (use assms in \<open>auto simp: fed_def\<close>)
  moreover have "int (nat count) = count" using assms(2) by simp
  ultimately have "counted (length (msg @ bs)) info'" using assms(4) u(3,4) by (simp only: counted_def length_append)
  with u(1,2) show ?thesis by (auto simp: fed_def simp flip: ref_hash_append rest_of_append)
qed

lemma fed_final:
  assumes "fed msg info"
  shows "\<exists>info'. sha_final info = Some (sha1 msg, info')"
proof -
  have "length (rest_of msg) = length msg mod 64" by (rule length_rest_of)
  from final_buffered [OF _ _ this, of "ref_hash ref_init msg" info] assms show ?thesis
    by (simp only: fed_def sha1_def sha1_pad_def ref_hash_append [of ref_init msg, symmetric])
qed

lemma sha_update_take: "0 \<le> count \<Longrightarrow> nat count \<le> length bs \<Longrightarrow>
   sha_update info bs count = sha_update info (take (nat count) bs) count"
  by (simp add: sha_update_def)

lemma fed_updates:
  "fed msg info \<Longrightarrow> \<forall>p \<in> set ps. length p < 2 ^ 31 \<Longrightarrow> \<exists>info'. sha_updates info ps = Some info' \<and> fed (msg @ concat ps) info'"
proof (induction ps arbitrary: msg info)
  case (Cons p ps)
  from Cons.prems fed_update [of msg info "int (length p)" p] obtain i where
    "sha_update info p (int (length p)) = Some i" "fed (msg @ p) i" by auto
  with Cons.IH [of "msg @ p" i] Cons.prems show ?case by simp
qed simp

text \<open>C21: The digest of a file that is read piece by piece is the SHA-1 digest of the whole, however it is cut
  into pieces; no access leaves the 64 bytes of the buffer.\<close>

theorem sha_stream_correct:
  assumes "length (sha_buf info) = 64" "\<forall>p \<in> set pieces. length p < 2 ^ 31"
  shows "sha_stream info pieces = Some (sha1 (concat pieces))"
proof -
  obtain i where "sha_updates (sha_init info) pieces = Some i" "fed (concat pieces) i"
    using fed_updates [OF fed_init [OF assms(1)] assms(2)] by auto
  with fed_final show ?thesis by (fastforce simp: sha_stream_def)
qed

theorem sha_stream_correct_witness:
  "sha_stream zero_info [[97], [98, 99]] = Some (sha1 [97, 98, 99])"
  using sha_stream_correct [of zero_info "[[97], [98, 99]]"] by (simp add: zero_info_def)

lemma as_int_small: "n < 2 ^ 31 \<Longrightarrow> as_int (of_nat n) = int n"
proof -
  assume "n < 2 ^ 31"
  moreover have "(ucast (of_nat n :: u64) :: i32) = of_nat n"
    by (simp add: word_unat_eq_iff unsigned_ucast_eq unsigned_of_nat take_bit_take_bit)
  ultimately show ?thesis by (simp add: as_int_def signed_of_nat signed_take_bit_int_eq_self)
qed

lemma as_int_range: "as_int sz < 2 ^ 31"
  using sint_less [of "ucast sz :: i32"] by (simp add: as_int_def)

lemma as_int_le: "as_int sz \<le> int (unat sz)"
proof -
  have "as_int sz \<le> uint (ucast sz :: i32)"
    by (simp add: as_int_def sint_uint signed_take_bit_int_less_eq_self_iff order_trans [OF _ uint_ge_0])
  also have "\<dots> \<le> uint sz" by (simp add: unsigned_ucast_eq take_bit_int_less_eq_self_iff)
  finally show ?thesis by simp
qed

text \<open>\<open>sha_data\<close> computes the SHA-1 digest of messages of less than \<open>2 ^ 31\<close> bytes. The length is cut to an
  \<open>int\<close>: of a longer message only as much is hashed as that value says, and when it is negative
  the copy runs out of bounds.\<close>

theorem sha_data_characterised:
  assumes "length (sha_buf info) = 64" "length data < 2 ^ 64"
  shows "sha_data info data (of_nat (length data)) =
     (let count = sint (of_nat (length data) :: i32) in
      if count < 0 then None else Some (sha1 (take (nat count) data)))"
proof -
  let ?sz = "of_nat (length data) :: u64"
  have "(ucast ?sz :: i32) = of_nat (length data)"
    by (simp add: word_unat_eq_iff unsigned_ucast_eq unsigned_of_nat take_bit_take_bit)
  then have c: "sint (of_nat (length data) :: i32) = as_int ?sz" by (simp add: as_int_def)
  have len: "as_int ?sz \<le> int (length data)"
    using as_int_le [of ?sz] assms(2) by (simp add: unsigned_of_nat take_bit_nat_eq_self)
  show ?thesis
  proof (cases "as_int ?sz < 0")
    case True
    then show ?thesis by (simp add: c sha_data_def sha_update_def Let_def)
  next
    case False
    then obtain i where "sha_update (sha_init info) (take (nat (as_int ?sz)) data) (as_int ?sz) = Some i"
        "fed ([] @ take (nat (as_int ?sz)) data) i"
      using fed_update [OF fed_init [OF assms(1)], of "as_int ?sz" "take (nat (as_int ?sz)) data"] as_int_range [of ?sz] len
      by (auto simp: min_absorb2)
    moreover from fed_final [OF this(2)] obtain i' where "sha_final i = Some (sha1 (take (nat (as_int ?sz)) data), i')" by auto
    ultimately show ?thesis
      using False len sha_update_take [of "as_int ?sz" data "sha_init info"] by (simp add: c sha_data_def Let_def)
  qed
qed

theorem sha_data_characterised_witness:
  "sha_data zero_info [97, 98, 99] 3 = Some (sha1 [97, 98, 99])"
  using sha_data_characterised [of zero_info "[97, 98, 99]"] by (simp add: zero_info_def)

text \<open>Feeding a message in three steps of \<open>calculate_sha\<close> gives the digest that one step gives, which is its
  SHA-1 digest.\<close>

theorem calculate_sha_steps:
  assumes "length (sha_buf info) = 64" "length a < 2 ^ 31" "length b < 2 ^ 31" "length c < 2 ^ 31"
  shows "(do { (_, info) \<leftarrow> calculate_sha info a (of_nat (length a)) 1;
               (_, info) \<leftarrow> calculate_sha info b (of_nat (length b)) 2;
               (d, info) \<leftarrow> calculate_sha info c (of_nat (length c)) 3;
               d }) = Some (sha1 (a @ b @ c))"
proof -
  obtain i1 where 1: "sha_update (sha_init info) a (int (length a)) = Some i1" "fed a i1"
    using fed_update [OF fed_init [OF assms(1)], of "int (length a)" a] assms(2) by auto
  obtain i2 where 2: "sha_update i1 b (int (length b)) = Some i2" "fed (a @ b) i2"
    using fed_update [OF 1(2), of "int (length b)" b] assms(3) by auto
  obtain i3 where 3: "sha_update i2 c (int (length c)) = Some i3" "fed (a @ b @ c) i3"
    using fed_update [OF 2(2), of "int (length c)" c] assms(4) by auto
  from fed_final [OF 3(2)] obtain i4 where "sha_final i3 = Some (sha1 (a @ b @ c), i4)" by auto
  with 1 2 3 show ?thesis using assms(2-4) by (simp add: calculate_sha_def as_int_small)
qed

theorem calculate_sha_steps_witness:
  "(do { (_, info) \<leftarrow> calculate_sha zero_info [97] 1 1; (_, info) \<leftarrow> calculate_sha info [98] 1 2;
         (d, info) \<leftarrow> calculate_sha info [99] 1 3; d }) = Some (sha1 [97, 98, 99])"
  using calculate_sha_steps [of zero_info "[97]" "[98]" "[99]"] by (simp add: zero_info_def)

end
