(* ===== verification/Sha1Helper.thy ===== *)
theory Sha1Helper
  imports Sha1Hash
begin

unbundle bit_operations_syntax

text \<open>
  \<open>common/Sha1Helper.h\<close>: digests of strings and files, and their text in hexadecimal digits. Strings are
  lists of bytes.
\<close>

subsection \<open>Digests\<close>

definition SHA_DIGEST_LENGTH :: nat where "SHA_DIGEST_LENGTH = 20"

text \<open>\<open>ctx\<close> is what the stack holds; the two functions differ in what they do with the digest.\<close>

definition calcShaToHex :: "SHA_INFO \<Rightarrow> byte list \<Rightarrow> byte list option" where
  "calcShaToHex ctx data = do { ctx \<leftarrow> sha_update (sha_init ctx) data (as_int (of_nat (length data)));
     (d, ctx) \<leftarrow> sha_final ctx; Some d }"

subsection \<open>Hexadecimal text\<close>

text \<open>\<open>%02x\<close> of a byte.\<close>

definition hex_char :: "nat \<Rightarrow> byte" where
  "hex_char n = (if n < 10 then of_nat (48 + n) else of_nat (87 + n))"

definition shaStrToHex :: "byte list \<Rightarrow> byte list" where
  "shaStrToHex s = concat (map (\<lambda>b. [hex_char (unat b div 16), hex_char (unat b mod 16)]) s)"

definition hex_value :: "byte \<Rightarrow> byte option" where
  "hex_value c = (if 48 \<le> c \<and> c \<le> 57 then Some (c - 48)
     else if 65 \<le> c \<and> c \<le> 70 then Some (c - 65 + 10)
     else if 97 \<le> c \<and> c \<le> 102 then Some (c - 97 + 10) else None)"

text \<open>The loop over pairs; the result is what is returned and \<open>out\<close>.\<close>

fun hex_loop :: "byte list \<Rightarrow> byte list \<Rightarrow> int \<times> byte list" where
  "hex_loop (h # l # rest) out = (case hex_value h of None \<Rightarrow> (- 1, [])
     | Some high \<Rightarrow> (case hex_value l of None \<Rightarrow> (- 1, [])
       | Some low \<Rightarrow> hex_loop rest (out @ [push_bit 4 high OR low])))"
| "hex_loop _ out = (0, out)"

definition shaHexToStr_out :: "byte list \<Rightarrow> byte list \<Rightarrow> int \<times> byte list" where
  "shaHexToStr_out s out = (if length s mod 2 \<noteq> 0 then (- 1, out) else hex_loop s [])"

definition shaHexToStr :: "byte list \<Rightarrow> byte list" where
  "shaHexToStr s = (let (r, out) = shaHexToStr_out s [] in if r \<noteq> 0 then [] else out)"

definition calShaToHex :: "SHA_INFO \<Rightarrow> byte list \<Rightarrow> byte list option" where
  "calShaToHex ctx data = do { ctx \<leftarrow> sha_update (sha_init ctx) data (as_int (of_nat (length data)));
     (d, ctx) \<leftarrow> sha_final ctx; Some (shaStrToHex d) }"

text \<open>
  \<open>file\<close> is \<open>None\<close> if \<open>fopen\<close> fails, otherwise whether the \<open>fseek\<close> to a nonzero offset succeeds and
  what \<open>fread\<close> then gives, 4096 bytes at most at a time.
\<close>

definition calFileShaToHex :: "SHA_INFO \<Rightarrow> (bool \<times> byte list list) option \<Rightarrow> int \<Rightarrow> byte list option" where
  "calFileShaToHex ctx file offset = (case file of None \<Rightarrow> Some []
     | Some (seek_ok, pieces) \<Rightarrow> if offset \<noteq> 0 \<and> \<not> seek_ok then Some []
       else do { ctx \<leftarrow> sha_updates (sha_init ctx) pieces; (d, ctx) \<leftarrow> sha_final ctx; Some (shaStrToHex d) })"

subsection \<open>There and back\<close>

lemma nibble_char: "n < 16 \<Longrightarrow> hex_value (hex_char n) = Some (of_nat n)"
proof -
  assume n: "n < 16"
  show ?thesis
  proof (cases "n < 10")
    case True
    then have "unat (of_nat (48 + n) :: byte) = 48 + n" by (simp only: unsigned_of_nat) (simp add: take_bit_nat_eq_self)
    with True show ?thesis by (simp add: hex_value_def hex_char_def word_le_nat_alt)
  next
    case False
    then have "unat (of_nat (87 + n) :: byte) = 87 + n" using n
      by (simp only: unsigned_of_nat) (simp add: take_bit_nat_eq_self)
    with n False show ?thesis by (simp add: hex_value_def hex_char_def word_le_nat_alt)
  qed
qed

lemma join_nibbles: "push_bit 4 (of_nat (unat b div 16)) OR of_nat (unat b mod 16) = (b :: byte)"
proof -
  have "unat (drop_bit 4 b) = unat b div 16" "unat (take_bit 4 b) = unat b mod 16"
    by (rule trans [OF unat_drop_bit_eq], simp add: drop_bit_eq_div)
      (rule trans [OF unsigned_take_bit_eq], simp add: take_bit_eq_mod)
  then have "of_nat (unat b div 16) = drop_bit 4 b" "of_nat (unat b mod 16) = take_bit 4 b"
    by (simp_all only: of_nat_unat ucast_id flip: \<open>unat (drop_bit 4 b) = _\<close> \<open>unat (take_bit 4 b) = _\<close>)
  then show ?thesis
    by (simp only:) (rule bit_word_eqI, auto simp: bit_or_iff bit_push_bit_iff bit_drop_bit_eq bit_take_bit_iff)
qed

lemma hex_loop_shaStrToHex: "hex_loop (shaStrToHex s) out = (0, out @ s)"
proof (induction s arbitrary: out)
  case (Cons b s)
  have "unat b div 16 < 16" using unat_less_power [OF refl, of b] by (simp add: less_mult_imp_div_less)
  with Cons show ?case by (simp add: shaStrToHex_def nibble_char join_nibbles)
qed (simp add: shaStrToHex_def)

lemma length_shaStrToHex [simp]: "length (shaStrToHex s) = 2 * length s"
  by (induction s) (simp_all add: shaStrToHex_def)

text \<open>Bytes written in hexadecimal digits are read back.\<close>

theorem sha_hex_round_trip:
  "shaHexToStr_out (shaStrToHex s) out = (0, s) \<and> shaHexToStr (shaStrToHex s) = s"
  by (simp add: shaHexToStr_out_def shaHexToStr_def hex_loop_shaStrToHex)

lemma hex_loop_accepts: "fst (hex_loop s out) = 0 \<longleftrightarrow> set (take (2 * (length s div 2)) s) \<subseteq> {c. hex_value c \<noteq> None}"
  by (induction s out rule: hex_loop.induct) (auto split: option.splits)

text \<open>Exactly the strings of an even number of hexadecimal digits, of either case, are accepted; on an odd
  length the result is left as it was, on another character it is cleared.\<close>

theorem sha_hex_accepts:
  "shaHexToStr_out s out = (if odd (length s) then (- 1, out)
     else if set s \<subseteq> {c. hex_value c \<noteq> None} then (0, snd (hex_loop s [])) else (- 1, []))"
proof -
  have r: "fst (hex_loop s' out') = 0 \<or> hex_loop s' out' = (- 1, [])" for s' out'
    by (induction s' out' rule: hex_loop.induct) (auto split: option.splits)
  show ?thesis
  proof (cases "odd (length s)")
    case True
    then show ?thesis by (simp add: shaHexToStr_out_def odd_iff_mod_2_eq_one)
  next
    case False
    then have "fst (hex_loop s []) = 0 \<longleftrightarrow> set s \<subseteq> {c. hex_value c \<noteq> None}" by (simp add: hex_loop_accepts)
    with False r [of s "[]"] show ?thesis
      by (cases "hex_loop s []") (auto simp: shaHexToStr_out_def even_iff_mod_2_eq_zero)
  qed
qed

lemma length_sha1: "length (sha1 msg) = SHA_DIGEST_LENGTH"
  by (simp add: sha1_def ref_digest_def SHA_DIGEST_LENGTH_def split: prod.split)

lemma calShaToHex_eq:
  assumes "length (sha_buf ctx) = 64" "length data < 2 ^ 31"
  shows "calShaToHex ctx data = Some (shaStrToHex (sha1 data))"
proof -
  obtain i where "sha_update (sha_init ctx) data (int (length data)) = Some i" "fed data i"
    using fed_update [OF fed_init [OF assms(1)], of "int (length data)" data] assms(2) by auto
  with fed_final [OF this(2)] assms(2) show ?thesis by (auto simp: calShaToHex_def as_int_small)
qed

text \<open>The digest of a file, read from the start or from an offset, is the digest of the bytes read as one
  string: the SHA-1 digest in forty hexadecimal digits.\<close>

theorem sha_file_equals_string:
  assumes "length (sha_buf ctx) = 64" "length (concat pieces) < 2 ^ 31" "offset = 0 \<or> seek_ok"
  shows "calFileShaToHex ctx (Some (seek_ok, pieces)) offset = calShaToHex ctx (concat pieces) \<and>
    calShaToHex ctx (concat pieces) = Some (shaStrToHex (sha1 (concat pieces))) \<and>
    length (shaStrToHex (sha1 (concat pieces))) = 40"
proof -
  have "length p \<le> length (concat pieces)" if "p \<in> set pieces" for p
    using that by (simp add: length_concat member_le_sum_list)
  with assms(2) have "\<forall>p \<in> set pieces. length p < 2 ^ 31" by (meson le_less_trans)
  from fed_updates [OF fed_init [OF assms(1)] this] obtain i where
    "sha_updates (sha_init ctx) pieces = Some i" "fed (concat pieces) i" by auto
  with fed_final [OF this(2)] assms show ?thesis
    by (auto simp: calFileShaToHex_def calShaToHex_eq length_sha1 SHA_DIGEST_LENGTH_def)
qed

theorem sha_file_equals_string_witness:
  "calFileShaToHex zero_info (Some (True, [[97], [98, 99]])) 5 = calShaToHex zero_info [97, 98, 99] \<and>
    calShaToHex zero_info [97, 98, 99] = Some (shaStrToHex (sha1 [97, 98, 99]))"
  using sha_file_equals_string [of zero_info "[[97], [98, 99]]" 5 True] by (simp add: zero_info_def)

end
