(* ===== verification/FsFile.thy ===== *)
theory FsFile
  imports Outcome
begin

text \<open>
  \<open>common/FileOper.cpp\<close> and the two classes derived from it, \<open>DataMgr.cpp\<close> and \<open>IndexMgr.cpp\<close>. The system
  calls are a record of functions on a world of type \<open>'w\<close>. Log lines have no effect here.
\<close>

subsection \<open>The system calls\<close>

record 'w file_os =
  sys_open :: "string \<Rightarrow> 'w \<Rightarrow> int \<times> 'w"
  sys_close :: "int \<Rightarrow> 'w \<Rightarrow> 'w"
  sys_lseek :: "int \<Rightarrow> u64 \<Rightarrow> 'w \<Rightarrow> int \<times> 'w"
  sys_write :: "int \<Rightarrow> byte list \<Rightarrow> 'w \<Rightarrow> int \<times> 'w"
  sys_read :: "int \<Rightarrow> nat \<Rightarrow> 'w \<Rightarrow> int \<times> byte list \<times> 'w"
  sys_unlink :: "string \<Rightarrow> 'w \<Rightarrow> 'w"
  sys_ftruncate :: "int \<Rightarrow> u64 \<Rightarrow> 'w \<Rightarrow> int \<times> 'w"
  sys_access :: "string \<Rightarrow> 'w \<Rightarrow> int \<times> 'w"

subsection \<open>\<open>FileOper\<close>\<close>

record FileOper =
  m_fd :: int
  m_path :: string

definition FileOper_new :: FileOper where "FileOper_new = \<lparr>m_fd = - 1, m_path = []\<rparr>"

definition fo_setPath :: "string \<Rightarrow> FileOper \<Rightarrow> FileOper" where
  "fo_setPath path f = f\<lparr>m_path := path\<rparr>"

definition fo_write :: "'w file_os \<Rightarrow> FileOper \<Rightarrow> byte list \<Rightarrow> 'w \<Rightarrow> bool \<times> 'w" where
  "fo_write os f buff w = (if m_fd f \<le> 0 then (False, w)
     else let (n, w) = sys_write os (m_fd f) buff w in (n = int (length buff), w))"

definition fo_write_at :: "'w file_os \<Rightarrow> FileOper \<Rightarrow> byte list \<Rightarrow> u64 \<Rightarrow> 'w \<Rightarrow> bool \<times> 'w" where
  "fo_write_at os f buff offset w = (if m_fd f \<le> 0 then (False, w)
     else let (r, w) = sys_lseek os (m_fd f) offset w in
       if r < 0 then (False, w) else fo_write os f buff w)"

text \<open>The bytes that \<open>read\<close> stores are returned in any case; its result is cut to an \<open>int32_t\<close> and compared as unsigned.\<close>

definition fo_read :: "'w file_os \<Rightarrow> FileOper \<Rightarrow> u32 \<Rightarrow> 'w \<Rightarrow> bool \<times> byte list \<times> 'w" where
  "fo_read os f len w = (if m_fd f \<le> 0 then (False, [], w)
     else let (n, bytes, w) = sys_read os (m_fd f) (unat len) w in ((of_int n :: u32) = len, bytes, w))"

definition fo_read_at :: "'w file_os \<Rightarrow> FileOper \<Rightarrow> u32 \<Rightarrow> u64 \<Rightarrow> 'w \<Rightarrow> bool \<times> byte list \<times> 'w" where
  "fo_read_at os f len offset w = (if m_fd f \<le> 0 then (False, [], w)
     else let (r, w) = sys_lseek os (m_fd f) offset w in
       if r < 0 then (False, [], w) else fo_read os f len w)"

definition fo_open :: "'w file_os \<Rightarrow> FileOper \<Rightarrow> 'w \<Rightarrow> bool \<times> FileOper \<times> 'w" where
  "fo_open os f w = (if m_path f = [] then (False, f, w)
     else if m_fd f \<ge> 0 then (True, f, w)
     else let (fd, w) = sys_open os (m_path f) w in (\<not> fd \<le> 0, f\<lparr>m_fd := fd\<rparr>, w))"

definition fo_close :: "'w file_os \<Rightarrow> FileOper \<Rightarrow> 'w \<Rightarrow> FileOper \<times> 'w" where
  "fo_close os f w = (if m_fd f \<ge> 0 then (f\<lparr>m_fd := - 1\<rparr>, sys_close os (m_fd f) w) else (f, w))"

definition fo_unlink :: "'w file_os \<Rightarrow> FileOper \<Rightarrow> 'w \<Rightarrow> 'w" where
  "fo_unlink os f w = sys_unlink os (m_path f) w"

subsection \<open>\<open>DataMgr\<close> and \<open>IndexMgr\<close>\<close>

definition kDataFileName :: string where "kDataFileName = ''edgefs.data''"
definition kIndexFileName :: string where "kIndexFileName = ''edgefs.idx''"

definition initDataMgr :: "'w file_os \<Rightarrow> FileOper \<Rightarrow> string \<Rightarrow> u64 \<Rightarrow> 'w \<Rightarrow> bool \<times> FileOper \<times> 'w" where
  "initDataMgr os f rootDir fileSize w =
     (let f = fo_setPath (rootDir @ ''/'' @ kDataFileName) f; (ok, f, w) = fo_open os f w in
      if \<not> ok then (False, f, w)
      else let (r, w) = sys_ftruncate os (m_fd f) fileSize w in (r = 0, f, w))"

definition DataMgr_write :: "'w file_os \<Rightarrow> FileOper \<Rightarrow> byte list \<Rightarrow> u64 \<Rightarrow> 'w \<Rightarrow> bool \<times> 'w" where
  "DataMgr_write os f buff offset w = fo_write_at os f buff offset w"

text \<open>The second result is \<open>isExistIdxFile\<close>.\<close>

definition initIndexMgr :: "'w file_os \<Rightarrow> FileOper \<Rightarrow> string \<Rightarrow> u64 \<Rightarrow> 'w \<Rightarrow> bool \<times> bool \<times> FileOper \<times> 'w" where
  "initIndexMgr os f rootDir fileSize w =
     (let path = rootDir @ ''/'' @ kIndexFileName; (r, w) = sys_access os path w; exist = (r = 0);
          f = fo_setPath path f; (ok, f, w) = fo_open os f w in
      if \<not> ok then (False, exist, f, w)
      else if exist then (True, exist, f, w)
      else let (r, w) = sys_ftruncate os (m_fd f) fileSize w in (r = 0, exist, f, w))"

subsection \<open>What the file system relies on\<close>

text \<open>
  A data file that is open and works: \<open>dat\<close> is its contents. A write of any length at an offset below
  \<open>cap\<close> stores all bytes, a read gives them.
\<close>

definition overwrite :: "(nat \<Rightarrow> byte) \<Rightarrow> nat \<Rightarrow> byte list \<Rightarrow> nat \<Rightarrow> byte" where
  "overwrite g off bs = (\<lambda>i. if off \<le> i \<and> i < off + length bs then bs ! (i - off) else g i)"

locale data_file =
  fixes put :: "byte list \<Rightarrow> u64 \<Rightarrow> 'w \<Rightarrow> bool \<times> 'w"
    and get :: "u32 \<Rightarrow> u64 \<Rightarrow> 'w \<Rightarrow> bool \<times> byte list \<times> 'w"
    and dat :: "'w \<Rightarrow> nat \<Rightarrow> byte"
    and cap :: nat
  assumes put_all: "unat off + length bs \<le> cap \<Longrightarrow> fst (put bs off w) \<and>
      dat (snd (put bs off w)) = overwrite (dat w) (unat off) bs"
    and get_all: "unat off + unat len \<le> cap \<Longrightarrow> fst (get len off w) \<and>
      fst (snd (get len off w)) = map (dat w) [unat off..<unat off + unat len] \<and> dat (snd (snd (get len off w))) = dat w"

text \<open>A plain file: the calls of the system on one open file that never fails.\<close>

record plain_file =
  pf_bytes :: "nat \<Rightarrow> byte"
  pf_pos :: nat

definition plain_os :: "plain_file file_os" where
  "plain_os = \<lparr>sys_open = (\<lambda>_ w. (3, w)), sys_close = (\<lambda>_ w. w), sys_lseek = (\<lambda>_ off w. (0, w\<lparr>pf_pos := unat off\<rparr>)),
     sys_write = (\<lambda>_ bs w. (int (length bs), w\<lparr>pf_bytes := overwrite (pf_bytes w) (pf_pos w) bs, pf_pos := pf_pos w + length bs\<rparr>)),
     sys_read = (\<lambda>_ n w. (int n, map (pf_bytes w) [pf_pos w..<pf_pos w + n], w\<lparr>pf_pos := pf_pos w + n\<rparr>)),
     sys_unlink = (\<lambda>_ w. w), sys_ftruncate = (\<lambda>_ _ w. (0, w)), sys_access = (\<lambda>_ w. (- 1, w))\<rparr>"

interpretation plain: data_file "DataMgr_write plain_os \<lparr>m_fd = 3, m_path = path\<rparr>" "fo_read_at plain_os \<lparr>m_fd = 3, m_path = path\<rparr>"
    pf_bytes cap
  by unfold_locales (simp_all add: DataMgr_write_def fo_write_at_def fo_write_def fo_read_at_def fo_read_def plain_os_def)

definition zero_file :: plain_file where
  "zero_file = \<lparr>pf_bytes = \<lambda>_. 0, pf_pos = 0\<rparr>"

end
