(* ===== verification/FsBitmap.thy ===== *)
theory FsBitmap
  imports Outcome
begin

unbundle bit_operations_syntax

text \<open>
  \<open>Bitmap.cpp\<close>: which chunks are in use, one bit each, in memory that the index file is mapped to, and the
  choice of idle chunks. \<open>None\<close> is an access outside the bitmap.
\<close>

subsection \<open>The bits\<close>

record Bitmap =
  m_ptr :: "byte list"
  bm_bitmapSize :: u32
  m_totalChunkNum :: u32
  m_writeChunkNum :: u32

definition initBitmap :: "byte list \<Rightarrow> u32 \<Rightarrow> u32 \<Rightarrow> Bitmap" where
  "initBitmap ptr bitmapSize idxNum =
     \<lparr>m_ptr = ptr, bm_bitmapSize = bitmapSize, m_totalChunkNum = idxNum, m_writeChunkNum = 0\<rparr>"

definition bit_mask :: "u32 \<Rightarrow> byte" where
  "bit_mask idx = push_bit (unat idx mod 8) 1"

definition isHave :: "Bitmap \<Rightarrow> u32 \<Rightarrow> bool option" where
  "isHave bm idx = (if idx \<ge> m_totalChunkNum bm then Some False
     else if unat idx div 8 < length (m_ptr bm) then Some (m_ptr bm ! (unat idx div 8) AND bit_mask idx \<noteq> 0) else None)"

definition bm_insert :: "u32 \<Rightarrow> Bitmap \<Rightarrow> (bool \<times> Bitmap) option" where
  "bm_insert idx bm = (if idx \<ge> m_totalChunkNum bm then Some (False, bm)
     else if unat idx div 8 < length (m_ptr bm)
     then Some (True, bm\<lparr>m_writeChunkNum := m_writeChunkNum bm + 1,
       m_ptr := (m_ptr bm) [unat idx div 8 := m_ptr bm ! (unat idx div 8) OR bit_mask idx]\<rparr>)
     else None)"

fun bm_inserts :: "u32 list \<Rightarrow> Bitmap \<Rightarrow> Bitmap option" where
  "bm_inserts [] bm = Some bm"
| "bm_inserts (idx # idxs) bm = do { (_, bm) \<leftarrow> bm_insert idx bm; bm_inserts idxs bm }"

subsection \<open>Choosing idle chunks\<close>

text \<open>
  The loops over candidates: whether enough were found, and \<open>idleChunkids\<close>. The result after the last
  candidate is the argument \<open>at_end\<close>.
\<close>

fun pick_idle :: "Bitmap \<Rightarrow> u32 \<Rightarrow> u32 \<Rightarrow> (u32 list \<Rightarrow> (bool \<times> u32 list) option) \<Rightarrow> u32 list \<Rightarrow> u32 list \<Rightarrow> (bool \<times> u32 list) option" where
  "pick_idle bm need exclude at_end [] ids = at_end ids"
| "pick_idle bm need exclude at_end (c # cs) ids = do { have \<leftarrow> isHave bm c;
     if have \<or> c = exclude then pick_idle bm need exclude at_end cs ids
     else let ids = ids @ [c] in
       if length ids \<ge> unat need then Some (True, ids) else pick_idle bm need exclude at_end cs ids }"

definition all_chunks :: "Bitmap \<Rightarrow> u32 list" where
  "all_chunks bm = map of_nat [0..<unat (m_totalChunkNum bm)]"

definition generateIdleChunkidsForSteady :: "Bitmap \<Rightarrow> u32 list \<Rightarrow> u32 \<Rightarrow> u32 \<Rightarrow> (bool \<times> u32 list) option" where
  "generateIdleChunkidsForSteady bm ids need exclude = pick_idle bm need exclude (\<lambda>_. Some (False, [])) (all_chunks bm) ids"

text \<open>
  \<open>draw\<close> are the numbers that the random generator gives in this call; the remainder of a division by
  zero chunks is a trap.
\<close>

definition generateIdleChunkidsForFast :: "(nat \<Rightarrow> u32) \<Rightarrow> Bitmap \<Rightarrow> u32 list \<Rightarrow> u32 \<Rightarrow> u32 \<Rightarrow> (bool \<times> u32 list) option" where
  "generateIdleChunkidsForFast draw bm ids need exclude =
     (if m_totalChunkNum bm = 0 \<and> 1 < 10 * need then None
      else pick_idle bm need exclude (\<lambda>ids. generateIdleChunkidsForSteady bm ids need exclude) (map (\<lambda>i. draw i mod m_totalChunkNum bm) [0..<unat (10 * need) - 1]) ids)"

text \<open>\<open>tail\<close> is \<open>None\<close> for a null pointer, otherwise whether the chunk is in use.\<close>

definition generateIdleChunkids :: "(nat \<Rightarrow> u32) \<Rightarrow> Bitmap \<Rightarrow> bool option \<Rightarrow> u32 \<Rightarrow> u32 list \<Rightarrow> u32 \<Rightarrow> (bool \<times> u32 list) option" where
  "generateIdleChunkids draw bm tail tailChunkid ids need =
     (if need = 0 then Some (True, ids)
      else let ids = (if tail = Some False then ids @ [tailChunkid] else ids) in
        if length ids \<ge> unat need then Some (True, ids)
        else if m_writeChunkNum bm * 2 \<ge> m_totalChunkNum bm then generateIdleChunkidsForSteady bm ids need tailChunkid
        else generateIdleChunkidsForFast draw bm ids need tailChunkid)"

subsection \<open>A set of chunks\<close>

text \<open>The bitmap covers all chunks; the set that it stands for.\<close>

definition bm_ok :: "Bitmap \<Rightarrow> bool" where
  "bm_ok bm \<longleftrightarrow> unat (m_totalChunkNum bm) \<le> 8 * length (m_ptr bm)"

definition in_use :: "Bitmap \<Rightarrow> u32 set" where
  "in_use bm = {i. isHave bm i = Some True}"

lemma bit_mask_at: "bit (bit_mask i) n \<longleftrightarrow> n = unat i mod 8"
proof -
  have "unat i mod 8 < 8" by simp
  then show ?thesis unfolding bit_mask_def by (auto simp: bit_push_bit_iff bit_1_iff simp del: push_bit_of_1)
qed

lemma bit_mask_bit: "w AND bit_mask idx \<noteq> 0 \<longleftrightarrow> bit w (unat idx mod 8)"
proof -
  have "bit (w AND bit_mask idx) n \<longleftrightarrow> n = unat idx mod 8 \<and> bit w (unat idx mod 8)" for n
    by (auto simp: bit_and_iff bit_mask_at)
  then show ?thesis by (auto simp: bit_eq_iff [of _ 0])
qed

lemma bm_ok_div: "bm_ok bm \<Longrightarrow> i < m_totalChunkNum bm \<Longrightarrow> unat i div 8 < length (m_ptr bm)"
  by (simp add: bm_ok_def word_less_nat_alt less_mult_imp_div_less mult.commute)

lemma isHave_in_use: "bm_ok bm \<Longrightarrow> isHave bm i = Some (i \<in> in_use bm)"
  using bm_ok_div [of bm i] by (auto simp: in_use_def isHave_def split: if_splits)

lemma in_use_bit: "bm_ok bm \<Longrightarrow> i \<in> in_use bm \<longleftrightarrow>
   i < m_totalChunkNum bm \<and> bit (m_ptr bm ! (unat i div 8)) (unat i mod 8)"
  using bm_ok_div [of bm i] by (auto simp: in_use_def isHave_def bit_mask_bit)

lemma bm_insert_in_use:
  assumes "bm_ok bm" "i < m_totalChunkNum bm"
  shows "\<exists>bm'. bm_insert i bm = Some (True, bm') \<and> bm_ok bm' \<and> in_use bm' = insert i (in_use bm) \<and>
    m_totalChunkNum bm' = m_totalChunkNum bm \<and> m_writeChunkNum bm' = m_writeChunkNum bm + 1 \<and>
    length (m_ptr bm') = length (m_ptr bm) \<and> bm_bitmapSize bm' = bm_bitmapSize bm"
proof -
  let ?bm' = "bm\<lparr>m_writeChunkNum := m_writeChunkNum bm + 1,
       m_ptr := (m_ptr bm) [unat i div 8 := m_ptr bm ! (unat i div 8) OR bit_mask i]\<rparr>"
  note d = bm_ok_div [OF assms]
  have ok: "bm_ok ?bm'" using assms(1) by (simp add: bm_ok_def)
  have "j \<in> in_use ?bm' \<longleftrightarrow> j = i \<or> j \<in> in_use bm" for j
  proof -
    have "unat j div 8 = unat i div 8 \<and> unat j mod 8 = unat i mod 8 \<longleftrightarrow> j = i"
      by (metis div_mult_mod_eq word_unat_eq_iff)
    then show ?thesis
      using d assms(2) by (auto simp: in_use_bit [OF ok] in_use_bit [OF assms(1)] nth_list_update bit_or_iff bit_mask_at)
  qed
  with d ok assms(2) show ?thesis by (auto simp: bm_insert_def)
qed

text \<open>C22: The bitmap stands for a set of chunks: inserting a chunk adds it and nothing else, inserts of numbers
  beyond the last chunk are refused, and asking about a chunk tells whether it is in the set, all without
  leaving the bitmap's memory.\<close>

theorem fs_bitmap_refines_set:
  assumes "unat (m_totalChunkNum bm) \<le> 8 * length (m_ptr bm)"
  shows "isHave bm j = Some (j \<in> in_use bm) \<and>
    (case bm_insert i bm of None \<Rightarrow> False
     | Some (r, bm') \<Rightarrow> r = (i < m_totalChunkNum bm) \<and> in_use bm' = (if r then insert i (in_use bm) else in_use bm) \<and>
         isHave bm' j = Some (j \<in> in_use bm'))"
proof -
  have ok: "bm_ok bm" using assms by (simp add: bm_ok_def)
  show ?thesis
  proof (cases "i < m_totalChunkNum bm")
    case True
    with bm_insert_in_use [OF ok True] show ?thesis by (auto simp: isHave_in_use ok)
  next
    case False
    then show ?thesis by (simp add: bm_insert_def isHave_in_use ok not_less)
  qed
qed

theorem fs_bitmap_refines_set_witness:
  "isHave (initBitmap [0, 0] 2 10) 9 = Some (9 \<in> in_use (initBitmap [0, 0] 2 10))"
  using fs_bitmap_refines_set [of "initBitmap [0, 0] 2 10" 9] by (simp add: initBitmap_def)

subsection \<open>What is chosen\<close>

definition idle_for :: "Bitmap \<Rightarrow> u32 \<Rightarrow> u32 \<Rightarrow> bool" where
  "idle_for bm exclude c \<longleftrightarrow> c \<notin> in_use bm \<and> c \<noteq> exclude"

lemma pick_idle_eq:
  assumes "bm_ok bm"
  shows "length ids < unat need \<Longrightarrow> pick_idle bm need exclude at_end cs ids =
    (let l = ids @ filter (idle_for bm exclude) cs in if unat need \<le> length l then Some (True, take (unat need) l) else at_end l)"
proof (induction cs arbitrary: ids)
  case (Cons c cs)
  show ?case
  proof (cases "idle_for bm exclude c")
    case True
    then have c: "isHave bm c = Some False" "c \<noteq> exclude" by (auto simp: isHave_in_use [OF assms] idle_for_def)
    show ?thesis
    proof (cases "unat need \<le> length (ids @ [c])")
      case True
      with Cons.prems have "unat need = Suc (length ids)" by simp
      with \<open>idle_for bm exclude c\<close> c show ?thesis by simp
    next
      case False
      with Cons.IH [of "ids @ [c]"] c \<open>idle_for bm exclude c\<close> show ?thesis by simp
    qed
  next
    case False
    then have "isHave bm c = Some True \<or> isHave bm c = Some False \<and> c = exclude"
      by (auto simp: isHave_in_use [OF assms] idle_for_def)
    with Cons False show ?thesis by auto
  qed
qed simp

lemma all_chunks_distinct: "distinct (all_chunks bm)"
  unfolding all_chunks_def distinct_map
proof (intro conjI inj_onI)
  fix x y
  assume "x \<in> set [0..<unat (m_totalChunkNum bm)]" "y \<in> set [0..<unat (m_totalChunkNum bm)]" "(of_nat x :: u32) = of_nat y"
  moreover then have "x < 2 ^ 32" "y < 2 ^ 32" using unat_less_power [OF refl, of "m_totalChunkNum bm"] by auto
  ultimately show "x = y" by (simp add: word_unat_eq_iff unsigned_of_nat take_bit_nat_eq_self)
qed simp

lemma all_chunks_less: "c \<in> set (all_chunks bm) \<Longrightarrow> c < m_totalChunkNum bm"
proof -
  assume "c \<in> set (all_chunks bm)"
  then obtain i where i: "c = of_nat i" "i < unat (m_totalChunkNum bm)" by (auto simp: all_chunks_def)
  moreover then have "i < 2 ^ 32" using unat_less_power [OF refl, of "m_totalChunkNum bm"] by auto
  ultimately show ?thesis by (simp add: word_less_nat_alt unsigned_of_nat take_bit_nat_eq_self)
qed

text \<open>
  All that is chosen: \<open>need\<close> idle chunks, the unused tail first. Nothing is said of duplicates.
\<close>

lemma pick_idle_chosen:
  assumes "bm_ok bm" "length ids < unat need" "\<And>c. c \<in> set cs \<Longrightarrow> c < m_totalChunkNum bm"
  shows "\<exists>ms. set ms \<subseteq> set (filter (idle_for bm exclude) cs) \<and>
    pick_idle bm need exclude at_end cs ids = (if length (ids @ ms) = unat need then Some (True, ids @ ms) else at_end (ids @ ms)) \<and>
    length (ids @ ms) \<le> unat need"
proof (cases "unat need \<le> length (ids @ filter (idle_for bm exclude) cs)")
  case True
  then have "pick_idle bm need exclude at_end cs ids = Some (True, ids @ take (unat need - length ids) (filter (idle_for bm exclude) cs))"
    using assms(2) by (simp add: pick_idle_eq [OF assms(1,2)] Let_def)
  with True assms(2) show ?thesis
    by (intro exI [of _ "take (unat need - length ids) (filter (idle_for bm exclude) cs)"]) (auto dest: in_set_takeD)
next
  case False
  then show ?thesis
    by (intro exI [of _ "filter (idle_for bm exclude) cs"]) (simp add: pick_idle_eq [OF assms(1,2)] Let_def)
qed

definition chosen :: "Bitmap \<Rightarrow> u32 \<Rightarrow> u32 list \<Rightarrow> (bool \<times> u32 list) option \<Rightarrow> bool" where
  "chosen bm need ids0 r \<longleftrightarrow> (\<exists>found ids. r = Some (found, ids) \<and> (found \<longrightarrow> length ids = unat need \<and>
     (\<forall>c \<in> set ids. c < m_totalChunkNum bm \<and> c \<notin> in_use bm) \<and> (\<exists>ms. ids = ids0 @ ms)))"

lemma chosen_Some: "length (ids0 @ ms) = unat need \<Longrightarrow> \<forall>c \<in> set (ids0 @ ms). c < m_totalChunkNum bm \<and> c \<notin> in_use bm \<Longrightarrow>
  chosen bm need ids0 (Some (True, ids0 @ ms))"
  by (auto simp: chosen_def)

lemma chosen_steady:
  assumes "bm_ok bm" "length (ids0 @ ids) < unat need" "\<forall>c \<in> set (ids0 @ ids). c < m_totalChunkNum bm \<and> c \<notin> in_use bm"
  shows "chosen bm need ids0 (generateIdleChunkidsForSteady bm (ids0 @ ids) need exclude)"
proof -
  from pick_idle_chosen [OF assms(1,2) all_chunks_less, of "all_chunks bm" exclude "\<lambda>_. Some (False, [])"] obtain ms where
    ms: "set ms \<subseteq> set (filter (idle_for bm exclude) (all_chunks bm))"
    "generateIdleChunkidsForSteady bm (ids0 @ ids) need exclude =
      (if length (ids0 @ ids @ ms) = unat need then Some (True, ids0 @ ids @ ms) else Some (False, []))"
    unfolding generateIdleChunkidsForSteady_def by auto
  have "\<forall>c \<in> set (ids0 @ ids @ ms). c < m_totalChunkNum bm \<and> c \<notin> in_use bm"
    using ms(1) assms(3) all_chunks_less [of _ bm] by (auto simp: idle_for_def)
  with chosen_Some [of ids0 "ids @ ms"] ms(2) show ?thesis by (auto simp: chosen_def)
qed

text \<open>The steady search finds the first idle chunks in order, each once, and fails exactly if there are too
  few.\<close>

theorem fs_steady_search:
  assumes "unat (m_totalChunkNum bm) \<le> 8 * length (m_ptr bm)" "need \<noteq> 0"
  shows "generateIdleChunkidsForSteady bm [] need exclude =
    (let idle = filter (\<lambda>c. c \<notin> in_use bm \<and> c \<noteq> exclude) (all_chunks bm) in
     Some (if unat need \<le> length idle then (True, take (unat need) idle) else (False, []))) \<and> distinct (all_chunks bm)"
proof -
  have "0 < unat need" using assms(2) by (simp add: unat_gt_0)
  moreover have "bm_ok bm" using assms(1) by (simp add: bm_ok_def)
  moreover have "filter (idle_for bm exclude) = filter (\<lambda>c. c \<notin> in_use bm \<and> c \<noteq> exclude)" by (simp add: idle_for_def [abs_def])
  ultimately show ?thesis by (simp add: generateIdleChunkidsForSteady_def pick_idle_eq Let_def all_chunks_distinct)
qed

theorem fs_steady_search_witness:
  "generateIdleChunkidsForSteady (initBitmap [0, 0] 2 10) [] 1 0xffffffff =
    (let idle = filter (\<lambda>c. c \<notin> in_use (initBitmap [0, 0] 2 10) \<and> c \<noteq> 0xffffffff) (all_chunks (initBitmap [0, 0] 2 10)) in
     Some (if unat (1 :: u32) \<le> length idle then (True, take (unat (1 :: u32)) idle) else (False, [])))"
  using fs_steady_search [of "initBitmap [0, 0] 2 10" 1 "0xffffffff"] by (simp add: initBitmap_def)

text \<open>C24: Below half of the capacity the search can give one chunk twice: nothing excludes a number that was
  already drawn. A file of two chunks then gets the same chunk for both.\<close>

theorem fs_fast_search_duplicates:
  assumes "unat (m_totalChunkNum bm) \<le> 8 * length (m_ptr bm)" "m_writeChunkNum bm * 2 < m_totalChunkNum bm"
    and "draw 0 = c" "draw 1 = c" "c < m_totalChunkNum bm" "c \<notin> in_use bm" "c \<noteq> exclude"
  shows "generateIdleChunkids draw bm None exclude [] 2 = Some (True, [c, c])"
proof -
  have ok: "bm_ok bm" using assms(1) by (simp add: bm_ok_def)
  have "c mod m_totalChunkNum bm = c" using assms(5) by (simp add: word_unat_eq_iff unat_mod word_less_nat_alt)
  then have "filter (idle_for bm exclude) (map (\<lambda>i. draw i mod m_totalChunkNum bm) [0..<19]) =
      c # c # filter (idle_for bm exclude) (map (\<lambda>i. draw i mod m_totalChunkNum bm) [2..<19])"
    using assms(3-7) by (simp add: upt_conv_Cons [of 0] upt_conv_Cons [of "Suc 0"] numeral_2_eq_2 idle_for_def)
  moreover have "m_totalChunkNum bm \<noteq> 0" using assms(5) by auto
  moreover have "\<not> m_totalChunkNum bm \<le> m_writeChunkNum bm * 2" using assms(2) by (simp only: not_le)
  ultimately show ?thesis
    by (simp add: generateIdleChunkids_def generateIdleChunkidsForFast_def pick_idle_eq [OF ok])
qed

theorem fs_fast_search_duplicates_witness:
  "generateIdleChunkids (\<lambda>_. 7) (initBitmap [0, 0] 2 10) None 0xffffffff [] 2 = Some (True, [7, 7])"
  by (rule fs_fast_search_duplicates) (simp_all add: initBitmap_def in_use_def isHave_def bit_mask_def)

subsection \<open>All searches\<close>

lemma chosen_all:
  assumes "bm_ok bm" "m_totalChunkNum bm \<noteq> 0" "need \<noteq> 0"
    and "tail = Some False \<Longrightarrow> t < m_totalChunkNum bm \<and> t \<notin> in_use bm"
  shows "chosen bm need (if tail = Some False then [t] else []) (generateIdleChunkids draw bm tail t [] need)"
proof -
  define ids where "ids = (if tail = Some False then [t] else [])"
  have need: "0 < unat need" using assms(3) by (simp add: unat_gt_0)
  have ok: "\<forall>c \<in> set ids. c < m_totalChunkNum bm \<and> c \<notin> in_use bm" using assms(4) by (simp add: ids_def)
  have eq: "generateIdleChunkids draw bm tail t [] need = (if length ids \<ge> unat need then Some (True, ids)
      else if m_writeChunkNum bm * 2 \<ge> m_totalChunkNum bm then generateIdleChunkidsForSteady bm ids need t
      else generateIdleChunkidsForFast draw bm ids need t)"
    using assms(3) by (simp add: generateIdleChunkids_def ids_def Let_def)
  have "chosen bm need ids (generateIdleChunkids draw bm tail t [] need)"
  proof (cases "unat need \<le> length ids")
    case True
    with need have "length (ids @ []) = unat need" by (auto simp: ids_def split: if_splits)
    from chosen_Some [OF this] ok True show ?thesis by (simp add: eq)
  next
    case False
    then have less: "length ids < unat need" by simp
    let ?cs = "map (\<lambda>i. draw i mod m_totalChunkNum bm) [0..<unat (10 * need) - 1]"
    have cs: "c < m_totalChunkNum bm" if "c \<in> set ?cs" for c
      using that assms(2) by (auto simp: word_less_nat_alt unat_mod unat_gt_0)
    from pick_idle_chosen [OF assms(1) less cs, of ?cs t "\<lambda>ids. generateIdleChunkidsForSteady bm ids need t"] obtain ms where
      ms: "set ms \<subseteq> set (filter (idle_for bm t) ?cs)"
      "generateIdleChunkidsForFast draw bm ids need t = (if length (ids @ ms) = unat need then Some (True, ids @ ms)
         else generateIdleChunkidsForSteady bm (ids @ ms) need t)" "length (ids @ ms) \<le> unat need"
      using assms(2) unfolding generateIdleChunkidsForFast_def by (auto simp del: set_map set_filter)
    have m: "\<forall>c \<in> set (ids @ ms). c < m_totalChunkNum bm \<and> c \<notin> in_use bm"
      using ms(1) ok cs by (auto simp: idle_for_def)
    have "chosen bm need ids (generateIdleChunkidsForFast draw bm ids need t)"
    proof (cases "length (ids @ ms) = unat need")
      case True
      with chosen_Some [OF True m] ms(2) show ?thesis by simp
    next
      case False
      with ms(3) have "length (ids @ ms) < unat need" by simp
      from chosen_steady [OF assms(1) this m] False ms(2) show ?thesis by simp
    qed
    moreover have "chosen bm need ids (generateIdleChunkidsForSteady bm ids need t)"
      using chosen_steady [OF assms(1), of ids "[]" need t] less ok by simp
    ultimately show ?thesis using less by (simp add: eq)
  qed
  then show ?thesis by (simp add: ids_def)
qed

lemma steady_distinct:
  assumes "bm_ok bm" "m_totalChunkNum bm \<le> m_writeChunkNum bm * 2" "need \<noteq> 0"
    and "generateIdleChunkids draw bm tail t [] need = Some (True, ids)"
  shows "distinct ids"
proof -
  define pre where "pre = (if tail = Some False then [t] else [])"
  have eq: "(if length pre \<ge> unat need then Some (True, pre) else generateIdleChunkidsForSteady bm pre need t) = Some (True, ids)"
    using assms(2-4) by (auto simp: generateIdleChunkids_def pre_def Let_def split: if_splits)
  have pre: "distinct (pre @ filter (idle_for bm t) (all_chunks bm))"
    using all_chunks_distinct by (auto simp: pre_def idle_for_def)
  show ?thesis
  proof (cases "unat need \<le> length pre")
    case True
    with eq pre show ?thesis by simp
  next
    case False
    then have "length pre < unat need" by simp
    from pick_idle_eq [OF assms(1) this] eq False have "ids = take (unat need) (pre @ filter (idle_for bm t) (all_chunks bm))"
      by (simp add: generateIdleChunkidsForSteady_def Let_def split: if_splits)
    with pre show ?thesis by (simp only: distinct_take)
  qed
qed

text \<open>A search fails only if there are too few idle chunks.\<close>

definition idle_chunks :: "Bitmap \<Rightarrow> u32 list" where
  "idle_chunks bm = filter (\<lambda>c. c \<notin> in_use bm) (all_chunks bm)"

lemma search_fails:
  assumes "bm_ok bm" "need \<noteq> 0" "m_totalChunkNum bm \<noteq> 0"
    and t: "tail = Some False \<or> t \<notin> set (idle_chunks bm)"
    and fails: "generateIdleChunkids draw bm tail t [] need = Some (False, ids)"
  shows "length (idle_chunks bm) < unat need"
proof -
  define pre where "pre = (if tail = Some False then [t] else [])"
  have need: "0 < unat need" using assms(2) by (simp add: unat_gt_0)
  let ?rest = "filter (idle_for bm t) (all_chunks bm)"
  have rest: "?rest = filter (\<lambda>c. c \<noteq> t) (idle_chunks bm)"
    by (simp add: idle_chunks_def idle_for_def [abs_def] conj_commute)
  have few: "length (idle_chunks bm) \<le> length (pre @ ?rest)"
  proof (cases "t \<in> set (idle_chunks bm)")
    case False
    then have "filter (\<lambda>c. c \<noteq> t) (idle_chunks bm) = idle_chunks bm" by (auto simp: filter_id_conv)
    then show ?thesis by (simp add: rest)
  next
    case True
    with t have "pre = [t]" by (simp add: pre_def)
    moreover have "distinct (idle_chunks bm)" using all_chunks_distinct by (simp add: idle_chunks_def)
    then have "length (removeAll t (idle_chunks bm)) = length (idle_chunks bm) - 1"
      using True by (simp only: distinct_remove1_removeAll [symmetric] length_remove1 if_True)
    moreover have "removeAll t (idle_chunks bm) = filter (\<lambda>c. c \<noteq> t) (idle_chunks bm)"
      by (simp add: removeAll_filter_not_eq eq_commute [of t])
    ultimately show ?thesis by (simp add: rest)
  qed
  have short: "length (p @ ?rest) < unat need"
    if "length p < unat need" "generateIdleChunkidsForSteady bm p need t = Some (False, ids)" for p
    using that pick_idle_eq [OF assms(1) that(1)] by (auto simp: generateIdleChunkidsForSteady_def Let_def split: if_splits)
  have "unat need > length pre"
    using fails assms(2) by (auto simp: generateIdleChunkids_def pre_def Let_def not_le split: if_splits)
  moreover obtain p where "length pre \<le> length p" "length p < unat need" "generateIdleChunkidsForSteady bm p need t = Some (False, ids)"
  proof (cases "m_totalChunkNum bm \<le> m_writeChunkNum bm * 2")
    case True
    with fails assms(2) calculation have "generateIdleChunkidsForSteady bm pre need t = Some (False, ids)"
      by (auto simp: generateIdleChunkids_def pre_def Let_def split: if_splits)
    with calculation that show ?thesis by blast
  next
    case False
    let ?q = "filter (idle_for bm t) (map (\<lambda>i. draw i mod m_totalChunkNum bm) [0..<unat (10 * need) - 1])"
    from False fails assms(2) calculation have "generateIdleChunkidsForFast draw bm pre need t = Some (False, ids)"
      by (auto simp: generateIdleChunkids_def pre_def Let_def split: if_splits)
    then have "length (pre @ ?q) < unat need \<and> generateIdleChunkidsForSteady bm (pre @ ?q) need t = Some (False, ids)"
      using assms(3) calculation by (auto simp: generateIdleChunkidsForFast_def pick_idle_eq [OF assms(1)] Let_def not_le split: if_splits)
    with that [of "pre @ ?q"] show ?thesis by simp
  qed
  ultimately show ?thesis using few short [of p] by simp
qed

end
