(* ===== verification/EdgeFs.thy ===== *)
theory EdgeFs
  imports Sha1Helper FsFile FsBitmap
begin

unbundle bit_operations_syntax

text \<open>
  \<open>EdgeFS.cpp\<close> with \<open>EdgeFS.h\<close>, \<open>EdgeFSProtocol.h\<close> and \<open>EdgeFSConst.h\<close>: the file system over one data
  file, cut into chunks, and an index that is mapped to memory. A pointer into the pool of \<open>MetaInfo\<close> is its
  number; an access to the mapped memory outside of the mapping is \<open>Crash\<close>. Loops along the chunks of a bucket
  may not end. Logging has no effect here.
\<close>

subsection \<open>Constants and structs\<close>

definition kInvalidChunkid :: u32 where "kInvalidChunkid = - 1"
definition kMinChunkSize :: u32 where "kMinChunkSize = 1024 * 1024"
definition kMaxChunkSize :: u32 where "kMaxChunkSize = 128 * 1024 * 1024"
definition kDiskRWAlignSize :: u32 where "kDiskRWAlignSize = 4096"
definition kHashCollisions :: bool where "kHashCollisions = False"

text \<open>\<open>kEdgeFSMagic\<close>, and the field of 12 bytes that it is copied to.\<close>

definition kEdgeFSMagic :: "byte list" where "kEdgeFSMagic = map (\<lambda>c. of_nat (of_char c)) ''edgefs''"

record EdgeFSHead =
  m_magic :: "byte list"
  m_coverableDiskSize :: u64
  m_usableMemory :: u64
  m_chunkSize :: u32
  m_chunkNum :: u32
  m_bitmapSize :: u32

definition sizeof_EdgeFSHead :: nat where "sizeof_EdgeFSHead = 12 + 8 + 8 + 4 + 4 + 4"

record MetaInfo =
  m_isUsed :: bool
  m_sha1 :: "byte list"
  m_fileSize :: u64
  m_crc32 :: u32
  m_idleLen :: u32
  m_nextChunkid :: u32

text \<open>One byte for the bit-field, the packed \<open>MetaData\<close>, two numbers and an empty struct, which takes a byte.\<close>

definition sizeof_MetaInfo :: nat where "sizeof_MetaInfo = 1 + (SHA_DIGEST_LENGTH + 8 + 4) + 4 + 4 + 1"

record SystemInfo =
  m_diskCapacity :: u64
  m_diskRootDir :: string
  m_edgeFSUsableMemory :: u64

text \<open>The object. \<open>m_pFSHead\<close> and the pool are null until \<open>initFS\<close> has mapped the index.\<close>

record EdgeFS =
  m_pFSHead :: "EdgeFSHead option"
  m_pBitMap :: Bitmap
  m_pMetaPool :: "MetaInfo list"
  m_pDataMgr :: FileOper
  m_pIndexMgr :: FileOper
  m_nextTaskid :: u32
  m_currTaskid :: u32

definition EdgeFS_new :: EdgeFS where
  "EdgeFS_new = \<lparr>m_pFSHead = None, m_pBitMap = initBitmap [] 0 0, m_pMetaPool = [], m_pDataMgr = FileOper_new,
     m_pIndexMgr = FileOper_new, m_nextTaskid = 1, m_currTaskid = - 1\<rparr>"

text \<open>The one instance; \<open>None\<close> is a null pointer.\<close>

definition EdgeFS_create :: "EdgeFS option \<Rightarrow> EdgeFS option" where
  "EdgeFS_create inst = (case inst of None \<Rightarrow> Some EdgeFS_new | Some fs \<Rightarrow> Some fs)"

definition EdgeFS_release :: "EdgeFS option \<Rightarrow> EdgeFS option" where
  "EdgeFS_release inst = None"

definition DIV_ROUND_UP :: "'a::len word \<Rightarrow> 'a word \<Rightarrow> 'a word" where
  "DIV_ROUND_UP n d = (n + d - 1) div d"

definition ALIGN_DOWN :: "u32 \<Rightarrow> u32 \<Rightarrow> u32" where
  "ALIGN_DOWN n d = n AND NOT (d - 1)"

definition Utils_limit :: "u32 \<Rightarrow> u32 \<Rightarrow> u32 \<Rightarrow> u32" where
  "Utils_limit val lo hi = (let val = (if val < lo then lo else val) in if val > hi then hi else val)"

subsection \<open>Chunks\<close>

definition calcMetaInfoPtr :: "EdgeFS \<Rightarrow> u32 \<Rightarrow> MetaInfo outcome" where
  "calcMetaInfoPtr fs c = (if unat c < length (m_pMetaPool fs) then Done (m_pMetaPool fs ! unat c) else Crash)"

text \<open>A write through a pointer to a \<open>MetaInfo\<close>.\<close>

definition set_meta :: "u32 \<Rightarrow> (MetaInfo \<Rightarrow> MetaInfo) \<Rightarrow> EdgeFS \<Rightarrow> EdgeFS outcome" where
  "set_meta c f fs = (if unat c < length (m_pMetaPool fs)
     then Done (fs\<lparr>m_pMetaPool := (m_pMetaPool fs)[unat c := f (m_pMetaPool fs ! unat c)]\<rparr>) else Crash)"

definition calcChunkid :: "u32 option \<Rightarrow> u32" where
  "calcChunkid p = (case p of None \<Rightarrow> kInvalidChunkid | Some c \<Rightarrow> c)"

definition chunk_offset :: "u32 \<Rightarrow> u32 \<Rightarrow> u64" where
  "chunk_offset chunkSize c = ucast c * ucast chunkSize"

text \<open>The first four bytes of the digest as a number; a remainder by zero is a trap.\<close>

definition generateHashKey :: "EdgeFSHead \<Rightarrow> byte list \<Rightarrow> u32 outcome" where
  "generateHashKey h sha = (if kHashCollisions then Done 101
     else if m_chunkNum h = 0 then Crash else Done (of_nat (le_val (take 4 sha)) mod m_chunkNum h))"

definition generateTaskid :: "EdgeFS \<Rightarrow> EdgeFS" where
  "generateTaskid fs = fs\<lparr>m_nextTaskid := m_nextTaskid fs + 1, m_currTaskid := m_nextTaskid fs\<rparr>"

text \<open>The loops along \<open>m_nextChunkid\<close>.\<close>

partial_function (option) chunk_tail :: "EdgeFS \<Rightarrow> u32 \<Rightarrow> u32 outcome option" where
  "chunk_tail fs c = (case calcMetaInfoPtr fs c of Crash \<Rightarrow> Some Crash | Done m \<Rightarrow>
     if m_nextChunkid m = kInvalidChunkid then return_o c else chunk_tail fs (m_nextChunkid m))"

definition findChunkTailMetaInfo :: "EdgeFS \<Rightarrow> u32 \<Rightarrow> u32 outcome option" where
  "findChunkTailMetaInfo fs pHead = bind_o (Some (calcMetaInfoPtr fs pHead)) (\<lambda>m.
     if \<not> m_isUsed m then return_o pHead else chunk_tail fs pHead)"

partial_function (option) file_tail :: "EdgeFS \<Rightarrow> byte list \<Rightarrow> u32 \<Rightarrow> u32 option \<Rightarrow> u32 option outcome option" where
  "file_tail fs sha c pTail = (case calcMetaInfoPtr fs c of Crash \<Rightarrow> Some Crash | Done m \<Rightarrow>
     let pTail = (if m_sha1 m = sha then Some c else pTail) in
     if m_nextChunkid m = kInvalidChunkid then return_o pTail else file_tail fs sha (m_nextChunkid m) pTail)"

definition findFileTailMetaInfo :: "EdgeFS \<Rightarrow> u32 \<Rightarrow> byte list \<Rightarrow> u32 option outcome option" where
  "findFileTailMetaInfo fs pHead sha = bind_o (Some (calcMetaInfoPtr fs pHead)) (\<lambda>m.
     if \<not> m_isUsed m then return_o (Some pHead) else file_tail fs sha pHead None)"

text \<open>What is logged of the used chunks; every \<open>MetaInfo\<close> is looked at.\<close>

definition printAllMetaInfo :: "EdgeFSHead \<Rightarrow> EdgeFS \<Rightarrow> (nat \<times> u32 \<times> u32 \<times> u32) list outcome" where
  "printAllMetaInfo h fs = (if unat (m_chunkNum h) \<le> length (m_pMetaPool fs)
     then Done [(c, m_chunkSize h - m_idleLen m, m_idleLen m, m_nextChunkid m).
                (c, m) \<leftarrow> zip [0..<unat (m_chunkNum h)] (m_pMetaPool fs), m_isUsed m]
     else Crash)"

subsection \<open>Writing\<close>

text \<open>
  \<open>firstWriteLen\<close>, \<open>needChunkNum\<close> and \<open>lastChunkWriteLen\<close>; a division by a chunk size of zero is a trap.
\<close>

definition calcWriteVariable :: "u32 \<Rightarrow> MetaInfo option \<Rightarrow> u32 \<Rightarrow> (u32 \<times> u32 \<times> u32) outcome" where
  "calcWriteVariable chunkSize tail writeLen =
     (let firstWriteLen = (case tail of None \<Rightarrow> 0
        | Some m \<Rightarrow> if \<not> m_isUsed m then 0 else if writeLen \<ge> m_idleLen m then m_idleLen m else writeLen);
        remainLen = ucast (writeLen - firstWriteLen) :: u64; d = ucast chunkSize :: u64 in
      if chunkSize = 0 then Crash
      else Done (firstWriteLen, ucast (DIV_ROUND_UP remainLen d),
        if remainLen mod d = 0 then chunkSize else ucast (remainLen mod d)))"

text \<open>
  \<open>put\<close> is the write to the data file; \<open>buff\<close> holds as many bytes as are asked for. Between the steps of a write: \<open>remainLen\<close>, \<open>realWriteLen\<close>, the object
  and the world.
\<close>

type_synonym 'w writing = "u64 \<times> u32 \<times> EdgeFS \<times> 'w"

type_synonym 'w put = "byte list \<Rightarrow> u64 \<Rightarrow> 'w \<Rightarrow> bool \<times> 'w"

definition buff_part :: "byte list \<Rightarrow> u32 \<Rightarrow> u32 \<Rightarrow> byte list" where
  "buff_part buff from len = take (unat len) (drop (unat from) buff)"

definition bitmap_insert :: "u32 \<Rightarrow> EdgeFS \<Rightarrow> EdgeFS outcome" where
  "bitmap_insert c fs = (case bm_insert c (m_pBitMap fs) of None \<Rightarrow> Crash | Some (_, bm) \<Rightarrow> Done (fs\<lparr>m_pBitMap := bm\<rparr>))"

text \<open>The chunk that the first part was written to.\<close>

definition fill_tail :: "u32 \<Rightarrow> byte list \<Rightarrow> u32 \<Rightarrow> u32 \<Rightarrow> EdgeFS \<Rightarrow> EdgeFS outcome option" where
  "fill_tail chunkSize sha firstWriteLen c fs = bind_o (Some (calcMetaInfoPtr fs c)) (\<lambda>m.
     if m_isUsed m then Some (set_meta c (\<lambda>m. m\<lparr>m_idleLen := m_idleLen m - firstWriteLen\<rparr>) fs)
     else bind_o (Some (bitmap_insert c fs)) (\<lambda>fs.
       Some (set_meta c (\<lambda>m. m\<lparr>m_isUsed := True, m_sha1 := sha, m_idleLen := chunkSize - firstWriteLen, m_nextChunkid := kInvalidChunkid\<rparr>) fs)))"

definition first_write :: "'w put \<Rightarrow> u32 \<Rightarrow> byte list \<Rightarrow> byte list \<Rightarrow> u32 \<Rightarrow> u32 option \<Rightarrow> u32 \<Rightarrow> u32 list \<Rightarrow> 'w writing \<Rightarrow> (bool \<times> 'w writing) outcome option" where
  "first_write put chunkSize sha buff firstWriteLen pCurrFileTail pChunkTail ids = (\<lambda>(remain, real, fs, w).
     if firstWriteLen \<noteq> 0 then
       let c = calcChunkid pCurrFileTail in
       bind_o (Some (case pCurrFileTail of None \<Rightarrow> Crash | Some p \<Rightarrow> calcMetaInfoPtr fs p)) (\<lambda>m.
         let offset = chunk_offset chunkSize c + (if m_isUsed m then ucast (chunkSize - m_idleLen m) else 0);
             (ok, w) = put (buff_part buff real firstWriteLen) offset w in
         if \<not> ok then return_o (False, remain, real, fs, w)
         else bind_o (fill_tail chunkSize sha firstWriteLen c fs) (\<lambda>fs.
           bind_o (Some (calcMetaInfoPtr fs c)) (\<lambda>m.
             bind_o (Some (if m_idleLen m = 0
                 then set_meta pChunkTail (\<lambda>m. m\<lparr>m_nextChunkid := (if ids = [] then kInvalidChunkid else hd ids)\<rparr>) fs
                 else Done fs))
               (\<lambda>fs. return_o (True, remain - ucast firstWriteLen, real + firstWriteLen, fs, w)))))
     else if ids \<noteq> [] then bind_o (Some (set_meta pChunkTail (\<lambda>m. m\<lparr>m_nextChunkid := hd ids\<rparr>) fs))
       (\<lambda>fs. return_o (True, remain, real, fs, w))
     else return_o (True, remain, real, fs, w))"

text \<open>The chunk that was written in round \<open>i\<close>.\<close>

definition new_chunk :: "u32 \<Rightarrow> byte list \<Rightarrow> u32 \<Rightarrow> u32 \<Rightarrow> u32 \<Rightarrow> u32 list \<Rightarrow> nat \<Rightarrow> MetaInfo \<Rightarrow> MetaInfo" where
  "new_chunk chunkSize sha firstWriteLen needChunkNum lastChunkWriteLen ids i m =
     (let m = m\<lparr>m_isUsed := True, m_sha1 := sha, m_idleLen := chunkSize - firstWriteLen\<rparr> in
      if i + 1 = unat needChunkNum then m\<lparr>m_nextChunkid := kInvalidChunkid, m_idleLen := chunkSize - lastChunkWriteLen\<rparr>
      else m\<lparr>m_nextChunkid := ids ! (i + 1), m_idleLen := 0\<rparr>)"

fun write_chunks :: "'w put \<Rightarrow> u32 \<Rightarrow> byte list \<Rightarrow> byte list \<Rightarrow> u32 \<Rightarrow> u32 \<Rightarrow> u32 \<Rightarrow> u32 list \<Rightarrow> nat list \<Rightarrow> 'w writing \<Rightarrow> 'w writing outcome option" where
  "write_chunks put chunkSize sha buff firstWriteLen need lastLen ids [] st = return_o st"
| "write_chunks put chunkSize sha buff firstWriteLen need lastLen ids (i # is) (remain, real, fs, w) =
     (if \<not> i < length ids \<or> \<not> (i + 1 = unat need \<or> i + 1 < length ids) then Some Crash
      else let writeLen = (if remain \<ge> ucast chunkSize then chunkSize else ucast remain); c = ids ! i;
           (ok, w) = put (buff_part buff real writeLen) (chunk_offset chunkSize c) w in
        if \<not> ok then return_o (remain, real, fs, w)
        else bind_o (Some (bitmap_insert c fs)) (\<lambda>fs.
          bind_o (Some (set_meta c (new_chunk chunkSize sha firstWriteLen need lastLen ids i) fs)) (\<lambda>fs.
            write_chunks put chunkSize sha buff firstWriteLen need lastLen ids is (remain - ucast writeLen, real + writeLen, fs, w))))"

text \<open>The rest of \<open>write\<close> after the chunks are chosen: the \<open>do\<close> that is left with \<open>break\<close>.\<close>

definition write_data :: "'w put \<Rightarrow> u32 \<Rightarrow> byte list \<Rightarrow> byte list \<Rightarrow> u32 \<Rightarrow> u32 \<Rightarrow> u32 \<Rightarrow> u32 \<Rightarrow> u32 option \<Rightarrow> u32 \<Rightarrow> u32 list \<Rightarrow>
    EdgeFS \<Rightarrow> 'w \<Rightarrow> 'w writing outcome option" where
  "write_data put chunkSize sha buff len firstWriteLen need lastLen pCurrFileTail pChunkTail ids fs w =
     bind_o (first_write put chunkSize sha buff firstWriteLen pCurrFileTail pChunkTail ids (ucast len, 0, fs, w)) (\<lambda>(ok, st).
       if \<not> ok then return_o st
       else write_chunks put chunkSize sha buff firstWriteLen need lastLen ids [0..<unat need] st)"

definition meta_of :: "EdgeFS \<Rightarrow> u32 option \<Rightarrow> MetaInfo option outcome" where
  "meta_of fs p = (case p of None \<Rightarrow> Done None
     | Some c \<Rightarrow> (case calcMetaInfoPtr fs c of Crash \<Rightarrow> Crash | Done m \<Rightarrow> Done (Some m)))"

text \<open>
  \<open>ctx\<close> is the uninitialised hash context on the stack, \<open>draw\<close> the random numbers of this call. A null \<open>buff\<close>
  is \<open>None\<close>.
\<close>

definition EdgeFS_write :: "'w file_os \<Rightarrow> SHA_INFO \<Rightarrow> (nat \<Rightarrow> u32) \<Rightarrow> byte list \<Rightarrow> byte list option \<Rightarrow> u32 \<Rightarrow>
    EdgeFS \<Rightarrow> 'w \<Rightarrow> (int \<times> EdgeFS \<times> 'w) outcome option" where
  "EdgeFS_write os ctx draw fileName buff len fs w = (case buff of None \<Rightarrow> return_o (- 1, fs, w)
   | Some buff \<Rightarrow> let fs = generateTaskid fs in
     (case (calcShaToHex ctx fileName, m_pFSHead fs) of (Some sha, Some h) \<Rightarrow>
        bind_o (Some (generateHashKey h sha)) (\<lambda>hashKey.
        bind_o (findFileTailMetaInfo fs hashKey sha) (\<lambda>pCurrFileTail.
        bind_o (findChunkTailMetaInfo fs hashKey) (\<lambda>pChunkTail.
        bind_o (Some (meta_of fs pCurrFileTail)) (\<lambda>tail.
        bind_o (Some (calcWriteVariable (m_chunkSize h) tail len)) (\<lambda>(firstWriteLen, need, lastLen).
        bind_o (if need \<noteq> 0
            then Some (case generateIdleChunkids draw (m_pBitMap fs) (map_option m_isUsed tail) (calcChunkid pCurrFileTail) [] need of
              None \<Rightarrow> Crash | Some r \<Rightarrow> Done r)
            else return_o (True, [])) (\<lambda>(found, ids).
          if need \<noteq> 0 \<and> (\<not> found \<or> ids = []) then return_o (- 1, fs, w)
          else bind_o (write_data (DataMgr_write os (m_pDataMgr fs)) (m_chunkSize h) sha buff len firstWriteLen need lastLen pCurrFileTail pChunkTail ids fs w)
            (\<lambda>(_, real, fs, w). bind_o (Some (printAllMetaInfo h fs)) (\<lambda>_. return_o (int (unat real), fs, w)))))))))
      | _ \<Rightarrow> Some Crash))"

subsection \<open>Reading\<close>

text \<open>The chunks of the file, the sum of what was written to them and what was written to the last.\<close>

partial_function (option) read_walk :: "u32 \<Rightarrow> EdgeFS \<Rightarrow> byte list \<Rightarrow> u32 \<Rightarrow> u32 list \<times> u64 \<times> u32 \<Rightarrow> (u32 list \<times> u64 \<times> u32) outcome option" where
  "read_walk chunkSize fs sha c acc = (case calcMetaInfoPtr fs c of Crash \<Rightarrow> Some Crash | Done m \<Rightarrow>
     let acc = (if m_sha1 m = sha
       then (case acc of (ids, tot, lastLen) \<Rightarrow>
         (ids @ [c], tot + ucast (chunkSize - m_idleLen m), chunkSize - m_idleLen m))
       else acc) in
     if m_nextChunkid m = kInvalidChunkid then return_o acc else read_walk chunkSize fs sha (m_nextChunkid m) acc)"

definition generateReadChunkids :: "u32 \<Rightarrow> EdgeFS \<Rightarrow> u32 \<Rightarrow> byte list \<Rightarrow> (u32 list \<times> u64 \<times> u32) outcome option" where
  "generateReadChunkids chunkSize fs pHead sha = bind_o (Some (calcMetaInfoPtr fs pHead)) (\<lambda>m.
     if \<not> m_isUsed m then return_o ([], 0, 0) else read_walk chunkSize fs sha pHead ([], 0, 0))"

text \<open>
  Offsets and lengths to read from the data file. An element behind the end of the \<open>deque\<close> is \<open>Crash\<close>. The
  length of the last chunk that the loop computes, \<open>chunkWriteLen\<close>, is not used.
\<close>

fun read_more :: "u32 \<Rightarrow> u32 list \<Rightarrow> EdgeFS \<Rightarrow> u32 list \<Rightarrow> u32 \<Rightarrow> (u64 \<times> u32) list \<Rightarrow> (u64 \<times> u32) list outcome" where
  "read_more chunkSize ids fs [] remainLen readInfo = Done readInfo"
| "read_more chunkSize ids fs (idx # idxs) remainLen readInfo =
     (if unat idx \<ge> length ids then Done readInfo
      else let c = ids ! unat idx; chunkReadLen = min chunkSize remainLen in
        if unat (idx + 1) = length ids \<and> calcMetaInfoPtr fs c = Crash then Crash
        else read_more chunkSize ids fs idxs (remainLen - chunkReadLen) (readInfo @ [(chunk_offset chunkSize c, chunkReadLen)]))"

definition calcReadVariable :: "u32 \<Rightarrow> u32 list \<Rightarrow> u32 \<Rightarrow> u32 \<Rightarrow> u64 \<Rightarrow> EdgeFS \<Rightarrow> (u64 \<times> u32) list outcome" where
  "calcReadVariable chunkSize ids lastLen readLen offset fs =
     (if chunkSize = 0 then Crash
      else let firstReadIdx = ucast (offset div ucast chunkSize) :: u32;
               firstChunkSkipLen = ucast (offset mod ucast chunkSize) :: u32 in
        if unat firstReadIdx \<ge> length ids then Crash
        else let start = chunk_offset chunkSize (ids ! unat firstReadIdx) + ucast firstChunkSkipLen in
          if unat (firstReadIdx + 1) = length ids then Done [(start, min (lastLen - firstChunkSkipLen) readLen)]
          else let firstChunkReadLen = min (chunkSize - firstChunkSkipLen) readLen;
                   remainLen = readLen - firstChunkReadLen;
                   needChunkNum = DIV_ROUND_UP remainLen chunkSize in
            read_more chunkSize ids fs (map (\<lambda>i. firstReadIdx + 1 + of_nat i) [0..<unat needChunkNum]) remainLen
              [(start, firstChunkReadLen)])"

text \<open>\<open>get\<close> is the read from the data file; \<open>buff\<close> is the memory from the caller's buffer on.\<close>

type_synonym 'w get = "u32 \<Rightarrow> u64 \<Rightarrow> 'w \<Rightarrow> bool \<times> byte list \<times> 'w"

fun read_data :: "'w get \<Rightarrow> (u64 \<times> u32) list \<Rightarrow> u32 \<Rightarrow> (nat \<Rightarrow> byte) \<Rightarrow> 'w \<Rightarrow> u32 \<times> (nat \<Rightarrow> byte) \<times> 'w" where
  "read_data get [] real buff w = (real, buff, w)"
| "read_data get ((offset, len) # readInfo) real buff w =
     (let (ok, bytes, w) = get len offset w; buff = overwrite buff (unat real) bytes in
      if \<not> ok then (real, buff, w) else read_data get readInfo (real + len) buff w)"

definition EdgeFS_read :: "'w file_os \<Rightarrow> SHA_INFO \<Rightarrow> byte list \<Rightarrow> (nat \<Rightarrow> byte) option \<Rightarrow> u32 \<Rightarrow> u64 \<Rightarrow>
    EdgeFS \<Rightarrow> 'w \<Rightarrow> (int \<times> (nat \<Rightarrow> byte) option \<times> EdgeFS \<times> 'w) outcome option" where
  "EdgeFS_read os ctx fileName buff len offset fs w = (case buff of None \<Rightarrow> return_o (- 1, None, fs, w)
   | Some buff \<Rightarrow> let fs = generateTaskid fs in
     (case (calcShaToHex ctx fileName, m_pFSHead fs) of (Some sha, Some h) \<Rightarrow>
        bind_o (Some (generateHashKey h sha)) (\<lambda>hashKey.
        bind_o (generateReadChunkids (m_chunkSize h) fs hashKey sha) (\<lambda>(ids, tot, lastLen).
          if ids = [] then return_o (- 1, Some buff, fs, w)
          else if offset > tot then return_o (- 1, Some buff, fs, w)
          else bind_o (Some (calcReadVariable (m_chunkSize h) ids lastLen len offset fs)) (\<lambda>readInfo.
            let (real, buff, w) = read_data (fo_read_at os (m_pDataMgr fs)) readInfo 0 buff w in
            return_o (int (unat real), Some buff, fs, w))))
      | _ \<Rightarrow> Some Crash))"

end
