(* ===== verification/EdgeFsChain.thy ===== *)
theory EdgeFsChain
  imports EdgeFs
begin

text \<open>
  The chunks of a bucket: the path along \<open>m_nextChunkid\<close>, what the three loops of \<open>EdgeFS.cpp\<close> compute on
  it, the invariant of the pool and the bytes of a file.
\<close>

subsection \<open>Paths through the pool\<close>

abbreviation meta_at :: "MetaInfo list \<Rightarrow> u32 \<Rightarrow> MetaInfo" where
  "meta_at pool c \<equiv> pool ! unat c"

inductive chain :: "MetaInfo list \<Rightarrow> u32 \<Rightarrow> u32 list \<Rightarrow> bool" for pool where
  chain_last: "unat c < length pool \<Longrightarrow> m_nextChunkid (meta_at pool c) = kInvalidChunkid \<Longrightarrow> chain pool c [c]"
| chain_step: "unat c < length pool \<Longrightarrow> m_nextChunkid (meta_at pool c) \<noteq> kInvalidChunkid \<Longrightarrow>
    chain pool (m_nextChunkid (meta_at pool c)) cs \<Longrightarrow> chain pool c (c # cs)"

inductive_cases chainE: "chain pool c cs"

lemma chain_unique: "chain pool c cs \<Longrightarrow> chain pool c ds \<Longrightarrow> cs = ds"
proof (induction arbitrary: ds rule: chain.induct)
  case (chain_last c)
  from chain_last.prems show ?case by (cases rule: chain.cases) (use chain_last.hyps in auto)
next
  case (chain_step c cs)
  from chain_step.prems show ?case
  proof (cases rule: chain.cases)
    case chain_last
    with chain_step.hyps show ?thesis by simp
  next
    case (chain_step es)
    with \<open>\<And>ds. chain pool (m_nextChunkid (meta_at pool c)) ds \<Longrightarrow> cs = ds\<close> show ?thesis by simp
  qed
qed

lemma chain_not_Nil: "chain pool c cs \<Longrightarrow> cs \<noteq> []"
  by (erule chainE) auto

lemma chain_hd: "chain pool c cs \<Longrightarrow> hd cs = c"
  by (erule chainE) auto

lemma chain_in_pool: "chain pool c cs \<Longrightarrow> x \<in> set cs \<Longrightarrow> unat x < length pool"
  by (induction rule: chain.induct) auto

lemma chain_suffix: "chain pool c cs \<Longrightarrow> x \<in> set cs \<Longrightarrow> \<exists>as bs. cs = as @ bs \<and> chain pool x bs"
proof (induction rule: chain.induct)
  case (chain_last c)
  then have "chain pool x [c]" using chain.chain_last [OF chain_last.hyps] by simp
  then show ?case by blast
next
  case (chain_step c cs)
  show ?case
  proof (cases "x = c")
    case True
    with chain.chain_step [OF chain_step.hyps] have "c # cs = [] @ (c # cs)" "chain pool x (c # cs)" by auto
    then show ?thesis by blast
  next
    case False
    with chain_step obtain as bs where "cs = as @ bs" "chain pool x bs" by auto
    then have "c # cs = (c # as) @ bs" "chain pool x bs" by auto
    then show ?thesis by blast
  qed
qed

lemma chain_distinct: "chain pool c cs \<Longrightarrow> distinct cs"
proof (induction rule: chain.induct)
  case (chain_step c cs)
  have "c \<notin> set cs"
  proof
    assume "c \<in> set cs"
    from chain_suffix [OF chain_step.hyps(3) this] obtain as bs where *: "cs = as @ bs" "chain pool c bs" by blast
    from chain_unique [OF this(2) chain.chain_step [OF chain_step.hyps]] * show False by simp
  qed
  with chain_step show ?case by simp
qed simp

lemma chain_length: "chain pool c cs \<Longrightarrow> length cs \<le> length pool"
proof -
  assume c: "chain pool c cs"
  have "unat ` set cs \<subseteq> {..<length pool}" using chain_in_pool [OF c] by auto
  then have "card (unat ` set cs) \<le> length pool" using card_mono [of "{..<length pool}"] by fastforce
  moreover have "inj_on unat (set cs)" by (rule inj_onI) (simp add: word_unat_eq_iff)
  ultimately show ?thesis using chain_distinct [OF c] by (simp add: card_image distinct_card)
qed

lemma chain_last_next: "chain pool c cs \<Longrightarrow> x \<in> set cs \<Longrightarrow>
  m_nextChunkid (meta_at pool x) = kInvalidChunkid \<longleftrightarrow> x = last cs"
proof (induction rule: chain.induct)
  case (chain_step c cs)
  have "c \<notin> set cs" using chain_distinct [OF chain.chain_step [OF chain_step.hyps]] by simp
  moreover have "last cs \<in> set cs" using chain_not_Nil [OF chain_step.hyps(3)] by simp
  ultimately show ?case using chain_step by auto
qed simp

text \<open>The path, computed: \<open>n\<close> bounds its length.\<close>

fun follow :: "nat \<Rightarrow> MetaInfo list \<Rightarrow> u32 \<Rightarrow> u32 list" where
  "follow 0 pool c = []"
| "follow (Suc n) pool c = (if unat c < length pool
     then c # (if m_nextChunkid (meta_at pool c) = kInvalidChunkid then [] else follow n pool (m_nextChunkid (meta_at pool c)))
     else [])"

lemma follow_chain: "chain pool c cs \<Longrightarrow> length cs \<le> n \<Longrightarrow> follow n pool c = cs"
proof (induction arbitrary: n rule: chain.induct)
  case (chain_last c)
  then show ?case by (cases n) auto
next
  case (chain_step c cs)
  then show ?case by (cases n) auto
qed

subsection \<open>The loops along a path\<close>

lemma calcMetaInfoPtr_in: "unat c < length (m_pMetaPool fs) \<Longrightarrow> calcMetaInfoPtr fs c = Done (meta_at (m_pMetaPool fs) c)"
  by (simp add: calcMetaInfoPtr_def)

lemma chunk_tail_chain: "chain (m_pMetaPool fs) c cs \<Longrightarrow> chunk_tail fs c = return_o (last cs)"
proof (induction rule: chain.induct)
  case (chain_last c)
  then show ?case by (simp add: chunk_tail.simps [of fs c] calcMetaInfoPtr_in)
next
  case (chain_step c cs)
  then show ?case using chain_not_Nil [of "m_pMetaPool fs" _ cs] by (simp add: chunk_tail.simps [of fs c] calcMetaInfoPtr_in)
qed

text \<open>The chunks of one file among those of a bucket.\<close>

definition of_file :: "MetaInfo list \<Rightarrow> byte list \<Rightarrow> u32 list \<Rightarrow> u32 list" where
  "of_file pool sha cs = filter (\<lambda>c. m_sha1 (meta_at pool c) = sha) cs"

lemma of_file_simps [simp]: "of_file pool sha [] = []"
  "of_file pool sha (c # cs) = (if m_sha1 (meta_at pool c) = sha then c # of_file pool sha cs else of_file pool sha cs)"
  "of_file pool sha (as @ bs) = of_file pool sha as @ of_file pool sha bs"
  by (simp_all add: of_file_def)

lemma file_tail_chain: "chain (m_pMetaPool fs) c cs \<Longrightarrow> file_tail fs sha c p =
    return_o (let mine = of_file (m_pMetaPool fs) sha cs in if mine = [] then p else Some (last mine))"
proof (induction arbitrary: p rule: chain.induct)
  case (chain_last c)
  then show ?case by (simp add: file_tail.simps [of fs sha c] calcMetaInfoPtr_in)
next
  case (chain_step c cs)
  then show ?case by (simp add: file_tail.simps [of fs sha c] calcMetaInfoPtr_in Let_def)
qed

definition written :: "u32 \<Rightarrow> MetaInfo list \<Rightarrow> u32 \<Rightarrow> nat" where
  "written chunkSize pool c = unat chunkSize - unat (m_idleLen (meta_at pool c))"

lemma ucast_of_nat: "n < 2 ^ 32 \<Longrightarrow> ucast (of_nat n :: u32) = (of_nat n :: u64)"
  by (simp add: word_unat_eq_iff unsigned_ucast_eq unsigned_of_nat take_bit_nat_eq_self)

lemma written_le: "written chunkSize pool c \<le> unat chunkSize"
  by (simp add: written_def)

lemma written_word:
  "m_idleLen (meta_at pool c) \<le> chunkSize \<Longrightarrow> chunkSize - m_idleLen (meta_at pool c) = of_nat (written chunkSize pool c)"
  by (simp add: written_def word_le_nat_alt of_nat_diff)

lemma written_up: "ucast (of_nat (written chunkSize pool c) :: u32) = (of_nat (written chunkSize pool c) :: u64)"
  using written_le [of chunkSize pool c] unat_less_power [OF refl, of chunkSize] by (intro ucast_of_nat) simp

lemma read_walk_chain: "chain (m_pMetaPool fs) c cs \<Longrightarrow>
    (\<And>x. x \<in> set cs \<Longrightarrow> m_idleLen (meta_at (m_pMetaPool fs) x) \<le> chunkSize) \<Longrightarrow>
    read_walk chunkSize fs sha c (ids, tot, lastLen) =
    return_o (let mine = of_file (m_pMetaPool fs) sha cs in (ids @ mine,
      tot + of_nat (sum_list (map (written chunkSize (m_pMetaPool fs)) mine)),
      if mine = [] then lastLen else of_nat (written chunkSize (m_pMetaPool fs) (last mine))))"
proof (induction arbitrary: ids tot lastLen rule: chain.induct)
  case (chain_last c)
  then show ?case by (simp add: read_walk.simps [of chunkSize fs sha c] calcMetaInfoPtr_in written_word written_up)
next
  case (chain_step c cs)
  then show ?case
    by (simp add: read_walk.simps [of chunkSize fs sha c] calcMetaInfoPtr_in Let_def add.assoc written_word written_up)
qed

subsection \<open>Files\<close>

definition hash_key :: "EdgeFSHead \<Rightarrow> byte list \<Rightarrow> u32" where
  "hash_key h sha = of_nat (le_val (take 4 sha)) mod m_chunkNum h"

definition bucket :: "EdgeFSHead \<Rightarrow> MetaInfo list \<Rightarrow> byte list \<Rightarrow> u32 list" where
  "bucket h pool sha = (let c = hash_key h sha in if m_isUsed (meta_at pool c) then follow (length pool) pool c else [])"

definition file_chunks :: "EdgeFSHead \<Rightarrow> MetaInfo list \<Rightarrow> byte list \<Rightarrow> u32 list" where
  "file_chunks h pool sha = of_file pool sha (bucket h pool sha)"

text \<open>What the data file holds of a chunk and of a file.\<close>

definition stored :: "u32 \<Rightarrow> (nat \<Rightarrow> byte) \<Rightarrow> MetaInfo list \<Rightarrow> u32 \<Rightarrow> byte list" where
  "stored chunkSize g pool c = map g [unat c * unat chunkSize..<unat c * unat chunkSize + written chunkSize pool c]"

definition file_bytes :: "EdgeFSHead \<Rightarrow> (nat \<Rightarrow> byte) \<Rightarrow> MetaInfo list \<Rightarrow> byte list \<Rightarrow> byte list" where
  "file_bytes h g pool sha = concat (map (stored (m_chunkSize h) g pool) (file_chunks h pool sha))"

text \<open>
  The pool is well-formed: the next chunk of a used one is used or there is none, the paths end, no used chunk
  is empty, and all chunks of a file but the last are full.
\<close>

definition pool_ok :: "EdgeFSHead \<Rightarrow> MetaInfo list \<Rightarrow> bool" where
  "pool_ok h pool \<longleftrightarrow> unat (m_chunkNum h) = length pool \<and> m_chunkNum h \<noteq> 0 \<and> m_chunkSize h \<noteq> 0 \<and>
     (\<forall>c. unat c < length pool \<longrightarrow> m_isUsed (meta_at pool c) \<longrightarrow> m_idleLen (meta_at pool c) < m_chunkSize h \<and>
        (\<exists>cs. chain pool c cs \<and> (\<forall>x \<in> set cs. m_isUsed (meta_at pool x)))) \<and>
     (\<forall>sha. \<forall>x \<in> set (butlast (file_chunks h pool sha)). m_idleLen (meta_at pool x) = 0)"

definition fs_ok :: "EdgeFSHead \<Rightarrow> EdgeFS \<Rightarrow> bool" where
  "fs_ok h fs \<longleftrightarrow> m_pFSHead fs = Some h \<and> pool_ok h (m_pMetaPool fs) \<and> bm_ok (m_pBitMap fs) \<and>
     m_totalChunkNum (m_pBitMap fs) = m_chunkNum h \<and>
     (\<forall>c. unat c < length (m_pMetaPool fs) \<longrightarrow> m_isUsed (meta_at (m_pMetaPool fs) c) = (c \<in> in_use (m_pBitMap fs)))"

lemma hash_key_in: "pool_ok h pool \<Longrightarrow> unat (hash_key h sha) < length pool"
  using unat_gt_0 [of "m_chunkNum h"] by (simp add: pool_ok_def hash_key_def unat_mod)

lemma generateHashKey_ok: "pool_ok h pool \<Longrightarrow> generateHashKey h sha = Done (hash_key h sha)"
  by (simp add: generateHashKey_def kHashCollisions_def hash_key_def pool_ok_def)

lemma pool_chain:
  assumes "pool_ok h pool" "unat c < length pool" "m_isUsed (meta_at pool c)"
  obtains cs where "chain pool c cs"
    "\<forall>x \<in> set cs. m_isUsed (meta_at pool x) \<and> unat x < length pool \<and> m_idleLen (meta_at pool x) < m_chunkSize h"
proof -
  from assms obtain cs where cs: "chain pool c cs" "\<forall>x \<in> set cs. m_isUsed (meta_at pool x)"
    by (auto simp: pool_ok_def)
  moreover have "\<forall>x \<in> set cs. unat x < length pool" using chain_in_pool [OF cs(1)] by blast
  ultimately show ?thesis using that [OF cs(1)] assms(1) by (auto simp: pool_ok_def)
qed

lemma bucket_chain: "chain pool (hash_key h sha) cs \<Longrightarrow> m_isUsed (meta_at pool (hash_key h sha)) \<Longrightarrow> bucket h pool sha = cs"
  using chain_length by (simp add: bucket_def Let_def follow_chain)

lemma bucket_unused: "\<not> m_isUsed (meta_at pool (hash_key h sha)) \<Longrightarrow> bucket h pool sha = []"
  by (simp add: bucket_def)

lemma file_chunks_used:
  assumes "pool_ok h pool" "c \<in> set (file_chunks h pool sha)"
  shows "m_isUsed (meta_at pool c)" "unat c < length pool" "m_sha1 (meta_at pool c) = sha"
    "m_idleLen (meta_at pool c) < m_chunkSize h"
proof -
  have used: "m_isUsed (meta_at pool (hash_key h sha))"
    using assms(2) by (cases "m_isUsed (meta_at pool (hash_key h sha))") (simp_all add: file_chunks_def bucket_unused)
  obtain cs where cs: "chain pool (hash_key h sha) cs"
    "\<forall>x \<in> set cs. m_isUsed (meta_at pool x) \<and> unat x < length pool \<and> m_idleLen (meta_at pool x) < m_chunkSize h"
    by (rule pool_chain [OF assms(1) hash_key_in [OF assms(1)] used])
  have "c \<in> set cs" "m_sha1 (meta_at pool c) = sha"
    using assms(2) bucket_chain [OF cs(1) used] by (auto simp: file_chunks_def of_file_def)
  with cs show "m_isUsed (meta_at pool c)" "unat c < length pool" "m_sha1 (meta_at pool c) = sha"
    "m_idleLen (meta_at pool c) < m_chunkSize h" by auto
qed

end
