(* ===== verification/EdgeFsAppend.thy ===== *)
theory EdgeFsAppend
  imports EdgeFsChain
begin

text \<open>
  What linking new chunks to the end of a bucket does to the pool and to the files, apart from how \<open>write\<close>
  gets there.
\<close>

text \<open>The chunks that \<open>write\<close> finds: the last of the bucket, and the last of the file if it has one.\<close>

definition tails :: "EdgeFSHead \<Rightarrow> MetaInfo list \<Rightarrow> byte list \<Rightarrow> u32 \<Rightarrow> u32 option \<Rightarrow> bool" where
  "tails h pool sha T p \<longleftrightarrow> (let c = hash_key h sha in
     if m_isUsed (meta_at pool c)
     then T = last (bucket h pool sha) \<and> p = (let mine = file_chunks h pool sha in if mine = [] then None else Some (last mine))
     else T = c \<and> p = Some c)"

text \<open>
  The pool \<open>pool'\<close> after \<open>first\<close> bytes have gone to the chunk \<open>p\<close> and \<open>ids\<close> were linked behind \<open>T\<close>;
  \<open>len k\<close> is how much the new chunk \<open>k\<close> has.
\<close>

definition appended :: "EdgeFSHead \<Rightarrow> byte list \<Rightarrow> u32 \<Rightarrow> u32 list \<Rightarrow> (nat \<Rightarrow> nat) \<Rightarrow> u32 \<Rightarrow> u32 option \<Rightarrow> MetaInfo list \<Rightarrow> MetaInfo list \<Rightarrow> bool" where
  "appended h sha first ids len T p pool pool' \<longleftrightarrow> pool_ok h pool \<and> tails h pool sha T p \<and> length pool' = length pool \<and> distinct ids \<and>
     (\<forall>c \<in> set ids. unat c < length pool \<and> \<not> m_isUsed (meta_at pool c)) \<and>
     (\<forall>k < length ids. let m = meta_at pool' (ids ! k) in m_isUsed m \<and> m_sha1 m = sha \<and>
        m_nextChunkid m = (if k + 1 = length ids then kInvalidChunkid else ids ! (k + 1)) \<and>
        m_idleLen m < m_chunkSize h \<and> unat (m_chunkSize h) - unat (m_idleLen m) = len k \<and>
        (k + 1 < length ids \<longrightarrow> m_idleLen m = 0)) \<and>
     (\<forall>c. unat c < length pool \<longrightarrow> c \<notin> set ids \<longrightarrow> (let m = meta_at pool c; m' = meta_at pool' c in
        m_isUsed m' = m_isUsed m \<and> m_sha1 m' = m_sha1 m \<and>
        m_nextChunkid m' = (if c = T \<and> ids \<noteq> [] then hd ids else m_nextChunkid m) \<and>
        m_idleLen m' = (if p = Some c then m_idleLen m - first else m_idleLen m))) \<and>
     (case p of None \<Rightarrow> first = 0 | Some c \<Rightarrow>
        if m_isUsed (meta_at pool c) then first \<le> m_idleLen (meta_at pool c) \<and> (ids \<noteq> [] \<longrightarrow> first = m_idleLen (meta_at pool c))
        else first = 0 \<and> (ids \<noteq> [] \<longrightarrow> hd ids = c))"

lemma valid_chunk: "pool_ok h pool \<Longrightarrow> unat c < length pool \<Longrightarrow> c \<noteq> kInvalidChunkid"
proof
  assume "pool_ok h pool" "unat c < length pool" and c: "c = kInvalidChunkid"
  then have "c < m_chunkNum h" by (simp add: pool_ok_def word_less_nat_alt)
  moreover have "m_chunkNum h \<le> - 1" by (rule word_order.extremum)
  ultimately show False using c by (simp add: kInvalidChunkid_def not_less)
qed

lemma new_meta:
  assumes "appended h sha first ids len T p pool pool'" "k < length ids"
  shows "m_isUsed (meta_at pool' (ids ! k))" "m_sha1 (meta_at pool' (ids ! k)) = sha"
    "m_nextChunkid (meta_at pool' (ids ! k)) = (if k + 1 = length ids then kInvalidChunkid else ids ! (k + 1))"
    "m_idleLen (meta_at pool' (ids ! k)) < m_chunkSize h" "written (m_chunkSize h) pool' (ids ! k) = len k"
    "k + 1 < length ids \<Longrightarrow> m_idleLen (meta_at pool' (ids ! k)) = 0"
  using assms by (simp_all add: appended_def Let_def written_def)

lemma old_meta:
  assumes "appended h sha first ids len T p pool pool'" "unat c < length pool" "c \<notin> set ids"
  shows "m_isUsed (meta_at pool' c) = m_isUsed (meta_at pool c)" "m_sha1 (meta_at pool' c) = m_sha1 (meta_at pool c)"
    "m_nextChunkid (meta_at pool' c) = (if c = T \<and> ids \<noteq> [] then hd ids else m_nextChunkid (meta_at pool c))"
    "m_idleLen (meta_at pool' c) = (if p = Some c then m_idleLen (meta_at pool c) - first else m_idleLen (meta_at pool c))"
  using assms by (simp_all add: appended_def Let_def)

lemma appended_basic:
  assumes "appended h sha first ids len T p pool pool'"
  shows "pool_ok h pool" "tails h pool sha T p" "length pool' = length pool" "distinct ids"
    "c \<in> set ids \<Longrightarrow> unat c < length pool" "c \<in> set ids \<Longrightarrow> \<not> m_isUsed (meta_at pool c)"
  using assms by (simp_all add: appended_def)

lemma chain_new:
  assumes "appended h sha first ids len T p pool pool'"
  shows "k < length ids \<Longrightarrow> chain pool' (ids ! k) (drop k ids)"
proof (induction "length ids - k" arbitrary: k)
  case (Suc d)
  note A = appended_basic [OF assms]
  have k: "unat (ids ! k) < length pool'" using Suc.prems A(5) [of "ids ! k"] by (simp add: A(3))
  show ?case
  proof (cases "k + 1 = length ids")
    case True
    with Suc.prems have "drop k ids = [ids ! k]" by (simp add: Cons_nth_drop_Suc [symmetric])
    with chain_last [OF k] new_meta(3) [OF assms Suc.prems] True show ?thesis by simp
  next
    case False
    with Suc.prems have k1: "k + 1 < length ids" by simp
    then have "ids ! (k + 1) \<noteq> kInvalidChunkid" using valid_chunk [OF A(1) A(5) [of "ids ! (k + 1)"]] by simp
    with chain_step [OF k, of "drop (k + 1) ids"] Suc k1 new_meta(3) [OF assms Suc.prems] show ?thesis
      by (simp add: Cons_nth_drop_Suc)
  qed
qed simp

text \<open>A path of the old pool grows by the new chunks if it ends in \<open>T\<close>.\<close>

definition grown :: "u32 \<Rightarrow> u32 list \<Rightarrow> u32 list \<Rightarrow> u32 list" where
  "grown T ids cs = (if last cs = T then cs @ ids else cs)"

lemma chain_old:
  assumes A: "appended h sha first ids len T p pool pool'"
  shows "chain pool c cs \<Longrightarrow> \<forall>x \<in> set cs. m_isUsed (meta_at pool x) \<Longrightarrow> T \<in> set cs \<longrightarrow> T = last cs \<Longrightarrow>
    chain pool' c (grown T ids cs)"
proof (induction rule: chain.induct)
  case (chain_last c)
  then have c: "unat c < length pool'" "c \<notin> set ids" using appended_basic [OF A] by auto
  note m = old_meta(3) [OF A chain_last.hyps(1) c(2)]
  show ?case
  proof (cases "c = T \<and> ids \<noteq> []")
    case True
    then have "chain pool' (hd ids) ids" using chain_new [OF A, of 0] by (simp add: hd_conv_nth)
    moreover have "hd ids \<noteq> kInvalidChunkid" using valid_chunk [OF appended_basic(1,5) [OF A]] True by simp
    ultimately show ?thesis using chain_step [OF c(1)] m True by (simp add: grown_def)
  next
    case False
    with chain.chain_last [OF c(1)] m chain_last.hyps show ?thesis by (auto simp: grown_def)
  qed
next
  case (chain_step c cs)
  then have c: "unat c < length pool'" "c \<notin> set ids" using appended_basic [OF A] by auto
  have ne: "cs \<noteq> []" by (rule chain_not_Nil [OF chain_step.hyps(3)])
  have "c \<notin> set cs" using chain_distinct [OF chain.chain_step [OF chain_step.hyps]] by simp
  moreover have "last (c # cs) \<in> set cs" using ne by simp
  ultimately have "c \<noteq> T" using chain_step.prems(2) by auto
  with old_meta(3) [OF A chain_step.hyps(1) c(2)] have m: "m_nextChunkid (meta_at pool' c) = m_nextChunkid (meta_at pool c)" by simp
  have "chain pool' (m_nextChunkid (meta_at pool c)) (grown T ids cs)"
    using chain_step.IH chain_step.prems ne by auto
  from chain.chain_step [OF c(1), unfolded m, OF chain_step.hyps(2) this] ne show ?case
    by (auto simp: grown_def split: if_splits)
qed

lemma tails_last:
  assumes "pool_ok h pool" "tails h pool sha T p" "chain pool c cs" "\<forall>x \<in> set cs. m_isUsed (meta_at pool x)" "T \<in> set cs"
  shows "T = last cs"
proof (cases "m_isUsed (meta_at pool (hash_key h sha))")
  case True
  obtain ds where ds: "chain pool (hash_key h sha) ds" by (rule pool_chain [OF assms(1) hash_key_in [OF assms(1)] True])
  with assms(2) True bucket_chain [OF ds] have "T = last ds" by (simp add: tails_def Let_def)
  with chain_last_next [OF ds, of T] chain_not_Nil [OF ds] have "m_nextChunkid (meta_at pool T) = kInvalidChunkid" by simp
  with chain_last_next [OF assms(3,5)] show ?thesis by simp
next
  case False
  with assms(2,4,5) show ?thesis by (simp add: tails_def Let_def)
qed

lemma appended_chain:
  assumes A: "appended h sha first ids len T p pool pool'" and c: "unat c < length pool" "m_isUsed (meta_at pool c)"
  obtains cs where "chain pool c cs" "chain pool' c (grown T ids cs)" "\<forall>x \<in> set cs. m_isUsed (meta_at pool x) \<and> x \<notin> set ids \<and> unat x < length pool"
proof -
  note B = appended_basic [OF A]
  obtain cs where cs: "chain pool c cs"
    "\<forall>x \<in> set cs. m_isUsed (meta_at pool x) \<and> unat x < length pool \<and> m_idleLen (meta_at pool x) < m_chunkSize h"
    by (rule pool_chain [OF B(1) c])
  show ?thesis
  proof (rule that [OF cs(1) chain_old [OF A cs(1)]])
    show "T \<in> set cs \<longrightarrow> T = last cs" using tails_last [OF B(1,2) cs(1)] cs(2) by blast
  qed (use cs(2) B(6) in blast)+
qed

subsection \<open>The files\<close>

lemma of_file_new:
  assumes A: "appended h sha first ids len T p pool pool'" and cs: "set cs \<subseteq> set ids"
  shows "of_file pool' t cs = (if t = sha then cs else [])"
proof -
  have "m_sha1 (meta_at pool' c) = sha" if "c \<in> set cs" for c
    using that cs new_meta(2) [OF A] by (metis in_set_conv_nth subsetD)
  then show ?thesis by (auto simp: of_file_def intro: filter_True filter_False)
qed

lemma of_file_old:
  assumes A: "appended h sha first ids len T p pool pool'" and cs: "\<forall>x \<in> set cs. x \<notin> set ids \<and> unat x < length pool"
  shows "of_file pool' t cs = of_file pool t cs"
  unfolding of_file_def using old_meta(2) [OF A] cs by (intro filter_cong) auto

lemma appended_new_key:
  assumes A: "appended h sha first ids len T p pool pool'" and "ids \<noteq> []" "\<not> m_isUsed (meta_at pool (hash_key h sha))"
  shows "hd ids = hash_key h sha"
proof -
  have "p = Some (hash_key h sha)" using appended_basic(2) [OF A] assms(3) by (simp add: tails_def Let_def)
  with assms show ?thesis by (simp add: appended_def)
qed

lemma file_chunks_appended:
  assumes A: "appended h sha first ids len T p pool pool'"
  shows "file_chunks h pool' t = (if t = sha then file_chunks h pool t @ ids else file_chunks h pool t)"
proof -
  note B = appended_basic [OF A]
  let ?k = "hash_key h t"
  have k: "unat ?k < length pool" by (rule hash_key_in [OF B(1)])
  consider "m_isUsed (meta_at pool ?k)" | "\<not> m_isUsed (meta_at pool ?k)" "?k \<notin> set ids" | "?k \<in> set ids" by blast
  then show ?thesis
  proof cases
    case 1
    obtain cs where cs: "chain pool ?k cs" "chain pool' ?k (grown T ids cs)"
      "\<forall>x \<in> set cs. m_isUsed (meta_at pool x) \<and> x \<notin> set ids \<and> unat x < length pool" by (rule appended_chain [OF A k 1])
    have "?k \<in> set cs" using cs(1) by (cases rule: chain.cases) auto
    with cs(3) old_meta(1) [OF A k] 1 have used': "m_isUsed (meta_at pool' ?k)" by auto
    have b: "bucket h pool t = cs" "bucket h pool' t = grown T ids cs"
      using bucket_chain [OF cs(1) 1] bucket_chain [OF cs(2) used'] by auto
    have T: "T = last cs" if "t = sha" using B(2) that 1 b by (simp add: tails_def Let_def)
    have "of_file pool' t cs = of_file pool t cs" using of_file_old [OF A] cs(3) by blast
    moreover have "file_chunks h pool t = of_file pool t cs" "file_chunks h pool' t = of_file pool' t (grown T ids cs)"
      by (simp_all only: file_chunks_def b)
    ultimately show ?thesis using T of_file_new [OF A subset_refl, of t] by (auto simp: grown_def)
  next
    case 2
    with old_meta(1) [OF A k] have "\<not> m_isUsed (meta_at pool' ?k)" by simp
    moreover have "ids = []" if "t = sha" using appended_new_key [OF A] 2 that by (cases ids) auto
    ultimately show ?thesis using 2(1) by (auto simp: file_chunks_def bucket_unused)
  next
    case 3
    then obtain i where i: "i < length ids" "?k = ids ! i" by (auto simp: in_set_conv_nth)
    have unused: "\<not> m_isUsed (meta_at pool ?k)" using B(6) 3 .
    have "m_isUsed (meta_at pool' ?k)" using new_meta(1) [OF A i(1)] i(2) by simp
    with bucket_chain chain_new [OF A i(1)] i(2) have b: "bucket h pool' t = drop i ids" by simp
    have "i = 0" if "t = sha"
    proof -
      have "ids ! 0 = ids ! i" using appended_new_key [OF A] unused that i by (cases ids) auto
      then show ?thesis using nth_eq_iff_index_eq [OF B(4), of 0 i] i(1) by (cases ids) auto
    qed
    moreover have "of_file pool' t (drop i ids) = (if t = sha then drop i ids else [])"
      by (rule of_file_new [OF A set_drop_subset])
    ultimately show ?thesis using unused by (auto simp: file_chunks_def b bucket_unused)
  qed
qed

lemma tail_of_file:
  assumes A: "appended h sha first ids len T p pool pool'" and "p = Some c" "m_isUsed (meta_at pool c)"
  shows "file_chunks h pool sha \<noteq> []" "c = last (file_chunks h pool sha)"
  using assms by (auto simp: appended_def tails_def Let_def split: if_splits)

lemma tail_none:
  assumes A: "appended h sha first ids len T p pool pool'" and "p = None \<or> (\<exists>c. p = Some c \<and> \<not> m_isUsed (meta_at pool c))"
  shows "file_chunks h pool sha = []" "first = 0"
proof -
  show "first = 0" using assms by (auto simp: appended_def)
  show "file_chunks h pool sha = []"
  proof (cases "m_isUsed (meta_at pool (hash_key h sha))")
    case True
    with assms(2) appended_basic(2) [OF A] have "file_chunks h pool sha = [] \<or> \<not> m_isUsed (meta_at pool (last (file_chunks h pool sha)))"
      by (auto simp: tails_def Let_def split: if_splits)
    with file_chunks_used(1) [OF appended_basic(1) [OF A], of "last (file_chunks h pool sha)" sha] show ?thesis
      using last_in_set by blast
  qed (simp add: file_chunks_def bucket_unused)
qed

lemma full_stays_full:
  assumes A: "appended h sha first ids len T p pool pool'" and c: "c \<in> set (file_chunks h pool t)" "m_idleLen (meta_at pool c) = 0"
  shows "m_idleLen (meta_at pool' c) = 0"
proof -
  note B = appended_basic [OF A]
  note used = file_chunks_used [OF B(1) c(1)]
  with B(6) have "c \<notin> set ids" by blast
  moreover have "first = 0" if "p = Some c" using A that used(1) c(2) by (auto simp: appended_def)
  ultimately show ?thesis using old_meta(4) [OF A used(2)] c(2) by auto
qed

lemma pool_ok_appended:
  assumes A: "appended h sha first ids len T p pool pool'"
  shows "pool_ok h pool'"
proof -
  note B = appended_basic [OF A]
  have chunk: "m_idleLen (meta_at pool' c) < m_chunkSize h \<and> (\<exists>cs. chain pool' c cs \<and> (\<forall>x \<in> set cs. m_isUsed (meta_at pool' x)))"
    if c: "unat c < length pool" "m_isUsed (meta_at pool' c)" for c
  proof (cases "c \<in> set ids")
    case True
    then obtain i where i: "i < length ids" "c = ids ! i" by (auto simp: in_set_conv_nth)
    have "m_isUsed (meta_at pool' x)" if "x \<in> set (drop i ids)" for x
      using new_meta(1) [OF A] in_set_dropD [OF that] by (auto simp: in_set_conv_nth)
    with chain_new [OF A i(1)] new_meta(4) [OF A i(1)] i(2) show ?thesis by auto
  next
    case False
    note old = old_meta [OF A c(1) False]
    with c(2) have used: "m_isUsed (meta_at pool c)" by simp
    obtain cs where cs: "chain pool' c (grown T ids cs)"
      "\<forall>x \<in> set cs. m_isUsed (meta_at pool x) \<and> x \<notin> set ids \<and> unat x < length pool" by (rule appended_chain [OF A c(1) used])
    have "m_isUsed (meta_at pool' x)" if "x \<in> set (grown T ids cs)" for x
    proof -
      from that have "x \<in> set cs \<or> x \<in> set ids" by (auto simp: grown_def split: if_splits)
      then show ?thesis
      proof
        assume "x \<in> set cs"
        with cs(2) old_meta(1) [OF A, of x] show ?thesis by simp
      next
        assume "x \<in> set ids"
        with new_meta(1) [OF A] show ?thesis by (auto simp: in_set_conv_nth)
      qed
    qed
    moreover have "m_idleLen (meta_at pool' c) < m_chunkSize h"
    proof -
      have idle: "m_idleLen (meta_at pool c) < m_chunkSize h" using B(1) c(1) used by (simp add: pool_ok_def)
      have "first \<le> m_idleLen (meta_at pool c)" if "p = Some c" using A that used by (simp add: appended_def)
      then have "m_idleLen (meta_at pool' c) \<le> m_idleLen (meta_at pool c)" using old(4) by (auto simp: word_le_nat_alt unat_sub)
      with idle show ?thesis using le_less_trans by blast
    qed
    ultimately show ?thesis using cs(1) by blast
  qed
  have full: "m_idleLen (meta_at pool' x) = 0" if x: "x \<in> set (butlast (file_chunks h pool' t))" for x t
  proof (cases "t = sha \<and> ids \<noteq> []")
    case False
    with x file_chunks_appended [OF A, of t] have *: "x \<in> set (butlast (file_chunks h pool t))"
      by (cases "ids = []") (auto split: if_splits)
    with B(1) have "m_idleLen (meta_at pool x) = 0" by (simp add: pool_ok_def)
    with full_stays_full [OF A in_set_butlastD [OF *]] show ?thesis by simp
  next
    case True
    with x file_chunks_appended [OF A, of t] have "x \<in> set (file_chunks h pool sha) \<or> x \<in> set (butlast ids)"
      by (simp add: butlast_append)
    then show ?thesis
    proof
      assume "x \<in> set (butlast ids)"
      then obtain k where "k < length (butlast ids)" "x = butlast ids ! k" by (auto simp: in_set_conv_nth)
      then have "k + 1 < length ids" "x = ids ! k" by (simp_all add: nth_butlast)
      with new_meta(6) [OF A, of k] show ?thesis by simp
    next
      assume x: "x \<in> set (file_chunks h pool sha)"
      note used = file_chunks_used [OF B(1) x]
      show ?thesis
      proof (cases "x = last (file_chunks h pool sha)")
        case False
        with x have "x \<in> set (butlast (file_chunks h pool sha))" by (metis append_butlast_last_id empty_iff in_set_conv_decomp_last
          list.set(1) rotate1.simps(2) set_ConsD set_rotate1)
        with B(1) have "m_idleLen (meta_at pool x) = 0" by (simp add: pool_ok_def)
        with full_stays_full [OF A x] show ?thesis by simp
      next
        case last: True
        have "m_isUsed (meta_at pool (hash_key h sha))"
          using x by (cases "m_isUsed (meta_at pool (hash_key h sha))") (auto simp: file_chunks_def bucket_unused)
        with x last B(2) have "p = Some x" by (auto simp: tails_def Let_def)
        moreover with A used(1) True have "first = m_idleLen (meta_at pool x)" by (simp add: appended_def)
        moreover have "x \<notin> set ids" using B(6) used(1) by blast
        ultimately show ?thesis using old_meta(4) [OF A used(2)] by simp
      qed
    qed
  qed
  from B(1,3) chunk full show ?thesis by (auto simp: pool_ok_def)
qed

subsection \<open>The data\<close>

lemma chunk_region: "i < unat chunkSize \<Longrightarrow> (unat c * unat chunkSize + i) div unat chunkSize = unat c"
  by (simp add: div_mult_self3)

lemma chunk_within:
  assumes "unat c < n" "n * unat chunkSize \<le> cap" "i \<le> unat chunkSize"
  shows "unat c * unat chunkSize + i \<le> cap"
proof -
  have "Suc (unat c) * unat chunkSize \<le> n * unat chunkSize" using assms(1) by (intro mult_le_mono1) simp
  with assms show ?thesis by simp
qed

lemma overwrite_chunk:
  assumes "x div unat chunkSize \<noteq> unat c" "i + length bs \<le> unat chunkSize"
  shows "overwrite g (unat c * unat chunkSize + i) bs x = g x"
proof -
  have "\<not> (unat c * unat chunkSize + i \<le> x \<and> x < unat c * unat chunkSize + i + length bs)"
  proof
    assume *: "unat c * unat chunkSize + i \<le> x \<and> x < unat c * unat chunkSize + i + length bs"
    define j where "j = x - unat c * unat chunkSize"
    with * assms(2) have "x = unat c * unat chunkSize + j" "j < unat chunkSize" by auto
    with chunk_region [of j chunkSize c] assms(1) show False by simp
  qed
  then show ?thesis by (simp only: overwrite_def if_False)
qed

lemma overwrite_same: "map (overwrite g off bs) [off..<off + length bs] = bs"
  by (rule nth_equalityI) (simp_all add: overwrite_def)

lemma overwrite_Nil [simp]: "overwrite g off [] = g"
  by (rule ext) (auto simp: overwrite_def)

lemma in_chunk:
  assumes "c \<in> set (file_chunks h pool t)" "x \<in> set [unat c * unat chunkSize..<unat c * unat chunkSize + written chunkSize pool c]"
  shows "x div unat chunkSize = unat c"
proof -
  have "x - unat c * unat chunkSize < unat chunkSize" "unat c * unat chunkSize + (x - unat c * unat chunkSize) = x"
    using assms(2) written_le [of chunkSize pool c] by auto
  with chunk_region show ?thesis by metis
qed

text \<open>
  The data of the new pool: behind what \<open>p\<close> had there are the bytes \<open>fb\<close>, the new chunks hold \<open>rest\<close>.
\<close>

definition data_appended :: "EdgeFSHead \<Rightarrow> byte list \<Rightarrow> byte list \<Rightarrow> u32 list \<Rightarrow> u32 option \<Rightarrow> MetaInfo list \<Rightarrow> MetaInfo list \<Rightarrow> (nat \<Rightarrow> byte) \<Rightarrow> (nat \<Rightarrow> byte) \<Rightarrow> bool" where
  "data_appended h fb rest ids p pool pool' g g' \<longleftrightarrow> (let size = unat (m_chunkSize h);
       g1 = (case p of None \<Rightarrow> g | Some c \<Rightarrow> overwrite g (unat c * size + written (m_chunkSize h) pool c) fb) in
     (\<forall>x. (\<forall>c \<in> set ids. x div size \<noteq> unat c) \<longrightarrow> g' x = g1 x) \<and>
     concat (map (stored (m_chunkSize h) g' pool') ids) = rest)"

lemma first_fits:
  assumes A: "appended h sha first ids len T p pool pool'" and "p = Some c" "m_isUsed (meta_at pool c)"
  shows "written (m_chunkSize h) pool' c = written (m_chunkSize h) pool c + unat first"
    "written (m_chunkSize h) pool c + unat first \<le> unat (m_chunkSize h)"
proof -
  note B = appended_basic [OF A]
  have c: "c \<in> set (file_chunks h pool sha)" using tail_of_file [OF A assms(2,3)] by simp
  note used = file_chunks_used [OF B(1) c]
  have f: "first \<le> m_idleLen (meta_at pool c)" using A assms(2,3) by (simp add: appended_def)
  have "c \<notin> set ids" using B(6) used(1) by blast
  with old_meta(4) [OF A used(2)] assms(2) have "m_idleLen (meta_at pool' c) = m_idleLen (meta_at pool c) - first" by simp
  with f used(4) show "written (m_chunkSize h) pool' c = written (m_chunkSize h) pool c + unat first"
    "written (m_chunkSize h) pool c + unat first \<le> unat (m_chunkSize h)"
    by (simp_all add: written_def unat_sub word_le_nat_alt word_less_nat_alt)
qed

lemma stored_other:
  assumes A: "appended h sha first ids len T p pool pool'" and D: "data_appended h fb rest ids p pool pool' g g'"
    and fb: "length fb = unat first" and c: "c \<in> set (file_chunks h pool t)" "p \<noteq> Some c"
  shows "stored (m_chunkSize h) g' pool' c = stored (m_chunkSize h) g pool c"
proof -
  note B = appended_basic [OF A]
  note used = file_chunks_used [OF B(1) c(1)]
  then have out: "c \<notin> set ids" using B(6) by blast
  then have w: "written (m_chunkSize h) pool' c = written (m_chunkSize h) pool c"
    using old_meta(4) [OF A used(2)] c(2) by (simp add: written_def)
  have "g' x = g x" if "x \<in> set [unat c * unat (m_chunkSize h)..<unat c * unat (m_chunkSize h) + written (m_chunkSize h) pool c]" for x
  proof -
    note x = in_chunk [OF c(1) that]
    have "g' x = (case p of None \<Rightarrow> g | Some c \<Rightarrow> overwrite g (unat c * unat (m_chunkSize h) + written (m_chunkSize h) pool c) fb) x"
    proof -
      have "\<forall>d \<in> set ids. x div unat (m_chunkSize h) \<noteq> unat d" using x out by (metis word_unat_eq_iff)
      with D show ?thesis by (simp add: data_appended_def Let_def)
    qed
    also have "\<dots> = g x"
    proof (cases p)
      case (Some q)
      show ?thesis
      proof (cases "m_isUsed (meta_at pool q)")
        case True
        have "x div unat (m_chunkSize h) \<noteq> unat q" using x c(2) Some by (auto simp: word_unat_eq_iff)
        from overwrite_chunk [OF this] first_fits(2) [OF A Some True] fb Some show ?thesis by simp
      next
        case False
        with tail_none(2) [OF A] Some fb show ?thesis by simp
      qed
    qed simp
    finally show ?thesis .
  qed
  then show ?thesis by (simp add: stored_def w)
qed

lemma stored_tail:
  assumes A: "appended h sha first ids len T p pool pool'" and D: "data_appended h fb rest ids p pool pool' g g'"
    and fb: "length fb = unat first" and c: "p = Some c" "m_isUsed (meta_at pool c)"
  shows "stored (m_chunkSize h) g' pool' c = stored (m_chunkSize h) g pool c @ fb"
proof -
  note B = appended_basic [OF A]
  let ?o = "unat c * unat (m_chunkSize h)" and ?w = "written (m_chunkSize h) pool c"
  have c': "c \<in> set (file_chunks h pool sha)" using tail_of_file [OF A c] by simp
  then have out: "c \<notin> set ids" using B(6) file_chunks_used(1) [OF B(1)] by blast
  note fits = first_fits [OF A c]
  have "g' x = overwrite g (?o + ?w) fb x" if "x \<in> set [?o..<?o + (?w + length fb)]" for x
  proof -
    have "x - ?o < unat (m_chunkSize h)" "?o + (x - ?o) = x" using that fits(2) fb by auto
    then have "x div unat (m_chunkSize h) = unat c" using chunk_region by metis
    with out have "\<forall>d \<in> set ids. x div unat (m_chunkSize h) \<noteq> unat d" by (metis word_unat_eq_iff)
    with D c(1) show ?thesis by (simp add: data_appended_def Let_def)
  qed
  then have "stored (m_chunkSize h) g' pool' c = map (overwrite g (?o + ?w) fb) [?o..<?o + (?w + length fb)]"
    by (simp add: stored_def fits(1) fb)
  also have "[?o..<?o + (?w + length fb)] = [?o..<?o + ?w] @ [?o + ?w..<?o + ?w + length fb]"
    using upt_add_eq_append [of ?o "?o + ?w" "length fb"] by (simp only: add.assoc le_add1)
  finally show ?thesis by (simp add: overwrite_same) (simp add: stored_def overwrite_def)
qed

lemma file_bytes_appended:
  assumes A: "appended h sha first ids len T p pool pool'" and D: "data_appended h fb rest ids p pool pool' g g'"
    and fb: "length fb = unat first"
  shows "file_bytes h g' pool' t = (if t = sha then file_bytes h g pool t @ fb @ rest else file_bytes h g pool t)"
proof -
  let ?s = "stored (m_chunkSize h) g pool" and ?s' = "stored (m_chunkSize h) g' pool'"
  have rest: "concat (map ?s' ids) = rest" using D by (simp add: data_appended_def Let_def)
  have tail: "c \<in> set (file_chunks h pool sha)" if "p = Some c" "c \<in> set (file_chunks h pool u)" for c u
    using tail_of_file [OF A that(1)] file_chunks_used(1) [OF appended_basic(1) [OF A] that(2)] by simp
  have other: "map ?s' cs = map ?s cs" if "set cs \<subseteq> set (file_chunks h pool u)" "\<forall>c. p = Some c \<longrightarrow> c \<notin> set cs" for cs u
    using stored_other [OF A D fb, of _ u] that by (intro map_cong) auto
  show ?thesis
  proof (cases "t = sha")
    case False
    have "\<forall>c. p = Some c \<longrightarrow> c \<notin> set (file_chunks h pool t)"
      using tail file_chunks_used(3) [OF appended_basic(1) [OF A]] False by metis
    from other [OF subset_refl this] False show ?thesis by (simp only: file_bytes_def file_chunks_appended [OF A] if_False)
  next
    case True
    have "concat (map ?s' (file_chunks h pool sha)) = concat (map ?s (file_chunks h pool sha)) @ fb"
    proof (cases "p = None \<or> (\<exists>c. p = Some c \<and> \<not> m_isUsed (meta_at pool c))")
      case True
      with tail_none [OF A] fb show ?thesis by simp
    next
      case False
      then obtain c where c: "p = Some c" "m_isUsed (meta_at pool c)" by auto
      note last = tail_of_file [OF A c]
      define front where "front = butlast (file_chunks h pool sha)"
      have split: "file_chunks h pool sha = front @ [c]" using last by (simp add: front_def)
      have "distinct (file_chunks h pool sha)"
      proof (cases "m_isUsed (meta_at pool (hash_key h sha))")
        case True
        obtain cs where "chain pool (hash_key h sha) cs" by (rule pool_chain [OF appended_basic(1) [OF A] hash_key_in [OF appended_basic(1) [OF A]] True])
        with True chain_distinct bucket_chain show ?thesis by (simp add: file_chunks_def of_file_def)
      qed (simp add: file_chunks_def bucket_unused)
      then have "map ?s' front = map ?s front" using other [of front sha] split c(1) by auto
      then have "map ?s' (front @ [c]) = map ?s front @ [?s c @ fb]" using stored_tail [OF A D fb c] by simp
      with split show ?thesis by (simp only: concat_append) simp
    qed
    with True rest show ?thesis by (simp add: file_bytes_def file_chunks_appended [OF A])
  qed
qed

end
