(* ===== verification/EdgeFsWrite.thy ===== *)
theory EdgeFsWrite
  imports EdgeFsAppend
begin

text \<open>
  Writing refines appending: on a data file that works, \<open>write\<close> keeps the pool well-formed, appends to its file
  and leaves all others alone.
\<close>

subsection \<open>Lengths\<close>

lemma round_up:
  fixes r d :: nat
  assumes "0 < d"
  shows "(r + d - 1) div d \<le> r" "(r + d - 1) div d = 0 \<longleftrightarrow> r = 0"
    "r \<noteq> 0 \<Longrightarrow> r = ((r + d - 1) div d - 1) * d + (if r mod d = 0 then d else r mod d)"
proof -
  have "r \<le> r * d" "Suc r * d = d + r * d" using assms by simp_all
  then have "r + d - 1 < Suc r * d" using assms by linarith
  then have "(r + d - 1) div d < Suc r" by (rule less_mult_imp_div_less)
  then show "(r + d - 1) div d \<le> r" by simp
  show "(r + d - 1) div d = 0 \<longleftrightarrow> r = 0" using assms by (auto simp: div_eq_0_iff)
  assume "r \<noteq> 0"
  show "r = ((r + d - 1) div d - 1) * d + (if r mod d = 0 then d else r mod d)"
  proof (cases "r mod d = 0")
    case True
    then have q: "r = (r div d) * d" using div_mult_mod_eq [of r d] by simp
    define q where "q = r div d"
    with q have q: "r = q * d" by simp
    have "r + d - 1 = (d - 1) + q * d" using q assms by linarith
    moreover have "((d - 1) + q * d) div d = q" using assms by (subst div_mult_self1) simp_all
    ultimately have "(r + d - 1) div d = q" by (simp only:)
    with q \<open>r \<noteq> 0\<close> assms show ?thesis by (cases q) simp_all
  next
    case False
    have "r + d - 1 = (r mod d - 1) + (r div d + 1) * d"
    proof -
      have "(r div d + 1) * d = r div d * d + d" by simp
      moreover have "0 < r mod d" using False by simp
      ultimately show ?thesis using div_mult_mod_eq [of r d] assms by linarith
    qed
    moreover have "r mod d - 1 < d" using assms by (simp add: less_imp_diff_less)
    moreover have "((r mod d - 1) + (r div d + 1) * d) div d = r div d + 1 + (r mod d - 1) div d"
      using assms by (subst div_mult_self1) simp_all
    ultimately have "(r + d - 1) div d = r div d + 1" by (simp only: div_less add_0_right)
    with False show ?thesis by simp
  qed
qed

lemma unat_DIV_ROUND_UP:
  assumes "unat n + unat d \<le> 2 ^ LENGTH('a::len)" "d \<noteq> 0"
  shows "unat (DIV_ROUND_UP n (d :: 'a word)) = (unat n + unat d - 1) div unat d"
proof -
  have eq: "n + d - 1 = d - 1 + n" by simp
  have "unat (d - 1) = unat d - 1" using assms(2) by (simp add: unat_minus_one)
  moreover have "unat (d - 1) + unat n < 2 ^ LENGTH('a)"
    using assms unat_gt_0 [of d] by (simp add: unat_minus_one)
  ultimately have "unat (d - 1 + n) = unat n + unat d - 1"
    using assms(2) unat_gt_0 [of d] unat_add_lem [of "d - 1" n] by simp
  then show ?thesis unfolding DIV_ROUND_UP_def eq by (simp only: unat_div)
qed

lemma calcWriteVariable_eq:
  assumes "chunkSize \<noteq> 0" and first: "first = (case tail of None \<Rightarrow> 0 | Some m \<Rightarrow> if \<not> m_isUsed m then 0 else if len \<ge> m_idleLen m then m_idleLen m else len)"
  obtains need lastLen where "calcWriteVariable chunkSize tail len = Done (first, need, lastLen)" "first \<le> len"
    "need = 0 \<longleftrightarrow> len = first" "0 < unat lastLen" "lastLen \<le> chunkSize"
    "need \<noteq> 0 \<Longrightarrow> unat len = unat first + (unat need - 1) * unat chunkSize + unat lastLen"
proof -
  define d r where "d = unat chunkSize" and "r = unat len - unat first"
  have d: "0 < d" "d < 2 ^ 32" using assms(1) unat_less_power [OF refl, of chunkSize] by (simp_all add: d_def unat_gt_0)
  have first_le: "first \<le> len" unfolding first by (auto split: option.split)
  then have r: "unat (len - first) = r" "r < 2 ^ 32" "r = 0 \<longleftrightarrow> len = first" "unat len = unat first + r"
    using unat_less_power [OF refl, of len] by (auto simp: r_def unat_sub word_le_nat_alt word_unat_eq_iff)
  let ?n = "(r + d - 1) div d" and ?l = "if r mod d = 0 then d else r mod d"
  have u: "unat (ucast (len - first) :: u64) = r" "unat (ucast chunkSize :: u64) = d"
    using d r by (simp_all add: unsigned_ucast_eq d_def take_bit_nat_eq_self)
  have d0: "(ucast chunkSize :: u64) \<noteq> 0" using u(2) d(1) by (metis unat_0 less_irrefl)
  have need: "unat (ucast (DIV_ROUND_UP (ucast (len - first) :: u64) (ucast chunkSize)) :: u32) = ?n"
    using unat_DIV_ROUND_UP [OF _ d0, of "ucast (len - first)"] u d r round_up(1) [OF d(1), of r]
    by (simp add: unsigned_ucast_eq take_bit_nat_eq_self)
  define need where "need = (ucast (DIV_ROUND_UP (ucast (len - first) :: u64) (ucast chunkSize)) :: u32)"
  define lastLen where "lastLen = (if ucast (len - first) mod ucast chunkSize = (0 :: u64) then chunkSize
    else ucast (ucast (len - first) mod (ucast chunkSize :: u64)))"
  have m: "unat (ucast (len - first) mod ucast chunkSize :: u64) = r mod d" by (simp add: unat_mod u)
  have l: "unat lastLen = ?l"
  proof (cases "r mod d = 0")
    case True
    with m show ?thesis by (simp add: lastLen_def d_def word_unat_eq_iff)
  next
    case False
    moreover have "r mod d < 2 ^ 32" using d by (meson mod_less_divisor less_trans)
    moreover have "unat (ucast (ucast (len - first) mod (ucast chunkSize :: u64)) :: u32) = r mod d"
      using calculation m by (simp add: unsigned_ucast_eq take_bit_nat_eq_self)
    ultimately show ?thesis using m by (auto simp: lastLen_def word_unat_eq_iff)
  qed
  have "calcWriteVariable chunkSize tail len = Done (first, need, lastLen)"
    using assms(1) by (simp add: calcWriteVariable_def need_def lastLen_def Let_def first)
  moreover have "need = 0 \<longleftrightarrow> len = first"
    using need round_up(2) [OF d(1), of r] r(3) by (simp add: need_def word_unat_eq_iff)
  moreover have "0 < unat lastLen" using l d(1) by simp
  moreover have "lastLen \<le> chunkSize" using l d(1) by (auto simp: word_le_nat_alt d_def [symmetric] less_imp_le)
  moreover have "unat len = unat first + (unat need - 1) * unat chunkSize + unat lastLen" if "need \<noteq> 0"
    using that need l round_up(2,3) [OF d(1), of r] r(4) by (simp add: need_def [symmetric] d_def [symmetric] word_unat_eq_iff)
  ultimately show ?thesis using that first_le by blast
qed

subsection \<open>Chunks of the data file\<close>

lemma unat_up [simp]: "unat (ucast (x :: u32) :: u64) = unat x"
proof -
  have "unat x < 2 ^ 64" using unat_less_power [OF refl, of x] by simp
  then show ?thesis by (simp add: unsigned_ucast_eq take_bit_nat_eq_self)
qed

lemma unat_chunk_offset: "unat (chunk_offset chunkSize c) = unat c * unat chunkSize"
proof -
  have "unat c * unat chunkSize < 2 ^ 32 * 2 ^ 32"
    using unat_less_power [OF refl, of c] unat_less_power [OF refl, of chunkSize] by (intro mult_strict_mono) simp_all
  moreover have "unat (ucast c :: u64) = unat c" "unat (ucast chunkSize :: u64) = unat chunkSize"
    by simp_all
  ultimately show ?thesis by (simp add: chunk_offset_def unat_word_ariths(2))
qed

subsection \<open>The loop over new chunks\<close>

definition chunk_len :: "u32 \<Rightarrow> u32 \<Rightarrow> u32 \<Rightarrow> nat \<Rightarrow> nat" where
  "chunk_len chunkSize need lastLen i = (if i + 1 = unat need then unat lastLen else unat chunkSize)"

lemma chunk_len_fits:
  assumes len: "total_len = unat first + (unat need - 1) * unat chunkSize + unat lastLen" and "lastLen \<le> chunkSize"
    and i: "i < unat need" "pos = unat first + i * unat chunkSize"
  shows "pos + chunk_len chunkSize need lastLen i =
      (if i + 1 < unat need then unat first + (i + 1) * unat chunkSize else total_len)"
    "pos + chunk_len chunkSize need lastLen i \<le> total_len" "chunk_len chunkSize need lastLen i \<le> unat chunkSize"
    "i + 1 < unat need \<Longrightarrow> unat chunkSize \<le> total_len - pos"
proof -
  show "chunk_len chunkSize need lastLen i \<le> unat chunkSize" using assms(2) by (simp add: chunk_len_def word_le_nat_alt)
  have more: "(i + 1) * unat chunkSize \<le> (unat need - 1) * unat chunkSize" if "i + 1 < unat need"
    using that by (intro mult_le_mono1) simp
  have last: "unat need - 1 = i" if "\<not> i + 1 < unat need" using that i(1) by simp
  show "pos + chunk_len chunkSize need lastLen i = (if i + 1 < unat need then unat first + (i + 1) * unat chunkSize else total_len)"
  proof (cases "i + 1 < unat need")
    case True
    then show ?thesis by (simp add: chunk_len_def i(2))
  next
    case False
    with last i have "i + 1 = unat need" "unat need - 1 = i" by simp_all
    then show ?thesis by (simp add: chunk_len_def i(2) len)
  qed
  then show "pos + chunk_len chunkSize need lastLen i \<le> total_len" using more len by (auto split: if_splits)
  show "unat chunkSize \<le> total_len - pos" if "i + 1 < unat need" using more [OF that] len i(2) by simp
qed

lemma write_len_word:
  assumes len: "total_len = unat first + (unat need - 1) * unat chunkSize + unat lastLen" "total_len < 2 ^ 32"
    and "lastLen \<le> chunkSize" and i: "i < unat need" "pos = unat first + i * unat chunkSize"
  shows "(if (of_nat (total_len - pos) :: u64) \<ge> ucast chunkSize then chunkSize else ucast (of_nat (total_len - pos) :: u64)) =
    of_nat (chunk_len chunkSize need lastLen i)"
proof -
  note fits = chunk_len_fits [OF len(1) assms(3) i]
  have u: "unat (of_nat (total_len - pos) :: u64) = total_len - pos" using len(2) by (simp add: unsigned_of_nat take_bit_nat_eq_self)
  have c: "unat (ucast chunkSize :: u64) = unat chunkSize" by simp
  have "(of_nat (total_len - pos) :: u64) \<ge> ucast chunkSize \<longleftrightarrow> unat chunkSize \<le> total_len - pos"
    by (simp only: word_le_nat_alt u c)
  moreover have "ucast (of_nat (total_len - pos) :: u64) = (of_nat (total_len - pos) :: u32)"
    using len(2) by (simp add: unsigned_of_nat take_bit_nat_eq_self)
  moreover have "total_len - pos = unat lastLen" if "\<not> i + 1 < unat need"
    using fits(1) that i(1) by (simp add: chunk_len_def)
  ultimately show ?thesis using fits(4) i(1) assms(3) by (auto simp: chunk_len_def word_le_nat_alt word_unat_eq_iff)
qed

lemma write_chunks_step:
  assumes "i < length ids" "i + 1 = unat need \<or> i + 1 < length ids"
    and "(if remain \<ge> ucast chunkSize then chunkSize else ucast remain) = len"
    and "put (buff_part buff real len) (chunk_offset chunkSize (ids ! i)) w = (True, w1)"
    and "bm_insert (ids ! i) (m_pBitMap fs) = Some (r, bm)" "unat (ids ! i) < length (m_pMetaPool fs)"
  shows "write_chunks put chunkSize sha buff first need lastLen ids (i # is) (remain, real, fs, w) =
    write_chunks put chunkSize sha buff first need lastLen ids is (remain - ucast len, real + len,
      fs\<lparr>m_pBitMap := bm, m_pMetaPool := (m_pMetaPool fs)[unat (ids ! i) :=
        new_chunk chunkSize sha first need lastLen ids i (meta_at (m_pMetaPool fs) (ids ! i))]\<rparr>, w1)"
  using assms by (auto simp: Let_def bitmap_insert_def set_meta_def)

text \<open>What the first part of a write does to the chunk \<open>c\<close>.\<close>

definition first_meta :: "u32 option \<Rightarrow> u32 \<Rightarrow> u32 \<Rightarrow> u32 list \<Rightarrow> u32 \<Rightarrow> MetaInfo \<Rightarrow> MetaInfo" where
  "first_meta p first T ids c m = (let m1 = (if p = Some c then m\<lparr>m_idleLen := m_idleLen m - first\<rparr> else m) in
     if c = T \<and> ids \<noteq> [] then m1\<lparr>m_nextChunkid := hd ids\<rparr> else m1)"

lemma unat_offset:
  assumes "unat (n :: u32) \<le> unat chunkSize"
  shows "unat (chunk_offset chunkSize c + ucast n) = unat c * unat chunkSize + unat n"
proof -
  have "unat c * unat chunkSize + unat n \<le> Suc (unat c) * unat chunkSize" using assms by simp
  also have "\<dots> \<le> 2 ^ 32 * unat chunkSize"
    using unat_less_power [OF refl, of c] by (intro mult_le_mono1) simp
  also have "\<dots> < 2 ^ 32 * 2 ^ 32" using unat_less_power [OF refl, of chunkSize] by simp
  finally show ?thesis by (simp add: unat_word_ariths(1) unat_chunk_offset)
qed

lemma tails_next:
  assumes ok: "pool_ok h pool" and tails: "tails h pool sha T p"
  shows "unat T < length pool" "m_isUsed (meta_at pool (hash_key h sha)) \<Longrightarrow> m_nextChunkid (meta_at pool T) = kInvalidChunkid"
    "p = Some c \<Longrightarrow> unat c < length pool"
    "p = Some c \<Longrightarrow> m_isUsed (meta_at pool c) \<Longrightarrow> m_isUsed (meta_at pool (hash_key h sha)) \<and> m_idleLen (meta_at pool c) < m_chunkSize h"
proof -
  let ?k = "hash_key h sha"
  note k = hash_key_in [OF ok, of sha]
  have T: "unat T < length pool \<and> m_nextChunkid (meta_at pool T) = kInvalidChunkid" if used: "m_isUsed (meta_at pool ?k)"
  proof -
    obtain cs where cs: "chain pool ?k cs" by (rule pool_chain [OF ok k used])
    with tails used bucket_chain [OF cs used] have "T = last cs" by (simp add: tails_def Let_def)
    with chain_not_Nil [OF cs] chain_in_pool [OF cs, of T] chain_last_next [OF cs, of T] show ?thesis by simp
  qed
  have p: "c \<in> set (file_chunks h pool sha)" if "p = Some c" "m_isUsed (meta_at pool ?k)"
    using that tails by (auto simp: tails_def Let_def split: if_splits)
  have unused: "T = ?k \<and> p = Some ?k" if "\<not> m_isUsed (meta_at pool ?k)" using tails that by (simp add: tails_def Let_def)
  show "unat T < length pool" using T unused k by metis
  show "m_isUsed (meta_at pool ?k) \<Longrightarrow> m_nextChunkid (meta_at pool T) = kInvalidChunkid" using T by simp
  show "p = Some c \<Longrightarrow> unat c < length pool" using p unused k file_chunks_used(2) [OF ok] by (metis option.inject)
  show "m_isUsed (meta_at pool ?k) \<and> m_idleLen (meta_at pool c) < m_chunkSize h" if "p = Some c" "m_isUsed (meta_at pool c)"
    using that p unused file_chunks_used(4) [OF ok] by (metis option.inject)
qed

context data_file
begin

lemma put_chunk:
  assumes "unat c < n" "n * unat chunkSize \<le> cap" "i + length bs \<le> unat chunkSize" "unat off = unat c * unat chunkSize + i"
  shows "\<exists>w'. put bs off w = (True, w') \<and> dat w' = overwrite (dat w) (unat c * unat chunkSize + i) bs"
proof -
  have "unat off + length bs \<le> cap" using chunk_within [OF assms(1,2,3)] assms(4) by simp
  from put_all [OF this, of w] assms(4) show ?thesis by (cases "put bs off w") simp
qed

lemma write_chunks_ok:
  assumes ids: "distinct ids" "length ids = unat need" "\<forall>c \<in> set ids. unat c < n"
    and size: "chunkSize \<noteq> 0" "n * unat chunkSize \<le> cap" "0 < unat lastLen" "lastLen \<le> chunkSize"
    and len: "length buff = unat first + (unat need - 1) * unat chunkSize + unat lastLen" "length buff < 2 ^ 32"
  shows "i \<le> unat need \<Longrightarrow> pos = (if i < unat need then unat first + i * unat chunkSize else length buff) \<Longrightarrow>
    length (m_pMetaPool fs) = n \<Longrightarrow> bm_ok (m_pBitMap fs) \<Longrightarrow> unat (m_totalChunkNum (m_pBitMap fs)) = n \<Longrightarrow>
    \<exists>bm' pool' w'. write_chunks put chunkSize sha buff first need lastLen ids [i..<unat need]
        (of_nat (length buff - pos), of_nat pos, fs, w) =
        return_o (0, of_nat (length buff), fs\<lparr>m_pBitMap := bm', m_pMetaPool := pool'\<rparr>, w') \<and>
      bm_ok bm' \<and> m_totalChunkNum bm' = m_totalChunkNum (m_pBitMap fs) \<and>
      in_use bm' = in_use (m_pBitMap fs) \<union> set (drop i ids) \<and> length pool' = n \<and>
      (\<forall>c. unat c < n \<longrightarrow> c \<notin> set (drop i ids) \<longrightarrow> meta_at pool' c = meta_at (m_pMetaPool fs) c) \<and>
      (\<forall>k. i \<le> k \<longrightarrow> k < unat need \<longrightarrow>
        meta_at pool' (ids ! k) = new_chunk chunkSize sha first need lastLen ids k (meta_at (m_pMetaPool fs) (ids ! k))) \<and>
      (\<forall>x. (\<forall>c \<in> set (drop i ids). x div unat chunkSize \<noteq> unat c) \<longrightarrow> dat w' x = dat w x) \<and>
      concat (map (stored chunkSize (dat w') pool') (drop i ids)) = drop pos buff"
proof (induction "unat need - i" arbitrary: i pos fs w)
  case 0
  then have "fs\<lparr>m_pBitMap := m_pBitMap fs, m_pMetaPool := m_pMetaPool fs\<rparr> = fs" by simp
  with 0 ids(2) show ?case
    by (intro exI [of _ "m_pBitMap fs"] exI [of _ "m_pMetaPool fs"] exI [of _ w]) auto
next
  case (Suc d)
  note prems = Suc.prems
  from Suc.hyps(2) have i: "i < unat need" by simp
  then have pos: "pos = unat first + i * unat chunkSize" using prems(2) by simp
  define c l bs where "c = ids ! i" and "l = chunk_len chunkSize need lastLen i" and "bs = take l (drop pos buff)"
  note fits = chunk_len_fits [OF len(1) size(4) i pos, folded l_def]
  have c: "c \<in> set ids" "c \<notin> set (drop (Suc i) ids)" "drop i ids = c # drop (Suc i) ids"
    using i ids(1,2) by (auto simp: c_def Cons_nth_drop_Suc distinct_conv_nth in_set_conv_nth)
  have bs: "length bs = l" "bs @ drop (pos + l) buff = drop pos buff"
    using fits(2) by (simp_all add: bs_def) (metis append_take_drop_id drop_drop add.commute)
  have l: "unat (of_nat l :: u32) = l" "unat (of_nat pos :: u32) = pos"
    using fits(2) len(2) by (simp_all add: unsigned_of_nat take_bit_nat_eq_self)
  from put_chunk [OF bspec [OF ids(3) c(1)] size(2), of 0 bs "chunk_offset chunkSize c" w] fits(3) bs(1)
  obtain w1 where w1: "put bs (chunk_offset chunkSize c) w = (True, w1)"
    "dat w1 = overwrite (dat w) (unat c * unat chunkSize) bs"
    by (auto simp: unat_chunk_offset)
  have "c < m_totalChunkNum (m_pBitMap fs)" using bspec [OF ids(3) c(1)] prems(5) by (simp add: word_less_nat_alt)
  from bm_insert_in_use [OF prems(4) this] obtain b1 where
    b1: "bm_insert c (m_pBitMap fs) = Some (True, b1)" "bm_ok b1" "in_use b1 = insert c (in_use (m_pBitMap fs))"
      "m_totalChunkNum b1 = m_totalChunkNum (m_pBitMap fs)" by blast
  define m1 p1 fs1 where "m1 = new_chunk chunkSize sha first need lastLen ids i (meta_at (m_pMetaPool fs) c)"
    and "p1 = (m_pMetaPool fs)[unat c := m1]" and "fs1 = fs\<lparr>m_pBitMap := b1, m_pMetaPool := p1\<rparr>"
  have cn: "unat c < n" using bspec [OF ids(3) c(1)] .
  have up: "(of_nat (length buff - pos) :: u64) - ucast (of_nat l :: u32) = of_nat (length buff - (pos + l))"
    "of_nat pos + of_nat l = (of_nat (pos + l) :: u32)"
  proof -
    have "(of_nat (length buff - pos) :: u64) - of_nat l = of_nat (length buff - pos - l)"
      using fits(2) by (simp add: of_nat_diff)
    then show "(of_nat (length buff - pos) :: u64) - ucast (of_nat l :: u32) = of_nat (length buff - (pos + l))"
      using fits(2) len(2) by (simp add: ucast_of_nat)
  qed simp
  have fs1: "m_pBitMap fs1 = b1" "m_pMetaPool fs1 = p1" by (simp_all add: fs1_def)
  have next_pos: "pos + l = (if Suc i < unat need then unat first + Suc i * unat chunkSize else length buff)"
    using fits(1) by simp
  have pre: "d = unat need - Suc i" "Suc i \<le> unat need" "length p1 = n" "unat (m_totalChunkNum b1) = n"
    using Suc.hyps(2) i prems(3,5) b1(4) by (simp_all add: p1_def)
  from Suc.hyps(1) [of "Suc i" "pos + l" fs1 w1, unfolded fs1, OF pre(1,2) next_pos pre(3) b1(2) pre(4)] obtain bm' pool' w' where
    IH: "write_chunks put chunkSize sha buff first need lastLen ids [Suc i..<unat need]
        (of_nat (length buff - (pos + l)), of_nat (pos + l), fs1, w1) =
        return_o (0, of_nat (length buff), fs1\<lparr>m_pBitMap := bm', m_pMetaPool := pool'\<rparr>, w')"
      "bm_ok bm'" "m_totalChunkNum bm' = m_totalChunkNum b1"
      "in_use bm' = in_use b1 \<union> set (drop (Suc i) ids)" "length pool' = n"
      "\<And>c. unat c < n \<Longrightarrow> c \<notin> set (drop (Suc i) ids) \<Longrightarrow> meta_at pool' c = meta_at p1 c"
      "\<And>k. Suc i \<le> k \<Longrightarrow> k < unat need \<Longrightarrow>
        meta_at pool' (ids ! k) = new_chunk chunkSize sha first need lastLen ids k (meta_at p1 (ids ! k))"
      "\<And>x. \<forall>c \<in> set (drop (Suc i) ids). x div unat chunkSize \<noteq> unat c \<Longrightarrow> dat w' x = dat w1 x"
      "concat (map (stored chunkSize (dat w') pool') (drop (Suc i) ids)) = drop (pos + l) buff"
    by blast
  have step: "write_chunks put chunkSize sha buff first need lastLen ids [i..<unat need] (of_nat (length buff - pos), of_nat pos, fs, w) =
      return_o (0, of_nat (length buff), fs\<lparr>m_pBitMap := bm', m_pMetaPool := pool'\<rparr>, w')"
  proof -
    have part: "put (buff_part buff (of_nat pos) (of_nat l)) (chunk_offset chunkSize (ids ! i)) w = (True, w1)"
      using w1(1) by (simp only: buff_part_def l bs_def c_def)
    have "fs1\<lparr>m_pBitMap := bm', m_pMetaPool := pool'\<rparr> = fs\<lparr>m_pBitMap := bm', m_pMetaPool := pool'\<rparr>"
      by (simp add: fs1_def)
    moreover have "i < length ids" "i + 1 = unat need \<or> i + 1 < length ids" using i ids(2) by auto
    moreover have "unat (ids ! i) < length (m_pMetaPool fs)" using cn prems(3) by (simp add: c_def)
    note write_chunks_step [where put = put and ids = ids and i = i and fs = fs and w = w and ?w1.0 = w1 and bm = b1 and r = True and
        buff = buff and real = "of_nat pos" and len = "of_nat l" and remain = "of_nat (length buff - pos)" and chunkSize = chunkSize,
        OF calculation(2,3) write_len_word [OF len size(4) i pos, folded l_def] part b1(1) [unfolded c_def] this]
    ultimately show ?thesis
      using IH(1) by (simp only: upt_conv_Cons [OF i] up fs1_def p1_def m1_def c_def)
  qed
  have ne: "ids ! k \<noteq> c" "unat (ids ! k) \<noteq> unat c" if "Suc i \<le> k" "k < unat need" for k
    using that ids(1,2) by (auto simp: c_def nth_eq_iff_index_eq word_unat_eq_iff [symmetric])
  have metas: "meta_at pool' (ids ! k) = new_chunk chunkSize sha first need lastLen ids k (meta_at (m_pMetaPool fs) (ids ! k))"
    if "i \<le> k" "k < unat need" for k
  proof (cases "k = i")
    case True
    with IH(6) [OF cn c(2)] cn prems(3) show ?thesis by (simp add: p1_def m1_def c_def)
  next
    case False
    with that have "Suc i \<le> k" by simp
    from IH(7) [OF this that(2)] ne [OF this that(2)] show ?thesis by (simp add: p1_def)
  qed
  have others: "meta_at pool' x = meta_at (m_pMetaPool fs) x" if "unat x < n" "x \<notin> set (drop i ids)" for x
    using IH(6) [OF that(1)] that(2) c(3) by (auto simp: p1_def word_unat_eq_iff)
  have data: "dat w' x = dat w x" if "\<forall>c \<in> set (drop i ids). x div unat chunkSize \<noteq> unat c" for x
    using IH(8) [of x] that overwrite_chunk [of x chunkSize c 0 bs "dat w"] fits(3) bs(1) by (simp add: c(3) w1(2))
  have "stored chunkSize (dat w') pool' c = bs"
  proof -
    have "written chunkSize pool' c = l"
      using metas [OF le_refl i] size(3,4) fits(3)
      by (auto simp: written_def c_def [symmetric] new_chunk_def Let_def l_def chunk_len_def unat_sub)
    moreover have "dat w' x = dat w1 x" if "x \<in> set [unat c * unat chunkSize..<unat c * unat chunkSize + l]" for x
    proof (rule IH(8))
      from that fits(3) have "x div unat chunkSize = unat c" using chunk_region [of "x - unat c * unat chunkSize" chunkSize c] by auto
      with c(2) show "\<forall>c \<in> set (drop (Suc i) ids). x div unat chunkSize \<noteq> unat c" by (auto simp: word_unat_eq_iff [symmetric])
    qed
    ultimately have "stored chunkSize (dat w') pool' c = map (dat w1) [unat c * unat chunkSize..<unat c * unat chunkSize + l]"
      by (simp add: stored_def)
    with w1(2) bs(1) overwrite_same [of "dat w" "unat c * unat chunkSize" bs] show ?thesis by simp
  qed
  with IH(9) bs(2) have "concat (map (stored chunkSize (dat w') pool') (drop i ids)) = drop pos buff" by (simp add: c(3))
  with step IH(2,3,4,5) b1(3,4) metas others data show ?case
    by (intro exI [of _ bm'] exI [of _ pool'] exI [of _ w']) (simp add: c(3))
qed

lemma first_write_ok:
  assumes ok: "pool_ok h (m_pMetaPool fs)" and tails: "tails h (m_pMetaPool fs) sha T p"
    and cap: "length (m_pMetaPool fs) * unat (m_chunkSize h) \<le> cap"
    and first: "first = (case map_option (meta_at (m_pMetaPool fs)) p of None \<Rightarrow> 0
      | Some m \<Rightarrow> if \<not> m_isUsed m then 0 else if len \<ge> m_idleLen m then m_idleLen m else len)"
    and len: "ids \<noteq> [] \<longleftrightarrow> len \<noteq> first" "length buff = unat len"
  shows "\<exists>pool1 w1. first_write put (m_chunkSize h) sha buff first p T ids (ucast len, 0, fs, w) =
      return_o (True, ucast len - ucast first, first, fs\<lparr>m_pMetaPool := pool1\<rparr>, w1) \<and> length pool1 = length (m_pMetaPool fs) \<and>
    (\<forall>c. unat c < length pool1 \<longrightarrow> meta_at pool1 c = first_meta p first T ids c (meta_at (m_pMetaPool fs) c)) \<and>
    dat w1 = (case p of None \<Rightarrow> dat w | Some c \<Rightarrow>
      overwrite (dat w) (unat c * unat (m_chunkSize h) + written (m_chunkSize h) (m_pMetaPool fs) c) (take (unat first) buff))"
proof -
  let ?pool = "m_pMetaPool fs"
  note T = tails_next [OF ok tails]
  have same: "m\<lparr>m_idleLen := m_idleLen m\<rparr> = m" "m_nextChunkid m = x \<Longrightarrow> m\<lparr>m_nextChunkid := x\<rparr> = m" for m :: MetaInfo and x
    by auto
  show ?thesis
  proof (cases "first = 0")
    case True
    define pool1 where "pool1 = (if ids = [] then ?pool else ?pool[unat T := (meta_at ?pool T)\<lparr>m_nextChunkid := hd ids\<rparr>])"
    have "first_write put (m_chunkSize h) sha buff first p T ids (ucast len, 0, fs, w) =
      return_o (True, ucast len - ucast first, first, fs\<lparr>m_pMetaPool := pool1\<rparr>, w)"
      using True T(1) by (simp add: first_write_def set_meta_def pool1_def)
    moreover have "meta_at pool1 c = first_meta p first T ids c (meta_at ?pool c)" if "unat c < length pool1" for c
      using that True T(1) by (auto simp: pool1_def nth_list_update word_unat_eq_iff [symmetric] first_meta_def Let_def same split: if_splits)
    moreover have "length pool1 = length ?pool" by (simp add: pool1_def)
    ultimately show ?thesis using True by (intro exI [of _ pool1] exI [of _ w]) (auto split: option.split)
  next
    case False
    with first obtain c where c: "p = Some c" "m_isUsed (meta_at ?pool c)" by (auto split: option.splits if_splits)
    define m where "m = meta_at ?pool c"
    have f: "first = (if len \<ge> m_idleLen m then m_idleLen m else len)" using first c by (simp add: m_def)
    have idle: "first \<le> m_idleLen m" "m_idleLen m < m_chunkSize h" "ids = [] \<or> first = m_idleLen m" "first \<le> len"
      using f len(1) T(4) [OF c] by (auto simp: m_def)
    note cn = T(3) [OF c(1)]
    have w: "written (m_chunkSize h) ?pool c = unat (m_chunkSize h - m_idleLen m)"
      using idle(2) by (simp add: written_def m_def unat_sub less_imp_le)
    define bs where "bs = take (unat first) buff"
    have bs: "buff_part buff 0 first = bs" "length bs = unat first"
      using len(2) idle(4) by (simp_all add: buff_part_def bs_def word_le_nat_alt)
    have "written (m_chunkSize h) ?pool c + length bs \<le> unat (m_chunkSize h)"
      using idle(1,2) bs(2) by (simp add: written_def m_def word_le_nat_alt word_less_nat_alt)
    moreover have "m_chunkSize h - m_idleLen m \<le> m_chunkSize h" using idle(2) by (simp add: word_sub_le less_imp_le)
    then have "unat (chunk_offset (m_chunkSize h) c + ucast (m_chunkSize h - m_idleLen m)) =
      unat c * unat (m_chunkSize h) + written (m_chunkSize h) ?pool c"
      by (simp only: w unat_offset word_le_nat_alt)
    ultimately obtain w1 where
      w1: "put bs (chunk_offset (m_chunkSize h) c + ucast (m_chunkSize h - m_idleLen m)) w = (True, w1)"
        "dat w1 = overwrite (dat w) (unat c * unat (m_chunkSize h) + written (m_chunkSize h) ?pool c) bs"
      using put_chunk [OF cn cap] by blast
    define pa where "pa = ?pool[unat c := m\<lparr>m_idleLen := m_idleLen m - first\<rparr>]"
    define pool1 where "pool1 = (if m_idleLen m = first
      then pa[unat T := (meta_at pa T)\<lparr>m_nextChunkid := if ids = [] then kInvalidChunkid else hd ids\<rparr>] else pa)"
    have "fill_tail (m_chunkSize h) sha first c fs = return_o (fs\<lparr>m_pMetaPool := pa\<rparr>)"
      using cn c(2) by (simp add: fill_tail_def calcMetaInfoPtr_def set_meta_def pa_def m_def)
    moreover have "calcMetaInfoPtr fs c = Done m" "calcMetaInfoPtr (fs\<lparr>m_pMetaPool := pa\<rparr>) c = Done (m\<lparr>m_idleLen := m_idleLen m - first\<rparr>)"
      using cn by (simp_all add: calcMetaInfoPtr_def pa_def m_def)
    moreover have "set_meta T g (fs\<lparr>m_pMetaPool := pa\<rparr>) = Done (fs\<lparr>m_pMetaPool := pa[unat T := g (meta_at pa T)]\<rparr>)" for g
      using T(1) by (simp add: set_meta_def pa_def)
    moreover have "m_isUsed m" using c(2) by (simp add: m_def)
    moreover have "m_idleLen m - first = 0 \<longleftrightarrow> m_idleLen m = first" by simp
    ultimately have "first_write put (m_chunkSize h) sha buff first p T ids (ucast len, 0, fs, w) =
      return_o (True, ucast len - ucast first, first, fs\<lparr>m_pMetaPool := pool1\<rparr>, w1)"
      using False by (simp add: first_write_def c(1) calcChunkid_def bs(1) w1(1) Let_def pool1_def)
    moreover have "meta_at pool1 d = first_meta p first T ids d (meta_at ?pool d)" if "unat d < length pool1" for d
    proof -
      have "m_nextChunkid (meta_at pa T) = kInvalidChunkid"
        using T(1,2,4) c cn by (auto simp: pa_def nth_list_update word_unat_eq_iff [symmetric] m_def)
      then have "meta_at pool1 d = (if d = T \<and> ids \<noteq> [] then (meta_at pa d)\<lparr>m_nextChunkid := hd ids\<rparr> else meta_at pa d)"
        using that T(1) idle(3) by (auto simp: pool1_def pa_def nth_list_update word_unat_eq_iff [symmetric] same split: if_splits)
      moreover have "meta_at pa d = (if p = Some d then (meta_at ?pool d)\<lparr>m_idleLen := m_idleLen (meta_at ?pool d) - first\<rparr> else meta_at ?pool d)"
        using cn c(1) by (auto simp: pa_def m_def nth_list_update word_unat_eq_iff [symmetric])
      ultimately show ?thesis by (simp only: first_meta_def Let_def)
    qed
    moreover have "length pool1 = length ?pool" by (simp add: pool1_def pa_def)
    ultimately show ?thesis using w1(2) c(1) by (intro exI [of _ pool1] exI [of _ w1]) (auto simp: bs_def)
  qed
qed

text \<open>Both parts together: the pool and the data grow by \<open>buff\<close>.\<close>

lemma write_data_ok:
  assumes ok: "pool_ok h (m_pMetaPool fs)" and tails: "tails h (m_pMetaPool fs) sha T p"
    and cap: "length (m_pMetaPool fs) * unat (m_chunkSize h) \<le> cap"
    and bm: "bm_ok (m_pBitMap fs)" "unat (m_totalChunkNum (m_pBitMap fs)) = length (m_pMetaPool fs)"
    and first: "first = (case map_option (meta_at (m_pMetaPool fs)) p of None \<Rightarrow> 0
      | Some m \<Rightarrow> if \<not> m_isUsed m then 0 else if len \<ge> m_idleLen m then m_idleLen m else len)"
    and len: "need = 0 \<longleftrightarrow> len = first" "0 < unat lastLen" "lastLen \<le> m_chunkSize h"
      "need \<noteq> 0 \<longrightarrow> unat len = unat first + (unat need - 1) * unat (m_chunkSize h) + unat lastLen"
      "length buff = unat len"
    and ids: "distinct ids" "length ids = unat need" "\<forall>c \<in> set ids. unat c < length (m_pMetaPool fs) \<and> \<not> m_isUsed (meta_at (m_pMetaPool fs) c)"
      "\<forall>c. p = Some c \<longrightarrow> \<not> m_isUsed (meta_at (m_pMetaPool fs) c) \<longrightarrow> ids \<noteq> [] \<longrightarrow> hd ids = c"
  shows "\<exists>rem bm' pool' w'. write_data put (m_chunkSize h) sha buff len first need lastLen p T ids fs w =
      return_o (rem, len, fs\<lparr>m_pBitMap := bm', m_pMetaPool := pool'\<rparr>, w') \<and>
    bm_ok bm' \<and> m_totalChunkNum bm' = m_totalChunkNum (m_pBitMap fs) \<and> in_use bm' = in_use (m_pBitMap fs) \<union> set ids \<and>
    appended h sha first ids (chunk_len (m_chunkSize h) need lastLen) T p (m_pMetaPool fs) pool' \<and>
    data_appended h (take (unat first) buff) (drop (unat first) buff) ids p (m_pMetaPool fs) pool' (dat w) (dat w')"
proof -
  let ?pool = "m_pMetaPool fs" and ?cs = "m_chunkSize h"
  have ne: "ids \<noteq> [] \<longleftrightarrow> len \<noteq> first" using ids(2) len(1) by (auto simp: word_unat_eq_iff)
  have first_le: "first \<le> len" unfolding first by (auto split: option.split)
  have len32: "unat len < 2 ^ 32" using unat_less_power [OF refl, of len] by simp
  from first_write_ok [OF ok tails cap first ne len(5), of w] obtain pool1 w1 where
    fw: "first_write put ?cs sha buff first p T ids (ucast len, 0, fs, w) =
      return_o (True, ucast len - ucast first, first, fs\<lparr>m_pMetaPool := pool1\<rparr>, w1)" "length pool1 = length ?pool"
    "\<And>c. unat c < length pool1 \<Longrightarrow> meta_at pool1 c = first_meta p first T ids c (meta_at ?pool c)"
    "dat w1 = (case p of None \<Rightarrow> dat w | Some c \<Rightarrow>
      overwrite (dat w) (unat c * unat ?cs + written ?cs ?pool c) (take (unat first) buff))" by blast
  have rem: "ucast len - ucast first = (of_nat (length buff - unat first) :: u64)"
  proof -
    have "(ucast len :: u64) = of_nat (unat len)" "(ucast first :: u64) = of_nat (unat first)" by simp_all
    then show ?thesis using first_le len(5) by (simp add: of_nat_diff word_le_nat_alt)
  qed
  have cs: "?cs \<noteq> 0" using ok by (simp add: pool_ok_def)
  have old: "m_isUsed (first_meta p first T ids c m) = m_isUsed m" "m_sha1 (first_meta p first T ids c m) = m_sha1 m"
    "m_nextChunkid (first_meta p first T ids c m) = (if c = T \<and> ids \<noteq> [] then hd ids else m_nextChunkid m)"
    "m_idleLen (first_meta p first T ids c m) = (if p = Some c then m_idleLen m - first else m_idleLen m)" for c m
    by (simp_all add: first_meta_def Let_def)
  have fits: "case p of None \<Rightarrow> first = 0 | Some c \<Rightarrow> if m_isUsed (meta_at ?pool c)
      then first \<le> m_idleLen (meta_at ?pool c) \<and> (ids \<noteq> [] \<longrightarrow> first = m_idleLen (meta_at ?pool c))
      else first = 0 \<and> (ids \<noteq> [] \<longrightarrow> hd ids = c)"
    using first ne ids(4) by (auto split: option.split if_splits)
  show ?thesis
  proof (cases "need = 0")
    case True
    with ids(2) len(1,5) have n: "ids = []" "len = first" "drop (unat first) buff = []" by simp_all
    have "fs\<lparr>m_pBitMap := m_pBitMap fs, m_pMetaPool := pool1\<rparr> = fs\<lparr>m_pMetaPool := pool1\<rparr>" by simp
    then have "write_data put ?cs sha buff len first need lastLen p T ids fs w =
      return_o (ucast len - ucast first, len, fs\<lparr>m_pBitMap := m_pBitMap fs, m_pMetaPool := pool1\<rparr>, w1)"
      using fw(1) True n(2) by (simp add: write_data_def)
    moreover have "appended h sha first ids (chunk_len ?cs need lastLen) T p ?pool pool1"
      unfolding appended_def using ok tails fw(2,3) fits old n(1) by (simp add: Let_def)
    moreover have "data_appended h (take (unat first) buff) (drop (unat first) buff) ids p ?pool pool1 (dat w) (dat w1)"
      unfolding data_appended_def n Let_def by (simp add: fw(4) [unfolded n(2)])
    moreover have "in_use (m_pBitMap fs) = in_use (m_pBitMap fs) \<union> set ids" using n(1) by simp
    ultimately show ?thesis
      using bm(1) by (intro exI [of _ "ucast len - ucast first"] exI [of _ "m_pBitMap fs"] exI [of _ pool1] exI [of _ w1] conjI) simp_all
  next
    case False
    define fs1 where "fs1 = fs\<lparr>m_pMetaPool := pool1\<rparr>"
    have fs1: "m_pMetaPool fs1 = pool1" "m_pBitMap fs1 = m_pBitMap fs" by (simp_all add: fs1_def)
    have in_pool: "\<forall>c \<in> set ids. unat c < length ?pool" using ids(3) by simp
    have L: "length buff = unat first + (unat need - 1) * unat ?cs + unat lastLen" "length buff < 2 ^ 32"
      using len(4) [rule_format, OF False] len(5) len32 by simp_all
    have pos: "unat first = (if 0 < unat need then unat first + 0 * unat ?cs else length buff)"
      using False by (simp add: word_unat_eq_iff)
    from write_chunks_ok [OF ids(1,2) in_pool cs cap len(2,3) L le0 pos, of fs1 sha w1, unfolded fs1, OF fw(2) bm]
    obtain bm' pool' w' where
      wc: "write_chunks put ?cs sha buff first need lastLen ids [0..<unat need]
          (of_nat (length buff - unat first), of_nat (unat first), fs1, w1) =
        return_o (0, of_nat (length buff), fs1\<lparr>m_pBitMap := bm', m_pMetaPool := pool'\<rparr>, w')"
      "bm_ok bm'" "m_totalChunkNum bm' = m_totalChunkNum (m_pBitMap fs)"
      "in_use bm' = in_use (m_pBitMap fs) \<union> set (drop 0 ids)" "length pool' = length ?pool"
      "\<forall>c. unat c < length ?pool \<longrightarrow> c \<notin> set (drop 0 ids) \<longrightarrow> meta_at pool' c = meta_at pool1 c"
      "\<forall>k. 0 \<le> k \<longrightarrow> k < unat need \<longrightarrow> meta_at pool' (ids ! k) = new_chunk ?cs sha first need lastLen ids k (meta_at pool1 (ids ! k))"
      "\<forall>x. (\<forall>c \<in> set (drop 0 ids). x div unat ?cs \<noteq> unat c) \<longrightarrow> dat w' x = dat w1 x"
      "concat (map (stored ?cs (dat w') pool') (drop 0 ids)) = drop (unat first) buff"
      by (elim exE conjE) (rule that)
    have "fs1\<lparr>m_pBitMap := bm', m_pMetaPool := pool'\<rparr> = fs\<lparr>m_pBitMap := bm', m_pMetaPool := pool'\<rparr>"
      by (simp add: fs1_def)
    moreover have "of_nat (length buff) = len" "of_nat (unat first) = first" using len(5) by simp_all
    ultimately have "write_data put ?cs sha buff len first need lastLen p T ids fs w =
      return_o (0, len, fs\<lparr>m_pBitMap := bm', m_pMetaPool := pool'\<rparr>, w')"
      using wc(1) by (simp only: write_data_def fw(1) bind_o_simps prod.case not_True_eq_False if_False rem fs1_def)
    moreover have "appended h sha first ids (chunk_len ?cs need lastLen) T p ?pool pool'"
    proof -
      have "m_isUsed (meta_at pool' (ids ! k)) \<and> m_sha1 (meta_at pool' (ids ! k)) = sha \<and>
        m_nextChunkid (meta_at pool' (ids ! k)) = (if k + 1 = length ids then kInvalidChunkid else ids ! (k + 1)) \<and>
        m_idleLen (meta_at pool' (ids ! k)) < ?cs \<and> unat ?cs - unat (m_idleLen (meta_at pool' (ids ! k))) = chunk_len ?cs need lastLen k \<and>
        (k + 1 < length ids \<longrightarrow> m_idleLen (meta_at pool' (ids ! k)) = 0)" if k: "k < length ids" for k
      proof -
        have idle: "?cs - lastLen < ?cs" "unat ?cs - unat (?cs - lastLen) = unat lastLen" "0 < ?cs"
          using len(2,3) cs by (simp_all add: word_less_nat_alt word_le_nat_alt unat_sub unat_gt_0)
        from k wc(7) [rule_format, of k] ids(2) idle show ?thesis by (simp add: new_chunk_def Let_def chunk_len_def)
      qed
      moreover have "m_isUsed (meta_at pool' c) = m_isUsed (meta_at ?pool c) \<and> m_sha1 (meta_at pool' c) = m_sha1 (meta_at ?pool c) \<and>
        m_nextChunkid (meta_at pool' c) = (if c = T \<and> ids \<noteq> [] then hd ids else m_nextChunkid (meta_at ?pool c)) \<and>
        m_idleLen (meta_at pool' c) = (if p = Some c then m_idleLen (meta_at ?pool c) - first else m_idleLen (meta_at ?pool c))"
        if "unat c < length ?pool" "c \<notin> set ids" for c
        using wc(6) [rule_format, OF that(1)] fw(2,3) that by (simp add: old)
      ultimately show ?thesis using ok tails wc(5) ids(1,3) fits by (simp add: appended_def Let_def)
    qed
    moreover have "data_appended h (take (unat first) buff) (drop (unat first) buff) ids p ?pool pool' (dat w) (dat w')"
      unfolding data_appended_def Let_def fw(4) [symmetric] using wc(8,9) by simp
    ultimately show ?thesis using wc(2-4) by auto
  qed
qed

end

subsection \<open>The whole operation\<close>

lemma calcShaToHex_eq:
  assumes "length (sha_buf ctx) = 64" "length data < 2 ^ 31"
  shows "calcShaToHex ctx data = Some (sha1 data)"
proof -
  obtain i where "sha_update (sha_init ctx) data (int (length data)) = Some i" "fed data i"
    using fed_update [OF fed_init [OF assms(1)], of "int (length data)" data] assms(2) by auto
  with fed_final [OF this(2)] assms(2) show ?thesis by (auto simp: calcShaToHex_def as_int_small)
qed

lemma tails_found:
  assumes ok: "pool_ok h (m_pMetaPool fs)"
  obtains T p where "findFileTailMetaInfo fs (hash_key h sha) sha = return_o p"
    "findChunkTailMetaInfo fs (hash_key h sha) = return_o T" "tails h (m_pMetaPool fs) sha T p"
proof -
  let ?pool = "m_pMetaPool fs" and ?k = "hash_key h sha"
  note k = hash_key_in [OF ok, of sha]
  show ?thesis
  proof (cases "m_isUsed (meta_at ?pool ?k)")
    case True
    obtain cs where cs: "chain ?pool ?k cs" by (rule pool_chain [OF ok k True])
    show ?thesis
      by (rule that [of "let mine = file_chunks h ?pool sha in if mine = [] then None else Some (last mine)" "last cs"])
        (use True k cs in \<open>simp_all add: findFileTailMetaInfo_def findChunkTailMetaInfo_def calcMetaInfoPtr_in chunk_tail_chain
          file_tail_chain file_chunks_def bucket_chain tails_def\<close>)
  next
    case False
    show ?thesis
      by (rule that [of "Some ?k" ?k])
        (use False k in \<open>simp_all add: findFileTailMetaInfo_def findChunkTailMetaInfo_def calcMetaInfoPtr_in tails_def\<close>)
  qed
qed

lemma fs_ok_appended:
  assumes ok: "fs_ok h fs" and A: "appended h sha first ids len T p (m_pMetaPool fs) pool'"
    and bm': "bm_ok bm'" "m_totalChunkNum bm' = m_totalChunkNum (m_pBitMap fs)" "in_use bm' = in_use (m_pBitMap fs) \<union> set ids"
  shows "fs_ok h (fs\<lparr>m_pBitMap := bm', m_pMetaPool := pool'\<rparr>)"
proof -
  have "m_isUsed (meta_at pool' c) = (c \<in> in_use bm')" if c: "unat c < length pool'" for c
  proof (cases "c \<in> set ids")
    case True
    with new_meta(1) [OF A] bm'(3) show ?thesis by (auto simp: in_set_conv_nth)
  next
    case False
    with old_meta(1) [OF A] c ok bm'(3) appended_basic(3) [OF A] show ?thesis by (simp add: fs_ok_def)
  qed
  with ok bm' pool_ok_appended [OF A] show ?thesis by (simp add: fs_ok_def)
qed

text \<open>The chunks that are left.\<close>

definition unused_chunks :: "MetaInfo list \<Rightarrow> nat" where
  "unused_chunks pool = length (filter (\<lambda>m. \<not> m_isUsed m) pool)"

lemma unused_idle: "fs_ok h fs \<Longrightarrow> unused_chunks (m_pMetaPool fs) = length (idle_chunks (m_pBitMap fs))"
proof -
  assume ok: "fs_ok h fs"
  let ?pool = "m_pMetaPool fs"
  have n: "unat (m_totalChunkNum (m_pBitMap fs)) = length ?pool" using ok by (simp add: fs_ok_def pool_ok_def)
  have u: "unat (of_nat i :: u32) = i" if "i < length ?pool" for i
    using that n unat_less_power [OF refl, of "m_totalChunkNum (m_pBitMap fs)"] by (simp add: unsigned_of_nat take_bit_nat_eq_self)
  have "filter (\<lambda>i. \<not> m_isUsed (?pool ! i)) [0..<length ?pool] = filter (\<lambda>i. of_nat i \<notin> in_use (m_pBitMap fs)) [0..<length ?pool]"
  proof (rule filter_cong)
    fix i
    assume "i \<in> set [0..<length ?pool]"
    with ok u [of i] show "(\<not> m_isUsed (?pool ! i)) = (of_nat i \<notin> in_use (m_pBitMap fs))"
      unfolding fs_ok_def by (metis atLeastLessThan_iff set_upt)
  qed simp
  moreover have "unused_chunks ?pool = length (filter (\<lambda>i. \<not> m_isUsed (?pool ! i)) [0..<length ?pool])"
    unfolding unused_chunks_def by (subst (1) map_nth [symmetric]) (simp add: filter_map comp_def del: map_nth)
  ultimately show ?thesis by (simp add: idle_chunks_def all_chunks_def n filter_map comp_def)
qed

text \<open>What a write of \<open>len\<close> bytes does first, and the search for idle chunks.\<close>

definition write_plan :: "EdgeFSHead \<Rightarrow> MetaInfo list \<Rightarrow> byte list \<Rightarrow> u32 \<Rightarrow> u32 \<Rightarrow> u32 option \<Rightarrow> u32 \<Rightarrow> u32 \<Rightarrow> u32 \<Rightarrow> bool" where
  "write_plan h pool sha len T p first need lastLen \<longleftrightarrow> tails h pool sha T p \<and>
     first = (case map_option (meta_at pool) p of None \<Rightarrow> 0
       | Some m \<Rightarrow> if \<not> m_isUsed m then 0 else if len \<ge> m_idleLen m then m_idleLen m else len) \<and>
     (need = 0 \<longleftrightarrow> len = first) \<and> 0 < unat lastLen \<and> lastLen \<le> m_chunkSize h \<and>
     (need \<noteq> 0 \<longrightarrow> unat len = unat first + (unat need - 1) * unat (m_chunkSize h) + unat lastLen)"

definition write_search :: "(nat \<Rightarrow> u32) \<Rightarrow> EdgeFS \<Rightarrow> u32 option \<Rightarrow> u32 \<Rightarrow> (bool \<times> u32 list) option" where
  "write_search draw fs p need = generateIdleChunkids draw (m_pBitMap fs)
     (map_option m_isUsed (map_option (meta_at (m_pMetaPool fs)) p)) (calcChunkid p) [] need"

definition write_rest :: "'w file_os \<Rightarrow> EdgeFSHead \<Rightarrow> byte list \<Rightarrow> byte list \<Rightarrow> u32 \<Rightarrow> u32 \<Rightarrow> u32 option \<Rightarrow> u32 \<Rightarrow> u32 \<Rightarrow> u32 \<Rightarrow> u32 list \<Rightarrow>
    EdgeFS \<Rightarrow> 'w \<Rightarrow> (int \<times> EdgeFS \<times> 'w) outcome option" where
  "write_rest os h sha buff len T p first need lastLen ids fs w =
     bind_o (write_data (DataMgr_write os (m_pDataMgr fs)) (m_chunkSize h) sha buff len first need lastLen p T ids fs w)
       (\<lambda>(_, real, fs, w). bind_o (Some (printAllMetaInfo h fs)) (\<lambda>_. return_o (int (unat real), fs, w)))"

lemma generateTaskid_simps [simp]: "m_pMetaPool (generateTaskid fs) = m_pMetaPool fs" "m_pBitMap (generateTaskid fs) = m_pBitMap fs"
  "m_pDataMgr (generateTaskid fs) = m_pDataMgr fs" "m_pFSHead (generateTaskid fs) = m_pFSHead fs"
  by (simp_all add: generateTaskid_def)

lemma fs_ok_generateTaskid [simp]: "fs_ok h (generateTaskid fs) = fs_ok h fs"
  by (simp add: fs_ok_def)

lemma write_eq:
  assumes ok: "fs_ok h fs" and name: "length (sha_buf ctx) = 64" "length name < 2 ^ 31"
  obtains T p first need lastLen where "write_plan h (m_pMetaPool fs) (sha1 name) len T p first need lastLen"
    "\<And>os draw buff w. EdgeFS_write os ctx draw name (Some buff) len fs w =
      bind_o (if need \<noteq> 0 then Some (case write_search draw fs p need of None \<Rightarrow> Crash | Some r \<Rightarrow> Done r) else return_o (True, []))
        (\<lambda>(found, ids). if need \<noteq> 0 \<and> (\<not> found \<or> ids = []) then return_o (- 1, generateTaskid fs, w)
          else write_rest os h (sha1 name) buff len T p first need lastLen ids (generateTaskid fs) w)"
proof -
  let ?fs = "generateTaskid fs"
  have pool: "pool_ok h (m_pMetaPool ?fs)" and head: "m_pFSHead ?fs = Some h" and cs: "m_chunkSize h \<noteq> 0"
    using ok by (simp_all add: fs_ok_def pool_ok_def)
  obtain T p where found: "findFileTailMetaInfo ?fs (hash_key h (sha1 name)) (sha1 name) = return_o p"
    "findChunkTailMetaInfo ?fs (hash_key h (sha1 name)) = return_o T" "tails h (m_pMetaPool ?fs) (sha1 name) T p"
    by (rule tails_found [OF pool])
  define tail where "tail = map_option (meta_at (m_pMetaPool fs)) p"
  have meta: "meta_of ?fs p = Done tail"
    using tails_next(3) [OF pool found(3)] by (auto simp: meta_of_def tail_def calcMetaInfoPtr_def split: option.split)
  obtain first need lastLen where first: "first = (case tail of None \<Rightarrow> 0 | Some m \<Rightarrow> if \<not> m_isUsed m then 0 else if len \<ge> m_idleLen m then m_idleLen m else len)"
    and calc: "calcWriteVariable (m_chunkSize h) tail len = Done (first, need, lastLen)"
    "need = 0 \<longleftrightarrow> len = first" "0 < unat lastLen" "lastLen \<le> m_chunkSize h"
    "need \<noteq> 0 \<Longrightarrow> unat len = unat first + (unat need - 1) * unat (m_chunkSize h) + unat lastLen"
    using calcWriteVariable_eq [OF cs refl, of tail len] by blast
  show ?thesis
  proof (rule that)
    show "write_plan h (m_pMetaPool fs) (sha1 name) len T p first need lastLen"
      using found(3) first calc by (simp add: write_plan_def tail_def)
    show "EdgeFS_write os ctx draw name (Some buff) len fs w =
      bind_o (if need \<noteq> 0 then Some (case write_search draw fs p need of None \<Rightarrow> Crash | Some r \<Rightarrow> Done r) else return_o (True, []))
        (\<lambda>(found, ids). if need \<noteq> 0 \<and> (\<not> found \<or> ids = []) then return_o (- 1, generateTaskid fs, w)
          else write_rest os h (sha1 name) buff len T p first need lastLen ids (generateTaskid fs) w)" for os draw buff w
      using calcShaToHex_eq [OF name] head generateHashKey_ok [OF pool, of "sha1 name"] found(1,2) meta calc(1)
      by (simp add: EdgeFS_write_def Let_def write_search_def write_rest_def tail_def cong: if_cong)
  qed
qed

lemma search_result:
  assumes ok: "fs_ok h fs" and plan: "write_plan h (m_pMetaPool fs) sha len T p first need lastLen" and need: "need \<noteq> 0"
  shows "\<exists>found ids. write_search draw fs p need = Some (found, ids) \<and>
    (found \<longrightarrow> length ids = unat need \<and> (\<forall>c \<in> set ids. unat c < length (m_pMetaPool fs) \<and> \<not> m_isUsed (meta_at (m_pMetaPool fs) c)) \<and>
      (\<forall>c. p = Some c \<longrightarrow> \<not> m_isUsed (meta_at (m_pMetaPool fs) c) \<longrightarrow> hd ids = c)) \<and>
    (\<not> found \<longrightarrow> unused_chunks (m_pMetaPool fs) * unat (m_chunkSize h) < unat len)"
proof -
  let ?pool = "m_pMetaPool fs" and ?bm = "m_pBitMap fs"
  let ?tail = "map_option m_isUsed (map_option (meta_at ?pool) p)"
  have pool: "pool_ok h ?pool" and bm: "bm_ok ?bm" "m_totalChunkNum ?bm = m_chunkNum h" "m_totalChunkNum ?bm \<noteq> 0"
    and num: "unat (m_chunkNum h) = length ?pool" using ok by (simp_all add: fs_ok_def pool_ok_def)
  have used: "m_isUsed (meta_at ?pool c) = (c \<in> in_use ?bm)" if "unat c < length ?pool" for c
    using ok that by (simp add: fs_ok_def)
  have tails: "tails h ?pool sha T p" using plan by (simp add: write_plan_def)
  have range: "c < m_totalChunkNum ?bm \<longleftrightarrow> unat c < length ?pool" for c by (simp add: bm(2) word_less_nat_alt num)
  have t: "calcChunkid p < m_totalChunkNum ?bm \<and> calcChunkid p \<notin> in_use ?bm" if "?tail = Some False"
    using that tails_next(3) [OF pool tails] used range by (cases p) (auto simp: calcChunkid_def)
  have t': "?tail = Some False \<or> calcChunkid p \<notin> set (idle_chunks ?bm)"
  proof (cases p)
    case None
    then have "calcChunkid p = kInvalidChunkid" by (simp add: calcChunkid_def)
    moreover have "kInvalidChunkid \<notin> set (all_chunks ?bm)"
      using all_chunks_less [of kInvalidChunkid ?bm] word_order.extremum [of "m_totalChunkNum ?bm"] by (auto simp: kInvalidChunkid_def)
    ultimately show ?thesis by (simp add: idle_chunks_def)
  next
    case (Some c)
    with used [OF tails_next(3) [OF pool tails Some]] show ?thesis by (auto simp: calcChunkid_def idle_chunks_def)
  qed
  have "chosen ?bm need (if ?tail = Some False then [calcChunkid p] else []) (write_search draw fs p need)"
    unfolding write_search_def by (rule chosen_all [OF bm(1,3) need]) (rule t)
  then obtain found ids ms where s: "write_search draw fs p need = Some (found, ids)" "found \<Longrightarrow> length ids = unat need"
    "found \<Longrightarrow> \<forall>c \<in> set ids. c < m_totalChunkNum ?bm \<and> c \<notin> in_use ?bm"
    "found \<Longrightarrow> ids = (if ?tail = Some False then [calcChunkid p] else []) @ ms"
    unfolding chosen_def by blast
  have "unused_chunks ?pool * unat (m_chunkSize h) < unat len" if "\<not> found"
  proof -
    have "length (idle_chunks ?bm) < unat need"
      using s(1) that by (intro search_fails [OF bm(1) need bm(3) t']) (auto simp: write_search_def)
    then have "unused_chunks ?pool * unat (m_chunkSize h) \<le> (unat need - 1) * unat (m_chunkSize h)"
      unfolding unused_idle [OF ok] by (intro mult_le_mono1) simp
    also have "\<dots> < unat len" using plan need by (simp add: write_plan_def)
    finally show ?thesis .
  qed
  moreover have "\<forall>c. p = Some c \<longrightarrow> \<not> m_isUsed (meta_at ?pool c) \<longrightarrow> hd ids = c" if "found"
    using s(4) [OF that] by (auto simp: calcChunkid_def)
  ultimately show ?thesis using s(1-3) used range by (intro exI [of _ found] exI [of _ ids]) auto
qed

lemma write_found:
  assumes ok: "fs_ok h fs"
    and disk: "data_file (DataMgr_write os (m_pDataMgr fs)) (fo_read_at os (m_pDataMgr fs)) dat cap"
    and cap: "unat (m_chunkNum h) * unat (m_chunkSize h) \<le> cap"
    and plan: "write_plan h (m_pMetaPool fs) sha len T p first need lastLen" and buff: "length buff = unat len"
    and ids: "distinct ids" "length ids = unat need" "\<forall>c \<in> set ids. unat c < length (m_pMetaPool fs) \<and> \<not> m_isUsed (meta_at (m_pMetaPool fs) c)"
      "\<forall>c. p = Some c \<longrightarrow> \<not> m_isUsed (meta_at (m_pMetaPool fs) c) \<longrightarrow> ids \<noteq> [] \<longrightarrow> hd ids = c"
  shows "\<exists>fs' w'. write_rest os h sha buff len T p first need lastLen ids fs w = return_o (int (length buff), fs', w') \<and> fs_ok h fs' \<and>
    m_pDataMgr fs' = m_pDataMgr fs \<and>
    (\<forall>t. file_bytes h (dat w') (m_pMetaPool fs') t =
      (if t = sha then file_bytes h (dat w) (m_pMetaPool fs) t @ buff else file_bytes h (dat w) (m_pMetaPool fs) t))"
proof -
  have pool: "pool_ok h (m_pMetaPool fs)" and bm: "bm_ok (m_pBitMap fs)" "unat (m_totalChunkNum (m_pBitMap fs)) = length (m_pMetaPool fs)"
    and num: "unat (m_chunkNum h) = length (m_pMetaPool fs)" using ok by (simp_all add: fs_ok_def pool_ok_def)
  have P: "tails h (m_pMetaPool fs) sha T p" "first = (case map_option (meta_at (m_pMetaPool fs)) p of None \<Rightarrow> 0
      | Some m \<Rightarrow> if \<not> m_isUsed m then 0 else if len \<ge> m_idleLen m then m_idleLen m else len)"
    "need = 0 \<longleftrightarrow> len = first" "0 < unat lastLen" "lastLen \<le> m_chunkSize h"
    "need \<noteq> 0 \<longrightarrow> unat len = unat first + (unat need - 1) * unat (m_chunkSize h) + unat lastLen"
    using plan by (simp_all add: write_plan_def)
  have "length (m_pMetaPool fs) * unat (m_chunkSize h) \<le> cap" using cap num by simp
  from data_file.write_data_ok [OF disk pool P(1) this bm P(2-5) P(6) buff ids, of w]
  obtain rem bm' pool' w' where wd: "write_data (DataMgr_write os (m_pDataMgr fs)) (m_chunkSize h) sha buff len first need lastLen p T ids fs w =
      return_o (rem, len, fs\<lparr>m_pBitMap := bm', m_pMetaPool := pool'\<rparr>, w')"
    "bm_ok bm'" "m_totalChunkNum bm' = m_totalChunkNum (m_pBitMap fs)" "in_use bm' = in_use (m_pBitMap fs) \<union> set ids"
    "appended h sha first ids (chunk_len (m_chunkSize h) need lastLen) T p (m_pMetaPool fs) pool'"
    "data_appended h (take (unat first) buff) (drop (unat first) buff) ids p (m_pMetaPool fs) pool' (dat w) (dat w')"
    by (elim exE conjE) (rule that)
  let ?fs' = "fs\<lparr>m_pBitMap := bm', m_pMetaPool := pool'\<rparr>"
  have "fs_ok h ?fs'" by (rule fs_ok_appended [OF ok wd(5,2,3,4)])
  moreover have "first \<le> len" unfolding P(2) by (auto split: option.split)
  then have "length (take (unat first) buff) = unat first" using buff by (simp add: word_le_nat_alt)
  from file_bytes_appended [OF wd(5,6) this] have "file_bytes h (dat w') (m_pMetaPool ?fs') t =
    (if t = sha then file_bytes h (dat w) (m_pMetaPool fs) t @ buff else file_bytes h (dat w) (m_pMetaPool fs) t)" for t by simp
  moreover have "printAllMetaInfo h ?fs' \<noteq> Crash" using appended_basic(3) [OF wd(5)] num by (simp add: printAllMetaInfo_def)
  then obtain l where "printAllMetaInfo h ?fs' = Done l" by (cases "printAllMetaInfo h ?fs'") auto
  then have "write_rest os h sha buff len T p first need lastLen ids fs w = return_o (int (length buff), ?fs', w')"
    using wd(1) buff by (simp add: write_rest_def)
  ultimately show ?thesis by (intro exI [of _ ?fs'] exI [of _ w']) auto
qed

text \<open>
  The general form: it is enough that the search for this many chunks gives none twice.
\<close>

lemma write_refines:
  assumes ok: "fs_ok h fs"
    and disk: "data_file (DataMgr_write (os :: 'w file_os) (m_pDataMgr fs)) (fo_read_at os (m_pDataMgr fs)) dat cap"
    and cap: "unat (m_chunkNum h) * unat (m_chunkSize h) \<le> cap"
    and name: "length (sha_buf ctx) = 64" "length name < 2 ^ 31" and buff: "length buff = unat len"
    and once: "\<And>T p first need lastLen ids. write_plan h (m_pMetaPool fs) (sha1 name) len T p first need lastLen \<Longrightarrow> need \<noteq> 0 \<Longrightarrow>
      write_search draw fs p need = Some (True, ids) \<Longrightarrow> distinct ids"
  shows "EdgeFS_write os ctx draw name (Some buff) len fs w = return_o (- 1, generateTaskid fs, w) \<and>
      unused_chunks (m_pMetaPool fs) * unat (m_chunkSize h) < length buff \<or>
    (\<exists>fs' w'. EdgeFS_write os ctx draw name (Some buff) len fs w = return_o (int (length buff), fs', w') \<and> fs_ok h fs' \<and>
      m_pDataMgr fs' = m_pDataMgr fs \<and>
      (\<forall>t. file_bytes h (dat w') (m_pMetaPool fs') t =
        (if t = sha1 name then file_bytes h (dat w) (m_pMetaPool fs) t @ buff else file_bytes h (dat w) (m_pMetaPool fs) t)))"
proof -
  obtain T p first need lastLen where plan: "write_plan h (m_pMetaPool fs) (sha1 name) len T p first need lastLen"
    and eq: "\<And>(os :: 'w file_os) draw buff w. EdgeFS_write os ctx draw name (Some buff) len fs w =
      bind_o (if need \<noteq> 0 then Some (case write_search draw fs p need of None \<Rightarrow> Crash | Some r \<Rightarrow> Done r) else return_o (True, []))
        (\<lambda>(found, ids). if need \<noteq> 0 \<and> (\<not> found \<or> ids = []) then return_o (- 1, generateTaskid fs, w)
          else write_rest os h (sha1 name) buff len T p first need lastLen ids (generateTaskid fs) w)"
    using write_eq [OF ok name] by blast
  note go = write_found [of h "generateTaskid fs" os dat cap "sha1 name" len T p first need lastLen buff,
      unfolded generateTaskid_simps fs_ok_generateTaskid, OF ok disk cap plan buff]
  show ?thesis
  proof (cases "need = 0")
    case True
    from True have "\<exists>fs' w'. write_rest os h (sha1 name) buff len T p first need lastLen [] (generateTaskid fs) w = return_o (int (length buff), fs', w') \<and> fs_ok h fs' \<and>
      m_pDataMgr fs' = m_pDataMgr fs \<and> (\<forall>t. file_bytes h (dat w') (m_pMetaPool fs') t =
      (if t = sha1 name then file_bytes h (dat w) (m_pMetaPool fs) t @ buff else file_bytes h (dat w) (m_pMetaPool fs) t))"
      by (intro go) simp_all
    moreover have "EdgeFS_write os ctx draw name (Some buff) len fs w =
      write_rest os h (sha1 name) buff len T p first need lastLen [] (generateTaskid fs) w" by (simp add: eq True)
    ultimately show ?thesis using True by (simp del: split_paired_Ex)
  next
    case False
    from search_result [OF ok plan False, of draw] obtain found ids where s: "write_search draw fs p need = Some (found, ids)"
      "found \<Longrightarrow> length ids = unat need \<and> (\<forall>c \<in> set ids. unat c < length (m_pMetaPool fs) \<and> \<not> m_isUsed (meta_at (m_pMetaPool fs) c)) \<and>
        (\<forall>c. p = Some c \<longrightarrow> \<not> m_isUsed (meta_at (m_pMetaPool fs) c) \<longrightarrow> hd ids = c)"
      "\<not> found \<Longrightarrow> unused_chunks (m_pMetaPool fs) * unat (m_chunkSize h) < unat len" by blast
    show ?thesis
    proof (cases found)
      case False
      with eq s(1,3) \<open>need \<noteq> 0\<close> buff show ?thesis by simp
    next
      case True
      then have "ids \<noteq> []" using s(2) False by (auto simp: word_unat_eq_iff)
      moreover have "distinct ids" using once [OF plan False] s(1) True by simp
      ultimately show ?thesis using go [of ids w] s(2) [OF True] by (intro disjI2) (simp add: eq s(1) True False)
    qed
  qed
qed

lemma fs_ok_fresh:
  assumes "m_pFSHead fs = Some h" "length (m_pMetaPool fs) = unat (m_chunkNum h)" "m_chunkNum h \<noteq> 0" "m_chunkSize h \<noteq> 0"
    and bm: "bm_ok (m_pBitMap fs)" "m_totalChunkNum (m_pBitMap fs) = m_chunkNum h" "\<forall>b \<in> set (m_ptr (m_pBitMap fs)). b = 0"
    and unused: "\<forall>m \<in> set (m_pMetaPool fs). \<not> m_isUsed m"
  shows "fs_ok h fs" "file_bytes h g (m_pMetaPool fs) t = []"
proof -
  let ?pool = "m_pMetaPool fs"
  have u: "\<not> m_isUsed (meta_at ?pool c)" if "unat c < length ?pool" for c using unused that by simp
  have "hash_key h sha < m_chunkNum h" for sha using assms(3) by (simp add: hash_key_def word_less_nat_alt unat_mod unat_gt_0)
  then have files: "file_chunks h ?pool sha = []" for sha
    using u assms(2) by (simp add: file_chunks_def bucket_unused word_less_nat_alt)
  then show "file_bytes h g ?pool t = []" by (simp add: file_bytes_def)
  have "m_ptr (m_pBitMap fs) ! i = 0" if "i < length (m_ptr (m_pBitMap fs))" for i using bm(3) nth_mem [OF that] by blast
  then have "c \<notin> in_use (m_pBitMap fs)" for c
    by (auto simp: in_use_def isHave_def split: if_splits)
  with assms u files show "fs_ok h fs" by (simp add: fs_ok_def pool_ok_def)
qed

text \<open>Searches that give no chunk twice.\<close>

lemma small_or_steady:
  assumes ok: "fs_ok h fs" and small: "len \<le> m_chunkSize h \<or> m_totalChunkNum (m_pBitMap fs) \<le> m_writeChunkNum (m_pBitMap fs) * 2"
    and plan: "write_plan h (m_pMetaPool fs) sha len T p first need lastLen" "need \<noteq> 0"
    and search: "write_search draw fs p need = Some (True, ids)"
  shows "distinct ids"
proof -
  have bm: "bm_ok (m_pBitMap fs)" using ok by (simp add: fs_ok_def)
  from small show ?thesis
  proof
    assume "len \<le> m_chunkSize h"
    then have "unat len \<le> unat (m_chunkSize h)" by (simp add: word_le_nat_alt)
    moreover have "(unat need - 1) * unat (m_chunkSize h) < unat len" using plan by (simp add: write_plan_def)
    ultimately have "(unat need - 1) * unat (m_chunkSize h) < 1 * unat (m_chunkSize h)" by linarith
    then have "unat need - 1 < 1" by (simp only: mult_less_cancel2)
    moreover have "length ids = unat need" using search_result [OF ok plan, of draw] search by auto
    ultimately have "length ids \<le> 1" by simp
    then show ?thesis by (cases ids) simp_all
  next
    assume "m_totalChunkNum (m_pBitMap fs) \<le> m_writeChunkNum (m_pBitMap fs) * 2"
    from steady_distinct [OF bm this plan(2) search [unfolded write_search_def]] show ?thesis .
  qed
qed

lemma write_appends:
  assumes "fs_ok h fs"
    and "data_file (DataMgr_write os (m_pDataMgr fs)) (fo_read_at os (m_pDataMgr fs)) dat cap"
    and "unat (m_chunkNum h) * unat (m_chunkSize h) \<le> cap"
    and "length (sha_buf ctx) = 64" "length name < 2 ^ 31" "length buff = unat len"
    and "len \<le> m_chunkSize h \<or> m_totalChunkNum (m_pBitMap fs) \<le> m_writeChunkNum (m_pBitMap fs) * 2"
  shows "EdgeFS_write os ctx draw name (Some buff) len fs w = return_o (- 1, generateTaskid fs, w) \<and>
      unused_chunks (m_pMetaPool fs) * unat (m_chunkSize h) < length buff \<or>
    (\<exists>fs' w'. EdgeFS_write os ctx draw name (Some buff) len fs w = return_o (int (length buff), fs', w') \<and> fs_ok h fs' \<and>
      m_pDataMgr fs' = m_pDataMgr fs \<and>
      (\<forall>t. file_bytes h (dat w') (m_pMetaPool fs') t =
        (if t = sha1 name then file_bytes h (dat w) (m_pMetaPool fs) t @ buff else file_bytes h (dat w) (m_pMetaPool fs) t)))"
  by (rule write_refines [OF assms(1-6) small_or_steady [OF assms(1,7)]])

text \<open>C5: Writing appends. On a well-formed file system and a data file that works, a write of at most one
  chunk, or any write once half of the chunks are in use, appends the bytes to the file of that name, leaves the
  bytes of all other files as they were and the file system well-formed. It fails only if the chunks that are left
  cannot take the bytes, and then changes nothing.\<close>

theorem fs_write_appends:
  assumes "fs_ok h fs"
    and "data_file (DataMgr_write os (m_pDataMgr fs)) (fo_read_at os (m_pDataMgr fs)) dat cap"
    and "unat (m_chunkNum h) * unat (m_chunkSize h) \<le> cap"
    and "length (sha_buf ctx) = 64" "length name < 2 ^ 31" "length buff = unat len"
    and "len \<le> m_chunkSize h \<or> m_totalChunkNum (m_pBitMap fs) \<le> m_writeChunkNum (m_pBitMap fs) * 2"
  shows "EdgeFS_write os ctx draw name (Some buff) len fs w = return_o (- 1, generateTaskid fs, w) \<and>
      unused_chunks (m_pMetaPool fs) * unat (m_chunkSize h) < length buff \<or>
    (\<exists>fs' w'. EdgeFS_write os ctx draw name (Some buff) len fs w = return_o (int (length buff), fs', w') \<and> fs_ok h fs' \<and>
      m_pDataMgr fs' = m_pDataMgr fs \<and>
      (\<forall>t. file_bytes h (dat w') (m_pMetaPool fs') t =
        (if t = sha1 name then file_bytes h (dat w) (m_pMetaPool fs) t @ buff else file_bytes h (dat w) (m_pMetaPool fs) t)))"
  by (rule write_appends [OF assms])

text \<open>A small instance: eight chunks of four bytes, none in use.\<close>

definition small_head :: EdgeFSHead where
  "small_head = \<lparr>m_magic = kEdgeFSMagic, m_coverableDiskSize = 32, m_usableMemory = 377, m_chunkSize = 4, m_chunkNum = 8, m_bitmapSize = 1\<rparr>"

definition zero_meta :: MetaInfo where
  "zero_meta = \<lparr>m_isUsed = False, m_sha1 = replicate 20 0, m_fileSize = 0, m_crc32 = 0, m_idleLen = 0, m_nextChunkid = 0\<rparr>"

definition small_fs :: EdgeFS where
  "small_fs = EdgeFS_new\<lparr>m_pFSHead := Some small_head, m_pBitMap := initBitmap [0] 1 8, m_pMetaPool := replicate 8 zero_meta,
     m_pDataMgr := \<lparr>m_fd = 3, m_path = ''edgefs.data''\<rparr>\<rparr>"

lemma small_fs_ok: "fs_ok small_head small_fs" "file_bytes small_head g (m_pMetaPool small_fs) t = []"
  by (rule fs_ok_fresh; simp add: small_fs_def small_head_def zero_meta_def initBitmap_def bm_ok_def)+

theorem fs_write_appends_witness:
  "\<exists>fs' w'. EdgeFS_write plain_os zero_info (\<lambda>_. 0) [97] (Some [1, 2, 3]) 3 small_fs \<lparr>pf_bytes = \<lambda>_. 0, pf_pos = 0\<rparr> =
      return_o (3, fs', w') \<and> file_bytes small_head (pf_bytes w') (m_pMetaPool fs') (sha1 [97]) = [1, 2, 3]"
proof -
  have "data_file (DataMgr_write plain_os (m_pDataMgr small_fs)) (fo_read_at plain_os (m_pDataMgr small_fs)) pf_bytes 32"
    using plain.data_file_axioms by (simp add: small_fs_def)
  moreover have "unat (m_chunkNum small_head) * unat (m_chunkSize small_head) \<le> 32" "(3 :: u32) \<le> m_chunkSize small_head"
    by (simp_all add: small_head_def)
  moreover have "length (sha_buf zero_info) = 64" "length [97 :: byte] < 2 ^ 31" "length [1, 2, 3 :: byte] = unat (3 :: u32)"
    by (simp_all add: zero_info_def)
  moreover have "\<not> unused_chunks (m_pMetaPool small_fs) * unat (m_chunkSize small_head) < length [1, 2, 3 :: byte]"
    by (simp add: unused_chunks_def small_fs_def zero_meta_def small_head_def)
  ultimately show ?thesis
    using fs_write_appends [OF small_fs_ok(1), of plain_os pf_bytes 32 zero_info "[97]" "[1, 2, 3]" 3 "\<lambda>_. 0" "\<lparr>pf_bytes = \<lambda>_. 0, pf_pos = 0\<rparr>"]
    by (auto simp: small_fs_ok(2))
qed

end
