(* ===== verification/EdgeFsRead.thy ===== *)
theory EdgeFsRead
  imports EdgeFsWrite
begin

text \<open>
  Reading: inside the file \<open>read\<close> gives the bytes that were written; at and behind its end it does not keep to
  the file.
\<close>

subsection \<open>The chunks of a file one after the other\<close>

text \<open>All bytes of the chunks, whether they belong to the file or not.\<close>

definition file_space :: "u32 \<Rightarrow> (nat \<Rightarrow> byte) \<Rightarrow> u32 list \<Rightarrow> byte list" where
  "file_space chunkSize g ids = map (\<lambda>i. g (unat (ids ! (i div unat chunkSize)) * unat chunkSize + i mod unat chunkSize))
     [0..<length ids * unat chunkSize]"

lemma length_file_space [simp]: "length (file_space chunkSize g ids) = length ids * unat chunkSize"
  by (simp add: file_space_def)

lemma space_part:
  assumes "k < length ids" "i + m \<le> unat chunkSize"
  shows "map g [unat (ids ! k) * unat chunkSize + i..<unat (ids ! k) * unat chunkSize + i + m] =
    take m (drop (k * unat chunkSize + i) (file_space chunkSize g ids))"
proof (rule nth_equalityI)
  have "Suc k * unat chunkSize \<le> length ids * unat chunkSize" using assms(1) by (intro mult_le_mono1) simp
  then have fits: "k * unat chunkSize + i + m \<le> length ids * unat chunkSize" using assms(2) by simp
  then show "length (map g [unat (ids ! k) * unat chunkSize + i..<unat (ids ! k) * unat chunkSize + i + m]) =
    length (take m (drop (k * unat chunkSize + i) (file_space chunkSize g ids)))" by simp
  fix j
  assume "j < length (map g [unat (ids ! k) * unat chunkSize + i..<unat (ids ! k) * unat chunkSize + i + m])"
  then have j: "j < m" by simp
  then have "(k * unat chunkSize + (i + j)) div unat chunkSize = k" "(k * unat chunkSize + (i + j)) mod unat chunkSize = i + j"
    using assms(2) by simp_all
  with j fits show "map g [unat (ids ! k) * unat chunkSize + i..<unat (ids ! k) * unat chunkSize + i + m] ! j =
    take m (drop (k * unat chunkSize + i) (file_space chunkSize g ids)) ! j"
    by (simp add: file_space_def add.assoc)
qed

lemma space_Cons: "file_space chunkSize g (c # ids) =
  map g [unat c * unat chunkSize..<unat c * unat chunkSize + unat chunkSize] @ file_space chunkSize g ids"
proof (rule nth_equalityI)
  fix j
  assume "j < length (file_space chunkSize g (c # ids))"
  then have j: "j < unat chunkSize + length ids * unat chunkSize" by simp
  show "file_space chunkSize g (c # ids) ! j =
    (map g [unat c * unat chunkSize..<unat c * unat chunkSize + unat chunkSize] @ file_space chunkSize g ids) ! j"
  proof (cases "j < unat chunkSize")
    case True
    with j show ?thesis by (simp add: file_space_def nth_append)
  next
    case False
    then have "j = (j - unat chunkSize) + unat chunkSize" "0 < unat chunkSize" using j by (simp_all, cases "unat chunkSize", simp_all)
    then have "j div unat chunkSize = Suc ((j - unat chunkSize) div unat chunkSize)" "j mod unat chunkSize = (j - unat chunkSize) mod unat chunkSize"
      by (metis add.commute div_add_self1 less_irrefl plus_1_eq_Suc, metis mod_add_self2)
    moreover have "j - unat chunkSize < length ids * unat chunkSize" using j False by simp
    ultimately show ?thesis using j False by (simp add: file_space_def nth_append)
  qed
qed simp

text \<open>The file is the front of its chunks, since all but the last are full.\<close>

lemma stored_space:
  "\<forall>x \<in> set (butlast ids). m_idleLen (meta_at pool x) = 0 \<Longrightarrow>
    concat (map (stored chunkSize g pool) ids) =
    take ((length ids - 1) * unat chunkSize + (if ids = [] then 0 else written chunkSize pool (last ids))) (file_space chunkSize g ids)"
proof (induction ids)
  case (Cons c ids)
  have c: "stored chunkSize g pool c = take (written chunkSize pool c) (map g [unat c * unat chunkSize..<unat c * unat chunkSize + unat chunkSize])"
    using written_le [of chunkSize pool c] by (simp add: stored_def take_map)
  show ?case
  proof (cases "ids = []")
    case True
    with c show ?thesis using written_le [of chunkSize pool c] by (simp add: space_Cons)
  next
    case False
    with Cons.prems have "m_idleLen (meta_at pool c) = 0" by simp
    then have "stored chunkSize g pool c = map g [unat c * unat chunkSize..<unat c * unat chunkSize + unat chunkSize]"
      by (simp add: stored_def written_def)
    moreover have "(length (c # ids) - 1) * unat chunkSize = unat chunkSize + (length ids - 1) * unat chunkSize"
      using False by (cases ids) simp_all
    ultimately show ?thesis using Cons False by (simp add: space_Cons)
  qed
qed (simp add: file_space_def)

subsection \<open>What is read\<close>

text \<open>The data that a list of offsets and lengths asks for.\<close>

definition asked :: "(nat \<Rightarrow> byte) \<Rightarrow> (u64 \<times> u32) list \<Rightarrow> byte list" where
  "asked g readInfo = concat (map (\<lambda>(off, len). map g [unat off..<unat off + unat len]) readInfo)"

definition within :: "nat \<Rightarrow> (u64 \<times> u32) list \<Rightarrow> bool" where
  "within cap readInfo \<longleftrightarrow> (\<forall>(off, len) \<in> set readInfo. unat off + unat len \<le> cap)"

lemma asked_simps [simp]: "asked g [] = []" "asked g ((off, len) # l) = map g [unat off..<unat off + unat len] @ asked g l"
  "asked g (l @ m) = asked g l @ asked g m"
  by (simp_all add: asked_def)

lemma overwrite_append: "overwrite (overwrite g r a) (r + length a) b = overwrite g r (a @ b)"
  by (rule ext) (auto simp: overwrite_def nth_append)

context data_file
begin

lemma read_data_ok:
  assumes "dat w = g"
  shows "within cap readInfo \<Longrightarrow> r + length (asked g readInfo) < 2 ^ 32 \<Longrightarrow> \<exists>w'. dat w' = g \<and>
    read_data get readInfo (of_nat r) buff w = (of_nat (r + length (asked g readInfo)), overwrite buff r (asked g readInfo), w')"
  using assms
proof (induction readInfo arbitrary: r buff w)
  case (Cons p readInfo)
  obtain off len where p: "p = (off, len)" by (cases p)
  with Cons.prems(1) have "unat off + unat len \<le> cap" "within cap readInfo" by (auto simp: within_def)
  from get_all [OF this(1), of w] Cons.prems(3) obtain w1 where
    w1: "get len off w = (True, map g [unat off..<unat off + unat len], w1)" "dat w1 = g"
    by (cases "get len off w") auto
  have "unat (of_nat r :: u32) = r" using Cons.prems(2) by (simp add: unsigned_of_nat take_bit_nat_eq_self)
  moreover have "(of_nat r :: u32) + len = of_nat (r + unat len)" by simp
  moreover have "r + unat len + length (asked g readInfo) < 2 ^ 32" using Cons.prems(2) by (simp add: p)
  note Cons.IH [OF \<open>within cap readInfo\<close> this w1(2), of "overwrite buff r (map g [unat off..<unat off + unat len])"]
  ultimately show ?case using overwrite_append [of buff r "map g [unat off..<unat off + unat len]"]
    by (auto simp: p w1 Let_def add.assoc)
qed (simp add: within_def)

end

text \<open>The loop of \<open>calcReadVariable\<close> from the chunk \<open>k\<close> on, over \<open>j\<close> chunks.\<close>

lemma read_more_ok:
  assumes ids: "\<forall>c \<in> set ids. unat c < length (m_pMetaPool fs)" and cap: "length (m_pMetaPool fs) * unat chunkSize \<le> cap"
    and len: "length ids < 2 ^ 32"
  shows "k \<le> length ids \<Longrightarrow> rem < 2 ^ 32 \<Longrightarrow> \<exists>l. within cap l \<and>
    read_more chunkSize ids fs (map (\<lambda>i. of_nat (k + i)) [0..<j]) (of_nat rem) acc = Done (acc @ l) \<and>
    asked g l = take (min rem (j * unat chunkSize)) (drop (k * unat chunkSize) (file_space chunkSize g ids))"
proof (induction j arbitrary: k rem acc)
  case 0
  then show ?case by (intro exI [of _ "[]"]) (simp add: within_def)
next
  case (Suc j)
  have k: "unat (of_nat k :: u32) = k" using Suc.prems(1) len by (simp add: unsigned_of_nat take_bit_nat_eq_self)
  have idxs: "map (\<lambda>i. (of_nat (k + i) :: u32)) [0..<Suc j] = of_nat k # map (\<lambda>i. of_nat (k + 1 + i)) [0..<j]"
    by (simp add: map_upt_Suc del: upt_Suc)
  show ?case
  proof (cases "k < length ids")
    case False
    with Suc.prems have "drop (k * unat chunkSize) (file_space chunkSize g ids) = []" by simp
    with False k show ?thesis unfolding idxs by (intro exI [of _ "[]"]) (simp add: within_def)
  next
    case True
    then have c: "unat (ids ! k) < length (m_pMetaPool fs)" using ids by simp
    define m where "m = min (unat chunkSize) rem"
    have m: "m < 2 ^ 32" "m \<le> unat chunkSize" "m \<le> rem" using Suc.prems(2) by (simp_all add: m_def)
    have word: "min chunkSize (of_nat rem) = of_nat m" "(of_nat rem :: u32) - of_nat m = of_nat (rem - m)" "unat (of_nat m :: u32) = m"
    proof -
      have rem: "unat (of_nat rem :: u32) = rem" using Suc.prems(2) by (simp add: unsigned_of_nat take_bit_nat_eq_self)
      then show "min chunkSize (of_nat rem) = of_nat m" by (auto simp: m_def min_def word_le_nat_alt)
      show "(of_nat rem :: u32) - of_nat m = of_nat (rem - m)" using m(3) by (simp add: of_nat_diff)
      show "unat (of_nat m :: u32) = m" using m(1) by (simp add: unsigned_of_nat take_bit_nat_eq_self)
    qed
    have pre: "k + 1 \<le> length ids" "rem - m < 2 ^ 32" using True Suc.prems by linarith+
    from Suc.IH [OF pre, of "acc @ [(chunk_offset chunkSize (ids ! k), of_nat m)]"] obtain l where
      l: "within cap l" "read_more chunkSize ids fs (map (\<lambda>i. of_nat (k + 1 + i)) [0..<j]) (of_nat (rem - m))
        (acc @ [(chunk_offset chunkSize (ids ! k), of_nat m)]) = Done (acc @ (chunk_offset chunkSize (ids ! k), of_nat m) # l)"
      "asked g l = take (min (rem - m) (j * unat chunkSize)) (drop ((k + 1) * unat chunkSize) (file_space chunkSize g ids))"
      by auto
    have "calcMetaInfoPtr fs (ids ! k) \<noteq> Crash" using c by (simp add: calcMetaInfoPtr_def)
    then have "read_more chunkSize ids fs (map (\<lambda>i. of_nat (k + i)) [0..<Suc j]) (of_nat rem) acc =
      Done (acc @ (chunk_offset chunkSize (ids ! k), of_nat m) # l)"
      unfolding idxs using True k l(2) by (simp add: word Let_def)
    moreover have "within cap ((chunk_offset chunkSize (ids ! k), of_nat m) # l)"
      using l(1) chunk_within [OF c cap m(2)] by (simp add: within_def unat_chunk_offset word)
    moreover have "asked g ((chunk_offset chunkSize (ids ! k), of_nat m) # l) =
      take (min rem (Suc j * unat chunkSize)) (drop (k * unat chunkSize) (file_space chunkSize g ids))"
    proof -
      have "map g [unat (ids ! k) * unat chunkSize..<unat (ids ! k) * unat chunkSize + m] =
        take m (drop (k * unat chunkSize) (file_space chunkSize g ids))" using space_part [OF True, of 0 m] m(2) by simp
      moreover have "min rem (Suc j * unat chunkSize) = m + min (rem - m) (j * unat chunkSize)"
        by (cases "rem \<le> unat chunkSize") (simp_all add: m_def)
      moreover have "take (min (rem - m) (j * unat chunkSize)) (drop ((k + 1) * unat chunkSize) (file_space chunkSize g ids)) =
        take (min (rem - m) (j * unat chunkSize)) (drop m (drop (k * unat chunkSize) (file_space chunkSize g ids)))"
        by (cases "rem \<le> unat chunkSize") (simp_all add: m_def add.commute)
      ultimately show ?thesis by (simp only: asked_simps unat_chunk_offset word(3) l(3) take_add)
    qed
    ultimately show ?thesis by blast
  qed
qed

lemma calcReadVariable_ok:
  assumes ids: "\<forall>c \<in> set ids. unat c < length (m_pMetaPool fs)" and cap: "length (m_pMetaPool fs) * unat chunkSize \<le> cap"
    and n: "length ids < 2 ^ 32" and cs: "chunkSize \<noteq> 0" and q: "unat offset div unat chunkSize < length ids"
    and last: "unat lastLen \<le> unat chunkSize" "unat offset div unat chunkSize + 1 = length ids \<Longrightarrow> unat offset mod unat chunkSize \<le> unat lastLen"
    and len: "unat len + unat chunkSize \<le> 2 ^ 32"
  shows "\<exists>l. calcReadVariable chunkSize ids lastLen len offset fs = Done l \<and> within cap l \<and>
    asked g l = take (if unat offset div unat chunkSize + 1 = length ids
        then min (unat lastLen - unat offset mod unat chunkSize) (unat len) else unat len)
      (drop (unat offset) (file_space chunkSize g ids))"
proof -
  define k i where "k = unat offset div unat chunkSize" and "i = unat offset mod unat chunkSize"
  have d: "0 < unat chunkSize" "unat chunkSize < 2 ^ 32" using cs unat_less_power [OF refl, of chunkSize] by (simp_all add: unat_gt_0)
  have i: "i < unat chunkSize" using d(1) by (simp add: i_def)
  have off: "unat offset = k * unat chunkSize + i" by (simp add: k_def i_def)
  have w: "unat (ucast (offset div ucast chunkSize) :: u32) = k" "unat (ucast (offset mod ucast chunkSize) :: u32) = i"
  proof -
    have "k < 2 ^ 32" "i < 2 ^ 32" using q n i d(2) by (simp_all add: k_def)
    then show "unat (ucast (offset div ucast chunkSize) :: u32) = k" "unat (ucast (offset mod ucast chunkSize) :: u32) = i"
      by (simp_all add: k_def i_def unsigned_ucast_eq unat_div unat_mod take_bit_nat_eq_self)
  qed
  then have w': "ucast (offset div ucast chunkSize) = (of_nat k :: u32)" "ucast (offset mod ucast chunkSize) = (of_nat i :: u32)"
    by (simp_all add: w [symmetric])
  have iw: "unat (of_nat i :: u32) = i" "unat (of_nat k :: u32) = k" using w w' by simp_all
  have k1: "unat (of_nat k + 1 :: u32) = k + 1"
  proof -
    have "(of_nat k + 1 :: u32) = of_nat (k + 1)" by simp
    moreover have "k + 1 < 2 ^ 32" using q n by (simp add: k_def)
    ultimately show ?thesis by (simp only: unsigned_of_nat) (simp add: take_bit_nat_eq_self)
  qed
  have kn: "k < length ids" using q by (simp add: k_def)
  then have c: "unat (ids ! k) < length (m_pMetaPool fs)" using ids by simp
  let ?start = "chunk_offset chunkSize (ids ! k) + ucast (of_nat i :: u32)" and ?space = "file_space chunkSize g ids"
  have start: "unat ?start = unat (ids ! k) * unat chunkSize + i"
    using unat_offset [of "of_nat i" chunkSize "ids ! k"] i iw(1) by simp
  have one: "within cap [(?start, m)] \<and> asked g [(?start, m)] = take (unat m) (drop (unat offset) ?space)"
    if "i + unat m \<le> unat chunkSize" for m
    using chunk_within [OF c cap that] space_part [OF kn that, of g] by (simp add: within_def start off add.assoc)
  show ?thesis
  proof (cases "k + 1 = length ids")
    case True
    have "unat (min (lastLen - of_nat i) len) = min (unat lastLen - i) (unat len)"
      using last(2) True iw(1) by (simp add: min_def word_le_nat_alt unat_sub k_def i_def)
    moreover have "calcReadVariable chunkSize ids lastLen len offset fs = Done [(?start, min (lastLen - of_nat i) len)]"
      using cs q True k1 by (simp add: calcReadVariable_def w' iw Let_def k_def [symmetric])
    moreover have "i + min (unat lastLen - i) (unat len) \<le> unat chunkSize" using last True by (simp add: k_def i_def)
    ultimately show ?thesis using one [of "min (lastLen - of_nat i) len"] True
      by (intro exI [of _ "[(?start, min (lastLen - of_nat i) len)]"]) (simp add: k_def i_def)
  next
    case False
    define f rem where "f = min (chunkSize - of_nat i) len" and "rem = len - f"
    have f: "unat f = min (unat chunkSize - i) (unat len)"
      using i iw(1) by (simp add: f_def min_def word_le_nat_alt unat_sub less_imp_le)
    have rem: "unat rem = unat len - unat f" using f by (simp add: rem_def unat_sub word_le_nat_alt)
    define j where "j = unat (DIV_ROUND_UP rem chunkSize)"
    have j: "j = (unat rem + unat chunkSize - 1) div unat chunkSize"
      unfolding j_def using len rem by (intro unat_DIV_ROUND_UP [OF _ cs]) simp
    have enough: "unat rem \<le> j * unat chunkSize"
    proof (cases "unat rem = 0")
      case False
      from round_up(3) [OF d(1) False] have "unat rem = (j - 1) * unat chunkSize +
        (if unat rem mod unat chunkSize = 0 then unat chunkSize else unat rem mod unat chunkSize)" by (simp only: j)
      also have "\<dots> \<le> (j - 1) * unat chunkSize + unat chunkSize" using d(1) by (simp add: less_imp_le)
      also have "\<dots> = j * unat chunkSize"
      proof -
        have "j \<noteq> 0" using round_up(2) [OF d(1), of "unat rem"] False by (simp only: j not_False_eq_True)
        then obtain j' where "j = Suc j'" by (cases j) auto
        then show ?thesis by simp
      qed
      finally show ?thesis .
    qed simp
    have "k + 1 \<le> length ids" "unat rem < 2 ^ 32" using q unat_less_power [OF refl, of rem] by (simp_all add: k_def)
    from read_more_ok [OF ids cap n this, of j "[(?start, f)]" g] obtain l where
      l: "within cap l" "read_more chunkSize ids fs (map (\<lambda>i. of_nat (k + 1 + i)) [0..<j]) rem [(?start, f)] = Done ([(?start, f)] @ l)"
      "asked g l = take (unat rem) (drop ((k + 1) * unat chunkSize) ?space)"
      using enough by (auto simp: min_absorb1)
    have idxs: "map (\<lambda>i. of_nat k + 1 + of_nat i) [0..<j] = map (\<lambda>i. (of_nat (k + 1 + i) :: u32)) [0..<j]"
      by (simp add: add.commute add.left_commute)
    have "calcReadVariable chunkSize ids lastLen len offset fs = Done ([(?start, f)] @ l)"
      using cs q False k1 l(2) [folded idxs]
      by (simp add: calcReadVariable_def w' iw Let_def k_def [symmetric] f_def [symmetric] rem_def [symmetric] j_def)
    moreover have "i + unat f \<le> unat chunkSize" using f i by simp
    note o = one [OF this]
    have "asked g ([(?start, f)] @ l) = take (unat len) (drop (unat offset) ?space)"
    proof (cases "unat rem = 0")
      case True
      with rem f have "unat len = unat f" by simp
      with True o l(3) show ?thesis by (simp only: asked_simps(3) take_0 append_Nil2)
    next
      case False
      with rem f have n: "unat f = unat chunkSize - i" "unat len = unat f + unat rem" by simp_all
      with off i have "drop ((k + 1) * unat chunkSize) ?space = drop (unat f) (drop (unat offset) ?space)"
        by (simp add: add.commute)
      with o l(3) show ?thesis by (simp only: asked_simps(3) n(2) take_add)
    qed
    ultimately show ?thesis using False l(1) o
      by (intro exI [of _ "[(?start, f)] @ l"]) (auto simp: within_def k_def [symmetric])
  qed
qed

subsection \<open>The whole operation\<close>

lemma file_chunks_distinct: "pool_ok h pool \<Longrightarrow> distinct (file_chunks h pool sha)"
proof (cases "m_isUsed (meta_at pool (hash_key h sha))")
  case True
  assume ok: "pool_ok h pool"
  obtain cs where "chain pool (hash_key h sha) cs" by (rule pool_chain [OF ok hash_key_in [OF ok] True])
  with True chain_distinct bucket_chain show ?thesis by (simp add: file_chunks_def of_file_def)
qed (simp add: file_chunks_def bucket_unused)

lemma file_chunks_few:
  assumes "pool_ok h pool"
  shows "length (file_chunks h pool sha) \<le> length pool" "length pool < 2 ^ 32"
proof -
  let ?ids = "file_chunks h pool sha"
  show "length pool < 2 ^ 32" using assms unat_less_power [OF refl, of "m_chunkNum h"] by (simp add: pool_ok_def)
  have "inj_on unat (set ?ids)" by (rule inj_onI) (simp add: word_unat_eq_iff)
  moreover have "unat ` set ?ids \<subseteq> {..<length pool}" using file_chunks_used(2) [OF assms] by auto
  then have "card (unat ` set ?ids) \<le> length pool" using card_mono [of "{..<length pool}"] by fastforce
  ultimately show "length ?ids \<le> length pool" using file_chunks_distinct [OF assms] by (simp add: card_image distinct_card)
qed

lemma length_file_bytes: "length (file_bytes h g pool sha) = sum_list (map (written (m_chunkSize h) pool) (file_chunks h pool sha))"
  by (simp add: file_bytes_def length_concat comp_def stored_def)

lemma file_bytes_space:
  assumes "pool_ok h pool" "file_chunks h pool sha \<noteq> []"
  shows "file_bytes h g pool sha = take ((length (file_chunks h pool sha) - 1) * unat (m_chunkSize h) +
      written (m_chunkSize h) pool (last (file_chunks h pool sha))) (file_space (m_chunkSize h) g (file_chunks h pool sha))"
    "length (file_bytes h g pool sha) = (length (file_chunks h pool sha) - 1) * unat (m_chunkSize h) +
      written (m_chunkSize h) pool (last (file_chunks h pool sha))"
proof -
  let ?ids = "file_chunks h pool sha"
  have "\<forall>x \<in> set (butlast ?ids). m_idleLen (meta_at pool x) = 0" using assms(1) by (simp add: pool_ok_def)
  from stored_space [OF this, of "m_chunkSize h" g] assms(2)
  show *: "file_bytes h g pool sha = take ((length ?ids - 1) * unat (m_chunkSize h) +
      written (m_chunkSize h) pool (last ?ids)) (file_space (m_chunkSize h) g ?ids)" by (simp add: file_bytes_def)
  have "(length ?ids - 1) * unat (m_chunkSize h) + unat (m_chunkSize h) = length ?ids * unat (m_chunkSize h)"
    using assms(2) by (cases ?ids) simp_all
  with * written_le [of "m_chunkSize h" pool "last ?ids"] show "length (file_bytes h g pool sha) =
      (length ?ids - 1) * unat (m_chunkSize h) + written (m_chunkSize h) pool (last ?ids)" by simp
qed

lemma generateReadChunkids_ok:
  assumes ok: "pool_ok h (m_pMetaPool fs)"
  shows "generateReadChunkids (m_chunkSize h) fs (hash_key h sha) sha =
    return_o (let ids = file_chunks h (m_pMetaPool fs) sha in (ids, of_nat (length (file_bytes h g (m_pMetaPool fs) sha)),
      if ids = [] then 0 else of_nat (written (m_chunkSize h) (m_pMetaPool fs) (last ids))))"
proof (cases "m_isUsed (meta_at (m_pMetaPool fs) (hash_key h sha))")
  case True
  note k = hash_key_in [OF ok, of sha]
  obtain cs where cs: "chain (m_pMetaPool fs) (hash_key h sha) cs"
    "\<forall>x \<in> set cs. m_isUsed (meta_at (m_pMetaPool fs) x) \<and> unat x < length (m_pMetaPool fs) \<and> m_idleLen (meta_at (m_pMetaPool fs) x) < m_chunkSize h"
    by (rule pool_chain [OF ok k True])
  have "file_chunks h (m_pMetaPool fs) sha = of_file (m_pMetaPool fs) sha cs"
    using bucket_chain [OF cs(1) True] by (simp add: file_chunks_def)
  with True k cs(2) read_walk_chain [OF cs(1), of "m_chunkSize h" sha "[]" 0 0] show ?thesis
    by (simp add: generateReadChunkids_def calcMetaInfoPtr_in length_file_bytes less_imp_le)
next
  case False
  then have "file_chunks h (m_pMetaPool fs) sha = []" by (simp add: file_chunks_def bucket_unused)
  with False hash_key_in [OF ok, of sha] show ?thesis
    by (simp add: generateReadChunkids_def calcMetaInfoPtr_in length_file_bytes)
qed

lemma read_general:
  assumes ok: "fs_ok h fs"
    and disk: "data_file (DataMgr_write os (m_pDataMgr fs)) (fo_read_at os (m_pDataMgr fs)) dat cap"
    and cap: "unat (m_chunkNum h) * unat (m_chunkSize h) \<le> cap"
    and name: "length (sha_buf ctx) = 64" "length name < 2 ^ 31"
    and len: "unat len + unat (m_chunkSize h) \<le> 2 ^ 32"
    and ids: "ids = file_chunks h (m_pMetaPool fs) (sha1 name)" "ids \<noteq> []"
    and offset: "unat offset \<le> length (file_bytes h (dat w) (m_pMetaPool fs) (sha1 name))"
  shows "unat offset div unat (m_chunkSize h) \<ge> length ids \<Longrightarrow> EdgeFS_read os ctx name (Some buff) len offset fs w = Some Crash"
    "unat offset div unat (m_chunkSize h) < length ids \<Longrightarrow> \<exists>w'. dat w' = dat w \<and>
      (let read = take (if unat offset div unat (m_chunkSize h) + 1 = length ids
          then min (written (m_chunkSize h) (m_pMetaPool fs) (last ids) - unat offset mod unat (m_chunkSize h)) (unat len)
          else unat len) (drop (unat offset) (file_space (m_chunkSize h) (dat w) ids)) in
       EdgeFS_read os ctx name (Some buff) len offset fs w =
         return_o (int (length read), Some (overwrite buff 0 read), generateTaskid fs, w'))"
proof -
  define fs0 where "fs0 = generateTaskid fs"
  let ?pool = "m_pMetaPool fs" and ?cs = "m_chunkSize h" and ?sha = "sha1 name"
  have fs0: "m_pMetaPool fs0 = m_pMetaPool fs" "m_pDataMgr fs0 = m_pDataMgr fs" "m_pFSHead fs0 = Some h"
    using ok by (simp_all add: fs0_def generateTaskid_def fs_ok_def)
  have pool: "pool_ok h ?pool" using ok by (simp add: fs_ok_def)
  have pool0: "pool_ok h (m_pMetaPool fs0)" using pool by (simp add: fs0)
  have cs: "?cs \<noteq> 0" "unat (m_chunkNum h) = length ?pool" using pool by (simp_all add: pool_ok_def)
  define last where "last = written ?cs ?pool (List.last ids)"
  note few = file_chunks_few(1) [OF pool, of ?sha, folded ids(1)] file_chunks_few(2) [OF pool]
  have n: "length ids < 2 ^ 32" using few by simp
  define tot where "tot = length (file_bytes h (dat w) ?pool ?sha)"
  have tot_eq: "tot = (length ids - 1) * unat ?cs + last"
    using file_bytes_space(2) [OF pool, of ?sha "dat w"] ids by (simp add: tot_def last_def)
  have last_le: "last \<le> unat ?cs" by (simp add: last_def written_le)
  then have "tot \<le> length ids * unat ?cs" using ids(2) unfolding tot_eq by (cases ids) simp_all
  also have "\<dots> \<le> (2 ^ 32 - 1) * unat ?cs" using n by (intro mult_le_mono1) simp
  also have "\<dots> < 2 ^ 64" using unat_less_power [OF refl, of ?cs] by simp
  finally have tot64: "unat (of_nat tot :: u64) = tot" by (simp add: unsigned_of_nat take_bit_nat_eq_self)
  have off: "\<not> offset > of_nat tot" using offset tot64 by (simp add: tot_def [symmetric] word_less_nat_alt not_less)
  have lastw: "unat (of_nat last :: u32) = last"
    using last_le unat_less_power [OF refl, of ?cs] by (simp add: unsigned_of_nat take_bit_nat_eq_self)
  have eq: "EdgeFS_read os ctx name (Some buff) len offset fs w =
    bind_o (Some (calcReadVariable ?cs ids (of_nat last) len offset fs0)) (\<lambda>readInfo.
      let (real, buff, w) = read_data (fo_read_at os (m_pDataMgr fs0)) readInfo 0 buff w in
      return_o (int (unat real), Some buff, fs0, w))"
    using off ids(2) by (simp add: EdgeFS_read_def calcShaToHex_eq [OF name] Let_def fs0_def [symmetric] fs0
        generateHashKey_ok [OF pool] generateReadChunkids_ok [OF pool0, of ?sha "dat w", unfolded fs0] ids(1) [symmetric] tot_def [symmetric] last_def [symmetric])
  show "EdgeFS_read os ctx name (Some buff) len offset fs w = Some Crash" if "unat offset div unat ?cs \<ge> length ids"
  proof -
    have "unat offset div unat ?cs \<le> tot div unat ?cs" using offset by (simp add: tot_def div_le_mono)
    also have "\<dots> \<le> length ids * unat ?cs div unat ?cs" using \<open>tot \<le> length ids * unat ?cs\<close> by (rule div_le_mono)
    also have "\<dots> = length ids" using cs(1) by (simp add: unat_gt_0)
    finally have "unat offset div unat ?cs < 2 ^ 32" using n by simp
    then have "unat (ucast (offset div ucast ?cs) :: u32) = unat offset div unat ?cs"
      by (simp add: unsigned_ucast_eq unat_div take_bit_nat_eq_self)
    with that cs(1) have "calcReadVariable ?cs ids (of_nat last) len offset fs0 = Crash"
      by (simp add: calcReadVariable_def Let_def)
    then show ?thesis by (simp add: eq)
  qed
  assume q: "unat offset div unat ?cs < length ids"
  have in_pool: "\<forall>c \<in> set ids. unat c < length (m_pMetaPool fs0)" using file_chunks_used(2) [OF pool] by (simp add: ids(1) fs0)
  have skip: "unat offset mod unat ?cs \<le> unat (of_nat last :: u32)" if "unat offset div unat ?cs + 1 = length ids"
  proof -
    have "unat offset = (length ids - 1) * unat ?cs + unat offset mod unat ?cs"
      using that div_mult_mod_eq [of "unat offset" "unat ?cs"] by (simp add: eq_diff_iff flip: that)
    with offset show ?thesis by (simp add: tot_def [symmetric] tot_eq lastw)
  qed
  have capl: "length (m_pMetaPool fs0) * unat ?cs \<le> cap" using cap cs(2) by (simp add: fs0)
  from calcReadVariable_ok [OF in_pool capl n cs(1) q _ skip len, of "dat w"] last_le obtain l where
    l: "calcReadVariable ?cs ids (of_nat last) len offset fs0 = Done l" "within cap l"
      "asked (dat w) l = take (if unat offset div unat ?cs + 1 = length ids
        then min (last - unat offset mod unat ?cs) (unat len) else unat len) (drop (unat offset) (file_space ?cs (dat w) ids))"
    by (auto simp: lastw)
  have short: "length (asked (dat w) l) < 2 ^ 32"
    using unat_less_power [OF refl, of len] by (simp add: l(3) min_def)
  with data_file.read_data_ok [OF disk refl l(2), of 0 w buff] obtain w' where
    w': "dat w' = dat w" "read_data (fo_read_at os (m_pDataMgr fs)) l 0 buff w =
      (of_nat (length (asked (dat w) l)), overwrite buff 0 (asked (dat w) l), w')" by auto
  have "uint (of_nat (length (asked (dat w) l)) :: u32) = int (length (asked (dat w) l))"
    using short by (simp add: unsigned_of_nat take_bit_nat_eq_self)
  with w'(2) have "EdgeFS_read os ctx name (Some buff) len offset fs w =
    return_o (int (length (asked (dat w) l)), Some (overwrite buff 0 (asked (dat w) l)), generateTaskid fs, w')"
    by (simp add: eq l(1) fs0(2)) (simp add: fs0_def)
  with w'(1) show "\<exists>w'. dat w' = dat w \<and>
      (let read = take (if unat offset div unat (m_chunkSize h) + 1 = length ids
          then min (written (m_chunkSize h) (m_pMetaPool fs) (List.last ids) - unat offset mod unat (m_chunkSize h)) (unat len)
          else unat len) (drop (unat offset) (file_space (m_chunkSize h) (dat w) ids)) in
       EdgeFS_read os ctx name (Some buff) len offset fs w =
         return_o (int (length read), Some (overwrite buff 0 read), generateTaskid fs, w'))"
    by (auto simp: l(3) Let_def last_def)
qed

lemma read_slice:
  assumes ok: "fs_ok h fs"
    and disk: "data_file (DataMgr_write os (m_pDataMgr fs)) (fo_read_at os (m_pDataMgr fs)) dat cap"
    and cap: "unat (m_chunkNum h) * unat (m_chunkSize h) \<le> cap"
    and name: "length (sha_buf ctx) = 64" "length name < 2 ^ 31"
    and len: "unat len + unat (m_chunkSize h) \<le> 2 ^ 32"
    and bytes: "bytes = file_bytes h (dat w) (m_pMetaPool fs) (sha1 name)" "unat offset < length bytes"
      "unat offset + unat len \<le> length bytes \<or> (length bytes - 1) div unat (m_chunkSize h) = unat offset div unat (m_chunkSize h)"
  shows "\<exists>w'. dat w' = dat w \<and> (let read = take (unat len) (drop (unat offset) bytes) in
    EdgeFS_read os ctx name (Some buff) len offset fs w =
      return_o (int (length read), Some (overwrite buff 0 read), generateTaskid fs, w'))"
proof -
  have pool: "pool_ok h (m_pMetaPool fs)" using ok by (simp add: fs_ok_def)
  define ids where "ids = file_chunks h (m_pMetaPool fs) (sha1 name)"
  define cs where "cs = unat (m_chunkSize h)"
  have ne: "ids \<noteq> []" using bytes(1,2) by (auto simp: ids_def file_bytes_def)
  have cs: "0 < cs" using pool by (simp add: cs_def pool_ok_def unat_gt_0)
  define lst where "lst = written (m_chunkSize h) (m_pMetaPool fs) (last ids)"
  have lst: "0 < lst" "lst \<le> cs"
  proof -
    have "m_idleLen (meta_at (m_pMetaPool fs) (last ids)) < m_chunkSize h"
      using file_chunks_used(4) [OF pool, of "last ids" "sha1 name"] ne by (simp add: ids_def)
    then show "0 < lst" "lst \<le> cs" by (simp_all add: lst_def written_def cs_def word_less_nat_alt)
  qed
  define n where "n = length ids - 1"
  have total: "length bytes = n * cs + lst" "bytes = take (n * cs + lst) (file_space (m_chunkSize h) (dat w) ids)"
    using file_bytes_space [OF pool ne [unfolded ids_def], of "dat w"] by (simp_all add: bytes(1) ids_def lst_def n_def cs_def)
  have n: "length ids = n + 1" using ne by (cases ids) (simp_all add: n_def)
  have last_chunk: "(length bytes - 1) div cs = n"
  proof -
    have "length bytes - 1 = (lst - 1) + n * cs" using lst(1) by (simp add: total(1))
    moreover have "((lst - 1) + n * cs) div cs = n + (lst - 1) div cs" using cs by (subst div_mult_self1) simp_all
    ultimately show ?thesis using lst by simp
  qed
  have "unat offset div cs \<le> (length bytes - 1) div cs" using bytes(2) by (intro div_le_mono) simp
  then have q: "unat offset div cs < length ids" using last_chunk n by simp
  have o: "unat offset \<le> length (file_bytes h (dat w) (m_pMetaPool fs) (sha1 name))" using bytes(1,2) by simp
  have E: "take (if unat offset div cs + 1 = length ids then min (lst - unat offset mod cs) (unat len) else unat len)
      (drop (unat offset) (file_space (m_chunkSize h) (dat w) ids)) = take (unat len) (drop (unat offset) bytes)"
  proof (cases "unat offset div cs = n")
    case True
    then have "unat offset = n * cs + unat offset mod cs" by (metis div_mult_mod_eq)
    then have "length bytes - unat offset = lst - unat offset mod cs" using total(1) by simp
    with True n total show ?thesis by (simp add: drop_take min.commute)
  next
    case False
    with bytes(3) last_chunk have "unat offset + unat len \<le> length bytes" by (auto simp: cs_def)
    then have "unat len \<le> n * cs + lst - unat offset" by (simp add: total(1))
    with False n show ?thesis by (subst total(2)) (simp add: drop_take min_absorb1)
  qed
  from read_general(2) [OF ok disk cap name len ids_def ne o q [unfolded cs_def], of buff] show ?thesis
    by (simp only: E [unfolded cs_def lst_def])
qed

text \<open>C7: Reading gives what was written. A read that starts inside a file, and either ends inside it or starts in
  its last chunk, stores the bytes of the file from the offset on, as many as are there and asked for, returns
  their number and touches nothing else.\<close>

theorem fs_read_slice:
  assumes "fs_ok h fs"
    and "data_file (DataMgr_write os (m_pDataMgr fs)) (fo_read_at os (m_pDataMgr fs)) dat cap"
    and "unat (m_chunkNum h) * unat (m_chunkSize h) \<le> cap"
    and "length (sha_buf ctx) = 64" "length name < 2 ^ 31"
    and "unat len + unat (m_chunkSize h) \<le> 2 ^ 32"
    and "bytes = file_bytes h (dat w) (m_pMetaPool fs) (sha1 name)" "unat offset < length bytes"
      "unat offset + unat len \<le> length bytes \<or> (length bytes - 1) div unat (m_chunkSize h) = unat offset div unat (m_chunkSize h)"
  shows "\<exists>w'. dat w' = dat w \<and> (let read = take (unat len) (drop (unat offset) bytes) in
    EdgeFS_read os ctx name (Some buff) len offset fs w =
      return_o (int (length read), Some (overwrite buff 0 read), generateTaskid fs, w'))"
  by (rule read_slice [OF assms])

text \<open>C23: Behind the end. A read that starts before the last chunk of a file and goes on behind its end returns
  more bytes than the file has: the length of the last chunk is computed and not used, and what the data file holds
  behind the end is passed on.\<close>

theorem fs_read_overruns:
  assumes ok: "fs_ok h fs"
    and disk: "data_file (DataMgr_write os (m_pDataMgr fs)) (fo_read_at os (m_pDataMgr fs)) dat cap"
    and cap: "unat (m_chunkNum h) * unat (m_chunkSize h) \<le> cap"
    and name: "length (sha_buf ctx) = 64" "length name < 2 ^ 31"
    and len: "unat len + unat (m_chunkSize h) \<le> 2 ^ 32"
    and ids: "ids = file_chunks h (m_pMetaPool fs) (sha1 name)" "unat offset div unat (m_chunkSize h) + 1 < length ids"
      "m_idleLen (meta_at (m_pMetaPool fs) (last ids)) \<noteq> 0"
    and behind: "unat offset + unat len > length (file_bytes h (dat w) (m_pMetaPool fs) (sha1 name))"
  shows "\<exists>r buff' w'. EdgeFS_read os ctx name (Some buff) len offset fs w = return_o (int r, Some buff', generateTaskid fs, w') \<and>
    r = min (unat len) (length ids * unat (m_chunkSize h) - unat offset) \<and>
    unat offset + r > length (file_bytes h (dat w) (m_pMetaPool fs) (sha1 name))"
proof -
  have pool: "pool_ok h (m_pMetaPool fs)" using ok by (simp add: fs_ok_def)
  let ?cs = "unat (m_chunkSize h)"
  have ne: "ids \<noteq> []" using ids(2) by auto
  then obtain n where n: "length ids = n + 1" by (cases ids) auto
  have cs: "0 < ?cs" using pool by (simp add: pool_ok_def unat_gt_0)
  have total: "length (file_bytes h (dat w) (m_pMetaPool fs) (sha1 name)) = n * ?cs + written (m_chunkSize h) (m_pMetaPool fs) (last ids)"
    using file_bytes_space(2) [OF pool ne [unfolded ids(1)], of "dat w"] n by (simp add: ids(1))
  have part: "written (m_chunkSize h) (m_pMetaPool fs) (last ids) < ?cs" using ids(3) cs by (simp add: written_def unat_gt_0)
  have "unat offset div ?cs < n" using ids(2) n by simp
  then have before: "unat offset < n * ?cs" using cs by (simp add: div_less_iff_less_mult)
  have o: "unat offset \<le> length (file_bytes h (dat w) (m_pMetaPool fs) (sha1 name))" using before total by simp
  have q: "unat offset div ?cs < length ids" "unat offset div ?cs + 1 \<noteq> length ids" using ids(2) by simp_all
  from read_general(2) [OF ok disk cap name len ids(1) ne o q(1), of buff] obtain w' where
    "EdgeFS_read os ctx name (Some buff) len offset fs w = return_o (int (min (unat len) (length ids * ?cs - unat offset)),
      Some (overwrite buff 0 (take (unat len) (drop (unat offset) (file_space (m_chunkSize h) (dat w) ids)))), generateTaskid fs, w')"
    using q(2) by (auto simp: min.commute)
  moreover have "unat offset + min (unat len) (length ids * ?cs - unat offset) > length (file_bytes h (dat w) (m_pMetaPool fs) (sha1 name))"
    using behind before part n total by (simp add: min_def)
  ultimately show ?thesis by blast
qed

text \<open>At the end of a full file. A read at the end of a file whose last chunk is full is let through and looks
  for a chunk behind the last one, an access outside of the \<open>deque\<close>.\<close>

theorem fs_read_at_end_crashes:
  assumes ok: "fs_ok h fs"
    and disk: "data_file (DataMgr_write os (m_pDataMgr fs)) (fo_read_at os (m_pDataMgr fs)) dat cap"
    and cap: "unat (m_chunkNum h) * unat (m_chunkSize h) \<le> cap"
    and name: "length (sha_buf ctx) = 64" "length name < 2 ^ 31"
    and len: "unat len + unat (m_chunkSize h) \<le> 2 ^ 32"
    and ids: "ids = file_chunks h (m_pMetaPool fs) (sha1 name)" "ids \<noteq> []" "m_idleLen (meta_at (m_pMetaPool fs) (last ids)) = 0"
    and offset: "unat offset = length (file_bytes h (dat w) (m_pMetaPool fs) (sha1 name))"
  shows "EdgeFS_read os ctx name (Some buff) len offset fs w = Some Crash"
proof -
  have pool: "pool_ok h (m_pMetaPool fs)" using ok by (simp add: fs_ok_def)
  obtain n where n: "length ids = n + 1" using ids(2) by (cases ids) auto
  have cs: "0 < unat (m_chunkSize h)" using pool by (simp add: pool_ok_def unat_gt_0)
  have "unat offset = length ids * unat (m_chunkSize h)"
    using file_bytes_space(2) [OF pool ids(2) [unfolded ids(1)], of "dat w"] n ids(3) by (simp add: ids(1) offset written_def)
  then have "unat offset div unat (m_chunkSize h) \<ge> length ids" using cs by simp
  from read_general(1) [OF ok disk cap name len ids(1,2) _ this] offset show ?thesis by simp
qed


subsection \<open>Instances\<close>

lemma small_disk: "data_file (DataMgr_write plain_os \<lparr>m_fd = 3, m_path = ''edgefs.data''\<rparr>) (fo_read_at plain_os \<lparr>m_fd = 3, m_path = ''edgefs.data''\<rparr>) pf_bytes 32"
  by (rule plain.data_file_axioms)

lemma small_fs_disk: "data_file (DataMgr_write plain_os (m_pDataMgr small_fs)) (fo_read_at plain_os (m_pDataMgr small_fs)) pf_bytes 32"
  using small_disk by (simp add: small_fs_def)

lemma small_sizes: "unat (m_chunkNum small_head) * unat (m_chunkSize small_head) \<le> 32" "m_chunkSize small_head = 4"
  "length (sha_buf zero_info) = 64" "length [97 :: byte] < 2 ^ 31"
  by (simp_all add: small_head_def zero_info_def)

text \<open>A file of two chunks, the last with \<open>x\<close> bytes left.\<close>

lemma two_chunk_fs:
  assumes "x < 4"
  shows "\<exists>fs. fs_ok small_head fs \<and> m_pDataMgr fs = \<lparr>m_fd = 3, m_path = ''edgefs.data''\<rparr> \<and>
    length (file_chunks small_head (m_pMetaPool fs) (sha1 [97])) = 2 \<and>
    m_idleLen (meta_at (m_pMetaPool fs) (last (file_chunks small_head (m_pMetaPool fs) (sha1 [97])))) = x \<and>
    0 \<in> set (file_chunks small_head (m_pMetaPool fs) (sha1 [97])) \<and> 0 < unused_chunks (m_pMetaPool fs) \<and>
    (\<forall>m \<in> set (m_pMetaPool fs). \<not> m_isUsed m \<longrightarrow> m_nextChunkid m = 0)"
proof -
  define k :: u32 where "k = hash_key small_head (sha1 [97])"
  define j :: u32 where "j = (if k = 0 then 1 else 0)"
  let ?pool = "m_pMetaPool small_fs" and ?bm = "m_pBitMap small_fs"
  have ok: "pool_ok small_head ?pool" using small_fs_ok(1) by (simp add: fs_ok_def)
  have pool: "?pool = replicate 8 zero_meta" by (simp add: small_fs_def)
  have k: "unat k < 8" using hash_key_in [OF ok, of "sha1 [97]"] by (simp add: pool k_def)
  have j: "unat j < 8" "j \<noteq> k" by (auto simp: j_def)
  let ?m = "\<lambda>next idle. zero_meta\<lparr>m_isUsed := True, m_sha1 := sha1 [97], m_nextChunkid := next, m_idleLen := idle\<rparr>"
  define pool' where "pool' = ?pool[unat k := ?m j 0, unat j := ?m kInvalidChunkid x]"
  have at: "meta_at pool' k = ?m j 0" "meta_at pool' j = ?m kInvalidChunkid x"
    "c \<noteq> k \<Longrightarrow> c \<noteq> j \<Longrightarrow> meta_at pool' c = meta_at ?pool c" for c
    using k j by (simp_all add: pool'_def pool nth_list_update word_unat_eq_iff)
  have unused: "\<not> m_isUsed (meta_at ?pool c)" if "unat c < 8" for c using that by (simp add: pool zero_meta_def)
  have A: "appended small_head (sha1 [97]) 0 [k, j] (\<lambda>i. if i = 0 then 4 else 4 - unat x) k (Some k) ?pool pool'"
    unfolding appended_def
  proof (intro conjI)
    show "tails small_head ?pool (sha1 [97]) k (Some k)" using unused [OF k] by (simp add: tails_def k_def [symmetric])
    show "\<forall>i < length [k, j]. let m = meta_at pool' ([k, j] ! i) in m_isUsed m \<and> m_sha1 m = sha1 [97] \<and>
        m_nextChunkid m = (if i + 1 = length [k, j] then kInvalidChunkid else [k, j] ! (i + 1)) \<and>
        m_idleLen m < m_chunkSize small_head \<and> unat (m_chunkSize small_head) - unat (m_idleLen m) = (if i = 0 then 4 else 4 - unat x) \<and>
        (i + 1 < length [k, j] \<longrightarrow> m_idleLen m = 0)"
      using assms by (auto simp: less_Suc_eq at small_sizes(2))
    show "\<forall>c. unat c < length ?pool \<longrightarrow> c \<notin> set [k, j] \<longrightarrow> (let m = meta_at ?pool c; m' = meta_at pool' c in
        m_isUsed m' = m_isUsed m \<and> m_sha1 m' = m_sha1 m \<and> m_nextChunkid m' = (if c = k \<and> [k, j] \<noteq> [] then hd [k, j] else m_nextChunkid m) \<and>
        m_idleLen m' = (if Some k = Some c then m_idleLen m - 0 else m_idleLen m))"
      by (auto simp: at(3) Let_def)
    show "\<forall>c \<in> set [k, j]. unat c < length ?pool \<and> \<not> m_isUsed (meta_at ?pool c)" using k j unused by (simp add: pool)
    show "case Some k of None \<Rightarrow> 0 = 0 | Some c \<Rightarrow> if m_isUsed (meta_at ?pool c) then 0 \<le> m_idleLen (meta_at ?pool c) \<and>
        ([k, j] \<noteq> [] \<longrightarrow> 0 = m_idleLen (meta_at ?pool c)) else 0 = 0 \<and> ([k, j] \<noteq> [] \<longrightarrow> hd [k, j] = c)"
      using unused [OF k] by simp
  qed (use ok j in \<open>simp_all add: pool'_def eq_commute [of k]\<close>)
  have bm: "bm_ok ?bm" "m_totalChunkNum ?bm = 8" by (simp_all add: small_fs_def initBitmap_def bm_ok_def)
  then obtain bm1 where b1: "bm_ok bm1" "in_use bm1 = insert k (in_use ?bm)" "m_totalChunkNum bm1 = 8"
    using bm_insert_in_use [OF bm(1), of k] k by (auto simp: word_less_nat_alt)
  then obtain bm' where b': "bm_ok bm'" "in_use bm' = insert j (insert k (in_use ?bm))" "m_totalChunkNum bm' = 8"
    using bm_insert_in_use [OF b1(1), of j] j by (auto simp: word_less_nat_alt)
  have "fs_ok small_head (small_fs\<lparr>m_pBitMap := bm', m_pMetaPool := pool'\<rparr>)"
    by (rule fs_ok_appended [OF small_fs_ok(1) A b'(1)]) (use b' bm in auto)
  moreover have "file_chunks small_head pool' (sha1 [97]) = [k, j]"
    using file_chunks_appended [OF A, of "sha1 [97]"] unused [OF k] by (simp add: file_chunks_def bucket_unused k_def)
  moreover have "0 \<in> set [k, j]" by (simp add: j_def)
  moreover have "0 < unused_chunks pool'"
  proof -
    define c :: u32 where "c = (if k = 2 then 3 else 2)"
    have c: "unat c < 8" "c \<noteq> k" "c \<noteq> j" by (auto simp: c_def j_def)
    with at(3) [OF c(2,3)] unused have "\<not> m_isUsed (pool' ! unat c)" "unat c < length pool'" by (simp_all add: pool'_def pool)
    then show ?thesis unfolding unused_chunks_def by (metis filter_empty_conv length_greater_0_conv nth_mem)
  qed
  moreover have "\<forall>m \<in> set pool'. \<not> m_isUsed m \<longrightarrow> m_nextChunkid m = 0"
    unfolding pool'_def pool by (auto dest!: subsetD [OF set_update_subset_insert] simp: zero_meta_def)
  ultimately show ?thesis
    by (intro exI [of _ "small_fs\<lparr>m_pBitMap := bm', m_pMetaPool := pool'\<rparr>"]) (simp add: at small_fs_def)
qed

lemma two_chunk_bytes:
  assumes "fs_ok small_head fs" "length (file_chunks small_head (m_pMetaPool fs) (sha1 [97])) = 2"
    "m_idleLen (meta_at (m_pMetaPool fs) (last (file_chunks small_head (m_pMetaPool fs) (sha1 [97])))) = x"
  shows "length (file_bytes small_head g (m_pMetaPool fs) (sha1 [97])) = 4 + (4 - unat x)"
proof -
  have "file_chunks small_head (m_pMetaPool fs) (sha1 [97]) \<noteq> []" using assms(2) by auto
  with file_bytes_space(2) [of small_head "m_pMetaPool fs" "sha1 [97]" g] assms show ?thesis
    by (simp add: fs_ok_def small_sizes(2) written_def)
qed


theorem fs_read_slice_witness:
  "\<exists>fs w w'. EdgeFS_read plain_os zero_info [97] (Some (\<lambda>_. 0)) 2 1 fs w =
    return_o (2, Some (overwrite (\<lambda>_. 0) 0 [2, 3]), generateTaskid fs, w')"
proof -
  have "\<not> unused_chunks (m_pMetaPool small_fs) * unat (m_chunkSize small_head) < length [1, 2, 3 :: byte]"
    by (simp add: unused_chunks_def small_fs_def zero_meta_def small_head_def)
  with write_appends [OF small_fs_ok(1) small_fs_disk small_sizes(1,3,4), of "[1, 2, 3]" 3 "\<lambda>_. 0" zero_file]
  obtain fs and w :: plain_file where fs: "fs_ok small_head fs" "m_pDataMgr fs = m_pDataMgr small_fs"
    "\<forall>t. file_bytes small_head (pf_bytes w) (m_pMetaPool fs) t =
      (if t = sha1 [97] then file_bytes small_head (pf_bytes zero_file) (m_pMetaPool small_fs) t @ [1, 2, 3]
       else file_bytes small_head (pf_bytes zero_file) (m_pMetaPool small_fs) t)" by (auto simp: small_sizes(2))
  then have "[1, 2, 3] = file_bytes small_head (pf_bytes w) (m_pMetaPool fs) (sha1 [97])" by (simp add: small_fs_ok(2))
  have disk: "data_file (DataMgr_write plain_os (m_pDataMgr fs)) (fo_read_at plain_os (m_pDataMgr fs)) pf_bytes 32"
    using small_fs_disk by (simp only: fs(2))
  from fs_read_slice [OF fs(1) disk small_sizes(1,3,4) _ \<open>[1, 2, 3] = _\<close>, of 2 1 "\<lambda>_. 0"] show ?thesis
    by (auto simp: small_sizes(2) Let_def)
qed

theorem fs_read_overruns_witness:
  "\<exists>fs w buff' w'. EdgeFS_read plain_os zero_info [97] (Some (\<lambda>_. 0)) 7 1 fs w = return_o (7, Some buff', generateTaskid fs, w') \<and>
    length (file_bytes small_head (pf_bytes w) (m_pMetaPool fs) (sha1 [97])) = 5"
proof -
  from two_chunk_fs [of 3] obtain fs where fs: "fs_ok small_head fs" "m_pDataMgr fs = \<lparr>m_fd = 3, m_path = ''edgefs.data''\<rparr>"
    "length (file_chunks small_head (m_pMetaPool fs) (sha1 [97])) = 2"
    "m_idleLen (meta_at (m_pMetaPool fs) (last (file_chunks small_head (m_pMetaPool fs) (sha1 [97])))) = 3" by auto
  note bytes = two_chunk_bytes [OF fs(1,3,4)]
  from fs_read_overruns [OF fs(1) small_disk [folded fs(2)] small_sizes(1,3,4) _ refl, of 7 1 zero_file "\<lambda>_. 0"] fs(3,4)
  obtain buff' w' where "EdgeFS_read plain_os zero_info [97] (Some (\<lambda>_. 0)) 7 1 fs zero_file =
    return_o (7, Some buff', generateTaskid fs, w')" by (auto simp: small_sizes(2) bytes)
  with bytes [of "pf_bytes zero_file"] show ?thesis by (intro exI conjI) simp_all
qed

theorem fs_read_at_end_crashes_witness:
  "\<exists>fs w. EdgeFS_read plain_os zero_info [97] (Some (\<lambda>_. 0)) 1 8 fs w = Some Crash"
proof -
  from two_chunk_fs [of 0] obtain fs where fs: "fs_ok small_head fs" "m_pDataMgr fs = \<lparr>m_fd = 3, m_path = ''edgefs.data''\<rparr>"
    "length (file_chunks small_head (m_pMetaPool fs) (sha1 [97])) = 2"
    "m_idleLen (meta_at (m_pMetaPool fs) (last (file_chunks small_head (m_pMetaPool fs) (sha1 [97])))) = 0" by auto
  note bytes = two_chunk_bytes [OF fs(1,3,4)]
  have "file_chunks small_head (m_pMetaPool fs) (sha1 [97]) \<noteq> []" using fs(3) by auto
  from fs_read_at_end_crashes [OF fs(1) small_disk [folded fs(2)] small_sizes(1,3,4) _ refl this fs(4), of 1 8 zero_file "\<lambda>_. 0"]
  show ?thesis by (auto simp: small_sizes(2) bytes)
qed


end
