(* ===== verification/EdgeFsHang.thy ===== *)
theory EdgeFsHang
  imports EdgeFsRead
begin

text \<open>
  A write whose data cannot be written to the data file, for example because the disk is full: the last chunk of
  the bucket has been linked to the chunk that was to be written, which is not in use.
\<close>

subsection \<open>Walks without an end\<close>

definition walk_closed :: "MetaInfo list \<Rightarrow> u32 set \<Rightarrow> bool" where
  "walk_closed pool S \<longleftrightarrow> (\<forall>c \<in> S. unat c < length pool \<and> m_nextChunkid (meta_at pool c) \<noteq> kInvalidChunkid \<and> m_nextChunkid (meta_at pool c) \<in> S)"

lemma file_tail_ends: "file_tail fs sha c p = Some r \<Longrightarrow> walk_closed (m_pMetaPool fs) S \<Longrightarrow> c \<notin> S"
proof (induction fs sha c p r rule: file_tail.raw_induct [rotated, consumes 1])
  case (1 file_tail fs sha c p r)
  show ?case
  proof
    assume c: "c \<in> S"
    with 1(3) have "calcMetaInfoPtr fs c = Done (meta_at (m_pMetaPool fs) c)" "m_nextChunkid (meta_at (m_pMetaPool fs) c) \<noteq> kInvalidChunkid"
      "m_nextChunkid (meta_at (m_pMetaPool fs) c) \<in> S"
      by (auto simp: walk_closed_def calcMetaInfoPtr_in)
    with 1(1) [OF _ 1(3)] 1(2) show False by (simp add: Let_def)
  qed
qed

lemma read_walk_ends: "read_walk chunkSize fs sha c acc = Some r \<Longrightarrow> walk_closed (m_pMetaPool fs) S \<Longrightarrow> c \<notin> S"
proof (induction chunkSize fs sha c acc r rule: read_walk.raw_induct [rotated, consumes 1])
  case (1 read_walk chunkSize fs sha c acc r)
  show ?case
  proof
    assume c: "c \<in> S"
    with 1(3) have "calcMetaInfoPtr fs c = Done (meta_at (m_pMetaPool fs) c)" "m_nextChunkid (meta_at (m_pMetaPool fs) c) \<noteq> kInvalidChunkid"
      "m_nextChunkid (meta_at (m_pMetaPool fs) c) \<in> S"
      by (auto simp: walk_closed_def calcMetaInfoPtr_in)
    with 1(1) [OF _ 1(3)] 1(2) show False by (simp add: Let_def)
  qed
qed

lemma write_hangs:
  assumes head: "m_pFSHead fs = Some h" "m_chunkNum h \<noteq> 0" and name: "length (sha_buf ctx) = 64" "length name < 2 ^ 31"
    and S: "walk_closed (m_pMetaPool fs) S" "hash_key h (sha1 name) \<in> S" "m_isUsed (meta_at (m_pMetaPool fs) (hash_key h (sha1 name)))"
  shows "EdgeFS_write os ctx draw name (Some buff) len fs w = None" "EdgeFS_read os ctx name (Some b) len offset fs w = None"
proof -
  let ?fs = "generateTaskid fs" and ?k = "hash_key h (sha1 name)"
  have k: "generateHashKey h (sha1 name) = Done ?k" using head by (simp add: generateHashKey_def kHashCollisions_def hash_key_def)
  have m: "calcMetaInfoPtr ?fs ?k = Done (meta_at (m_pMetaPool fs) ?k)" using S by (simp add: walk_closed_def calcMetaInfoPtr_def)
  have "file_tail ?fs (sha1 name) ?k None = None"
    using file_tail_ends [of ?fs "sha1 name" ?k None _ S] S(1,2) by (cases "file_tail ?fs (sha1 name) ?k None") auto
  with m S(3) have "findFileTailMetaInfo ?fs ?k (sha1 name) = None" by (simp add: findFileTailMetaInfo_def)
  with k head calcShaToHex_eq [OF name] show "EdgeFS_write os ctx draw name (Some buff) len fs w = None"
    by (simp add: EdgeFS_write_def Let_def)
  have "read_walk (m_chunkSize h) ?fs (sha1 name) ?k ([], 0, 0) = None"
    using read_walk_ends [of "m_chunkSize h" ?fs "sha1 name" ?k "([], 0, 0)" _ S] S(1,2)
    by (cases "read_walk (m_chunkSize h) ?fs (sha1 name) ?k ([], 0, 0)") auto
  with m S(3) have "generateReadChunkids (m_chunkSize h) ?fs ?k (sha1 name) = None" by (simp add: generateReadChunkids_def)
  with k head calcShaToHex_eq [OF name] show "EdgeFS_read os ctx name (Some b) len offset fs w = None"
    by (simp add: EdgeFS_read_def Let_def)
qed

subsection \<open>The write that fails\<close>

lemma write_rest_fails:
  assumes fails: "\<forall>bs off w. \<not> fst (DataMgr_write os (m_pDataMgr fs) bs off w)"
    and ids: "ids \<noteq> []" "length ids = unat need" and T: "unat T < length (m_pMetaPool fs)" and num: "unat (m_chunkNum h) = length (m_pMetaPool fs)"
  shows "\<exists>w'. write_rest os h sha buff len T p 0 need lastLen ids fs w =
    return_o (0, fs\<lparr>m_pMetaPool := (m_pMetaPool fs)[unat T := meta_at (m_pMetaPool fs) T\<lparr>m_nextChunkid := hd ids\<rparr>]\<rparr>, w')"
proof -
  let ?fs = "fs\<lparr>m_pMetaPool := (m_pMetaPool fs)[unat T := meta_at (m_pMetaPool fs) T\<lparr>m_nextChunkid := hd ids\<rparr>]\<rparr>"
  have first: "first_write put cs sha buff 0 p T ids (remain, 0, fs, w) = return_o (True, remain, 0, ?fs, w)" for put cs remain
    using ids(1) T by (simp add: first_write_def set_meta_def)
  obtain n where n: "unat need = Suc n" using ids by (cases "unat need") auto
  have rounds: "[0..<unat need] = 0 # map Suc [0..<n]" by (simp add: n upt_conv_Cons map_Suc_upt del: upt_Suc)
  obtain f where put: "\<And>bs off w. DataMgr_write os (m_pDataMgr fs) bs off w = (False, f bs off w)"
  proof
    show "DataMgr_write os (m_pDataMgr fs) bs off w = (False, (\<lambda>bs off w. snd (DataMgr_write os (m_pDataMgr fs) bs off w)) bs off w)" for bs off w
      using fails by (simp add: prod_eq_iff)
  qed
  have "\<exists>w'. write_chunks (DataMgr_write os (m_pDataMgr fs)) (m_chunkSize h) sha buff 0 need lastLen ids [0..<unat need] (ucast len, 0, ?fs, w) =
      return_o (ucast len, 0, ?fs, w')"
    using ids n unfolding rounds by (auto simp: Let_def put)
  then obtain w' where "write_chunks (DataMgr_write os (m_pDataMgr fs)) (m_chunkSize h) sha buff 0 need lastLen ids [0..<unat need] (ucast len, 0, ?fs, w) =
      return_o (ucast len, 0, ?fs, w')" by blast
  moreover obtain l where "printAllMetaInfo h ?fs = Done l" using num by (simp add: printAllMetaInfo_def)
  ultimately show ?thesis by (intro exI [of _ w']) (simp add: write_rest_def write_data_def first)
qed

lemma chain_start: "chain pool c cs \<Longrightarrow> c \<in> set cs"
  by (erule chainE) auto

text \<open>The chunks behind which the walks do not end: those of the bucket, the one that was linked, and chunk 0.\<close>

lemma linked_walk_closed:
  assumes pool: "pool_ok h pool" and cs: "chain pool k cs" and d: "unat d < length pool" "\<not> m_isUsed (meta_at pool d)" "d \<notin> set cs"
    and zero: "\<forall>m \<in> set pool. \<not> m_isUsed m \<longrightarrow> m_nextChunkid m = 0" "\<not> m_isUsed (pool ! 0) \<or> 0 \<in> set cs"
  shows "walk_closed (pool[unat (last cs) := meta_at pool (last cs)\<lparr>m_nextChunkid := d\<rparr>]) (insert 0 (insert d (set cs)))"
proof -
  let ?T = "last cs" and ?S = "insert 0 (insert d (set cs))"
  let ?pool = "pool[unat ?T := meta_at pool ?T\<lparr>m_nextChunkid := d\<rparr>]"
  have len: "0 < length pool" "length pool < 2 ^ 32"
    using pool unat_gt_0 [of "m_chunkNum h"] unat_less_power [OF refl, of "m_chunkNum h"] by (auto simp: pool_ok_def)
  have inv: "c \<noteq> kInvalidChunkid" if "unat c < length pool" for c
    using that len pool unsigned_less [of "m_chunkNum h"] by (auto simp: kInvalidChunkid_def pool_ok_def unsigned_minus_1_eq_mask mask_eq_exp_minus_1)
  have T: "unat ?T < length pool" using chain_in_pool [OF cs] chain_not_Nil [OF cs] by simp
  have unused: "m_nextChunkid (meta_at pool c) = 0" if "unat c < length pool" "\<not> m_isUsed (meta_at pool c)" for c
    using zero(1) that nth_mem [OF that(1)] by blast
  have at: "m_nextChunkid (meta_at ?pool c) = (if c = ?T then d else m_nextChunkid (meta_at pool c))" if "unat c < length pool" for c
    using that T by (simp add: nth_list_update word_unat_eq_iff)
  have next_in: "m_nextChunkid (meta_at ?pool c) \<in> ?S \<and> unat c < length pool" if "c \<in> ?S" for c
  proof -
    have old: "m_nextChunkid (meta_at ?pool c) \<in> ?S \<and> unat c < length pool" if c: "c \<in> set cs"
    proof (cases "c = ?T")
      case False
      from chain_suffix [OF cs c] obtain as bs where s: "cs = as @ bs" "chain pool c bs" by blast
      have "m_nextChunkid (meta_at pool c) \<in> set bs"
        using s(2) False s(1) chain_not_Nil [OF s(2)]
        by (cases rule: chain.cases) (auto dest: chain_start split: if_splits)
      with s(1) chain_in_pool [OF cs c] at [of c] False show ?thesis by simp
    qed (use at [OF T] T in simp)
    have new: "m_nextChunkid (meta_at ?pool c) \<in> ?S \<and> unat c < length pool" if "unat c < length pool" "\<not> m_isUsed (meta_at pool c)"
      using at [OF that(1)] unused [OF that] that by simp
    show ?thesis using that old new d zero(2) len(1) by fastforce
  qed
  have "m_nextChunkid (meta_at ?pool c) \<noteq> kInvalidChunkid" if "c \<in> ?S" for c
    using next_in [OF that] next_in inv by blast
  with next_in show ?thesis by (simp add: walk_closed_def)
qed

text \<open>C10: A failed write breaks the bucket. The last chunk of a file is full, and the data of a further write cannot be
  written: \<open>write\<close> returns 0, but it has linked the chunk that it wanted to write, which is not in use and whose
  next chunk, never set, is number 0. If chunk 0 is not in use either, or is in this bucket, every later
  \<open>write\<close> and \<open>read\<close> of this name runs along the chunks for ever.\<close>

theorem fs_failed_write_hangs:
  assumes ok: "fs_ok h fs" and name: "length (sha_buf ctx) = 64" "length name < 2 ^ 31" and len: "len \<noteq> 0"
    and room: "unat len \<le> unused_chunks (m_pMetaPool fs) * unat (m_chunkSize h)"
    and full: "file_chunks h (m_pMetaPool fs) (sha1 name) \<noteq> []"
      "m_idleLen (meta_at (m_pMetaPool fs) (last (file_chunks h (m_pMetaPool fs) (sha1 name)))) = 0"
    and unused: "\<forall>m \<in> set (m_pMetaPool fs). \<not> m_isUsed m \<longrightarrow> m_nextChunkid m = 0"
      "\<not> m_isUsed (m_pMetaPool fs ! 0) \<or> 0 \<in> set (bucket h (m_pMetaPool fs) (sha1 name))"
    and fails: "\<forall>bs off w. \<not> fst (DataMgr_write (os :: 'w file_os) (m_pDataMgr fs) bs off w)"
  shows "\<exists>fs' w'. EdgeFS_write os ctx draw name (Some buff) len fs w = return_o (0, fs', w') \<and>
    (\<forall>(os' :: 'w file_os) draw' buff' len' v. EdgeFS_write os' ctx draw' name (Some buff') len' fs' v = None) \<and>
    (\<forall>(os' :: 'w file_os) b len' offset v. EdgeFS_read os' ctx name (Some b) len' offset fs' v = None)"
proof -
  let ?pool = "m_pMetaPool fs" and ?k = "hash_key h (sha1 name)" and ?fs = "generateTaskid fs"
  have pool: "pool_ok h ?pool" and head: "m_pFSHead fs = Some h" and num: "unat (m_chunkNum h) = length ?pool" "m_chunkNum h \<noteq> 0"
    using ok by (simp_all add: fs_ok_def pool_ok_def)
  have used: "m_isUsed (meta_at ?pool ?k)" by (rule ccontr) (use full(1) in \<open>simp add: file_chunks_def bucket_unused\<close>)
  obtain cs where cs: "chain ?pool ?k cs" "\<forall>x \<in> set cs. m_isUsed (meta_at ?pool x) \<and> unat x < length ?pool \<and> m_idleLen (meta_at ?pool x) < m_chunkSize h"
    by (rule pool_chain [OF pool hash_key_in [OF pool] used])
  note bucket = bucket_chain [OF cs(1) used]
  obtain T p first need lastLen where plan: "write_plan h ?pool (sha1 name) len T p first need lastLen"
    and eq: "\<And>(os :: 'w file_os) draw buff w. EdgeFS_write os ctx draw name (Some buff) len fs w =
      bind_o (if need \<noteq> 0 then Some (case write_search draw fs p need of None \<Rightarrow> Crash | Some r \<Rightarrow> Done r) else return_o (True, []))
        (\<lambda>(found, ids). if need \<noteq> 0 \<and> (\<not> found \<or> ids = []) then return_o (- 1, ?fs, w)
          else write_rest os h (sha1 name) buff len T p first need lastLen ids ?fs w)"
    using write_eq [OF ok name] by blast
  have T: "T = last cs" and p: "p = Some (last (file_chunks h ?pool (sha1 name)))"
    using plan full(1) used by (simp_all add: write_plan_def tails_def bucket Let_def)
  have first: "first = 0" using plan full(2) by (simp add: write_plan_def p)
  have need: "need \<noteq> 0" using plan len by (simp add: write_plan_def first)
  from search_result [OF ok plan need, of draw] room obtain ids where ids: "write_search draw fs p need = Some (True, ids)"
    "length ids = unat need" "\<forall>c \<in> set ids. unat c < length ?pool \<and> \<not> m_isUsed (meta_at ?pool c)" by (metis not_less)
  then have some: "ids \<noteq> []" using need by (auto simp: word_unat_eq_iff)
  with ids(3) cs(2) have d: "unat (hd ids) < length ?pool" "\<not> m_isUsed (meta_at ?pool (hd ids))" "hd ids \<notin> set cs" by auto
  define fs' where "fs' = ?fs\<lparr>m_pMetaPool := ?pool[unat T := meta_at ?pool T\<lparr>m_nextChunkid := hd ids\<rparr>]\<rparr>"
  have in_pool: "unat T < length ?pool" using cs(2) chain_not_Nil [OF cs(1)] by (simp add: T)
  from write_rest_fails [of os ?fs ids need T h "sha1 name" buff len p lastLen w, unfolded generateTaskid_simps, OF fails some ids(2) in_pool num(1)]
  obtain w' where w': "write_rest os h (sha1 name) buff len T p first need lastLen ids ?fs w = return_o (0, fs', w')"
    unfolding first fs'_def by blast
  have result: "EdgeFS_write os ctx draw name (Some buff) len fs w = return_o (0, fs', w')" using w' need some ids(1) by (simp add: eq)
  have S: "walk_closed (m_pMetaPool fs') (insert 0 (insert (hd ids) (set cs)))" "?k \<in> insert 0 (insert (hd ids) (set cs))"
    "m_isUsed (meta_at (m_pMetaPool fs') ?k)"
    using linked_walk_closed [OF pool cs(1) d unused(1)] unused(2) chain_start [OF cs(1)] used in_pool
    by (simp_all add: fs'_def T bucket nth_list_update)
  have "m_pFSHead fs' = Some h" using head by (simp add: fs'_def)
  note hang = write_hangs [OF this num(2) name S]
  show ?thesis by (intro exI [of _ fs'] exI [of _ w'] conjI allI result hang)
qed

text \<open>A disk on which every write fails.\<close>

definition full_os :: "plain_file file_os" where
  "full_os = plain_os\<lparr>sys_write := \<lambda>_ _ w. (- 1, w)\<rparr>"

theorem fs_failed_write_hangs_witness:
  "\<exists>fs fs' w'. fs_ok small_head fs \<and> EdgeFS_write full_os zero_info (\<lambda>_. 0) [97] (Some [1]) 1 fs zero_file = return_o (0, fs', w') \<and>
     EdgeFS_read plain_os zero_info [97] (Some (\<lambda>_. 0)) 1 0 fs' w' = None"
proof -
  from two_chunk_fs [of 0] obtain fs where fs: "fs_ok small_head fs" "m_pDataMgr fs = \<lparr>m_fd = 3, m_path = ''edgefs.data''\<rparr>"
    "m_idleLen (meta_at (m_pMetaPool fs) (last (file_chunks small_head (m_pMetaPool fs) (sha1 [97])))) = 0"
    "0 \<in> set (file_chunks small_head (m_pMetaPool fs) (sha1 [97]))" "0 < unused_chunks (m_pMetaPool fs)"
    "\<forall>m \<in> set (m_pMetaPool fs). \<not> m_isUsed m \<longrightarrow> m_nextChunkid m = 0" by auto
  have some: "file_chunks small_head (m_pMetaPool fs) (sha1 [97]) \<noteq> []" using fs(4) by auto
  have room: "unat (1 :: u32) \<le> unused_chunks (m_pMetaPool fs) * unat (m_chunkSize small_head)" using fs(5) by (simp add: small_sizes(2))
  have zero: "0 \<in> set (bucket small_head (m_pMetaPool fs) (sha1 [97]))" using fs(4) by (simp add: file_chunks_def of_file_def)
  have fails: "\<forall>bs off w. \<not> fst (DataMgr_write full_os (m_pDataMgr fs) bs off w)"
    by (simp add: fs(2) DataMgr_write_def fo_write_at_def fo_write_def full_os_def plain_os_def)
  from fs_failed_write_hangs [OF fs(1) small_sizes(3,4) one_neq_zero room some fs(3,6) disjI2 [OF zero] fails, of "\<lambda>_. 0" "[1]" zero_file]
  obtain fs' w' where "EdgeFS_write full_os zero_info (\<lambda>_. 0) [97] (Some [1]) 1 fs zero_file = return_o (0, fs', w')"
    "\<forall>(os :: plain_file file_os) b len offset v. EdgeFS_read os zero_info [97] (Some b) len offset fs' v = None"
    by (elim exE conjE) (rule that)
  with fs(1) show ?thesis by blast
qed

end
