(* ===== verification/EdgeFsInit.thy ===== *)
theory EdgeFsInit
  imports EdgeFsWrite
begin

unbundle bit_operations_syntax

text \<open>
  \<open>EdgeFS::initFS\<close>: the sizes, the two files and the index in the mapped memory, laid out as the packed
  structs of \<open>EdgeFSProtocol.h\<close>.
\<close>

subsection \<open>The sizes\<close>

definition initFSCheckParam :: "SystemInfo \<Rightarrow> bool" where
  "initFSCheckParam info = (\<not> of_nat (sizeof_EdgeFSHead + 1 + sizeof_MetaInfo) \<ge> m_edgeFSUsableMemory info)"

text \<open>
  \<open>None\<close> is the return with \<open>false\<close>; otherwise \<open>chunkNum\<close>, \<open>chunkSize\<close>, \<open>diskSize\<close>, \<open>bitmapSize\<close> and
  \<open>mmapSize\<close>. The first chunk number may be zero when it is cut to 32 bits: then the division traps.
\<close>

type_synonym fs_sizes = "u32 \<times> u32 \<times> u64 \<times> u32 \<times> u64"

definition initFSCalcVariable :: "SystemInfo \<Rightarrow> fs_sizes option outcome" where
  "initFSCalcVariable info = (let head = of_nat sizeof_EdgeFSHead; meta = of_nat sizeof_MetaInfo;
      chunkNum = ucast ((m_edgeFSUsableMemory info - head) div meta) :: u32 in
    if chunkNum = 0 then Crash
    else let chunkSize = ucast (m_diskCapacity info div ucast chunkNum) :: u32;
             chunkSize = ALIGN_DOWN chunkSize kDiskRWAlignSize;
             chunkSize = Utils_limit chunkSize kMinChunkSize kMaxChunkSize;
             chunkNum = ucast (m_diskCapacity info div ucast chunkSize) :: u32;
             bitmapSize = DIV_ROUND_UP chunkNum 8;
             diskSize = ucast chunkNum * ucast chunkSize;
             mmapSize = head + ucast bitmapSize + ucast chunkNum * meta in
      Done (if chunkNum = 0 \<or> chunkSize = 0 \<or> bitmapSize = 0 \<or> diskSize = 0 \<or> mmapSize = 0 \<or>
          diskSize > m_diskCapacity info \<or> mmapSize > m_edgeFSUsableMemory info then None
        else Some (chunkNum, chunkSize, diskSize, bitmapSize, mmapSize)))"

subsection \<open>The index in memory\<close>

definition field :: "nat \<Rightarrow> nat \<Rightarrow> byte list \<Rightarrow> nat" where
  "field off n mem = le_val (take n (drop off mem))"

definition read_head :: "byte list \<Rightarrow> EdgeFSHead" where
  "read_head mem = \<lparr>m_magic = take 12 mem, m_coverableDiskSize = of_nat (field 12 8 mem), m_usableMemory = of_nat (field 20 8 mem),
     m_chunkSize = of_nat (field 28 4 mem), m_chunkNum = of_nat (field 32 4 mem), m_bitmapSize = of_nat (field 36 4 mem)\<rparr>"

definition read_meta :: "byte list \<Rightarrow> MetaInfo" where
  "read_meta mem = \<lparr>m_isUsed = bit (hd mem) 0, m_sha1 = take SHA_DIGEST_LENGTH (drop 1 mem), m_fileSize = of_nat (field 21 8 mem),
     m_crc32 = of_nat (field 29 4 mem), m_idleLen = of_nat (field 33 4 mem), m_nextChunkid = of_nat (field 37 4 mem)\<rparr>"

fun read_pool :: "nat \<Rightarrow> byte list \<Rightarrow> MetaInfo list" where
  "read_pool 0 mem = []"
| "read_pool (Suc n) mem = (if length mem < sizeof_MetaInfo then []
     else read_meta (take sizeof_MetaInfo mem) # read_pool n (drop sizeof_MetaInfo mem))"

text \<open>The three pointers into the mapping; memory behind its end is not in the pool.\<close>

definition set_pointers :: "byte list \<Rightarrow> u32 \<Rightarrow> u32 \<Rightarrow> EdgeFS \<Rightarrow> EdgeFS" where
  "set_pointers mem bitmapSize chunkNum fs = (let rest = drop sizeof_EdgeFSHead mem in
     fs\<lparr>m_pFSHead := Some (read_head mem), m_pBitMap := initBitmap (take (unat bitmapSize) rest) bitmapSize chunkNum,
        m_pMetaPool := read_pool (unat chunkNum) (drop (unat bitmapSize) rest)\<rparr>)"

text \<open>\<open>map\<close> is \<open>mmap\<close>: the memory that can be accessed, \<open>None\<close> is \<open>MAP_FAILED\<close>.\<close>

type_synonym 'w mmap = "u64 \<Rightarrow> int \<Rightarrow> 'w \<Rightarrow> byte list option"

definition initFSCalcPointerAddrForCreateIdxFile :: "'w mmap \<Rightarrow> fs_sizes \<Rightarrow> EdgeFS \<Rightarrow> 'w \<Rightarrow> (bool \<times> EdgeFS) outcome" where
  "initFSCalcPointerAddrForCreateIdxFile mmap = (\<lambda>(chunkNum, chunkSize, diskSize, bitmapSize, mmapSize) fs w.
     case mmap mmapSize (m_fd (m_pIndexMgr fs)) w of None \<Rightarrow> Done (False, fs)
     | Some mem \<Rightarrow> if length mem < unat mmapSize then Crash
       else let fs = set_pointers (replicate (unat mmapSize) 0) bitmapSize chunkNum fs in
         Done (True, fs\<lparr>m_pFSHead := map_option (\<lambda>h. h\<lparr>m_magic := kEdgeFSMagic @ drop (length kEdgeFSMagic) (m_magic h),
           m_usableMemory := mmapSize, m_coverableDiskSize := diskSize, m_chunkNum := chunkNum, m_chunkSize := chunkSize,
           m_bitmapSize := bitmapSize\<rparr>) (m_pFSHead fs)\<rparr>))"

definition initFSCalcPointerAddrForReloadIdxFile :: "'w mmap \<Rightarrow> fs_sizes \<Rightarrow> EdgeFS \<Rightarrow> 'w \<Rightarrow> (bool \<times> EdgeFS) outcome" where
  "initFSCalcPointerAddrForReloadIdxFile mmap = (\<lambda>(chunkNum, chunkSize, diskSize, bitmapSize, mmapSize) fs w.
     if m_fd (m_pIndexMgr fs) = - 1 then Done (False, fs)
     else case mmap mmapSize (m_fd (m_pIndexMgr fs)) w of None \<Rightarrow> Done (False, fs)
     | Some mem \<Rightarrow> if length mem < sizeof_EdgeFSHead then Crash
       else let fs = set_pointers mem bitmapSize chunkNum fs; h = read_head mem in
         if take (length kEdgeFSMagic) (m_magic h) \<noteq> kEdgeFSMagic \<or> m_usableMemory h \<noteq> mmapSize \<or> m_coverableDiskSize h \<noteq> diskSize \<or>
            m_chunkNum h \<noteq> chunkNum \<or> m_chunkSize h \<noteq> chunkSize \<or> m_bitmapSize h \<noteq> bitmapSize
         then Done (False, fs)
         else (case printAllMetaInfo h fs of Crash \<Rightarrow> Crash | Done _ \<Rightarrow> Done (True, fs)))"

definition initFSCalcPointerAddr :: "'w mmap \<Rightarrow> bool \<Rightarrow> fs_sizes \<Rightarrow> EdgeFS \<Rightarrow> 'w \<Rightarrow> (bool \<times> EdgeFS) outcome" where
  "initFSCalcPointerAddr mmap isExistsIdxFile sizes fs w =
     (if isExistsIdxFile then initFSCalcPointerAddrForReloadIdxFile mmap sizes fs w
      else initFSCalcPointerAddrForCreateIdxFile mmap sizes fs w)"

subsection \<open>\<open>initFS\<close>\<close>

definition initFSImpl :: "'w file_os \<Rightarrow> 'w mmap \<Rightarrow> SystemInfo \<Rightarrow> EdgeFS \<Rightarrow> 'w \<Rightarrow> (bool \<times> EdgeFS \<times> 'w) outcome" where
  "initFSImpl os mmap info fs w = (if \<not> initFSCheckParam info then Done (False, fs, w)
     else case initFSCalcVariable info of Crash \<Rightarrow> Crash | Done None \<Rightarrow> Done (False, fs, w)
     | Done (Some (chunkNum, chunkSize, diskSize, bitmapSize, mmapSize)) \<Rightarrow>
       let (ok, f, w) = initDataMgr os (m_pDataMgr fs) (m_diskRootDir info) diskSize w; fs = fs\<lparr>m_pDataMgr := f\<rparr> in
       if \<not> ok then Done (False, fs, w)
       else let (ok, exist, f, w) = initIndexMgr os (m_pIndexMgr fs) (m_diskRootDir info) mmapSize w; fs = fs\<lparr>m_pIndexMgr := f\<rparr> in
         if \<not> ok then Done (False, fs, w)
         else (case initFSCalcPointerAddr mmap exist (chunkNum, chunkSize, diskSize, bitmapSize, mmapSize) fs w of
           Crash \<Rightarrow> Crash | Done (ok, fs) \<Rightarrow> Done (ok, fs, w)))"

definition initFSFailRollBack :: "'w file_os \<Rightarrow> EdgeFS \<Rightarrow> 'w \<Rightarrow> 'w" where
  "initFSFailRollBack os fs w = fo_unlink os (m_pIndexMgr fs) (fo_unlink os (m_pDataMgr fs) w)"

definition EdgeFS_initFS :: "'w file_os \<Rightarrow> 'w mmap \<Rightarrow> SystemInfo \<Rightarrow> EdgeFS \<Rightarrow> 'w \<Rightarrow> (bool \<times> EdgeFS \<times> 'w) outcome" where
  "EdgeFS_initFS os mmap info fs w = (case initFSImpl os mmap info fs w of Crash \<Rightarrow> Crash
     | Done (ok, fs, w) \<Rightarrow> if \<not> ok then Done (False, fs, initFSFailRollBack os fs w) else Done (True, fs, w))"

subsection \<open>What the sizes are\<close>

lemma sizes [simp]: "sizeof_EdgeFSHead = 40" "sizeof_MetaInfo = 42"
  by (simp_all add: sizeof_EdgeFSHead_def sizeof_MetaInfo_def SHA_DIGEST_LENGTH_def)

lemma aligned: "unat (ALIGN_DOWN n kDiskRWAlignSize) mod 4096 = 0"
proof -
  have "(4095 :: u32) = mask 12" by (simp add: mask_eq_exp_minus_1)
  then have "ALIGN_DOWN n kDiskRWAlignSize = n AND NOT (mask 12)" by (simp add: ALIGN_DOWN_def kDiskRWAlignSize_def)
  then have "take_bit 12 (ALIGN_DOWN n kDiskRWAlignSize) = 0"
    by (simp only:) (rule bit_word_eqI, simp add: bit_take_bit_iff bit_and_iff bit_not_iff Bit_Operations.bit_mask_iff)
  then have "unat (take_bit 12 (ALIGN_DOWN n kDiskRWAlignSize)) = 0" by simp
  then show ?thesis by (simp add: take_bit_eq_mod unat_mod)
qed

lemma limit_aligned:
  assumes "unat x mod 4096 = 0"
  shows "unat (Utils_limit x kMinChunkSize kMaxChunkSize) mod 4096 = 0"
    "2 ^ 20 \<le> unat (Utils_limit x kMinChunkSize kMaxChunkSize)" "unat (Utils_limit x kMinChunkSize kMaxChunkSize) \<le> 2 ^ 27"
  using assms by (auto simp: Utils_limit_def kMinChunkSize_def kMaxChunkSize_def Let_def word_less_nat_alt not_less)

lemma calc_cases:
  assumes "initFSCalcVariable info = Done (Some (chunkNum, chunkSize, diskSize, bitmapSize, mmapSize))"
  shows "\<exists>n. chunkSize = Utils_limit (ALIGN_DOWN n kDiskRWAlignSize) kMinChunkSize kMaxChunkSize"
    "bitmapSize = DIV_ROUND_UP chunkNum 8" "diskSize = ucast chunkNum * ucast chunkSize"
    "mmapSize = 40 + ucast bitmapSize + ucast chunkNum * 42"
    "chunkNum \<noteq> 0" "bitmapSize \<noteq> 0" "diskSize \<le> m_diskCapacity info" "mmapSize \<le> m_edgeFSUsableMemory info"
  using assms by (auto simp: initFSCalcVariable_def Let_def not_less split: if_splits)

lemma bitmap_size:
  assumes "DIV_ROUND_UP n 8 \<noteq> (0 :: u32)"
  shows "unat (DIV_ROUND_UP n (8 :: u32)) = (unat n + 7) div 8"
proof (cases "unat n + 8 \<le> 2 ^ 32")
  case True
  then show ?thesis using unat_DIV_ROUND_UP [of n 8] by simp
next
  case False
  have "unat (n + 7) = (unat n + 7) mod 2 ^ 32" by (simp add: unat_word_ariths(1))
  also have "\<dots> < 8"
  proof -
    define d where "d = unat n + 7 - 2 ^ 32"
    have d: "unat n + 7 = d + 2 ^ 32" "d < 8" using False unat_less_power [OF refl, of n] by (simp_all add: d_def)
    have "(d + 2 ^ 32) mod 2 ^ 32 = d" using d(2) by simp
    then show ?thesis using d by (simp only:)
  qed
  finally have less: "unat (n + 7) < 8" .
  have "n + 8 - 1 = n + 7" by simp
  then have "unat (DIV_ROUND_UP n (8 :: u32)) = unat (n + 7) div 8" by (simp only: DIV_ROUND_UP_def unat_div) simp
  with less have "unat (DIV_ROUND_UP n (8 :: u32)) = 0" by (simp only: div_less)
  with assms show ?thesis by (simp add: word_unat_eq_iff)
qed

lemma sizes_fit:
  assumes "initFSCalcVariable info = Done (Some (chunkNum, chunkSize, diskSize, bitmapSize, mmapSize))"
  shows "2 ^ 20 \<le> unat chunkSize \<and> unat chunkSize \<le> 2 ^ 27 \<and> unat chunkSize mod 4096 = 0 \<and> 0 < unat chunkNum \<and>
    unat diskSize = unat chunkNum * unat chunkSize \<and> diskSize \<le> m_diskCapacity info \<and>
    unat bitmapSize = (unat chunkNum + 7) div 8 \<and> unat chunkNum \<le> 8 * unat bitmapSize \<and>
    unat mmapSize = 40 + unat bitmapSize + 42 * unat chunkNum \<and> mmapSize \<le> m_edgeFSUsableMemory info"
proof -
  note c = calc_cases [OF assms]
  have cs: "2 ^ 20 \<le> unat chunkSize" "unat chunkSize \<le> 2 ^ 27" "unat chunkSize mod 4096 = 0"
    using c(1) limit_aligned [OF aligned] by auto
  have bs: "unat bitmapSize = (unat chunkNum + 7) div 8" using bitmap_size [of chunkNum] c(2,6) by simp
  have disk: "unat diskSize = unat chunkNum * unat chunkSize"
    using unat_chunk_offset [of chunkSize chunkNum] by (simp add: c(3) chunk_offset_def)
  have n: "unat chunkNum < 2 ^ 32" "unat bitmapSize < 2 ^ 32"
    using unat_less_power [OF refl, of chunkNum] unat_less_power [OF refl, of bitmapSize] by simp_all
  then have "unat mmapSize = 40 + unat bitmapSize + 42 * unat chunkNum"
    by (simp add: c(4) unat_word_ariths)
  with c(5,7,8) cs bs disk show ?thesis by (simp add: unat_gt_0)
qed

text \<open>C14: The sizes fit together. If the sizes are accepted, a chunk has between one and 128 megabytes, in whole
  blocks of the disk, all chunks lie on the disk, and the head, a bitmap with a bit for each chunk and a \<open>MetaInfo\<close>
  for each fill the index exactly and fit into the memory that may be used.\<close>

theorem fs_sizes_fit:
  assumes "initFSCalcVariable info = Done (Some (chunkNum, chunkSize, diskSize, bitmapSize, mmapSize))"
  shows "2 ^ 20 \<le> unat chunkSize \<and> unat chunkSize \<le> 2 ^ 27 \<and> unat chunkSize mod 4096 = 0 \<and> 0 < unat chunkNum \<and>
    unat diskSize = unat chunkNum * unat chunkSize \<and> diskSize \<le> m_diskCapacity info \<and>
    unat bitmapSize = (unat chunkNum + 7) div 8 \<and> unat chunkNum \<le> 8 * unat bitmapSize \<and>
    unat mmapSize = 40 + unat bitmapSize + 42 * unat chunkNum \<and> mmapSize \<le> m_edgeFSUsableMemory info"
  by (rule sizes_fit [OF assms])

definition small_info :: SystemInfo where
  "small_info = \<lparr>m_diskCapacity = 2 ^ 23, m_diskRootDir = ''/data'', m_edgeFSUsableMemory = 400\<rparr>"

lemma small_info_sizes: "initFSCheckParam small_info" "initFSCalcVariable small_info = Done (Some (8, 2 ^ 20, 2 ^ 23, 1, 377))"
  by (simp_all add: small_info_def initFSCheckParam_def initFSCalcVariable_def Let_def ALIGN_DOWN_def kDiskRWAlignSize_def Utils_limit_def
      kMinChunkSize_def kMaxChunkSize_def DIV_ROUND_UP_def)

theorem fs_sizes_fit_witness:
  "initFSCalcVariable small_info = Done (Some (8, 2 ^ 20, 2 ^ 23, 1, 377)) \<and> (377 :: u64) \<le> m_edgeFSUsableMemory small_info"
  using fs_sizes_fit [OF small_info_sizes(2)] small_info_sizes(2) by blast

text \<open>A division by zero. The number of chunks that the memory has room for is cut to 32 bits: with a memory of
  40 bytes and 42 times two to the power of 32 bytes it is zero, and the next line divides by it.\<close>

theorem fs_init_divides_by_zero:
  "EdgeFS_initFS os mmap \<lparr>m_diskCapacity = disk, m_diskRootDir = dir, m_edgeFSUsableMemory = 40 + 42 * 2 ^ 32\<rparr> fs w = Crash"
proof -
  have "\<not> (40 + 42 * 2 ^ 32 :: u64) \<le> 83" by simp
  moreover have "(ucast ((42 * 2 ^ 32 :: u64) div 42) :: u32) = 0" by simp
  ultimately show ?thesis by (simp add: EdgeFS_initFS_def initFSImpl_def initFSCheckParam_def initFSCalcVariable_def Let_def)
qed

subsection \<open>A new index\<close>

lemma read_pool_zero:
  "set (read_pool n (replicate (42 * n) 0)) \<subseteq> {m. \<not> m_isUsed m} \<and> length (read_pool n (replicate (42 * n) 0)) = n"
proof (induction n)
  case (Suc n)
  have "drop 42 (replicate (42 * Suc n) (0 :: byte)) = replicate (42 * n) 0" "length (replicate (42 * Suc n) (0 :: byte)) = 42 + 42 * n"
    "take 42 (replicate (42 * Suc n) (0 :: byte)) = replicate 42 0" by simp_all
  moreover have "\<not> m_isUsed (read_meta (replicate 42 0))" by (simp add: read_meta_def)
  ultimately show ?case using Suc by (simp del: replicate.simps mult_Suc_right)
qed simp

text \<open>C13: A new file system. If there is no index yet and \<open>initFS\<close> succeeds, the file system is well-formed, has no
  files, and its chunks lie on the disk.\<close>

theorem fs_init_creates:
  assumes init: "EdgeFS_initFS os mmap info fs w = Done (True, fs', w')"
    and no_index: "\<And>v. fst (sys_access os (m_diskRootDir info @ ''/'' @ kIndexFileName) v) \<noteq> 0"
  shows "\<exists>h. fs_ok h fs' \<and> (\<forall>g t. file_bytes h g (m_pMetaPool fs') t = []) \<and> m_writeChunkNum (m_pBitMap fs') = 0 \<and>
    unat (m_chunkNum h) * unat (m_chunkSize h) \<le> unat (m_diskCapacity info) \<and> length (m_magic h) = 12"
proof -
  have na: "sys_access os (m_diskRootDir info @ ''/'' @ kIndexFileName) v \<noteq> (0, v')" for v v'
    using no_index [of v] by auto
  from init obtain chunkNum chunkSize diskSize bitmapSize mmapSize fs1 w1 where
    calc: "initFSCalcVariable info = Done (Some (chunkNum, chunkSize, diskSize, bitmapSize, mmapSize))"
    and create: "initFSCalcPointerAddr mmap False (chunkNum, chunkSize, diskSize, bitmapSize, mmapSize) fs1 w1 = Done (True, fs')"
    using na unfolding EdgeFS_initFS_def initFSImpl_def initIndexMgr_def
    by (auto simp: Let_def split: if_splits outcome.splits option.splits prod.splits)
  note fit = sizes_fit [OF calc]
  define h where "h = (read_head (replicate (unat mmapSize) 0))\<lparr>m_magic := kEdgeFSMagic @ drop (length kEdgeFSMagic)
      (m_magic (read_head (replicate (unat mmapSize) 0))), m_usableMemory := mmapSize, m_coverableDiskSize := diskSize,
      m_chunkNum := chunkNum, m_chunkSize := chunkSize, m_bitmapSize := bitmapSize\<rparr>"
  have parts: "min (unat bitmapSize) (unat mmapSize - 40) = unat bitmapSize" "unat mmapSize - (40 + unat bitmapSize) = 42 * unat chunkNum"
    using fit by simp_all
  have fs': "m_pFSHead fs' = Some h" "m_pMetaPool fs' = read_pool (unat chunkNum) (replicate (42 * unat chunkNum) 0)"
    "m_pBitMap fs' = initBitmap (replicate (unat bitmapSize) 0) bitmapSize chunkNum"
    using create by (auto simp: initFSCalcPointerAddr_def initFSCalcPointerAddrForCreateIdxFile_def set_pointers_def Let_def parts h_def
        split: option.splits if_splits)
  have h: "m_chunkNum h = chunkNum" "m_chunkSize h = chunkSize" "length (m_magic h) = 12"
    using fit by (simp_all add: h_def read_head_def kEdgeFSMagic_def)
  note zero = read_pool_zero [of "unat chunkNum"]
  have new: "fs_ok h fs'" "file_bytes h g (m_pMetaPool fs') t = []" for g t
    by (rule fs_ok_fresh [OF fs'(1)]; use fit zero in \<open>auto simp: h fs' bm_ok_def initBitmap_def word_unat_eq_iff\<close>)+
  moreover have "unat chunkNum * unat chunkSize \<le> unat (m_diskCapacity info)" using fit by (simp add: word_le_nat_alt)
  ultimately show ?thesis using h by (intro exI [of _ h]) (simp add: fs'(3) initBitmap_def)
qed

text \<open>A mapping that works, of a file of zeros.\<close>

definition zero_map :: "plain_file mmap" where
  "zero_map n fd w = Some (replicate (unat n) 0)"

lemma small_init: "\<exists>fs' w'. EdgeFS_initFS plain_os zero_map small_info EdgeFS_new w = Done (True, fs', w')"
  by (simp add: EdgeFS_initFS_def initFSImpl_def small_info_sizes initDataMgr_def initIndexMgr_def plain_os_def fo_setPath_def fo_open_def
      EdgeFS_new_def FileOper_new_def kDataFileName_def kIndexFileName_def initFSCalcPointerAddr_def initFSCalcPointerAddrForCreateIdxFile_def
      zero_map_def Let_def)

theorem fs_init_creates_witness:
  "\<exists>fs' w' h. EdgeFS_initFS plain_os zero_map small_info EdgeFS_new zero_file = Done (True, fs', w') \<and> fs_ok h fs'"
proof -
  obtain fs' w' where init: "EdgeFS_initFS plain_os zero_map small_info EdgeFS_new zero_file = Done (True, fs', w')" using small_init [of zero_file] by blast
  from fs_init_creates [OF init] have "\<exists>h. fs_ok h fs'" by (auto simp: plain_os_def)
  with init show ?thesis by blast
qed

subsection \<open>An index that exists\<close>

text \<open>The index as it lies in the mapped memory.\<close>

definition head_bytes :: "EdgeFSHead \<Rightarrow> byte list" where
  "head_bytes h = m_magic h @ le_bytes 8 (unat (m_coverableDiskSize h)) @ le_bytes 8 (unat (m_usableMemory h)) @
     le_bytes 4 (unat (m_chunkSize h)) @ le_bytes 4 (unat (m_chunkNum h)) @ le_bytes 4 (unat (m_bitmapSize h))"

definition meta_bytes :: "MetaInfo \<Rightarrow> byte list" where
  "meta_bytes m = (if m_isUsed m then 1 else 0) # m_sha1 m @ le_bytes 8 (unat (m_fileSize m)) @ le_bytes 4 (unat (m_crc32 m)) @
     le_bytes 4 (unat (m_idleLen m)) @ le_bytes 4 (unat (m_nextChunkid m)) @ [0]"

definition index_bytes :: "EdgeFSHead \<Rightarrow> EdgeFS \<Rightarrow> byte list" where
  "index_bytes h fs = head_bytes h @ m_ptr (m_pBitMap fs) @ concat (map meta_bytes (m_pMetaPool fs))"

lemma magic_length: "length kEdgeFSMagic = 6"
  by (simp add: kEdgeFSMagic_def)

lemma read_head_bytes: "length (m_magic h) = 12 \<Longrightarrow> read_head (head_bytes h @ mem) = h"
  by (simp add: read_head_def head_bytes_def field_def)

lemma length_head_bytes: "length (m_magic h) = 12 \<Longrightarrow> length (head_bytes h) = 40"
  by (simp add: head_bytes_def)

lemma read_meta_bytes: "length (m_sha1 m) = 20 \<Longrightarrow> read_meta (meta_bytes m) = m"
  by (simp add: read_meta_def meta_bytes_def field_def SHA_DIGEST_LENGTH_def)

lemma length_meta_bytes: "length (m_sha1 m) = 20 \<Longrightarrow> length (meta_bytes m) = 42"
  by (simp add: meta_bytes_def)

lemma read_pool_bytes:
  "\<forall>m \<in> set pool. length (m_sha1 m) = 20 \<Longrightarrow> read_pool (length pool) (concat (map meta_bytes pool)) = pool"
  by (induction pool) (simp_all add: read_meta_bytes length_meta_bytes)

text \<open>C8: What was stored is found again. If the index file holds the memory of a file system, then mapping it again
  with the same sizes succeeds and gives the same head, chunks and bitmap, so the same files; only the number of
  chunks in use starts from zero again.\<close>

theorem fs_reload_restores:
  assumes ok: "fs_ok h fs" and magic: "length (m_magic h) = 12" "take 6 (m_magic h) = kEdgeFSMagic"
    and sha: "\<forall>m \<in> set (m_pMetaPool fs). length (m_sha1 m) = 20" and bm: "length (m_ptr (m_pBitMap fs)) = unat (m_bitmapSize h)"
    and fd: "m_fd (m_pIndexMgr fs0) \<noteq> - 1"
    and map: "mmap (m_usableMemory h) (m_fd (m_pIndexMgr fs0)) w = Some (index_bytes h fs)"
  shows "\<exists>fs'. initFSCalcPointerAddr mmap True (m_chunkNum h, m_chunkSize h, m_coverableDiskSize h, m_bitmapSize h, m_usableMemory h) fs0 w =
      Done (True, fs') \<and> fs_ok h fs' \<and> m_pMetaPool fs' = m_pMetaPool fs \<and> in_use (m_pBitMap fs') = in_use (m_pBitMap fs) \<and>
      m_writeChunkNum (m_pBitMap fs') = 0"
proof -
  define fs' where "fs' = set_pointers (index_bytes h fs) (m_bitmapSize h) (m_chunkNum h) fs0"
  have n: "unat (m_chunkNum h) = length (m_pMetaPool fs)" using ok by (simp add: fs_ok_def pool_ok_def)
  have head: "read_head (index_bytes h fs) = h" "\<not> length (index_bytes h fs) < 40"
    using magic(1) by (simp_all add: index_bytes_def read_head_bytes length_head_bytes)
  have "drop 40 (index_bytes h fs) = m_ptr (m_pBitMap fs) @ concat (map meta_bytes (m_pMetaPool fs))"
    using length_head_bytes [OF magic(1)] by (simp add: index_bytes_def)
  then have fs': "m_pFSHead fs' = Some h" "m_pMetaPool fs' = m_pMetaPool fs"
    "m_pBitMap fs' = initBitmap (m_ptr (m_pBitMap fs)) (m_bitmapSize h) (m_chunkNum h)"
    using read_pool_bytes [OF sha] bm by (simp_all add: fs'_def set_pointers_def Let_def head n)
  have "m_totalChunkNum (m_pBitMap fs) = m_chunkNum h" using ok by (simp add: fs_ok_def)
  then have used: "in_use (m_pBitMap fs') = in_use (m_pBitMap fs)" "bm_ok (m_pBitMap fs') = bm_ok (m_pBitMap fs)"
    by (simp_all add: fs'(3) in_use_def isHave_def initBitmap_def bm_ok_def)
  with ok fs' have ok': "fs_ok h fs'" by (simp add: fs_ok_def initBitmap_def)
  have "printAllMetaInfo h fs' \<noteq> Crash" by (simp add: printAllMetaInfo_def fs'(2) n)
  then have "initFSCalcPointerAddr mmap True (m_chunkNum h, m_chunkSize h, m_coverableDiskSize h, m_bitmapSize h, m_usableMemory h) fs0 w =
      Done (True, fs')"
    using fd map magic(2) head by (auto simp: initFSCalcPointerAddr_def initFSCalcPointerAddrForReloadIdxFile_def Let_def fs'_def [symmetric]
        magic_length split: outcome.split)
  with ok' fs' used show ?thesis by (simp add: initBitmap_def)
qed

theorem fs_reload_restores_witness:
  "\<exists>fs'. initFSCalcPointerAddr (\<lambda>_ _ _. Some (index_bytes (small_head\<lparr>m_magic := kEdgeFSMagic @ replicate 6 0\<rparr>) (small_fs\<lparr>m_pFSHead := Some (small_head\<lparr>m_magic := kEdgeFSMagic @ replicate 6 0\<rparr>)\<rparr>)))
      True (8, 4, 32, 1, 377) (EdgeFS_new\<lparr>m_pIndexMgr := \<lparr>m_fd = 4, m_path = []\<rparr>\<rparr>) () = Done (True, fs') \<and> m_pMetaPool fs' = m_pMetaPool small_fs"
proof -
  let ?h = "small_head\<lparr>m_magic := kEdgeFSMagic @ replicate 6 0\<rparr>"
  have ok: "fs_ok ?h (small_fs\<lparr>m_pFSHead := Some ?h\<rparr>)"
    by (rule fs_ok_fresh; simp add: small_fs_def small_head_def zero_meta_def initBitmap_def bm_ok_def)
  show ?thesis
    using fs_reload_restores [OF ok, of "EdgeFS_new\<lparr>m_pIndexMgr := \<lparr>m_fd = 4, m_path = []\<rparr>\<rparr>"
        "\<lambda>_ _ _. Some (index_bytes ?h (small_fs\<lparr>m_pFSHead := Some ?h\<rparr>))" "()"]
    by (auto simp: small_head_def small_fs_def initBitmap_def zero_meta_def kEdgeFSMagic_def)
qed

text \<open>A file system is lost when it is opened with other sizes. If an index exists and its head does not have the
  sizes that follow from the given capacity and memory, \<open>initFS\<close> fails and its roll-back deletes the data file
  and the index that were there.\<close>

theorem fs_init_deletes_existing:
  assumes param: "initFSCheckParam info" and sizes: "initFSCalcVariable info = Done (Some (chunkNum, chunkSize, diskSize, bitmapSize, mmapSize))"
    and new: "m_fd (m_pDataMgr fs) = - 1" "m_fd (m_pIndexMgr fs) = - 1"
    and os: "\<And>p v. \<exists>v'. sys_open os p v = (3, v')" "\<And>fd n v. \<exists>v'. sys_ftruncate os fd n v = (0, v')"
      "\<And>v. \<exists>v'. sys_access os (m_diskRootDir info @ ''/'' @ kIndexFileName) v = (0, v')"
    and map: "\<And>v. mmap mmapSize 3 v = Some mem" "40 \<le> length mem"
    and other: "(m_chunkNum (read_head mem), m_chunkSize (read_head mem)) \<noteq> (chunkNum, chunkSize)"
  shows "\<exists>fs' w'. EdgeFS_initFS os mmap info fs w = Done (False, fs',
    sys_unlink os (m_diskRootDir info @ ''/'' @ kIndexFileName) (sys_unlink os (m_diskRootDir info @ ''/'' @ kDataFileName) w'))"
proof -
  obtain w1 w2 w3 w4 where w: "sys_open os (m_diskRootDir info @ ''/'' @ kDataFileName) w = (3, w1)" "sys_ftruncate os 3 diskSize w1 = (0, w2)"
    "sys_access os (m_diskRootDir info @ ''/'' @ kIndexFileName) w2 = (0, w3)" "sys_open os (m_diskRootDir info @ ''/'' @ kIndexFileName) w3 = (3, w4)"
    using os by metis
  define fs1 where "fs1 = fs\<lparr>m_pDataMgr := \<lparr>m_fd = 3, m_path = m_diskRootDir info @ ''/'' @ kDataFileName\<rparr>,
    m_pIndexMgr := \<lparr>m_fd = 3, m_path = m_diskRootDir info @ ''/'' @ kIndexFileName\<rparr>\<rparr>"
  have f: "(m_pDataMgr fs)\<lparr>m_path := p, m_fd := 3\<rparr> = \<lparr>m_fd = 3, m_path = p\<rparr>" "(m_pIndexMgr fs)\<lparr>m_path := p, m_fd := 3\<rparr> = \<lparr>m_fd = 3, m_path = p\<rparr>" for p
    by (cases "m_pDataMgr fs", simp, cases "m_pIndexMgr fs", simp)
  have data: "initDataMgr os (m_pDataMgr fs) (m_diskRootDir info) diskSize w = (True, \<lparr>m_fd = 3, m_path = m_diskRootDir info @ ''/'' @ kDataFileName\<rparr>, w2)"
    using w(1,2) new(1) f(1) by (simp add: initDataMgr_def fo_setPath_def fo_open_def Let_def)
  have index: "initIndexMgr os (m_pIndexMgr fs) (m_diskRootDir info) mmapSize w2 =
      (True, True, \<lparr>m_fd = 3, m_path = m_diskRootDir info @ ''/'' @ kIndexFileName\<rparr>, w4)"
    using w(3,4) new(2) f(2) by (simp add: initIndexMgr_def fo_setPath_def fo_open_def Let_def)
  have reload: "initFSCalcPointerAddr mmap True (chunkNum, chunkSize, diskSize, bitmapSize, mmapSize) fs1 w4 =
      Done (False, set_pointers mem bitmapSize chunkNum fs1)"
    using map other by (auto simp: initFSCalcPointerAddr_def initFSCalcPointerAddrForReloadIdxFile_def fs1_def Let_def)
  have impl: "initFSImpl os mmap info fs w = Done (False, set_pointers mem bitmapSize chunkNum fs1, w4)"
    using param sizes data index reload by (simp add: initFSImpl_def Let_def fs1_def)
  have "m_pDataMgr (set_pointers mem bitmapSize chunkNum fs1) = m_pDataMgr fs1" "m_pIndexMgr (set_pointers mem bitmapSize chunkNum fs1) = m_pIndexMgr fs1"
    by (simp_all add: set_pointers_def Let_def)
  then have "EdgeFS_initFS os mmap info fs w = Done (False, set_pointers mem bitmapSize chunkNum fs1,
    sys_unlink os (m_diskRootDir info @ ''/'' @ kIndexFileName) (sys_unlink os (m_diskRootDir info @ ''/'' @ kDataFileName) w4))"
    by (simp add: EdgeFS_initFS_def impl initFSFailRollBack_def fo_unlink_def) (simp add: fs1_def)
  then show ?thesis by blast
qed

theorem fs_init_deletes_existing_witness:
  "\<exists>fs' w'. EdgeFS_initFS (plain_os\<lparr>sys_access := \<lambda>_ w. (0, w)\<rparr>) (\<lambda>_ _ _. Some (replicate 40 0)) small_info EdgeFS_new zero_file = Done (False, fs', w')"
proof -
  have "m_chunkNum (read_head (replicate 40 0)) = 0" by (simp add: read_head_def field_def)
  with fs_init_deletes_existing [OF small_info_sizes, of EdgeFS_new "plain_os\<lparr>sys_access := \<lambda>_ w. (0, w)\<rparr>"
      "\<lambda>_ _ _. Some (replicate 40 0)" "replicate 40 0" zero_file] show ?thesis
    by (auto simp: plain_os_def EdgeFS_new_def FileOper_new_def)
qed

end
