(* ===== verification/EdgeFsDemo.thy ===== *)
theory EdgeFsDemo
  imports EdgeFsRead EdgeFsInit
begin

text \<open>
  The demo programs \<open>demo/WriteMain.cpp\<close>, which stores a local file in the file system, and \<open>demo/ReadMain.cpp\<close>,
  which gets it back, both in pieces of random length. The random numbers are an argument, a list with one element
  for each round; a run that needs more rounds is \<open>None\<close>.
\<close>

subsection \<open>The programs\<close>

definition demo_info :: SystemInfo where
  "demo_info = \<lparr>m_diskCapacity = 1024 * 1024 * 1024 * 100, m_diskRootDir = ''../data/'', m_edgeFSUsableMemory = 1024 * 1024 * 100\<rparr>"

definition demo_len :: "u32 \<Rightarrow> u64 \<Rightarrow> u64 \<Rightarrow> u32" where
  "demo_len d fileSize writeLen = ucast (min (ucast d) (fileSize - writeLen))"

text \<open>
  The result tells whether the loop was left at its end, with \<open>writeLen\<close>. Each round has the length that was drawn
  and the numbers that \<open>write\<close> draws.
\<close>

fun write_rounds :: "'w file_os \<Rightarrow> SHA_INFO \<Rightarrow> byte list \<Rightarrow> FileOper \<Rightarrow> u64 \<Rightarrow> (u32 \<times> (nat \<Rightarrow> u32)) list \<Rightarrow> u64 \<Rightarrow>
    EdgeFS \<Rightarrow> 'w \<Rightarrow> (bool \<times> u64 \<times> EdgeFS \<times> 'w) outcome option" where
  "write_rounds os ctx name f fileSize draws writeLen fs w = (if \<not> writeLen < fileSize then return_o (True, writeLen, fs, w)
     else case draws of [] \<Rightarrow> None
     | (d, draw) # draws \<Rightarrow>
       let readLen = demo_len d fileSize writeLen; (ok, bytes, w) = fo_read os f readLen w in
       if \<not> ok then return_o (False, writeLen, fs, w)
       else bind_o (EdgeFS_write os ctx draw name (Some bytes) readLen fs w) (\<lambda>(ret, fs, w).
         if ret \<noteq> int (unat readLen) then return_o (False, writeLen, fs, w)
         else write_rounds os ctx name f fileSize draws (writeLen + of_int ret) fs w))"

fun read_rounds :: "'w file_os \<Rightarrow> SHA_INFO \<Rightarrow> byte list \<Rightarrow> FileOper \<Rightarrow> u64 \<Rightarrow> u32 list \<Rightarrow> u64 \<Rightarrow> (nat \<Rightarrow> byte) \<Rightarrow>
    EdgeFS \<Rightarrow> 'w \<Rightarrow> (bool \<times> u64 \<times> EdgeFS \<times> 'w) outcome option" where
  "read_rounds os ctx name f fileSize draws writeLen buff fs w = (if \<not> writeLen < fileSize then return_o (True, writeLen, fs, w)
     else case draws of [] \<Rightarrow> None
     | d # draws \<Rightarrow>
       let readLen = demo_len d fileSize writeLen in
       bind_o (EdgeFS_read os ctx name (Some buff) readLen writeLen fs w) (\<lambda>(ret, buff', fs, w).
         let buff = (case buff' of None \<Rightarrow> buff | Some b \<Rightarrow> b) in
         if ret \<noteq> int (unat readLen) then return_o (False, writeLen, fs, w)
         else let (ok, w) = fo_write os f (map buff [0..<unat readLen]) w in
           if \<not> ok then return_o (False, writeLen, fs, w)
           else read_rounds os ctx name f fileSize draws (writeLen + of_int ret) buff fs w))"

declare write_rounds.simps [simp del] read_rounds.simps [simp del]

text \<open>The end of both programs: the local file is closed, and those of the file system with its object.\<close>

definition demo_end :: "'w file_os \<Rightarrow> FileOper \<Rightarrow> EdgeFS \<Rightarrow> 'w \<Rightarrow> 'w" where
  "demo_end os f fs w = snd (fo_close os (m_pDataMgr fs) (snd (fo_close os (m_pIndexMgr fs) (snd (fo_close os f w)))))"

definition str_bytes :: "string \<Rightarrow> byte list" where
  "str_bytes cs = map (\<lambda>c. of_nat (of_char c)) cs"

text \<open>The result is that of \<open>main\<close>, with the object as it was at the end.\<close>

definition write_main :: "'w file_os \<Rightarrow> 'w mmap \<Rightarrow> SHA_INFO \<Rightarrow> int \<Rightarrow> string \<Rightarrow> u64 \<Rightarrow> (u32 \<times> (nat \<Rightarrow> u32)) list \<Rightarrow> 'w \<Rightarrow>
    (int \<times> EdgeFS option \<times> 'w) outcome option" where
  "write_main os mmap ctx argc filename fileSize draws w = (if argc < 3 then return_o (- 1, None, w)
     else let fs = EdgeFS_new; (ok, f, w) = fo_open os (fo_setPath filename FileOper_new) w in
       if \<not> ok then return_o (0, Some fs, demo_end os f fs w)
       else bind_o (Some (EdgeFS_initFS os mmap demo_info fs w)) (\<lambda>(ok, fs, w).
         if \<not> ok then return_o (0, Some fs, demo_end os f fs w)
         else bind_o (write_rounds os ctx (str_bytes filename) f fileSize draws 0 fs w) (\<lambda>(_, _, fs, w). return_o (0, Some fs, demo_end os f fs w))))"

definition read_main :: "'w file_os \<Rightarrow> 'w mmap \<Rightarrow> SHA_INFO \<Rightarrow> int \<Rightarrow> string \<Rightarrow> u64 \<Rightarrow> u32 list \<Rightarrow> (nat \<Rightarrow> byte) \<Rightarrow> 'w \<Rightarrow>
    (int \<times> EdgeFS option \<times> 'w) outcome option" where
  "read_main os mmap ctx argc filename fileSize draws buff w = (if argc < 3 then return_o (- 1, None, w)
     else let fs = EdgeFS_new; path = ''read_'' @ filename; w = sys_unlink os path w;
              (ok, f, w) = fo_open os (fo_setPath path FileOper_new) w in
       if \<not> ok then return_o (0, Some fs, demo_end os f fs w)
       else bind_o (Some (EdgeFS_initFS os mmap demo_info fs w)) (\<lambda>(ok, fs, w).
         if \<not> ok then return_o (0, Some fs, demo_end os f fs w)
         else bind_o (read_rounds os ctx (str_bytes filename) f fileSize draws 0 buff fs w) (\<lambda>(_, _, fs, w). return_o (0, Some fs, demo_end os f fs w))))"

text \<open>The sizes that \<open>initFS\<close> takes: chunks of 1 MB on the whole disk, so that most draws, which go up to 5 MB, ask for several chunks.\<close>

lemma demo_sizes: "initFSCalcVariable demo_info = Done (Some (102400, 1048576, 107374182400, 12800, 4313640))"
  by code_simp

subsection \<open>What a write and a read leave alone\<close>

text \<open>Whatever the writes to the data file leave as it is, \<open>write\<close> leaves as it is; so for the reads.\<close>

lemma first_write_keeps:
  assumes "\<And>bs off w. P (snd (put bs off w)) = P w"
  shows "first_write put cs sha buff n p T ids (remain, real, fs, w) = return_o (ok, remain', real', fs', w') \<Longrightarrow> P w' = P w"
  using assms [of "buff_part buff real n" _ w]
  by (auto simp: first_write_def bind_o_Done Let_def split: if_splits prod.splits) (metis snd_conv)+

lemma write_chunks_keeps:
  assumes "\<And>bs off w. P (snd (put bs off w)) = P w"
  shows "write_chunks put cs sha buff n need lastLen ids is (remain, real, fs, w) = return_o (remain', real', fs', w') \<Longrightarrow> P w' = P w"
proof (induction "is" arbitrary: remain real fs w)
  case (Cons i "is")
  let ?len = "if remain \<ge> ucast cs then cs else ucast remain"
  obtain ok v where put: "put (buff_part buff real ?len) (chunk_offset cs (ids ! i)) w = (ok, v)" by (cases "put (buff_part buff real ?len) (chunk_offset cs (ids ! i)) w")
  then have v: "P v = P w" using assms by (metis snd_conv)
  from Cons.prems put show ?case
    using Cons.IH v by (fastforce simp: bind_o_Done Let_def split: if_splits)
qed simp

lemma write_keeps:
  assumes keeps: "\<And>bs off w. P (snd (DataMgr_write os (m_pDataMgr fs) bs off w)) = P w"
    and run: "EdgeFS_write os ctx draw name buff len fs w = return_o (r, fs', w')"
  shows "P w' = P w"
proof -
  have data: "P w' = P w" if "write_data (DataMgr_write os (m_pDataMgr fs)) cs sha buff len n need lastLen p T ids fs0 w = return_o (remain, real, fs', w')"
    for cs sha buff len n need lastLen p T ids fs0 remain real fs'
  proof -
    from that obtain ok remain1 real1 fs1 w1 where
      first: "first_write (DataMgr_write os (m_pDataMgr fs)) cs sha buff n p T ids (ucast len, 0, fs0, w) = return_o (ok, remain1, real1, fs1, w1)"
      and more: "w' = w1 \<or> write_chunks (DataMgr_write os (m_pDataMgr fs)) cs sha buff n need lastLen ids [0..<unat need] (remain1, real1, fs1, w1) =
        return_o (remain, real, fs', w')"
      by (auto simp: write_data_def bind_o_Done split: if_splits)
    from first_write_keeps [of P "DataMgr_write os (m_pDataMgr fs)", OF keeps first] more
      write_chunks_keeps [of P "DataMgr_write os (m_pDataMgr fs)", OF keeps] show ?thesis by auto
  qed
  show ?thesis
  proof (cases buff)
    case None
    with run show ?thesis by (simp add: EdgeFS_write_def)
  next
    case (Some b)
    with run data show ?thesis
      by (auto simp: EdgeFS_write_def Let_def bind_o_Done split: option.splits if_splits)
  qed
qed

lemma read_data_keeps:
  assumes "\<And>n off w. P (snd (snd (get n off w))) = P w"
  shows "read_data get infos real buff w = (real', buff', w') \<Longrightarrow> P w' = P w"
proof (induction infos arbitrary: real buff w)
  case (Cons i infos)
  obtain off n where i: "i = (off, n)" by (cases i)
  obtain ok bytes v where get: "get n off w = (ok, bytes, v)" by (cases "get n off w")
  then have "P v = P w" using assms [of n off w] by simp
  with Cons get show ?case by (auto simp: i Let_def split: if_splits)
qed simp

lemma read_keeps:
  assumes keeps: "\<And>n off w. P (snd (snd (fo_read_at os (m_pDataMgr fs) n off w))) = P w"
    and run: "EdgeFS_read os ctx name buff len offset fs w = return_o (r, b, fs', w')"
  shows "P w' = P w"
proof (cases buff)
  case None
  with run show ?thesis by (simp add: EdgeFS_read_def)
next
  case (Some b)
  with run read_data_keeps [of P "fo_read_at os (m_pDataMgr fs)", OF keeps] show ?thesis
    by (auto simp: EdgeFS_read_def Let_def bind_o_Done split: option.splits if_splits prod.splits) (metis prod_cases3)
qed

subsection \<open>The local files\<close>

text \<open>
  What the programs rely on: \<open>src\<close> is what is left of a local file that is read, \<open>dst\<close> what was written to one; the
  data file and the local ones do not touch each other.
\<close>

locale source_file =
  fixes rd :: "u32 \<Rightarrow> 'w \<Rightarrow> bool \<times> byte list \<times> 'w"
    and put :: "byte list \<Rightarrow> u64 \<Rightarrow> 'w \<Rightarrow> bool \<times> 'w"
    and dat :: "'w \<Rightarrow> nat \<Rightarrow> byte" and src :: "'w \<Rightarrow> byte list"
  assumes rd_all: "unat n \<le> length (src w) \<Longrightarrow> \<exists>w'. rd n w = (True, take (unat n) (src w), w') \<and> src w' = drop (unat n) (src w) \<and> dat w' = dat w"
    and src_put: "src (snd (put bs off w)) = src w"

locale target_file =
  fixes wr :: "byte list \<Rightarrow> 'w \<Rightarrow> bool \<times> 'w"
    and get :: "u32 \<Rightarrow> u64 \<Rightarrow> 'w \<Rightarrow> bool \<times> byte list \<times> 'w"
    and dat :: "'w \<Rightarrow> nat \<Rightarrow> byte" and dst :: "'w \<Rightarrow> byte list"
  assumes wr_all: "\<exists>w'. wr bs w = (True, w') \<and> dst w' = dst w @ bs \<and> dat w' = dat w"
    and dst_get: "dst (snd (snd (get n off w))) = dst w"

lemma demo_len_unat: "writeLen \<le> fileSize \<Longrightarrow> unat (demo_len d fileSize writeLen) = min (unat d) (unat fileSize - unat writeLen)"
proof -
  assume le: "writeLen \<le> fileSize"
  have "unat (min (ucast d) (fileSize - writeLen)) = min (unat d) (unat fileSize - unat writeLen)"
    using le by (simp add: min_def word_le_nat_alt unat_up unat_sub)
  moreover have "min (unat d) (unat fileSize - unat writeLen) < 2 ^ 32"
    using unat_less_power [OF refl, of d] by simp
  ultimately show ?thesis by (simp add: demo_len_def unsigned_ucast_eq take_bit_nat_eq_self)
qed

lemma unat_add_len:
  fixes n :: u32 and writeLen fileSize :: u64
  assumes "unat writeLen + unat n \<le> unat fileSize"
  shows "unat (writeLen + of_int (int (unat n))) = unat writeLen + unat n"
proof -
  have "unat writeLen + unat n < 2 ^ 64" using assms unat_less_power [OF refl, of fileSize] by simp
  then show ?thesis by (simp add: unat_word_ariths unat_up)
qed

subsection \<open>Storing a file\<close>

lemma write_rounds_ok:
  assumes disk: "data_file (DataMgr_write (os :: 'w file_os) mgr) (fo_read_at os mgr) dat cap" and cap: "unat (m_chunkNum h) * unat (m_chunkSize h) \<le> cap"
    and name: "length (sha_buf ctx) = 64" "length name < 2 ^ 31"
    and source: "source_file (fo_read os f) (DataMgr_write os mgr) dat src"
  shows "fs_ok h fs \<Longrightarrow> m_pDataMgr fs = mgr \<Longrightarrow> \<forall>d \<in> set draws. fst d \<le> m_chunkSize h \<Longrightarrow> writeLen \<le> fileSize \<Longrightarrow>
    unat fileSize \<le> unat writeLen + sum_list (map (unat \<circ> fst) draws) \<Longrightarrow> unat fileSize - unat writeLen \<le> length (src w) \<Longrightarrow>
    \<exists>all n fs' w'. write_rounds os ctx name f fileSize draws writeLen fs w = return_o (all, n, fs', w') \<and>
      fs_ok h fs' \<and> m_pDataMgr fs' = mgr \<and> writeLen \<le> n \<and> n \<le> fileSize \<and> (if all then n = fileSize else unused_chunks (m_pMetaPool fs') = 0) \<and>
      (\<forall>t. file_bytes h (dat w') (m_pMetaPool fs') t = (if t = sha1 name
        then file_bytes h (dat w) (m_pMetaPool fs) t @ take (unat n - unat writeLen) (src w) else file_bytes h (dat w) (m_pMetaPool fs) t))"
proof (induction draws arbitrary: writeLen fs w)
  case Nil
  then have "writeLen = fileSize" by (simp add: word_le_nat_alt word_unat_eq_iff)
  with Nil(1,2) show ?case by (intro exI [of _ True] exI [of _ fileSize] exI [of _ fs] exI [of _ w]) (simp add: write_rounds.simps)
next
  case (Cons d draws)
  show ?case
  proof (cases "writeLen < fileSize")
    case False
    with Cons.prems(4) have "writeLen = fileSize" by simp
    with Cons.prems(1,2) show ?thesis by (intro exI [of _ True] exI [of _ fileSize] exI [of _ fs] exI [of _ w]) (simp add: write_rounds.simps)
  next
    case True
    obtain len draw where d: "d = (len, draw)" by (cases d)
    define L where "L = demo_len len fileSize writeLen"
    have L: "unat L = min (unat len) (unat fileSize - unat writeLen)" unfolding L_def by (rule demo_len_unat [OF Cons.prems(4)])
    then have fits: "unat L \<le> length (src w)" "L \<le> m_chunkSize h" "unat writeLen + unat L \<le> unat fileSize"
      using Cons.prems(3,4,6) d by (auto simp: word_le_nat_alt)
    obtain w1 where rd: "fo_read os f L w = (True, take (unat L) (src w), w1)" "src w1 = drop (unat L) (src w)" "dat w1 = dat w"
      using source_file.rd_all [OF source fits(1)] by blast
    let ?bytes = "take (unat L) (src w)"
    have len: "length ?bytes = unat L" using fits(1) by simp
    have round: "write_rounds os ctx name f fileSize (d # draws) writeLen fs w =
        bind_o (EdgeFS_write os ctx draw name (Some ?bytes) L fs w1) (\<lambda>(ret, fs, w).
         if ret \<noteq> int (unat L) then return_o (False, writeLen, fs, w)
         else write_rounds os ctx name f fileSize draws (writeLen + of_int ret) fs w)"
      using True by (subst write_rounds.simps) (simp add: d L_def [symmetric] rd(1))
    from write_appends [OF Cons.prems(1) disk [folded Cons.prems(2)] cap name len disjI1 [OF fits(2)], of draw w1]
    show ?thesis
    proof (elim disjE conjE exE)
      assume w: "EdgeFS_write os ctx draw name (Some ?bytes) L fs w1 = return_o (- 1, generateTaskid fs, w1)"
        "unused_chunks (m_pMetaPool fs) * unat (m_chunkSize h) < length ?bytes"
      have "unused_chunks (m_pMetaPool fs) = 0"
        using w(2) [unfolded len] fits(2) by (cases "unused_chunks (m_pMetaPool fs)") (auto simp: word_le_nat_alt)
      moreover have "- 1 \<noteq> int (unat L)" using of_nat_0_le_iff [of "unat L", where ?'a = int] by linarith
      ultimately show ?thesis using w(1) Cons.prems(1,2,4) rd(3)
        unfolding round by (intro exI [of _ False] exI [of _ writeLen] exI [of _ "generateTaskid fs"] exI [of _ w1]) (simp del: of_nat_unat)
    next
      fix fs2 w2
      assume w: "EdgeFS_write os ctx draw name (Some ?bytes) L fs w1 = return_o (int (length ?bytes), fs2, w2)" "fs_ok h fs2"
        "m_pDataMgr fs2 = m_pDataMgr fs" "\<forall>t. file_bytes h (dat w2) (m_pMetaPool fs2) t =
          (if t = sha1 name then file_bytes h (dat w1) (m_pMetaPool fs) t @ ?bytes else file_bytes h (dat w1) (m_pMetaPool fs) t)"
      define next_len where "next_len = writeLen + of_int (int (unat L))"
      have n: "unat next_len = unat writeLen + unat L" unfolding next_len_def by (rule unat_add_len [OF fits(3)])
      have "src w2 = src w1"
        by (rule write_keeps [OF _ w(1)]) (use source_file.src_put [OF source] Cons.prems(2) in simp)
      then have src: "src w2 = drop (unat L) (src w)" by (simp add: rd(2))
      have "m_pDataMgr fs2 = mgr" using w(3) Cons.prems(2) by simp
      moreover have "\<forall>d \<in> set draws. fst d \<le> m_chunkSize h" using Cons.prems(3) by simp
      moreover have "next_len \<le> fileSize" using fits(3) by (simp add: word_le_nat_alt n)
      moreover have "unat fileSize \<le> unat next_len + sum_list (map (unat \<circ> fst) draws)"
        using Cons.prems(5) L d n by (simp add: o_def min_def, linarith)
      moreover have "unat fileSize - unat next_len \<le> length (src w2)" using Cons.prems(6) by (simp add: src n)
      ultimately have "\<exists>all n' fs' w'. write_rounds os ctx name f fileSize draws next_len fs2 w2 = return_o (all, n', fs', w') \<and>
          fs_ok h fs' \<and> m_pDataMgr fs' = mgr \<and> next_len \<le> n' \<and> n' \<le> fileSize \<and> (if all then n' = fileSize else unused_chunks (m_pMetaPool fs') = 0) \<and>
          (\<forall>t. file_bytes h (dat w') (m_pMetaPool fs') t = (if t = sha1 name
            then file_bytes h (dat w2) (m_pMetaPool fs2) t @ take (unat n' - unat next_len) (src w2) else file_bytes h (dat w2) (m_pMetaPool fs2) t))"
        by (rule Cons.IH [OF w(2)])
      then
      obtain all n' fs' w' where IH: "write_rounds os ctx name f fileSize draws next_len fs2 w2 = return_o (all, n', fs', w')"
        "fs_ok h fs'" "m_pDataMgr fs' = mgr" "next_len \<le> n'" "n' \<le> fileSize" "if all then n' = fileSize else unused_chunks (m_pMetaPool fs') = 0"
        "\<forall>t. file_bytes h (dat w') (m_pMetaPool fs') t = (if t = sha1 name
          then file_bytes h (dat w2) (m_pMetaPool fs2) t @ take (unat n' - unat next_len) (src w2) else file_bytes h (dat w2) (m_pMetaPool fs2) t)"
        by (elim exE conjE) (rule that)
      have "take (unat L) (src w) @ take (unat n' - unat next_len) (src w2) = take (unat n' - unat writeLen) (src w)"
        using IH(4) by (simp add: src n word_le_nat_alt take_add [symmetric])
      moreover have "writeLen \<le> n'" using IH(4) by (simp add: n word_le_nat_alt)
      moreover have "write_rounds os ctx name f fileSize (d # draws) writeLen fs w = return_o (all, n', fs', w')"
        unfolding round using w(1) len IH(1) by (simp add: next_len_def)
      ultimately show ?thesis using IH(2,3,5,6,7) w(4) rd(3)
        by (intro exI [of _ all] exI [of _ n'] exI [of _ fs'] exI [of _ w']) simp
    qed
  qed
qed

subsection \<open>Getting it back\<close>

lemma overwrite_front: "length bs = n \<Longrightarrow> map (overwrite g 0 bs) [0..<n] = bs"
  by (rule nth_equalityI) (simp_all add: overwrite_def)

lemma take_drop_parts:
  assumes "a + l \<le> n"
  shows "take l (drop a xs) @ take (n - (a + l)) (drop (a + l) xs) = take (n - a) (drop a xs)"
proof -
  from assms have "n - a = l + (n - (a + l))" by simp
  then have "take (n - a) (drop a xs) = take (l + (n - (a + l))) (drop a xs)" by simp
  then show ?thesis by (simp only: take_add drop_drop add.commute)
qed

lemma read_rounds_ok:
  assumes disk: "data_file (DataMgr_write (os :: 'w file_os) mgr) (fo_read_at os mgr) dat cap" and cap: "unat (m_chunkNum h) * unat (m_chunkSize h) \<le> cap"
    and name: "length (sha_buf ctx) = 64" "length name < 2 ^ 31"
    and target: "target_file (fo_write os f) (fo_read_at os mgr) dat dst" and size: "unat fileSize \<le> length bytes"
  shows "fs_ok h fs \<Longrightarrow> m_pDataMgr fs = mgr \<Longrightarrow> file_bytes h (dat w) (m_pMetaPool fs) (sha1 name) = bytes \<Longrightarrow>
    \<forall>d \<in> set draws. unat d + unat (m_chunkSize h) \<le> 2 ^ 32 \<Longrightarrow> writeLen \<le> fileSize \<Longrightarrow>
    unat fileSize \<le> unat writeLen + sum_list (map unat draws) \<Longrightarrow>
    \<exists>fs' w'. read_rounds os ctx name f fileSize draws writeLen buff fs w = return_o (True, fileSize, fs', w') \<and>
      dst w' = dst w @ take (unat fileSize - unat writeLen) (drop (unat writeLen) bytes)"
proof (induction draws arbitrary: writeLen buff fs w)
  case Nil
  then have "writeLen = fileSize" by (simp add: word_le_nat_alt word_unat_eq_iff)
  then show ?case by (simp add: read_rounds.simps)
next
  case (Cons d draws)
  show ?case
  proof (cases "writeLen < fileSize")
    case False
    with Cons.prems(5) have "writeLen = fileSize" by simp
    then show ?thesis by (simp add: read_rounds.simps)
  next
    case True
    define L where "L = demo_len d fileSize writeLen"
    have L: "unat L = min (unat d) (unat fileSize - unat writeLen)" unfolding L_def by (rule demo_len_unat [OF Cons.prems(5)])
    have fits: "unat L + unat (m_chunkSize h) \<le> 2 ^ 32" "unat writeLen + unat L \<le> unat fileSize" "unat writeLen < length bytes"
      using Cons.prems(4,5) True size by (auto simp: word_le_nat_alt word_less_nat_alt L)
    define part where "part = take (unat L) (drop (unat writeLen) bytes)"
    have part: "length part = unat L" using fits(2) size by (simp add: part_def)
    define next_len where "next_len = writeLen + of_int (int (unat L))"
    have n: "unat next_len = unat writeLen + unat L" unfolding next_len_def by (rule unat_add_len [OF fits(2)])
    have inside: "unat writeLen + unat L \<le> length bytes" using fits(2) size by simp
    obtain w1 where "dat w1 = dat w" and rd: "EdgeFS_read os ctx name (Some buff) L writeLen fs w =
        return_o (int (unat L), Some (overwrite buff 0 part), generateTaskid fs, w1)"
      using read_slice [OF Cons.prems(1) disk [folded Cons.prems(2)] cap name fits(1) Cons.prems(3) [symmetric] fits(3) disjI1 [OF inside], of buff]
      by (auto simp: Let_def part_def [symmetric] part)
    have "dst w1 = dst w"
      by (rule read_keeps [OF _ rd]) (use target_file.dst_get [OF target] Cons.prems(2) in simp)
    obtain w2 where wr: "fo_write os f part w1 = (True, w2)" "dst w2 = dst w1 @ part" "dat w2 = dat w1"
      using target_file.wr_all [OF target] by blast
    have round: "read_rounds os ctx name f fileSize (d # draws) writeLen buff fs w =
        read_rounds os ctx name f fileSize draws next_len (overwrite buff 0 part) (generateTaskid fs) w2"
      using True by (subst read_rounds.simps) (simp add: L_def [symmetric] rd bind_o_Done overwrite_front [OF part] wr(1) next_len_def)
    have "file_bytes h (dat w2) (m_pMetaPool (generateTaskid fs)) (sha1 name) = bytes"
      using Cons.prems(3) \<open>dat w1 = dat w\<close> wr(3) by simp
    moreover have "\<forall>d \<in> set draws. unat d + unat (m_chunkSize h) \<le> 2 ^ 32" using Cons.prems(4) by simp
    moreover have "next_len \<le> fileSize" using fits(2) by (simp add: word_le_nat_alt n)
    moreover have "unat fileSize \<le> unat next_len + sum_list (map unat draws)" using Cons.prems(6) L n by (simp add: min_def, linarith)
    ultimately obtain fs' w' where "read_rounds os ctx name f fileSize draws next_len (overwrite buff 0 part) (generateTaskid fs) w2 =
        return_o (True, fileSize, fs', w')" "dst w' = dst w2 @ take (unat fileSize - unat next_len) (drop (unat next_len) bytes)"
      using Cons.IH [of "generateTaskid fs" w2 next_len "overwrite buff 0 part"] Cons.prems(1,2) by auto
    moreover have "part @ take (unat fileSize - unat next_len) (drop (unat next_len) bytes) =
        take (unat fileSize - unat writeLen) (drop (unat writeLen) bytes)"
      unfolding part_def n by (rule take_drop_parts [OF fits(2)])
    ultimately show ?thesis unfolding round by (simp add: wr(2) \<open>dst w1 = dst w\<close>)
  qed
qed

text \<open>C9: Demo programs. The loops of the two programs, one after the other: what the first stores of a file that
  the file system does not have yet, in pieces of at most a chunk, the second writes to the local file byte for byte,
  whatever lengths the two draw. The first stops early only when no chunk is left.\<close>

theorem fs_demo_round_trip:
  assumes "fs_ok h fs"
    and "data_file (DataMgr_write os (m_pDataMgr fs)) (fo_read_at os (m_pDataMgr fs)) dat cap"
    and "unat (m_chunkNum h) * unat (m_chunkSize h) \<le> cap" and "length (sha_buf ctx) = 64" "length name < 2 ^ 31"
    and "source_file (fo_read os f) (DataMgr_write os (m_pDataMgr fs)) dat src"
    and "target_file (fo_write os g) (fo_read_at os (m_pDataMgr fs)) dat dst"
    and "file_bytes h (dat w) (m_pMetaPool fs) (sha1 name) = []" "unat fileSize \<le> length (src w)"
    and "\<forall>d \<in> set draws. fst d \<le> m_chunkSize h" "unat fileSize \<le> sum_list (map (unat \<circ> fst) draws)"
    and "\<forall>d \<in> set draws'. unat d + unat (m_chunkSize h) \<le> 2 ^ 32" "unat fileSize \<le> sum_list (map unat draws')"
  shows "\<exists>all n fs' w'. write_rounds os ctx name f fileSize draws 0 fs w = return_o (all, n, fs', w') \<and>
    (if all then \<exists>fs'' w''. read_rounds os ctx name g fileSize draws' 0 buff fs' w' = return_o (True, fileSize, fs'', w'') \<and>
       dst w'' = dst w' @ take (unat fileSize) (src w)
     else unused_chunks (m_pMetaPool fs') = 0)"
proof -
  from write_rounds_ok [OF assms(2-6,1) refl assms(10), of 0 fileSize w] assms(9,11) obtain all n fs' w' where
    run: "write_rounds os ctx name f fileSize draws 0 fs w = return_o (all, n, fs', w')" "fs_ok h fs'" "m_pDataMgr fs' = m_pDataMgr fs"
      "if all then n = fileSize else unused_chunks (m_pMetaPool fs') = 0"
      "file_bytes h (dat w') (m_pMetaPool fs') (sha1 name) = take (unat n) (src w)"
    by (auto simp: assms(8))
  show ?thesis
  proof (cases all)
    case True
    with run(4,5) have bytes: "file_bytes h (dat w') (m_pMetaPool fs') (sha1 name) = take (unat fileSize) (src w)" by simp
    have "unat fileSize \<le> length (take (unat fileSize) (src w))" using assms(9) by simp
    from read_rounds_ok [OF assms(2-5,7) this run(2,3) bytes assms(12), of 0 buff] assms(13) True run(1) show ?thesis by auto
  next
    case False
    with run(1,4) show ?thesis by auto
  qed
qed

subsection \<open>Instances\<close>

text \<open>The data file 3 with the local files 4, which is read, and 5, which is written.\<close>

record three_files = plain_file +
  tf_src :: "byte list"
  tf_dst :: "byte list"

definition three_os :: "three_files file_os" where
  "three_os = \<lparr>sys_open = (\<lambda>path w. (if path = ''../data//edgefs.data'' then 3 else if take 5 path = ''read_'' then 5 else 4, w)),
     sys_close = (\<lambda>_ w. w), sys_lseek = (\<lambda>_ off w. (0, w\<lparr>pf_pos := unat off\<rparr>)),
     sys_write = (\<lambda>fd bs w. (int (length bs), if fd = 5 then w\<lparr>tf_dst := tf_dst w @ bs\<rparr>
       else w\<lparr>pf_bytes := overwrite (pf_bytes w) (pf_pos w) bs, pf_pos := pf_pos w + length bs\<rparr>)),
     sys_read = (\<lambda>fd n w. if fd = 4 then (int (min n (length (tf_src w))), take n (tf_src w), w\<lparr>tf_src := drop n (tf_src w)\<rparr>)
       else (int n, map (pf_bytes w) [pf_pos w..<pf_pos w + n], w\<lparr>pf_pos := pf_pos w + n\<rparr>)),
     sys_unlink = (\<lambda>_ w. w), sys_ftruncate = (\<lambda>_ _ w. (0, w)), sys_access = (\<lambda>_ w. (- 1, w))\<rparr>"

lemmas three_defs = DataMgr_write_def fo_write_at_def fo_write_def fo_read_at_def fo_read_def three_os_def

interpretation three: data_file "DataMgr_write three_os \<lparr>m_fd = 3, m_path = path\<rparr>" "fo_read_at three_os \<lparr>m_fd = 3, m_path = path\<rparr>"
    pf_bytes cap
  by unfold_locales (simp_all add: three_defs)

interpretation three_src: source_file "fo_read three_os \<lparr>m_fd = 4, m_path = path\<rparr>" "DataMgr_write three_os \<lparr>m_fd = 3, m_path = data_path\<rparr>"
    pf_bytes tf_src
  by unfold_locales (simp_all add: three_defs)

interpretation three_dst: target_file "fo_write three_os \<lparr>m_fd = 5, m_path = path\<rparr>" "fo_read_at three_os \<lparr>m_fd = 3, m_path = data_path\<rparr>"
    pf_bytes tf_dst
  by unfold_locales (simp_all add: three_defs)

theorem fs_demo_round_trip_witness:
  "\<exists>all n fs' w'. write_rounds three_os zero_info [97] \<lparr>m_fd = 4, m_path = ''a''\<rparr> 5 [(3, \<lambda>_. 0), (4, \<lambda>_. 0)] 0 small_fs
      \<lparr>pf_bytes = \<lambda>_. 0, pf_pos = 0, tf_src = [1, 2, 3, 4, 5], tf_dst = []\<rparr> = return_o (all, n, fs', w') \<and>
    (if all then \<exists>fs'' w''. read_rounds three_os zero_info [97] \<lparr>m_fd = 5, m_path = ''read_a''\<rparr> 5 [4, 2] 0 (\<lambda>_. 0) fs' w' = return_o (True, 5, fs'', w'') \<and>
       tf_dst w'' = tf_dst w' @ [1, 2, 3, 4, 5]
     else unused_chunks (m_pMetaPool fs') = 0)"
proof -
  have mgr: "m_pDataMgr small_fs = \<lparr>m_fd = 3, m_path = ''edgefs.data''\<rparr>" by (simp add: small_fs_def)
  show ?thesis
    using fs_demo_round_trip [OF small_fs_ok(1) three.data_file_axioms [of "''edgefs.data''", folded mgr] small_sizes(1,3,4)
        three_src.source_file_axioms [of "''a''" "''edgefs.data''", folded mgr] three_dst.target_file_axioms [of "''read_a''" "''edgefs.data''", folded mgr],
        of "\<lparr>pf_bytes = \<lambda>_. 0, pf_pos = 0, tf_src = [1, 2, 3, 4, 5], tf_dst = []\<rparr>" 5 "[(3, \<lambda>_. 0), (4, \<lambda>_. 0)]" "[4, 2]" "\<lambda>_. 0"]
    by (simp add: small_fs_ok(2) small_sizes(2) cong: if_cong split del: if_split)
qed

end
