(* ===== verification/FsLog.thy ===== *)
theory FsLog
  imports FsFile
begin

text \<open>
  \<open>logger.cpp\<close> and \<open>AsyncLogging.cpp\<close>: a line is cut to the size of a buffer, put into a queue by the caller
  and written to the log file by a thread of its own. The thread and the callers are a step relation; the
  regions that hold the mutex are one step each. \<open>notify_one\<close> is not called under the mutex, but it changes
  nothing unless the thread waits, and so it does not matter whether it happens before the test of the queue
  or between the test and the wait.
\<close>

subsection \<open>One line\<close>

datatype LogLevel = LogLevel_DEBUG | LogLevel_INFO | LogLevel_NOTICE | LogLevel_WARN | LogLevel_ERROR | LogLevel_FATAL | LogLevel_NONE

fun level_no :: "LogLevel \<Rightarrow> nat" where
  "level_no LogLevel_DEBUG = 0"
| "level_no LogLevel_INFO = 1"
| "level_no LogLevel_NOTICE = 2"
| "level_no LogLevel_WARN = 3"
| "level_no LogLevel_ERROR = 4"
| "level_no LogLevel_FATAL = 5"
| "level_no LogLevel_NONE = 6"

definition LOG_MAX_BUF_SIZE :: nat where "LOG_MAX_BUF_SIZE = 2048"

text \<open>What follows the last slash, or the whole path.\<close>

definition file_name :: "byte list \<Rightarrow> byte list" where
  "file_name file = rev (takeWhile (\<lambda>c. c \<noteq> 47) (rev file))"

text \<open>
  The level is that of the instance, \<open>None\<close> if there is none; \<open>text\<close> is what the format and the arguments expand
  to. The result is the string given to \<open>AsyncLogging::log\<close>, which ends at the first zero.
\<close>

definition mediaLog :: "LogLevel option \<Rightarrow> LogLevel \<Rightarrow> byte list \<Rightarrow> byte list \<Rightarrow> byte list \<Rightarrow> byte list option" where
  "mediaLog inst level level_str file text = (case inst of None \<Rightarrow> None
   | Some cur \<Rightarrow> if level = LogLevel_NONE \<or> level_no level < level_no cur then None
     else let buf = take (30 - 1) (level_str @ [32, 91] @ file_name file);
              buf = buf @ take (LOG_MAX_BUF_SIZE - 1 - length buf - 1) text in
       Some (takeWhile (\<lambda>c. c \<noteq> 0) buf))"

subsection \<open>The thread and its callers\<close>

text \<open>
  Where the thread is in \<open>logOutput\<close>: at the test of the loop, before the mutex, waiting, woken up and about to
  swap the queues, writing lines, or at the end. The flag tells the block behind the loop from the one in it.
  \<open>FileOper::write\<close> logs its own failure: then the thread is in \<open>log\<close> before the test or before the push, and
  goes on as the last argument says.
\<close>

datatype log_thread = At_Test | At_Take bool | Waiting bool | Woken bool | Writing "byte list list" | Last_Writing nat "byte list list" | Ended
  | Failed log_thread | Reporting "byte list" log_thread

text \<open>Where a caller is: outside, in \<open>log\<close> before the push and before \<open>notify_one\<close>, in \<open>stop\<close> before \<open>notify_one\<close> and in \<open>join\<close>.\<close>

datatype log_caller = Outside | At_Push "byte list" | At_Notify | Stop_Notify | At_Join

record 'w AsyncLogging =
  m_isStop :: bool
  m_shareQueue :: "byte list list"
  al_thread :: log_thread
  al_callers :: "nat \<Rightarrow> log_caller"
  m_pFileOper :: FileOper
  al_world :: 'w

text \<open>The constructor with \<open>start\<close>, and \<open>init\<close>.\<close>

definition AsyncLogging_new :: "'w \<Rightarrow> 'w AsyncLogging" where
  "AsyncLogging_new w = \<lparr>m_isStop = False, m_shareQueue = [], al_thread = At_Test, al_callers = (\<lambda>_. Outside),
     m_pFileOper = FileOper_new, al_world = w\<rparr>"

definition AsyncLogging_init :: "'w file_os \<Rightarrow> string \<Rightarrow> 'w AsyncLogging \<Rightarrow> 'w AsyncLogging" where
  "AsyncLogging_init os path s = (let (_, f, w) = fo_open os (fo_setPath path (m_pFileOper s)) (al_world s) in
     s\<lparr>m_pFileOper := f, al_world := w\<rparr>)"

text \<open>The one instance; and what is left of the destructor when \<open>stop\<close> has returned.\<close>

definition AsyncLogging_create :: "'w \<Rightarrow> 'w AsyncLogging option \<Rightarrow> 'w AsyncLogging option" where
  "AsyncLogging_create w inst = (case inst of None \<Rightarrow> Some (AsyncLogging_new w) | Some s \<Rightarrow> Some s)"

definition AsyncLogging_close :: "'w file_os \<Rightarrow> 'w AsyncLogging \<Rightarrow> 'w" where
  "AsyncLogging_close os s = snd (fo_close os (m_pFileOper s) (al_world s))"

text \<open>\<open>notify_one\<close>.\<close>

fun wake :: "log_thread \<Rightarrow> log_thread" where
  "wake (Waiting b) = Woken b"
| "wake t = t"

definition log_info :: "byte list \<Rightarrow> byte list \<Rightarrow> byte list" where
  "log_info time msg = time @ [32] @ msg @ [10]"

text \<open>What the swap takes out is written, in the loop or behind it.\<close>

definition write_taken :: "bool \<Rightarrow> byte list list \<Rightarrow> log_thread" where
  "write_taken b q = (if b then Last_Writing 0 q else Writing q)"

datatype log_event = Log_Call nat "byte list" "byte list" | Pushed "byte list" | Put "byte list"
  | Stop_Call nat | Joined nat | Spurious | Internal

abbreviation set_thread :: "log_thread \<Rightarrow> 'w AsyncLogging \<Rightarrow> 'w AsyncLogging" where
  "set_thread t s \<equiv> s\<lparr>al_thread := t\<rparr>"

abbreviation set_caller :: "nat \<Rightarrow> log_caller \<Rightarrow> 'w AsyncLogging \<Rightarrow> 'w AsyncLogging" where
  "set_caller i c s \<equiv> s\<lparr>al_callers := (al_callers s)(i := c)\<rparr>"

definition log_put :: "'w file_os \<Rightarrow> byte list \<Rightarrow> 'w AsyncLogging \<Rightarrow> 'w AsyncLogging" where
  "log_put os msg s = s\<lparr>al_world := snd (fo_write os (m_pFileOper s) msg (al_world s))\<rparr>"

text \<open>After the write of a line: a closed file is refused without a word.\<close>

definition after_put :: "'w file_os \<Rightarrow> byte list \<Rightarrow> 'w AsyncLogging \<Rightarrow> log_thread \<Rightarrow> log_thread" where
  "after_put os msg s t = (if m_fd (m_pFileOper s) \<le> 0 \<or> fst (fo_write os (m_pFileOper s) msg (al_world s)) then t else Failed t)"

text \<open>The steps of \<open>n\<close> callers, in \<open>log\<close> and \<open>stop\<close>, and of the thread. A wait may end without a notification.\<close>

inductive log_step :: "'w file_os \<Rightarrow> nat \<Rightarrow> log_event \<Rightarrow> 'w AsyncLogging \<Rightarrow> 'w AsyncLogging \<Rightarrow> bool" for os n where
  log_full: "i < n \<Longrightarrow> al_callers s i = Outside \<Longrightarrow> length (m_shareQueue s) > 10000 \<Longrightarrow> log_step os n (Log_Call i time msg) s s"
| log_call: "i < n \<Longrightarrow> al_callers s i = Outside \<Longrightarrow> \<not> length (m_shareQueue s) > 10000 \<Longrightarrow>
    log_step os n (Log_Call i time msg) s (set_caller i (At_Push (log_info time msg)) s)"
| log_push: "i < n \<Longrightarrow> al_callers s i = At_Push info \<Longrightarrow>
    log_step os n (Pushed info) s (set_caller i At_Notify (s\<lparr>m_shareQueue := m_shareQueue s @ [info]\<rparr>))"
| log_notify: "i < n \<Longrightarrow> al_callers s i = At_Notify \<Longrightarrow>
    log_step os n Internal s (set_caller i Outside (set_thread (wake (al_thread s)) s))"
| stop_again: "i < n \<Longrightarrow> al_callers s i = Outside \<Longrightarrow> m_isStop s \<Longrightarrow> log_step os n (Stop_Call i) s s"
| stop_call: "i < n \<Longrightarrow> al_callers s i = Outside \<Longrightarrow> \<not> m_isStop s \<Longrightarrow>
    log_step os n (Stop_Call i) s (set_caller i Stop_Notify (s\<lparr>m_isStop := True\<rparr>))"
| stop_notify: "i < n \<Longrightarrow> al_callers s i = Stop_Notify \<Longrightarrow>
    log_step os n Internal s (set_caller i At_Join (set_thread (wake (al_thread s)) s))"
| stop_join: "i < n \<Longrightarrow> al_callers s i = At_Join \<Longrightarrow> al_thread s = Ended \<Longrightarrow> log_step os n (Joined i) s (set_caller i Outside s)"
| thread_loop: "al_thread s = At_Test \<Longrightarrow> log_step os n Internal s (set_thread (At_Take (m_isStop s)) s)"
| thread_wait: "al_thread s = At_Take b \<Longrightarrow> m_shareQueue s = [] \<Longrightarrow> log_step os n Internal s (set_thread (Waiting b) s)"
| thread_take: "al_thread s = At_Take b \<Longrightarrow> m_shareQueue s \<noteq> [] \<Longrightarrow>
    log_step os n Internal s (set_thread (write_taken b (m_shareQueue s)) (s\<lparr>m_shareQueue := []\<rparr>))"
| thread_spurious: "al_thread s = Waiting b \<Longrightarrow> log_step os n Spurious s (set_thread (Woken b) s)"
| thread_woken: "al_thread s = Woken b \<Longrightarrow>
    log_step os n Internal s (set_thread (write_taken b (m_shareQueue s)) (s\<lparr>m_shareQueue := []\<rparr>))"
| thread_put: "al_thread s = Writing (msg # msgs) \<Longrightarrow> log_step os n (Put msg) s (set_thread (after_put os msg s (Writing msgs)) (log_put os msg s))"
| thread_again: "al_thread s = Writing [] \<Longrightarrow> log_step os n Internal s (set_thread At_Test s)"
| last_put: "al_thread s = Last_Writing i (msg # msgs) \<Longrightarrow> \<not> i > 10000 \<Longrightarrow>
    log_step os n (Put msg) s (set_thread (after_put os msg s (Last_Writing (i + 1) msgs)) (log_put os msg s))"
| last_break: "al_thread s = Last_Writing i (msg # msgs) \<Longrightarrow> i > 10000 \<Longrightarrow> log_step os n Internal s (set_thread Ended s)"
| thread_no_report: "al_thread s = Failed t \<Longrightarrow> length (m_shareQueue s) > 10000 \<Longrightarrow> log_step os n Internal s (set_thread t s)"
| thread_failed: "al_thread s = Failed t \<Longrightarrow> \<not> length (m_shareQueue s) > 10000 \<Longrightarrow>
    log_step os n Internal s (set_thread (Reporting (log_info time msg) t) s)"
| thread_report: "al_thread s = Reporting info t \<Longrightarrow>
    log_step os n (Pushed info) s (set_thread t (s\<lparr>m_shareQueue := m_shareQueue s @ [info]\<rparr>))"
| last_end: "al_thread s = Last_Writing i [] \<Longrightarrow> log_step os n Internal s (set_thread Ended s)"

text \<open>Runs with what was seen of them, in order.\<close>

inductive log_run :: "'w file_os \<Rightarrow> nat \<Rightarrow> 'w AsyncLogging \<Rightarrow> log_event list \<Rightarrow> 'w AsyncLogging \<Rightarrow> bool" for os n s where
  log_run_start: "log_run os n s [] s"
| log_run_step: "log_run os n s tr t \<Longrightarrow> log_step os n e t u \<Longrightarrow> log_run os n s (tr @ [e]) u"


inductive_cases log_runE: "log_run os n s tr t"

subsection \<open>What is written\<close>

definition log_pushed :: "log_event list \<Rightarrow> byte list list" where
  "log_pushed tr = concat (map (\<lambda>e. case e of Pushed m \<Rightarrow> [m] | _ \<Rightarrow> []) tr)"

definition log_written :: "log_event list \<Rightarrow> byte list list" where
  "log_written tr = concat (map (\<lambda>e. case e of Put m \<Rightarrow> [m] | _ \<Rightarrow> []) tr)"

lemma log_pushed_simps [simp]: "log_pushed [] = []" "log_pushed (tr @ [e]) = log_pushed tr @ (case e of Pushed m \<Rightarrow> [m] | _ \<Rightarrow> [])"
  by (simp_all add: log_pushed_def)

lemma log_written_simps [simp]: "log_written [] = []" "log_written (tr @ [e]) = log_written tr @ (case e of Put m \<Rightarrow> [m] | _ \<Rightarrow> [])"
  by (simp_all add: log_written_def)

fun in_hand :: "log_thread \<Rightarrow> byte list list" where
  "in_hand (Writing q) = q"
| "in_hand (Last_Writing _ q) = q"
| "in_hand (Failed t) = in_hand t"
| "in_hand (Reporting _ t) = in_hand t"
| "in_hand _ = []"

lemma in_hand_simps [simp]: "in_hand (wake t) = in_hand t" "in_hand (write_taken b q) = q" "in_hand (after_put os msg s t) = in_hand t"
  by (cases t) (simp_all add: write_taken_def after_put_def)

text \<open>The callers that have passed the test of the length of the queue.\<close>

definition pushing :: "nat \<Rightarrow> (nat \<Rightarrow> log_caller) \<Rightarrow> nat set" where
  "pushing n c = {i. i < n \<and> (\<exists>info. c i = At_Push info)}"

lemma pushing_card: "card (pushing n c) \<le> n"
  using card_mono [of "{..<n}" "pushing n c"] by (auto simp: pushing_def)

lemma pushing_finite: "finite (pushing n c)"
  by (simp add: pushing_def)

lemma pushing_same: "(\<And>info. c i \<noteq> At_Push info) \<Longrightarrow> (\<And>info. a \<noteq> At_Push info) \<Longrightarrow> pushing n (c(i := a)) = pushing n c"
  by (auto simp: pushing_def)

lemma pushing_less: "c i = At_Push info \<Longrightarrow> i < n \<Longrightarrow> card (pushing n c) = Suc (card (pushing n (c(i := At_Notify))))"
proof -
  assume "c i = At_Push info" "i < n"
  then have "pushing n c = insert i (pushing n (c(i := At_Notify)))" "i \<notin> pushing n (c(i := At_Notify))"
    by (auto simp: pushing_def)
  then show ?thesis using pushing_finite by (metis card_insert_disjoint)
qed

text \<open>The thread, too, may have passed that test, for a line about a failed write.\<close>

fun reporting :: "log_thread \<Rightarrow> nat" where
  "reporting (Reporting _ _) = 1"
| "reporting _ = 0"

fun writes :: "log_thread \<Rightarrow> bool" where
  "writes (Writing _) = True"
| "writes (Last_Writing _ _) = True"
| "writes _ = False"

fun resumes :: "log_thread \<Rightarrow> bool" where
  "resumes (Failed t) = writes t"
| "resumes (Reporting _ t) = writes t"
| "resumes _ = True"

lemma writes_plain: "writes t \<Longrightarrow> reporting t = 0 \<and> resumes t"
  by (cases t) simp_all

lemma wake_simps [simp]: "reporting (wake t) = reporting t \<and> resumes (wake t) = resumes t"
  by (cases t) simp_all

lemma thread_simps [simp]: "reporting (write_taken b q) = 0" "resumes (write_taken b q)"
  "writes t \<Longrightarrow> reporting (after_put os msg s t) = 0" "writes t \<Longrightarrow> resumes (after_put os msg s t)"
  by (simp_all add: write_taken_def after_put_def writes_plain)

definition log_bounded :: "nat \<Rightarrow> 'w AsyncLogging \<Rightarrow> bool" where
  "log_bounded n s \<longleftrightarrow> length (m_shareQueue s) + card (pushing n (al_callers s)) + reporting (al_thread s) \<le> 10001 + n \<and> resumes (al_thread s)"

lemma log_step_bounded: "log_step os n e s t \<Longrightarrow> log_bounded n s \<Longrightarrow> log_bounded n t"
proof (induction rule: log_step.induct)
  case (log_call i s time msg)
  have "reporting (al_thread s) \<le> 1" by (cases "al_thread s") simp_all
  with log_call pushing_card [of n "(al_callers s)(i := At_Push (log_info time msg))"] show ?case by (simp add: log_bounded_def)
next
  case (log_push i s info)
  with pushing_less [of "al_callers s" i info n] show ?case by (simp add: log_bounded_def)
next
  case (thread_failed s t time msg)
  with pushing_card [of n "al_callers s"] show ?case by (simp add: log_bounded_def)
next
  case (thread_report s info t)
  with writes_plain [of t] show ?case by (simp add: log_bounded_def)
next
  case (thread_no_report s t)
  with writes_plain [of t] show ?case by (simp add: log_bounded_def)
qed (simp_all add: log_bounded_def pushing_same log_put_def)

lemma log_run_bounded: "log_run os n s tr t \<Longrightarrow> log_bounded n s \<Longrightarrow> log_bounded n t"
  by (induction rule: log_run.induct) (auto intro: log_step_bounded)

definition log_ordered :: "'w file_os \<Rightarrow> nat \<Rightarrow> 'w AsyncLogging \<Rightarrow> log_event list \<Rightarrow> 'w AsyncLogging \<Rightarrow> bool" where
  "log_ordered os n s0 tr s \<longleftrightarrow> (\<exists>rest. log_pushed tr = log_written tr @ rest \<and>
       (al_thread s \<noteq> Ended \<longrightarrow> rest = in_hand (al_thread s) @ m_shareQueue s)) \<and>
     m_pFileOper s = m_pFileOper s0 \<and>
     al_world s = fold (\<lambda>msg w. snd (fo_write os (m_pFileOper s0) msg w)) (log_written tr) (al_world s0)"

lemma wake_Ended [simp]: "wake t = Ended \<longleftrightarrow> t = Ended" "write_taken b q \<noteq> Ended" "after_put os msg s t = Ended \<Longrightarrow> t = Ended"
  by (cases t) (simp_all add: write_taken_def after_put_def split: if_splits)

lemma log_step_ordered: "log_step os n e s t \<Longrightarrow> log_bounded n s \<Longrightarrow> log_ordered os n s0 tr s \<Longrightarrow> log_ordered os n s0 (tr @ [e]) t"
  by (induction rule: log_step.induct) (auto simp: log_ordered_def log_bounded_def log_put_def)

lemma log_run_ordered: "log_run os n s tr t \<Longrightarrow> log_bounded n s \<Longrightarrow> log_ordered os n s0 [] s \<Longrightarrow> log_ordered os n s0 tr t"
  by (induction rule: log_run.induct) (auto intro: log_step_ordered log_run_bounded)

lemma log_start_ok: "m_shareQueue s = [] \<Longrightarrow> al_callers s = (\<lambda>_. Outside) \<Longrightarrow> al_thread s = At_Test \<Longrightarrow> log_bounded n s \<and> log_ordered os n s [] s"
  by (simp add: log_bounded_def log_ordered_def pushing_def)

text \<open>The log as it is after \<open>init\<close>.\<close>

definition log_start :: "'w file_os \<Rightarrow> string \<Rightarrow> 'w \<Rightarrow> 'w AsyncLogging" where
  "log_start os path w = AsyncLogging_init os path (AsyncLogging_new w)"

lemma log_start_simps [simp]: "m_shareQueue (log_start os path w) = []" "al_callers (log_start os path w) = (\<lambda>_. Outside)"
  "al_thread (log_start os path w) = At_Test" "\<not> m_isStop (log_start os path w)"
  by (simp_all add: log_start_def AsyncLogging_init_def AsyncLogging_new_def split: prod.split)

text \<open>C12: The log keeps the order. Whatever the callers and the thread do in whatever order, the lines written to the
  file are the first of those that were accepted, in that order; as long as the thread runs the others are in its
  hand or in the queue, so none is lost or written twice. The queue holds at most 10000 lines and one more for
  each caller and the thread, which logs its own failures, and the file is what these writes make of it.\<close>

theorem fs_log_in_order:
  assumes "log_run os n (log_start os path w) tr s"
  shows "(\<exists>rest. log_pushed tr = log_written tr @ rest \<and>
      (al_thread s \<noteq> Ended \<longrightarrow> rest = in_hand (al_thread s) @ m_shareQueue s)) \<and>
    length (m_shareQueue s) \<le> 10001 + n \<and>
    al_world s = fold (\<lambda>msg w. snd (fo_write os (m_pFileOper s) msg w)) (log_written tr) (al_world (log_start os path w))"
proof -
  have "log_bounded n (log_start os path w)" "log_ordered os n (log_start os path w) [] (log_start os path w)"
    using log_start_ok [of "log_start os path w" n os] by simp_all
  with assms have "log_bounded n s" "log_ordered os n (log_start os path w) tr s" by (blast intro: log_run_bounded log_run_ordered)+
  then show ?thesis by (auto simp: log_bounded_def log_ordered_def)
qed

subsection \<open>The thread finishes its work\<close>

text \<open>A thread that waits while there are lines will be notified; before \<open>stop\<close> it is in the loop.\<close>

fun in_loop :: "log_thread \<Rightarrow> bool" where
  "in_loop (At_Take b) = (\<not> b)"
| "in_loop (Waiting b) = (\<not> b)"
| "in_loop (Woken b) = (\<not> b)"
| "in_loop (Last_Writing _ _) = False"
| "in_loop Ended = False"
| "in_loop (Failed t) = in_loop t"
| "in_loop (Reporting _ t) = in_loop t"
| "in_loop _ = True"

lemma in_loop_wake [simp]: "in_loop (wake t) = in_loop t"
  by (cases t) simp_all

lemma in_loop_simps [simp]: "in_loop (write_taken b q) = (\<not> b)" "in_loop (after_put os msg s t) = in_loop t"
  by (simp_all add: write_taken_def after_put_def)

lemma writes_not_waiting: "writes t \<Longrightarrow> t \<noteq> Waiting b"
  by (cases t) simp_all

lemma wake_not_waiting [simp]: "wake t \<noteq> Waiting b"
  by (cases t) simp_all

lemma not_waiting [simp]: "write_taken b q \<noteq> Waiting c" "writes t \<Longrightarrow> after_put os msg s t \<noteq> Waiting b"
  by (simp_all add: write_taken_def after_put_def writes_not_waiting)

text \<open>No write to the log file fails, or it is not open.\<close>

definition log_works :: "'w file_os \<Rightarrow> FileOper \<Rightarrow> bool" where
  "log_works os f \<longleftrightarrow> m_fd f \<le> 0 \<or> (\<forall>msg w. fst (fo_write os f msg w))"

lemma after_put_works: "log_works os (m_pFileOper s) \<Longrightarrow> after_put os msg s t = t"
  by (auto simp: after_put_def log_works_def)

fun undisturbed :: "log_thread \<Rightarrow> bool" where
  "undisturbed (Failed _) = False"
| "undisturbed (Reporting _ _) = False"
| "undisturbed _ = True"

lemma undisturbed_simps [simp]: "undisturbed (wake t) = undisturbed t" "undisturbed (write_taken b q)"
  by (cases t) (simp_all add: write_taken_def)

definition log_live :: "'w file_os \<Rightarrow> nat \<Rightarrow> 'w AsyncLogging \<Rightarrow> bool" where
  "log_live os n s \<longleftrightarrow> (m_shareQueue s \<noteq> [] \<longrightarrow> (\<exists>b. al_thread s = Waiting b) \<longrightarrow> (\<exists>i < n. al_callers s i = At_Notify)) \<and>
     (\<not> m_isStop s \<longrightarrow> in_loop (al_thread s)) \<and> resumes (al_thread s) \<and>
     (log_works os (m_pFileOper s) \<longrightarrow> undisturbed (al_thread s))"

lemma log_step_live: "log_step os n e s t \<Longrightarrow> log_live os n s \<Longrightarrow> log_live os n t"
proof (induction rule: log_step.induct)
  case (thread_report s info t)
  then show ?case using writes_plain [of t] writes_not_waiting [of t] by (auto simp: log_live_def)
next
  case (thread_no_report s t)
  then show ?case using writes_plain [of t] writes_not_waiting [of t] by (auto simp: log_live_def)
next
  case (log_call i s time msg)
  then show ?case by (auto simp: log_live_def) (metis log_caller.distinct)+
next
  case (stop_call i s)
  then show ?case by (auto simp: log_live_def) (metis log_caller.distinct)+
qed (auto simp: log_live_def log_put_def after_put_works)

lemma log_run_live: "log_run os n s tr t \<Longrightarrow> log_live os n s \<Longrightarrow> log_live os n t"
  by (induction rule: log_run.induct) (auto intro: log_step_live)

lemma log_step_file: "log_step os n e s t \<Longrightarrow> m_pFileOper t = m_pFileOper s"
  by (induction rule: log_step.induct) (simp_all add: log_put_def)

lemma log_run_file: "log_run os n s tr t \<Longrightarrow> m_pFileOper t = m_pFileOper s"
  by (induction rule: log_run.induct) (simp_all add: log_step_file)

lemma log_run_trans: "log_run os n t tr' u \<Longrightarrow> log_run os n s tr t \<Longrightarrow> log_run os n s (tr @ tr') u"
  by (induction rule: log_run.induct) (auto simp: append_assoc [symmetric] simp del: append_assoc intro: log_run_step)

lemma log_run_one: "log_step os n e s t \<Longrightarrow> log_run os n s [e] t"
  using log_run_step [OF log_run_start] by fastforce

definition log_idle :: "'w AsyncLogging \<Rightarrow> bool" where
  "log_idle s \<longleftrightarrow> al_thread s = Waiting False \<and> m_shareQueue s = [] \<and> \<not> m_isStop s"

definition drains :: "'w file_os \<Rightarrow> nat \<Rightarrow> 'w AsyncLogging \<Rightarrow> bool" where
  "drains os n s \<longleftrightarrow> (\<exists>tr t. log_run os n s tr t \<and> set tr \<subseteq> insert Internal (range Put) \<and> log_idle t \<and> al_callers t = al_callers s)"

lemma drains_step:
  assumes "log_step os n e s t" "e \<in> insert Internal (range Put)" "al_callers t = al_callers s" "drains os n t"
  shows "drains os n s"
proof -
  from assms(4) obtain tr u where tr: "log_run os n t tr u" "set tr \<subseteq> insert Internal (range Put)" "log_idle u" "al_callers u = al_callers t"
    by (auto simp: drains_def)
  with log_run_trans [OF tr(1) log_run_one [OF assms(1)]] assms(2,3) show ?thesis
    unfolding drains_def by (intro exI [of _ "[e] @ tr"] exI [of _ u]) auto
qed

lemma drains_idle: "log_idle s \<Longrightarrow> drains os n s"
  unfolding drains_def by (rule exI [of _ "[]"], rule exI [of _ s]) (auto intro: log_run_start)

lemma drains_test: "al_thread s = At_Test \<Longrightarrow> m_shareQueue s = [] \<Longrightarrow> \<not> m_isStop s \<Longrightarrow> drains os n s"
  by (rule drains_step [OF thread_loop], simp_all)
    (rule drains_step [OF thread_wait], simp_all, rule drains_idle, simp add: log_idle_def)

lemma drains_writing:
  "al_thread s = Writing q \<Longrightarrow> \<not> m_isStop s \<Longrightarrow> log_works os (m_pFileOper s) \<Longrightarrow>
   (\<And>t. al_thread t = At_Test \<Longrightarrow> m_shareQueue t = m_shareQueue s \<Longrightarrow> \<not> m_isStop t \<Longrightarrow> log_works os (m_pFileOper t) \<Longrightarrow> drains os n t) \<Longrightarrow>
   drains os n s"
proof (induction q arbitrary: s)
  case Nil
  from drains_step [OF thread_again [OF Nil(1)]] Nil show ?case by simp
next
  case (Cons msg q)
  show ?case
    by (rule drains_step [OF thread_put [OF Cons.prems(1)]]) (use Cons in \<open>auto simp: log_put_def after_put_works\<close>)
qed

lemma drains_taken:
  "al_thread s = Writing q \<Longrightarrow> m_shareQueue s = [] \<Longrightarrow> \<not> m_isStop s \<Longrightarrow> log_works os (m_pFileOper s) \<Longrightarrow> drains os n s"
  by (rule drains_writing) (auto intro: drains_test)

lemma drains_loop: "al_thread s = At_Test \<Longrightarrow> \<not> m_isStop s \<Longrightarrow> log_works os (m_pFileOper s) \<Longrightarrow> drains os n s"
proof (cases "m_shareQueue s = []")
  case False
  assume s: "al_thread s = At_Test" "\<not> m_isStop s" "log_works os (m_pFileOper s)"
  show ?thesis
    by (rule drains_step [OF thread_loop [OF s(1)]], simp_all)
      (rule drains_step [OF thread_take], use s False in \<open>auto simp: write_taken_def intro: drains_taken\<close>)
qed (auto intro: drains_test)

text \<open>A thread that nobody disturbs gets to its wait with an empty queue.\<close>

lemma log_drains:
  assumes "log_live os n s" "\<not> m_isStop s" "al_callers s = (\<lambda>_. Outside)" "log_works os (m_pFileOper s)"
  shows "drains os n s"
proof (cases "al_thread s")
  case (At_Take b)
  with assms have t: "al_thread s = At_Take False" by (auto simp: log_live_def)
  show ?thesis
  proof (cases "m_shareQueue s = []")
    case True
    then show ?thesis using assms by (intro drains_step [OF thread_wait [OF t]] drains_idle) (auto simp: log_idle_def)
  next
    case False
    then show ?thesis using assms by (intro drains_step [OF thread_take [OF t]]) (auto simp: write_taken_def intro: drains_taken)
  qed
next
  case (Woken b)
  with assms have t: "al_thread s = Woken False" by (auto simp: log_live_def)
  show ?thesis using assms by (intro drains_step [OF thread_woken [OF t]]) (auto simp: write_taken_def intro: drains_taken)
qed (use assms in \<open>auto simp: log_live_def log_idle_def intro: drains_loop drains_idle drains_writing\<close>)

subsection \<open>\<open>stop\<close>\<close>

text \<open>
  After the thread waited with an empty queue: nobody has called, one has called \<open>stop\<close> and not yet notified, or
  he has notified and the thread is on its way to the second wait.
\<close>

definition log_stopping :: "'w AsyncLogging \<Rightarrow> bool" where
  "log_stopping s \<longleftrightarrow> m_shareQueue s = [] \<and>
     (\<not> m_isStop s \<and> al_thread s = Waiting False \<and> al_callers s = (\<lambda>_. Outside) \<or>
      m_isStop s \<and> al_thread s = Waiting False \<and> (\<exists>j. al_callers s = (\<lambda>_. Outside)(j := Stop_Notify)) \<or>
      m_isStop s \<and> al_thread s \<in> {Woken False, Writing [], At_Test, At_Take True, Waiting True} \<and>
        (\<exists>j. al_callers s = (\<lambda>_. Outside)(j := At_Join)))"

definition quiet :: "log_event \<Rightarrow> bool" where
  "quiet e \<longleftrightarrow> e \<noteq> Spurious \<and> (\<forall>i time msg. e \<noteq> Log_Call i time msg)"

lemma log_step_stopping: "log_step os n e s t \<Longrightarrow> quiet e \<Longrightarrow> log_stopping s \<Longrightarrow> log_stopping t \<and> (\<forall>i. e \<noteq> Joined i) \<and> (\<forall>i. e = Stop_Call i \<longrightarrow> m_isStop t)
    \<and> (m_isStop s \<longrightarrow> m_isStop t)"
  by (induction rule: log_step.induct) (auto simp: log_stopping_def quiet_def write_taken_def split: if_splits)

lemma log_run_stopping: "log_run os n s tr t \<Longrightarrow> \<forall>e \<in> set tr. quiet e \<Longrightarrow> log_stopping s \<Longrightarrow>
    log_stopping t \<and> (\<forall>i. Joined i \<notin> set tr) \<and> (\<forall>i. Stop_Call i \<in> set tr \<longrightarrow> m_isStop t)"
proof (induction rule: log_run.induct)
  case (log_run_step tr t e u)
  then have "log_stopping t" "quiet e" by simp_all
  from log_step_stopping [OF log_run_step(2) this(2,1)] log_run_step show ?case by auto
qed simp

text \<open>C11: \<open>stop\<close> does not return once the log has come to rest. If no write to the log file fails, then from every
  state before \<open>stop\<close> with no call in progress the thread writes what is there and waits with an empty queue; from there on, whoever calls \<open>stop\<close>
  waits in \<open>join\<close> for ever, unless another line is logged or the wait ends without a notification: the thread,
  woken up by \<open>stop\<close>, waits a second time behind its loop. \<open>unitFS\<close> ends in this call.\<close>

theorem fs_log_stop_hangs:
  assumes "log_run os n (log_start os path w) tr s" "\<not> m_isStop s" "al_callers s = (\<lambda>_. Outside)"
    and "log_works os (m_pFileOper (log_start os path w))"
  shows "\<exists>tr' t. log_run os n s tr' t \<and> set tr' \<subseteq> insert Internal (range Put) \<and> al_thread t = Waiting False \<and> m_shareQueue t = [] \<and>
    (\<forall>tr'' u. log_run os n t tr'' u \<longrightarrow> (\<forall>e \<in> set tr''. quiet e) \<longrightarrow> (\<forall>i. Joined i \<notin> set tr'') \<and>
      (\<forall>i. Stop_Call i \<in> set tr'' \<longrightarrow> (\<exists>j. al_callers u j \<in> {Stop_Notify, At_Join})))"
proof -
  have "log_live os n s" using log_run_live [OF assms(1)] by (simp add: log_live_def)
  moreover have "log_works os (m_pFileOper s)" using assms(4) log_run_file [OF assms(1)] by simp
  ultimately have "drains os n s" by (intro log_drains assms(2,3))
  then obtain tr' t where t: "log_run os n s tr' t" "set tr' \<subseteq> insert Internal (range Put)"
    "log_idle t" "al_callers t = (\<lambda>_. Outside)" unfolding drains_def by (elim exE conjE) (rule that, simp_all add: assms(3))
  then have "log_stopping t" by (simp add: log_stopping_def log_idle_def)
  note run = log_run_stopping [OF _ _ this]
  have "\<exists>j. al_callers u j \<in> {Stop_Notify, At_Join}" if "log_stopping u" "m_isStop u" for u :: "'a AsyncLogging"
    using that by (auto simp: log_stopping_def)
  then show ?thesis using run t by (intro exI [of _ tr'] exI [of _ t]) (auto simp: log_idle_def)
qed

text \<open>A line that is logged, for the witnesses.\<close>

definition one_line :: "byte list" where "one_line = log_info [48] [104, 105]"

lemma plain_log_works: "log_works plain_os f"
  by (simp add: log_works_def fo_write_def plain_os_def)

lemma log_one_line:
  "\<exists>s. log_run plain_os 1 (log_start plain_os ''log'' zero_file) [Log_Call 0 [48] [104, 105], Pushed one_line, Internal] s \<and>
     al_callers s = (\<lambda>_. Outside) \<and> \<not> m_isStop s \<and> m_shareQueue s = [one_line] \<and> al_thread s = At_Test"
proof -
  let ?s = "log_start plain_os ''log'' zero_file"
  have a: "log_step plain_os 1 (Log_Call 0 [48] [104, 105]) ?s (set_caller 0 (At_Push one_line) ?s)" (is "log_step _ _ _ _ ?a")
    using log_call [of 0 1 ?s plain_os "[48]" "[104, 105]"] by (simp add: one_line_def)
  have b: "log_step plain_os 1 (Pushed one_line) ?a (set_caller 0 At_Notify (?a\<lparr>m_shareQueue := m_shareQueue ?a @ [one_line]\<rparr>))" (is "log_step _ _ _ _ ?b")
    by (rule log_push) simp_all
  have c: "log_step plain_os 1 Internal ?b (set_caller 0 Outside (set_thread (wake (al_thread ?b)) ?b))" (is "log_step _ _ _ _ ?c")
    by (rule log_notify) simp_all
  from log_run_trans [OF log_run_trans [OF log_run_one [OF c] log_run_one [OF b]] log_run_one [OF a]]
  show ?thesis by (intro exI [of _ ?c]) (simp add: fun_eq_iff)
qed

theorem fs_log_stop_hangs_witness:
  "\<exists>s tr t. log_run plain_os 1 (log_start plain_os ''log'' zero_file) [Log_Call 0 [48] [104, 105], Pushed one_line, Internal] s \<and>
     log_run plain_os 1 s tr t \<and> al_thread t = Waiting False \<and> m_shareQueue t = [] \<and>
     (\<forall>tr' u. log_run plain_os 1 t tr' u \<longrightarrow> (\<forall>e \<in> set tr'. quiet e) \<longrightarrow> Joined 0 \<notin> set tr')"
proof -
  from log_one_line obtain s where s: "log_run plain_os 1 (log_start plain_os ''log'' zero_file) [Log_Call 0 [48] [104, 105], Pushed one_line, Internal] s"
    "\<not> m_isStop s" "al_callers s = (\<lambda>_. Outside)" by blast
  from fs_log_stop_hangs [OF this plain_log_works] s(1) show ?thesis by blast
qed

lemma log_pushed_none: "set tr \<subseteq> insert Internal (range Put) \<Longrightarrow> log_pushed tr = []"
  by (induction tr rule: rev_induct) auto

lemma log_pushed_append: "log_pushed (tr @ tr') = log_pushed tr @ log_pushed tr'"
  by (simp add: log_pushed_def)

theorem fs_log_in_order_witness:
  "\<exists>tr s. log_run plain_os 1 (log_start plain_os ''log'' zero_file) tr s \<and> log_written tr = [one_line] \<and>
     al_world s = snd (fo_write plain_os (m_pFileOper s) one_line zero_file)"
proof -
  from log_one_line obtain s where s: "log_run plain_os 1 (log_start plain_os ''log'' zero_file) [Log_Call 0 [48] [104, 105], Pushed one_line, Internal] s"
    "\<not> m_isStop s" "al_callers s = (\<lambda>_. Outside)" by blast
  have "log_live plain_os 1 s" using log_run_live [OF s(1)] by (simp add: log_live_def)
  then have "drains plain_os 1 s" by (rule log_drains [OF _ s(2,3) plain_log_works])
  then obtain tr t where t: "log_run plain_os 1 s tr t" "set tr \<subseteq> insert Internal (range Put)" "log_idle t"
    unfolding drains_def by (elim exE conjE) (rule that)
  define run where "run = [Log_Call 0 [48] [104, 105], Pushed one_line, Internal] @ tr"
  have pushed: "log_pushed run = [one_line]"
    unfolding run_def log_pushed_append log_pushed_none [OF t(2)] by (simp add: log_pushed_def)
  have run: "log_run plain_os 1 (log_start plain_os ''log'' zero_file) run t" unfolding run_def by (rule log_run_trans [OF t(1) s(1)])
  have "al_world (log_start plain_os ''log'' zero_file) = zero_file"
    by (simp add: log_start_def AsyncLogging_init_def AsyncLogging_new_def fo_open_def fo_setPath_def FileOper_new_def plain_os_def)
  moreover have "log_written run = [one_line]" using fs_log_in_order [OF run] t(3) pushed by (auto simp: log_idle_def)
  ultimately show ?thesis using fs_log_in_order [OF run] run by (intro exI [of _ run] exI [of _ t]) simp
qed

text \<open>\<open>stop\<close> can return: when lines are queued as the thread gets to its test, it writes them behind the loop and ends.\<close>

lemma log_last_lines:
  "al_thread s = Last_Writing i q \<Longrightarrow> i + length q \<le> 10001 \<Longrightarrow> log_works os (m_pFileOper s) \<Longrightarrow>
   \<exists>tr t. log_run os n s tr t \<and> log_written tr = q \<and> al_thread t = Ended \<and> al_callers t = al_callers s"
proof (induction q arbitrary: s i)
  case Nil
  from log_run_one [OF last_end [OF Nil(1)]] show ?case by (intro exI conjI) (assumption, simp_all add: log_written_def)
next
  case (Cons msg q)
  let ?t = "set_thread (Last_Writing (i + 1) q) (log_put os msg s)"
  have "al_thread ?t = Last_Writing (i + 1) q" "i + 1 + length q \<le> 10001" "log_works os (m_pFileOper ?t)"
    using Cons.prems(2,3) by (simp_all add: log_put_def)
  from Cons.IH [OF this] obtain tr u where u: "log_run os n ?t tr u" "log_written tr = q" "al_thread u = Ended" "al_callers u = al_callers s"
    by (auto simp: log_put_def)
  have "log_step os n (Put msg) s ?t"
    using last_put [OF Cons.prems(1), of os n] Cons.prems(2) by (simp add: after_put_works [OF Cons.prems(3)])
  from log_run_trans [OF u(1) log_run_one [OF this]] u(2-4) show ?case
    by (intro exI [of _ "[Put msg] @ tr"] exI [of _ u]) (simp add: log_written_def)
qed

theorem fs_log_stop_returns:
  assumes s: "al_thread s = At_Test" "\<not> m_isStop s" "al_callers s i = Outside" "i < n" and q: "m_shareQueue s \<noteq> []" "length (m_shareQueue s) \<le> 10001"
    and works: "log_works os (m_pFileOper s)"
  shows "\<exists>tr t. log_run os n s tr t \<and> Joined i \<in> set tr \<and> log_written tr = m_shareQueue s"
proof -
  let ?a = "set_caller i Stop_Notify (s\<lparr>m_isStop := True\<rparr>)"
  let ?b = "set_caller i At_Join (set_thread (wake (al_thread ?a)) ?a)"
  let ?c = "set_thread (At_Take (m_isStop ?b)) ?b"
  let ?d = "set_thread (write_taken True (m_shareQueue ?c)) (?c\<lparr>m_shareQueue := []\<rparr>)"
  have "log_step os n (Stop_Call i) s ?a" by (rule stop_call) (use s in simp_all)
  moreover have "log_step os n Internal ?a ?b" by (rule stop_notify) (use s in simp_all)
  moreover have "log_step os n Internal ?b ?c" by (rule thread_loop) (use s in simp)
  moreover have "log_step os n Internal ?c ?d" by (rule thread_take) (use q in simp_all)
  ultimately have run: "log_run os n s ((([Stop_Call i] @ [Internal]) @ [Internal]) @ [Internal]) ?d" by (intro log_run_trans log_run_one)
  obtain tr t where t: "log_run os n ?d tr t" "log_written tr = m_shareQueue s" "al_thread t = Ended" "al_callers t i = At_Join"
    using log_last_lines [of ?d 0 "m_shareQueue s" os n] q works by (auto simp: write_taken_def)
  have "log_step os n (Joined i) t (set_caller i Outside t)" by (rule stop_join) (use s t in simp_all)
  from log_run_trans [OF log_run_one [OF this] log_run_trans [OF t(1) run]] t(2) show ?thesis
    by (intro exI conjI) (assumption, auto simp: log_written_def)
qed

subsection \<open>The line\<close>

text \<open>What is logged fits into the buffer: a line has less than 2047 bytes, and the header of the line less than 30.\<close>

theorem fs_log_line_fits:
  "mediaLog inst level level_str file text = Some line \<Longrightarrow> length line \<le> 2046 \<and> 0 \<notin> set line"
proof -
  assume "mediaLog inst level level_str file text = Some line"
  then obtain buf where buf: "line = takeWhile (\<lambda>c. c \<noteq> 0) buf" "length buf \<le> 2046"
    by (auto simp: mediaLog_def LOG_MAX_BUF_SIZE_def Let_def split: option.splits if_splits)
  have "length line \<le> length buf" unfolding buf(1) by (rule length_takeWhile_le)
  with buf show ?thesis using set_takeWhileD by fastforce
qed

end
