(* ===== verification/FsStrStream.thy ===== *)
theory FsStrStream
  imports Prelude
begin

text \<open>
  \<open>common/StrStream.cpp\<close>: text put together in a block of fixed size. The block comes from \<open>BufferPool\<close>, which is
  not in the repository: what it returns is an argument, \<open>None\<close> for a null pointer. The result \<open>None\<close> of an
  operation is an access outside of the block.
\<close>

abbreviation NUL :: char where "NUL \<equiv> CHR 0x00"

record StrStream =
  m_data :: "string option"
  m_size :: u32
  m_maxSize :: u32

definition kMaxLogSize :: u32 where "kMaxLogSize = 2048"

definition put_at :: "nat \<Rightarrow> string \<Rightarrow> string \<Rightarrow> string option" where
  "put_at off cs mem = (if off + length cs \<le> length mem then Some (take off mem @ cs @ drop (off + length cs) mem) else None)"

definition StrStream_sized :: "string option \<Rightarrow> u32 \<Rightarrow> StrStream option" where
  "StrStream_sized buff maxSize = (case buff of None \<Rightarrow> Some \<lparr>m_data = None, m_size = 0, m_maxSize = maxSize\<rparr>
   | Some mem \<Rightarrow> map_option (\<lambda>mem. \<lparr>m_data = Some mem, m_size = 0, m_maxSize = maxSize\<rparr>) (put_at 0 [NUL] mem))"

definition StrStream_new :: "string option \<Rightarrow> StrStream option" where
  "StrStream_new buff = StrStream_sized buff kMaxLogSize"

text \<open>\<open>snprintf\<close> into \<open>room\<close> bytes from \<open>off\<close> on: it cuts the text and terminates it.\<close>

definition snprintf_at :: "nat \<Rightarrow> nat \<Rightarrow> string \<Rightarrow> string \<Rightarrow> string option" where
  "snprintf_at off room cs mem = (if room = 0 then Some mem else put_at off (take (room - 1) cs @ [NUL]) mem)"

text \<open>The body that all operators share; \<open>cs\<close> is what the format expands to.\<close>

definition ss_put :: "string \<Rightarrow> StrStream \<Rightarrow> StrStream option" where
  "ss_put cs s = (case m_data s of None \<Rightarrow> Some s
   | Some mem \<Rightarrow> do {
       mem \<leftarrow> snprintf_at (unat (m_size s)) (unat (m_maxSize s - m_size s)) cs mem;
       let n = length cs;
       if n > 0 then
         let size' = m_size s + of_nat n in
         if size' \<ge> m_maxSize s then do {
           mem \<leftarrow> put_at (unat (m_maxSize s - 1)) [NUL] mem;
           Some (s\<lparr>m_data := Some mem, m_size := m_maxSize s\<rparr>) }
         else Some (s\<lparr>m_data := Some mem, m_size := size'\<rparr>)
       else Some (s\<lparr>m_data := Some mem\<rparr>) })"

definition c_str :: "string \<Rightarrow> string" where
  "c_str cs = takeWhile (\<lambda>c. c \<noteq> NUL) cs"

definition ss_u8 :: "byte \<Rightarrow> StrStream \<Rightarrow> StrStream option" where "ss_u8 v = ss_put (dec_of_nat (unat v))"
definition ss_u16 :: "u16 \<Rightarrow> StrStream \<Rightarrow> StrStream option" where "ss_u16 v = ss_put (dec_of_nat (unat v))"
definition ss_u32 :: "u32 \<Rightarrow> StrStream \<Rightarrow> StrStream option" where "ss_u32 v = ss_put (dec_of_nat (unat v))"
definition ss_u64 :: "u64 \<Rightarrow> StrStream \<Rightarrow> StrStream option" where "ss_u64 v = ss_put (dec_of_nat (unat v))"
definition ss_i64 :: "u64 \<Rightarrow> StrStream \<Rightarrow> StrStream option" where "ss_i64 v = ss_put (dec_of_int (sint v))"
definition ss_int :: "u32 \<Rightarrow> StrStream \<Rightarrow> StrStream option" where "ss_int v = ss_put (dec_of_int (sint v))"
definition ss_string :: "string \<Rightarrow> StrStream \<Rightarrow> StrStream option" where "ss_string v = ss_put (c_str v)"
definition ss_cstring :: "string \<Rightarrow> StrStream \<Rightarrow> StrStream option" where "ss_cstring v = ss_put (c_str v)"

text \<open>\<open>cs\<close> is the number with two decimals.\<close>

definition ss_float :: "string \<Rightarrow> StrStream \<Rightarrow> StrStream option" where "ss_float cs = ss_put cs"

definition ss_reset :: "StrStream \<Rightarrow> StrStream option" where
  "ss_reset s = (if m_size s > 0 then (case m_data s of None \<Rightarrow> None
     | Some mem \<Rightarrow> map_option (\<lambda>mem. s\<lparr>m_data := Some mem, m_size := 0\<rparr>) (put_at 0 (replicate (unat (m_size s)) NUL) mem))
   else Some s)"

text \<open>The text up to the terminator, which must be in the block.\<close>

definition ss_str :: "StrStream \<Rightarrow> string option" where
  "ss_str s = (case m_data s of None \<Rightarrow> Some [] | Some mem \<Rightarrow> if NUL \<in> set mem then Some (c_str mem) else None)"

definition ss_empty :: "StrStream \<Rightarrow> bool" where "ss_empty s \<longleftrightarrow> m_size s = 0"
definition ss_size :: "StrStream \<Rightarrow> u32" where "ss_size s = m_size s"

subsection \<open>What the stream holds\<close>

text \<open>\<open>t\<close> is all that was put into the stream since it was made or reset.\<close>

definition ss_holds :: "string \<Rightarrow> StrStream \<Rightarrow> bool" where
  "ss_holds t s \<longleftrightarrow> (\<exists>mem rest. m_data s = Some mem \<and> 0 < unat (m_maxSize s) \<and> unat (m_maxSize s) \<le> length mem \<and>
     unat (m_size s) = min (length t) (unat (m_maxSize s)) \<and> mem = take (unat (m_maxSize s) - 1) t @ NUL # rest \<and> NUL \<notin> set t)"

lemma ss_holds_str: "ss_holds t s \<Longrightarrow> ss_str s = Some (take (unat (m_maxSize s) - 1) t)"
proof -
  assume "ss_holds t s"
  then obtain rest where s: "m_data s = Some (take (unat (m_maxSize s) - 1) t @ NUL # rest)" "NUL \<notin> set t" by (auto simp: ss_holds_def)
  have "\<forall>c \<in> set (take (unat (m_maxSize s) - 1) t). c \<noteq> NUL" using s(2) by (auto dest: in_set_takeD)
  then show ?thesis by (simp add: ss_str_def s(1) c_str_def takeWhile_append2)
qed

lemma ss_holds_new: "0 < unat maxSize \<Longrightarrow> unat maxSize \<le> length mem \<Longrightarrow>
    \<exists>s. StrStream_sized (Some mem) maxSize = Some s \<and> ss_holds [] s \<and> m_maxSize s = maxSize"
  by (cases mem) (auto simp: StrStream_sized_def put_at_def ss_holds_def)

lemma put_again: "put_at (length as) [NUL] (as @ NUL # bs) = Some (as @ NUL # bs)"
  by (simp add: put_at_def)

lemma ss_put_holds:
  assumes s: "ss_holds t s" and cs: "NUL \<notin> set cs" "unat (m_maxSize s) + length cs < 2 ^ 32"
  shows "\<exists>s'. ss_put cs s = Some s' \<and> ss_holds (t @ cs) s' \<and> m_maxSize s' = m_maxSize s"
proof -
  let ?M = "unat (m_maxSize s)" and ?n = "length cs"
  obtain mem rest where mem: "m_data s = Some mem" "0 < ?M" "?M \<le> length mem" "unat (m_size s) = min (length t) ?M"
    "mem = take (?M - 1) t @ NUL # rest" "NUL \<notin> set t" using s by (auto simp: ss_holds_def)
  have n: "unat (of_nat ?n :: u32) = ?n" using cs(2) by (simp add: unsigned_of_nat take_bit_nat_eq_self)
  have sum: "unat (m_size s + of_nat ?n) = unat (m_size s) + ?n"
    using cs(2) mem(4) by (simp add: unat_word_ariths n)
  have last: "unat (m_maxSize s - 1) = ?M - 1" using mem(2) by (simp add: unat_sub word_le_nat_alt)
  have room: "unat (m_maxSize s - m_size s) = ?M - unat (m_size s)" using mem(4) by (simp add: unat_sub word_le_nat_alt)
  define mem' where "mem' = (if length t < ?M then t @ take (?M - length t - 1) cs @ NUL # drop (Suc (length (take (?M - length t - 1) cs))) (NUL # rest) else mem)"
  have shape: "\<exists>rest. mem' = take (?M - 1) (t @ cs) @ NUL # rest"
    using mem(2,5) by (auto simp: mem'_def)
  have print: "snprintf_at (unat (m_size s)) (unat (m_maxSize s - m_size s)) cs mem = Some mem'"
  proof (cases "length t < ?M")
    case True
    then have "mem = t @ NUL # rest" "unat (m_size s) = length t" using mem(4,5) by simp_all
    with True mem(3) show ?thesis by (simp add: snprintf_at_def put_at_def mem'_def room)
  qed (use mem(4) in \<open>simp add: snprintf_at_def mem'_def room\<close>)
  have len: "?M \<le> length mem'" using mem(3,5) by (auto simp: mem'_def)
  have again: "put_at (?M - 1) [NUL] mem' = Some mem'" if "length (t @ cs) \<ge> ?M"
  proof -
    from shape obtain rest' where r: "mem' = take (?M - 1) (t @ cs) @ NUL # rest'" by blast
    have "length (take (?M - 1) (t @ cs)) = ?M - 1" using that by simp
    then show ?thesis using put_again [of "take (?M - 1) (t @ cs)" rest'] unfolding r by (simp only:)
  qed
  have "ss_holds (t @ cs) (s\<lparr>m_data := Some mem', m_size := sz\<rparr>)" if "unat sz = min (length (t @ cs)) ?M" for sz
    using that shape len mem(2,6) cs(1) unfolding ss_holds_def by auto
  moreover have "ss_put cs s = Some (s\<lparr>m_data := Some mem', m_size := sz\<rparr>)"
    if "sz = (if length (t @ cs) \<ge> ?M \<and> cs \<noteq> [] then m_maxSize s else m_size s + of_nat ?n)" for sz
    unfolding ss_put_def mem(1) option.case print Option.bind_lunit using that again mem(4) by (auto simp: Let_def word_le_nat_alt sum last)
  ultimately show ?thesis using mem(4) sum by fastforce
qed

lemma ss_reset_holds: "ss_holds t s \<Longrightarrow> \<exists>s'. ss_reset s = Some s' \<and> ss_holds [] s' \<and> m_maxSize s' = m_maxSize s"
proof (cases "m_size s > 0")
  case True
  assume "ss_holds t s"
  then obtain mem where mem: "m_data s = Some mem" "0 < unat (m_maxSize s)" "unat (m_maxSize s) \<le> length mem" "unat (m_size s) \<le> length mem"
    by (auto simp: ss_holds_def)
  have "\<exists>rest. replicate (unat (m_size s)) NUL @ drop (unat (m_size s)) mem = NUL # rest" using True by (cases "unat (m_size s)") (auto simp: word_less_nat_alt)
  with True mem show ?thesis by (auto simp: ss_reset_def put_at_def ss_holds_def)
next
  case False
  assume h: "ss_holds t s"
  with False have "t = []" by (cases t) (auto simp: ss_holds_def word_less_nat_alt)
  with h False show ?thesis by (simp add: ss_reset_def)
qed

text \<open>The arguments of the operators.\<close>

datatype ss_arg = Arg_u8 byte | Arg_u16 u16 | Arg_u32 u32 | Arg_u64 u64 | Arg_i64 u64 | Arg_int u32 | Arg_string string | Arg_cstring string | Arg_float string

fun ss_text :: "ss_arg \<Rightarrow> string" where
  "ss_text (Arg_u8 v) = dec_of_nat (unat v)"
| "ss_text (Arg_u16 v) = dec_of_nat (unat v)"
| "ss_text (Arg_u32 v) = dec_of_nat (unat v)"
| "ss_text (Arg_u64 v) = dec_of_nat (unat v)"
| "ss_text (Arg_i64 v) = dec_of_int (sint v)"
| "ss_text (Arg_int v) = dec_of_int (sint v)"
| "ss_text (Arg_string v) = c_str v"
| "ss_text (Arg_cstring v) = c_str v"
| "ss_text (Arg_float v) = v"

fun ss_insert :: "ss_arg \<Rightarrow> StrStream \<Rightarrow> StrStream option" where
  "ss_insert (Arg_u8 v) = ss_u8 v"
| "ss_insert (Arg_u16 v) = ss_u16 v"
| "ss_insert (Arg_u32 v) = ss_u32 v"
| "ss_insert (Arg_u64 v) = ss_u64 v"
| "ss_insert (Arg_i64 v) = ss_i64 v"
| "ss_insert (Arg_int v) = ss_int v"
| "ss_insert (Arg_string v) = ss_string v"
| "ss_insert (Arg_cstring v) = ss_cstring v"
| "ss_insert (Arg_float v) = ss_float v"

fun ss_inserts :: "ss_arg list \<Rightarrow> StrStream \<Rightarrow> StrStream option" where
  "ss_inserts [] s = Some s"
| "ss_inserts (a # as) s = do { s \<leftarrow> ss_insert a s; ss_inserts as s }"

lemma ss_insert_put: "ss_insert a s = ss_put (ss_text a) s"
  by (cases a) (simp_all add: ss_u8_def ss_u16_def ss_u32_def ss_u64_def ss_i64_def ss_int_def ss_string_def ss_cstring_def ss_float_def)

lemma NUL_dec: "NUL \<notin> set (dec_of_nat n)" "NUL \<notin> set (dec_of_int i)"
proof -
  show nat: "NUL \<notin> set (dec_of_nat n)" for n
    using dec_of_nat_digits [of n] by (auto simp: is_digit_def simp del: dec_of_nat.simps)
  show "NUL \<notin> set (dec_of_int i)" using nat by (simp add: dec_of_int_def del: dec_of_nat.simps)
qed

lemma NUL_c_str: "NUL \<notin> set (c_str v)"
  by (auto simp: c_str_def dest: set_takeWhileD)

definition ss_arg_ok :: "ss_arg \<Rightarrow> bool" where
  "ss_arg_ok a \<longleftrightarrow> (case a of Arg_float v \<Rightarrow> NUL \<notin> set v | _ \<Rightarrow> True)"

lemma ss_text_ok: "ss_arg_ok a \<Longrightarrow> NUL \<notin> set (ss_text a)"
  by (cases a) (simp_all add: ss_arg_ok_def NUL_dec NUL_c_str del: dec_of_nat.simps)

lemma ss_inserts_holds:
  "ss_holds t s \<Longrightarrow> \<forall>a \<in> set as. ss_arg_ok a \<and> unat (m_maxSize s) + length (ss_text a) < 2 ^ 32 \<Longrightarrow>
   \<exists>s'. ss_inserts as s = Some s' \<and> ss_holds (t @ concat (map ss_text as)) s' \<and> m_maxSize s' = m_maxSize s"
proof (induction as arbitrary: t s)
  case (Cons a as)
  then obtain s' where s': "ss_insert a s = Some s'" "ss_holds (t @ ss_text a) s'" "m_maxSize s' = m_maxSize s"
    using ss_put_holds [OF Cons.prems(1) ss_text_ok, of a] by (auto simp: ss_insert_put)
  with Cons.IH [OF s'(2)] Cons.prems(2) show ?case by simp
qed simp

text \<open>The stream holds what was put into it, cut to its block: the text is all that was printed, in order, but
  for what is behind the last byte of the block, which is the terminator; no access leaves the block. The size
  that it tells is one more than that of the text once something was cut.\<close>

theorem strstream_text:
  assumes "0 < unat maxSize" "unat maxSize \<le> length mem"
    and "\<forall>a \<in> set as. ss_arg_ok a \<and> unat maxSize + length (ss_text a) < 2 ^ 32"
  shows "\<exists>s s'. StrStream_sized (Some mem) maxSize = Some s \<and> ss_inserts as s = Some s' \<and>
    ss_str s' = Some (take (unat maxSize - 1) (concat (map ss_text as))) \<and>
    unat (ss_size s') = min (length (concat (map ss_text as))) (unat maxSize)"
proof -
  obtain s where s: "StrStream_sized (Some mem) maxSize = Some s" "ss_holds [] s" "m_maxSize s = maxSize"
    using ss_holds_new [OF assms(1,2)] by blast
  with ss_inserts_holds [OF s(2), of as] assms(3) obtain s' where s': "ss_inserts as s = Some s'"
    "ss_holds (concat (map ss_text as)) s'" "m_maxSize s' = maxSize" by auto
  moreover have "unat (ss_size s') = min (length (concat (map ss_text as))) (unat maxSize)"
    using s'(2,3) by (auto simp: ss_holds_def ss_size_def)
  ultimately show ?thesis using s(1) ss_holds_str [OF s'(2)] by auto
qed

theorem strstream_text_witness:
  "\<exists>s s'. StrStream_sized (Some (replicate 8 NUL)) 8 = Some s \<and> ss_inserts [Arg_cstring ''abcd'', Arg_u8 255, Arg_cstring ''x''] s = Some s' \<and>
     ss_str s' = Some ''abcd255'' \<and> unat (ss_size s') = length ''abcd255x''"
proof -
  let ?as = "[Arg_cstring ''abcd'', Arg_u8 255, Arg_cstring ''x'']"
  have t: "map ss_text ?as = [''abcd'', ''255'', ''x'']" by code_simp
  then have "\<forall>a \<in> set ?as. ss_arg_ok a \<and> unat (8 :: u32) + length (ss_text a) < 2 ^ 32" by (simp add: ss_arg_ok_def del: ss_text.simps)
  from strstream_text [OF _ _ this, of "replicate 8 NUL"] show ?thesis unfolding t by simp
qed

end
