(* ===== verification/Spec2Isabelle.thy ===== *)
theory Spec2Isabelle
  imports Log CList Registry UdpSystem TcpSystem Mains CjsonMinify CjsonBuffer CjsonForest NpSystem EdgeFsHang EdgeFsDemo FsLog FsStrStream
begin

text \<open>
  EdgeCompute, programs for devices at the edge of the network. \<open>PunchHole\<close> lets two devices behind network
  address translators reach each other: a rendezvous server and a peer, once over UDP and once over TCP.
  \<open>NatProbe\<close> finds out what kind of translator a device is behind, by JSON messages between a client and a
  server. \<open>EdgeFS\<close> is a file system in one data file, cut into chunks, with an index in mapped memory.

  PunchHole, in the order the code builds up. Peers register with the server by pinging it, a peer asks the
  server for another one, and the server tells each where the other is so that both can send at once.

  \<^item> \<open>Prelude\<close>: byte strings, little-endian numbers, a loop with \<open>break\<close>, decimal numerals.
  \<^item> \<open>CList\<close>: \<open>list.h\<close>, the circular doubly linked list, over an explicit heap of cells. A well-formed
    ring \<open>dll h head xs\<close> is what the operations are proved against.
  \<^item> \<open>Registry\<close>: the servers' device table (\<open>s_pall_device_info\<close>) on top of it, with the locale
    \<open>device_table\<close> as the interface the handlers use, interpreted on the linked implementation.
  \<^item> \<open>Wire\<close>: \<open>p2p_transfer.h\<close> and \<open>p2p_transfer.c\<close>: the message structs and their memory layout, name
    tables, socket options.
  \<^item> \<open>UdpWorld\<close>, \<open>Query\<close>, \<open>UdpServer\<close>, \<open>UdpPeer\<close>, \<open>UdpSystem\<close>: the macros around the UDP calls, the
    search for two devices that both servers do, the UDP server
    (\<open>p2p_transfer_udp/p2p_transfer_server\<close>), the UDP peer and both together.
  \<^item> \<open>Libevent\<close>, \<open>TcpServer\<close>, \<open>TcpPeer\<close>, \<open>TcpSystem\<close>: the interface to libevent's bufferevents, the
    TCP server, the TCP peer and both together.
  \<^item> \<open>Mains\<close>: the \<open>main\<close> functions of the UDP programs and of the TCP server.
  \<^item> \<open>Log\<close>: \<open>log.c\<close>.

  NatProbe.

  \<^item> \<open>CjDouble\<close>, \<open>Cjson\<close>, \<open>CjsonPrint\<close>, \<open>CjsonBuild\<close>: the C \<open>double\<close>, and \<open>cjson/cJSON.c\<close>: parser, printer,
    building, editing and copying items as trees. The parser recurses on fuel, the length of the input.
  \<^item> \<open>CjsonSafe\<close>, \<open>CjsonWf\<close>, \<open>CjsonTrip\<close>, \<open>CjsonMinify\<close>: parsing ends, which texts are read inside their
    bounds and which are not, what items look like and what is allocated for them, printing fits its blocks and
    is undone by parsing, minifying.
  \<^item> \<open>CjsonBuffer\<close>: the printer with one growing buffer, which gives the text of the other one.
  \<^item> \<open>CjsonHeap\<close>, \<open>CjsonMemory\<close>: the items as nodes and strings in memory, and the functions that link and free them
    with the assignments of the C text. \<open>item_at h p t N S\<close> says that the tree \<open>t\<close> is at \<open>p\<close> in the nodes \<open>N\<close> and
    strings \<open>S\<close>; the functions implement those of \<open>CjsonBuild\<close>, free what is no longer used and touch nothing else.
    References and constant names are treated here.
  \<^item> \<open>CjsonForest\<close>: programs that make any sequence of these calls; the locale \<open>simulation\<close> carries a relation between
    memory and forest of items along such runs and is interpreted on the calls.
  \<^item> \<open>NpCommon\<close>, \<open>NpServer\<close>, \<open>NpClient\<close>, \<open>NpSystem\<close>: \<open>nat_probe.c\<close>, \<open>nat_probe_server.c\<close>,
    \<open>nat_probe_client.c\<close>, and client, translator and server together. Loops that may not end are
    \<open>partial_function\<close>s with the result \<open>None\<close>.

  EdgeFS.

  \<^item> \<open>Outcome\<close>: runs that may crash or not end.
  \<^item> \<open>Sha1\<close>, \<open>Sha1Hash\<close>, \<open>Sha1Helper\<close>: \<open>common/sha1.cpp\<close> as it is compiled (unravelled, with a \<open>long\<close> of 64 bits)
    and \<open>common/Sha1Helper.h\<close>, with the SHA-1 function as the reference they are proved equal to.
  \<^item> \<open>FsFile\<close>: \<open>common/FileOper.cpp\<close>, \<open>DataMgr.cpp\<close>, \<open>IndexMgr.cpp\<close> over a record of system calls; the locale
    \<open>data_file\<close> says what the file system relies on, interpreted on these functions over a plain file.
  \<^item> \<open>FsBitmap\<close>: \<open>Bitmap.cpp\<close>, which stands for a set of chunks, and the search for idle chunks.
  \<^item> \<open>EdgeFs\<close>: \<open>EdgeFS.cpp\<close>, \<open>read\<close> and \<open>write\<close> with everything they call. A pointer into the pool of \<open>MetaInfo\<close> is
    its number.
  \<^item> \<open>EdgeFsChain\<close>, \<open>EdgeFsAppend\<close>, \<open>EdgeFsWrite\<close>, \<open>EdgeFsRead\<close>: the invariant \<open>fs_ok\<close> and the abstraction
    \<open>file_bytes\<close>, the bytes of a file; \<open>write\<close> appends to them and keeps the invariant, \<open>read\<close> gives them, and
    where it does not.
  \<^item> \<open>EdgeFsHang\<close>: what a write leaves behind whose data could not be written.
  \<^item> \<open>EdgeFsInit\<close>: \<open>initFS\<close>: the sizes, a new index and one that exists, laid out in memory byte by byte.
  \<^item> \<open>EdgeFsDemo\<close>: the programs \<open>demo/WriteMain.cpp\<close> and \<open>demo/ReadMain.cpp\<close>, one storing a local file and one getting
    it back; the locales \<open>source_file\<close> and \<open>target_file\<close> say what they rely on.
  \<^item> \<open>FsLog\<close>: \<open>common/AsyncLogging.cpp\<close> and \<open>common/logger.cpp\<close>: the log thread and its callers as a step relation
    \<open>log_step\<close> with its runs \<open>log_run\<close>. Elsewhere logging is left out: it has no effect on what is modelled there.
  \<^item> \<open>FsStrStream\<close>: \<open>common/StrStream.cpp\<close>.

  Operating system, libevent, the clock and random numbers are arguments of the model: functions that say for each
  call what it returns. Memory errors, failed assertions and uses of freed objects are results (\<open>None\<close>, \<open>Inl\<close>,
  \<open>Crash\<close> or \<open>Fault\<close>), so that their absence and their presence can both be proved.

  Not modelled: what is printed to the terminal; the allocator \<open>BufferPool\<close> of \<open>StrStream\<close>, which is not in the repository. The copies of \<open>list.h\<close>,
  \<open>log.c\<close> and \<open>p2p_transfer.c\<close> that several programs have are modelled once. A theorem about the file system that
  asks for writes of one chunk at most, or for a disk that is half full, does so because the search for idle chunks
  can otherwise give a chunk twice (\<open>FsBitmap\<close>).
\<close>

end
